(* ===== verification/Prelude.thy ===== *)
theory Prelude
  imports Main
begin

text \<open>
  Shared vocabulary of the development: Python text as a list of code points, the exceptions the
  source raises or absorbs, results of fallible calls, insertion-ordered dictionaries, and the
  generic list lemmas that the component theories use.

  A Python \<^verbatim>\<open>str\<close> is a sequence of code points in which a lone surrogate may occur; it is
  modelled as \<open>nat list\<close> (type \<open>pystr\<close>), never as bytes. A \<^verbatim>\<open>dict\<close> whose order or
  whose in-place update matters is an association list (type \<open>('k, 'v) dict\<close>) updated by
  \<open>dict_set\<close>, which keeps the position of a key that is already present, as CPython does.
\<close>

named_theorems text_simps \<open>evaluation of text literals and character tests\<close>
named_theorems dict_simps \<open>lookup after update of insertion-ordered dictionaries\<close>

type_synonym pystr = "nat list"
type_synonym bytes = "nat list"

definition str :: "string \<Rightarrow> pystr" where
  "str s = map of_char s"

lemma str_Nil [text_simps]: "str [] = []"
  by (simp add: str_def)

lemma str_Cons [text_simps]: "str (c # cs) = of_char c # str cs"
  by (simp add: str_def)

text \<open>Exceptions: the built-in classes the source names, and any other class by its name.\<close>

datatype pyexn =
    TypeError
  | ValueError
  | KeyError
  | OverflowError
  | UnicodeEncodeError
  | UnicodeDecodeError
  | RuntimeError
  | BrokenPipeError
  | SinkDeliveryError
  | OtherError pystr

type_synonym 'a result = "pyexn + 'a"

fun exn_name :: "pyexn \<Rightarrow> pystr" where
  "exn_name TypeError = str ''TypeError''"
| "exn_name ValueError = str ''ValueError''"
| "exn_name KeyError = str ''KeyError''"
| "exn_name OverflowError = str ''OverflowError''"
| "exn_name UnicodeEncodeError = str ''UnicodeEncodeError''"
| "exn_name UnicodeDecodeError = str ''UnicodeDecodeError''"
| "exn_name RuntimeError = str ''RuntimeError''"
| "exn_name BrokenPipeError = str ''BrokenPipeError''"
| "exn_name SinkDeliveryError = str ''SinkDeliveryError''"
| "exn_name (OtherError n) = n"

text \<open>An argument that arrives from outside the library, as far as the type tests of the
  source tell arguments apart.\<close>

datatype inbound =
    IStr pystr        \<comment> \<open>an exact \<^verbatim>\<open>str\<close>\<close>
  | IStrSub pystr     \<comment> \<open>an instance of a \<^verbatim>\<open>str\<close> subclass, holding this text\<close>
  | INone
  | IOther pystr      \<comment> \<open>any other object, with the stored name of its class\<close>

subsection \<open>Insertion-ordered dictionaries\<close>

type_synonym ('k, 'v) dict = "('k \<times> 'v) list"

fun dict_set :: "'k \<Rightarrow> 'v \<Rightarrow> ('k, 'v) dict \<Rightarrow> ('k, 'v) dict" where
  "dict_set k v [] = [(k, v)]"
| "dict_set k v ((k', v') # d) = (if k = k' then (k', v) # d else (k', v') # dict_set k v d)"

definition dict_get :: "('k, 'v) dict \<Rightarrow> 'k \<Rightarrow> 'v option" where
  "dict_get d k = map_of d k"

definition dict_keys :: "('k, 'v) dict \<Rightarrow> 'k list" where
  "dict_keys d = map fst d"

text \<open>\<^verbatim>\<open>{**a, **b}\<close>: the keys of \<open>a\<close> first, in order, each with the value of \<open>b\<close> where
  \<open>b\<close> has it, then the new keys of \<open>b\<close>.\<close>

fun dict_update :: "('k, 'v) dict \<Rightarrow> ('k, 'v) dict \<Rightarrow> ('k, 'v) dict" where
  "dict_update a [] = a"
| "dict_update a ((k, v) # b) = dict_update (dict_set k v a) b"

definition dict_wf :: "('k, 'v) dict \<Rightarrow> bool" where
  "dict_wf d \<longleftrightarrow> distinct (map fst d)"

lemma dict_get_set [dict_simps, simp]:
  "dict_get (dict_set k v d) k' = (if k' = k then Some v else dict_get d k')"
  by (induction d) (auto simp: dict_get_def)

lemma dict_get_Nil [dict_simps, simp]: "dict_get [] k = None"
  by (simp add: dict_get_def)

lemma dict_get_Cons [dict_simps, simp]:
  "dict_get ((k', v) # d) k = (if k = k' then Some v else dict_get d k)"
  by (simp add: dict_get_def)

lemma fst_set_dict_set [simp]: "fst ` set (dict_set k v d) = insert k (fst ` set d)"
  by (induction k v d rule: dict_set.induct) auto

lemma set_dict_set: "set (dict_set k v d) \<subseteq> insert (k, v) (set d)"
  by (induction k v d rule: dict_set.induct) auto

lemma dict_wf_set [simp]: "dict_wf d \<Longrightarrow> dict_wf (dict_set k v d)"
proof (induction k v d rule: dict_set.induct)
  case (2 k v k' v' d)
  then show ?case
    using fst_set_dict_set [of k v d] by (simp add: dict_wf_def image_iff)
qed (simp add: dict_wf_def)

lemma dict_wf_Nil [simp]: "dict_wf []"
  by (simp add: dict_wf_def)

lemma dict_wf_update [simp]: "dict_wf a \<Longrightarrow> dict_wf (dict_update a b)"
  by (induction a b rule: dict_update.induct) auto

lemma length_dict_set_le: "length (dict_set k v d) \<le> Suc (length d)"
  by (induction d) auto

lemma length_dict_set_ge: "length d \<le> length (dict_set k v d)"
  by (induction d) auto

lemma dict_set_fresh: "k \<notin> fst ` set d \<Longrightarrow> dict_set k v d = d @ [(k, v)]"
  by (induction d) auto

lemma dict_get_update:
  "dict_wf b \<Longrightarrow>
   dict_get (dict_update a b) k = (case dict_get b k of Some v \<Rightarrow> Some v | None \<Rightarrow> dict_get a k)"
proof (induction a b rule: dict_update.induct)
  case (1 a)
  then show ?case by simp
next
  case (2 a k' v b)
  then have "k' \<notin> fst ` set b" and wf: "dict_wf b"
    by (auto simp: dict_wf_def)
  then have "dict_get b k' = None"
    by (simp add: dict_get_def map_of_eq_None_iff)
  with "2.IH" [OF wf] show ?case
    by (auto split: option.splits)
qed

subsection \<open>Text operations of the language\<close>

text \<open>\<^verbatim>\<open>str.isspace\<close> on one character, the set \<^verbatim>\<open>str.strip()\<close> removes.\<close>

definition is_space :: "nat \<Rightarrow> bool" where
  "is_space c \<longleftrightarrow>
     (9 \<le> c \<and> c \<le> 13) \<or> (28 \<le> c \<and> c \<le> 32) \<or> c = 133 \<or> c = 160 \<or> c = 5760 \<or>
     (8192 \<le> c \<and> c \<le> 8202) \<or> c = 8232 \<or> c = 8233 \<or> c = 8239 \<or> c = 8287 \<or> c = 12288"

definition strip :: "pystr \<Rightarrow> pystr" where
  "strip t = rev (dropWhile is_space (rev (dropWhile is_space t)))"

lemma strip_id: "(\<And>c. c \<in> set t \<Longrightarrow> \<not> is_space c) \<Longrightarrow> strip t = t"
  unfolding strip_def by (metis dropWhile_eq_self_iff hd_in_set rev_rev_ident set_rev)

lemma set_strip: "set (strip t) \<subseteq> set t"
  unfolding strip_def by (auto dest!: set_dropWhileD)

text \<open>\<^verbatim>\<open>str.split(sep)\<close> with a one-character separator.\<close>

fun split_on :: "nat \<Rightarrow> pystr \<Rightarrow> pystr list" where
  "split_on s [] = [[]]"
| "split_on s (c # cs) =
     (if c = s then [] # split_on s cs
      else (case split_on s cs of [] \<Rightarrow> [[c]] | p # ps \<Rightarrow> (c # p) # ps))"

fun join_with :: "nat \<Rightarrow> pystr list \<Rightarrow> pystr" where
  "join_with s [] = []"
| "join_with s [p] = p"
| "join_with s (p # q # ps) = p @ s # join_with s (q # ps)"

lemma split_on_nonempty [simp]: "split_on s t \<noteq> []"
  by (induction t) (auto split: list.splits)

lemma split_on_no_sep: "s \<notin> set p \<Longrightarrow> split_on s p = [p]"
  by (induction p) auto

lemma split_on_append_sep: "s \<notin> set p \<Longrightarrow> split_on s (p @ s # t) = p # split_on s t"
  by (induction p) auto

lemma join_split: "join_with s (split_on s t) = t"
proof (induction t)
  case (Cons c t)
  then show ?case
    by (cases "split_on s t"; cases "tl (split_on s t)") auto
qed simp

lemma split_on_parts: "p \<in> set (split_on s t) \<Longrightarrow> set p \<subseteq> set t - {s}"
proof (induction t arbitrary: p)
  case (Cons c t)
  then show ?case
    by (fastforce split: if_splits list.splits)
qed simp

lemma split_join:
  "ps \<noteq> [] \<Longrightarrow> (\<And>p. p \<in> set ps \<Longrightarrow> s \<notin> set p) \<Longrightarrow> split_on s (join_with s ps) = ps"
  by (induction s ps rule: join_with.induct) (auto simp: split_on_no_sep split_on_append_sep)

subsection \<open>Lists\<close>

lemma concat_map_single [simp]: "concat (map (\<lambda>x. [f x]) xs) = map f xs"
  by (induction xs) auto

lemma sum_list_concat_map: "sum_list (map f (concat xss)) = sum_list (map (\<lambda>xs. sum_list (map f xs)) xss)"
  by (induction xss) auto

lemma length_filter_partition:
  "length (filter P xs) + length (filter (\<lambda>x. \<not> P x) xs) = length xs"
  by (rule sum_length_filter_compl)

end
