(* ===== verification/Utf8.thy ===== *)
theory Utf8
  imports Prelude
begin

text \<open>
  CPython's UTF-8 codec, as far as the source uses it: strict encoding, which refuses a lone
  surrogate, and decoding with the error handlers \<^verbatim>\<open>strict\<close>, \<^verbatim>\<open>ignore\<close> and \<^verbatim>\<open>replace\<close>. An
  ill-formed sequence is consumed up to its maximal valid subpart, as \<^verbatim>\<open>unicode_decode_utf8\<close>
  does. The lemmas say what decoding gives on a whole encoding and on one cut at any byte, from
  the left and from the right; the truncation theory rests on these alone.
\<close>

definition is_surrogate :: "nat \<Rightarrow> bool" where
  "is_surrogate c \<longleftrightarrow> 55296 \<le> c \<and> c \<le> 57343"

text \<open>Every character of a \<^verbatim>\<open>str\<close> is a code point; a scalar is one that is no surrogate.\<close>

definition wf_text :: "pystr \<Rightarrow> bool" where
  "wf_text t \<longleftrightarrow> (\<forall>c \<in> set t. c \<le> 1114111)"

definition scalar :: "nat \<Rightarrow> bool" where
  "scalar c \<longleftrightarrow> c \<le> 1114111 \<and> \<not> is_surrogate c"

definition utf8_char :: "nat \<Rightarrow> bytes" where
  "utf8_char c =
     (if c < 128 then [c]
      else if c < 2048 then [192 + c div 64, 128 + c mod 64]
      else if c < 65536 then [224 + c div 4096, 128 + c div 64 mod 64, 128 + c mod 64]
      else [240 + c div 262144, 128 + c div 4096 mod 64, 128 + c div 64 mod 64, 128 + c mod 64])"

definition utf8 :: "pystr \<Rightarrow> bytes" where
  "utf8 t = concat (map utf8_char t)"

definition encode_utf8 :: "pystr \<Rightarrow> bytes result" where
  "encode_utf8 t = (if \<exists>c \<in> set t. is_surrogate c then Inl UnicodeEncodeError else Inr (utf8 t))"

text \<open>One decoding step: a character and the bytes it took, or the number of bytes of the
  maximal ill-formed subpart.\<close>

datatype decoded = Good nat nat | Bad nat

definition cont :: "nat \<Rightarrow> bool" where
  "cont b \<longleftrightarrow> 128 \<le> b \<and> b < 192"

fun decode_step :: "bytes \<Rightarrow> decoded" where
  "decode_step [] = Bad 0"
| "decode_step (b0 # r0) =
     (if b0 < 128 then Good b0 1
      else if b0 < 194 then Bad 1
      else if b0 < 224 then
        (case r0 of
           [] \<Rightarrow> Bad 1
         | b1 # _ \<Rightarrow> if cont b1 then Good ((b0 - 192) * 64 + (b1 - 128)) 2 else Bad 1)
      else if b0 < 240 then
        (case r0 of
           [] \<Rightarrow> Bad 1
         | b1 # r1 \<Rightarrow>
             if \<not> cont b1 \<or> (if b1 < 160 then b0 = 224 else b0 = 237) then Bad 1
             else (case r1 of
                [] \<Rightarrow> Bad 2
              | b2 # _ \<Rightarrow>
                  if cont b2 then Good ((b0 - 224) * 4096 + (b1 - 128) * 64 + (b2 - 128)) 3
                  else Bad 2))
      else if b0 < 245 then
        (case r0 of
           [] \<Rightarrow> Bad 1
         | b1 # r1 \<Rightarrow>
             if \<not> cont b1 \<or> (if b1 < 144 then b0 = 240 else b0 = 244) then Bad 1
             else (case r1 of
                [] \<Rightarrow> Bad 2
              | b2 # r2 \<Rightarrow>
                  if \<not> cont b2 then Bad 2
                  else (case r2 of
                     [] \<Rightarrow> Bad 3
                   | b3 # _ \<Rightarrow>
                       if cont b3
                       then Good ((b0 - 240) * 262144 + (b1 - 128) * 4096 + (b2 - 128) * 64
                                  + (b3 - 128)) 4
                       else Bad 3)))
      else Bad 1)"

text \<open>Decoding with a handler that puts \<open>r\<close> in the place of each ill-formed subpart:
  \<open>[]\<close> is \<^verbatim>\<open>errors="ignore"\<close>, \<open>[65533]\<close> is \<^verbatim>\<open>errors="replace"\<close>.\<close>

function decode_with :: "pystr \<Rightarrow> bytes \<Rightarrow> pystr" where
  "decode_with r [] = []"
| "decode_with r (b # bs) =
     (case decode_step (b # bs) of
        Good c n \<Rightarrow> c # decode_with r (drop (n - 1) bs)
      | Bad n \<Rightarrow> r @ decode_with r (drop (n - 1) bs))"
  by pat_completeness auto
termination
  by (relation "measure (\<lambda>(r, bs). length bs)") auto

definition decode_ignore :: "bytes \<Rightarrow> pystr" where
  "decode_ignore = decode_with []"

definition decode_replace :: "bytes \<Rightarrow> pystr" where
  "decode_replace = decode_with [65533]"

function decode_strict :: "bytes \<Rightarrow> pystr result" where
  "decode_strict [] = Inr []"
| "decode_strict (b # bs) =
     (case decode_step (b # bs) of
        Good c n \<Rightarrow> map_sum id (Cons c) (decode_strict (drop (n - 1) bs))
      | Bad n \<Rightarrow> Inl UnicodeDecodeError)"
  by pat_completeness auto
termination
  by (relation "measure length") auto

subsection \<open>Sizes\<close>

definition utf8_size :: "pystr \<Rightarrow> nat" where
  "utf8_size t = length (utf8 t)"

lemma utf8_Nil [simp]: "utf8 [] = []"
  by (simp add: utf8_def)

lemma utf8_Cons [simp]: "utf8 (c # t) = utf8_char c @ utf8 t"
  by (simp add: utf8_def)

lemma utf8_append [simp]: "utf8 (s @ t) = utf8 s @ utf8 t"
  by (simp add: utf8_def)

lemma utf8_size_simps [simp]:
  "utf8_size [] = 0"
  "utf8_size (c # t) = length (utf8_char c) + utf8_size t"
  "utf8_size (s @ t) = utf8_size s + utf8_size t"
  by (simp_all add: utf8_size_def)

lemma utf8_char_length: "1 \<le> length (utf8_char c) \<and> length (utf8_char c) \<le> 4"
  by (simp add: utf8_char_def)

lemma utf8_char_pos [simp]: "0 < length (utf8_char c)" "utf8_char c \<noteq> []"
  using utf8_char_length [of c] by auto

lemma utf8_size_ge_length: "length t \<le> utf8_size t"
proof (induction t)
  case (Cons c t)
  then show ?case using utf8_char_length [of c] by simp
qed simp

lemma utf8_size_take: "utf8_size (take k t) \<le> utf8_size t"
  by (metis append_take_drop_id le_add1 utf8_size_simps(3))

lemma utf8_size_drop: "utf8_size (drop k t) \<le> utf8_size t"
  by (metis append_take_drop_id le_add2 utf8_size_simps(3))

subsection \<open>Decoding an encoding\<close>

lemma utf8_char_cont: "b \<in> set (tl (utf8_char c)) \<Longrightarrow> cont b"
  by (auto simp: utf8_char_def cont_def split: if_splits)

text \<open>The six-bit groups of a code point.\<close>

lemma split3: "(c::nat) = c div 4096 * 4096 + c div 64 mod 64 * 64 + c mod 64"
proof -
  have "c div 64 = c div 4096 * 64 + c div 64 mod 64"
    using div_mult_mod_eq [of "c div 64" 64] by (simp add: div_mult2_eq [symmetric])
  with div_mult_mod_eq [of c 64] show ?thesis by linarith
qed

lemma groups3:
  fixes c :: nat
  assumes "c < 65536"
  obtains x y z where "c = x * 4096 + y * 64 + z" "x < 16" "y < 64" "z < 64"
    "c div 4096 = x" "c div 64 mod 64 = y" "c mod 64 = z"
proof -
  have "c = c div 4096 * 4096 + c div 64 mod 64 * 64 + c mod 64" by (rule split3)
  moreover have "c div 4096 < 16" using assms by simp
  ultimately show ?thesis by (rule that) simp_all
qed

lemma groups4:
  fixes c :: nat
  assumes "c \<le> 1114111"
  obtains w x y z where "c = w * 262144 + x * 4096 + y * 64 + z" "w < 5" "x < 64" "y < 64" "z < 64"
    "c div 262144 = w" "c div 4096 mod 64 = x" "c div 64 mod 64 = y" "c mod 64 = z"
proof -
  have "c div 4096 = c div 262144 * 64 + c div 4096 mod 64"
    using div_mult_mod_eq [of "c div 4096" 64] by (simp add: div_mult2_eq [symmetric])
  with split3 [of c]
  have "c = c div 262144 * 262144 + c div 4096 mod 64 * 4096 + c div 64 mod 64 * 64 + c mod 64"
    by linarith
  moreover have "c div 262144 < 5" using assms by simp
  ultimately show ?thesis by (rule that) simp_all
qed

lemma decode_step_char:
  assumes "scalar c"
  shows "decode_step (utf8_char c @ rest) = Good c (length (utf8_char c))"
proof -
  consider "c < 128" | "128 \<le> c" "c < 2048" | "2048 \<le> c" "c < 65536" | "65536 \<le> c" "c \<le> 1114111"
    using assms unfolding scalar_def by linarith
  then show ?thesis
  proof cases
    case 1
    then show ?thesis by (simp add: utf8_char_def)
  next
    case 2
    then have "192 + c div 64 < 224" "\<not> 192 + c div 64 < 194" by auto
    with 2 show ?thesis by (simp add: utf8_char_def cont_def)
  next
    case 3
    obtain x y z where g: "c = x * 4096 + y * 64 + z" "x < 16" "y < 64" "z < 64"
      "c div 4096 = x" "c div 64 mod 64 = y" "c mod 64 = z"
      by (rule groups3 [OF 3(2)])
    have "utf8_char c = [224 + x, 128 + y, 128 + z]"
      using 3 g by (simp add: utf8_char_def)
    moreover have "y < 32 \<Longrightarrow> x \<noteq> 0" using 3 g by linarith
    moreover have "\<not> y < 32 \<Longrightarrow> x \<noteq> 13"
      using assms g unfolding scalar_def is_surrogate_def by linarith
    ultimately show ?thesis using g by (simp add: cont_def)
  next
    case 4
    obtain w x y z where g: "c = w * 262144 + x * 4096 + y * 64 + z" "w < 5" "x < 64" "y < 64" "z < 64"
      "c div 262144 = w" "c div 4096 mod 64 = x" "c div 64 mod 64 = y" "c mod 64 = z"
      by (rule groups4 [OF 4(2)])
    have "utf8_char c = [240 + w, 128 + x, 128 + y, 128 + z]"
      using 4 g by (simp add: utf8_char_def)
    moreover have "x < 16 \<Longrightarrow> w \<noteq> 0" using 4 g by linarith
    moreover have "\<not> x < 16 \<Longrightarrow> w \<noteq> 4" using 4 g by linarith
    ultimately show ?thesis using g by (simp add: cont_def)
  qed
qed

lemma drop_utf8_char: "utf8_char c = b # bs \<Longrightarrow> drop (length (utf8_char c) - 1) (bs @ rest) = rest"
  by (simp add: drop_all)

lemma decode_with_char:
  assumes "scalar c"
  shows "decode_with r (utf8_char c @ rest) = c # decode_with r rest"
proof -
  obtain b bs where b: "utf8_char c = b # bs" by (cases "utf8_char c") auto
  have "decode_step (b # bs @ rest) = Good c (length (utf8_char c))"
    using decode_step_char [OF assms, of rest] b by simp
  then show ?thesis using b by simp
qed

lemma decode_with_utf8:
  "\<forall>c \<in> set t. scalar c \<Longrightarrow> decode_with r (utf8 t @ rest) = t @ decode_with r rest"
  by (induction t) (auto simp: decode_with_char)

lemma decode_strict_utf8: "\<forall>c \<in> set t. scalar c \<Longrightarrow> decode_strict (utf8 t) = Inr t"
proof (induction t)
  case (Cons c t)
  obtain b bs where b: "utf8_char c = b # bs" by (cases "utf8_char c") auto
  have "decode_step (b # bs @ utf8 t) = Good c (length (utf8_char c))"
    using decode_step_char [of c "utf8 t"] Cons.prems b by simp
  then show ?case using b Cons by simp
qed simp

subsection \<open>Decoding a cut encoding\<close>

text \<open>The longest prefix and the longest suffix of a text whose encoding fits a budget.\<close>

fun fit_prefix :: "nat \<Rightarrow> pystr \<Rightarrow> pystr" where
  "fit_prefix n [] = []"
| "fit_prefix n (c # t) =
     (if length (utf8_char c) \<le> n then c # fit_prefix (n - length (utf8_char c)) t else [])"

fun fit_suffix :: "nat \<Rightarrow> pystr \<Rightarrow> pystr" where
  "fit_suffix n [] = []"
| "fit_suffix n (c # t) = (if utf8_size (c # t) \<le> n then c # t else fit_suffix n t)"

lemma fit_prefix_size: "utf8_size (fit_prefix n t) \<le> n"
  by (induction n t rule: fit_prefix.induct) auto

lemma fit_prefix_prefix: "\<exists>k. fit_prefix n t = take k t"
proof (induction n t rule: fit_prefix.induct)
  case (2 n c t)
  show ?case
  proof (cases "length (utf8_char c) \<le> n")
    case True
    with 2 obtain k where "fit_prefix (n - length (utf8_char c)) t = take k t" by blast
    with True have "fit_prefix n (c # t) = take (Suc k) (c # t)" by simp
    then show ?thesis by blast
  next
    case False
    then have "fit_prefix n (c # t) = take 0 (c # t)" by simp
    then show ?thesis by blast
  qed
qed simp

lemma fit_prefix_all: "utf8_size t \<le> n \<Longrightarrow> fit_prefix n t = t"
  by (induction n t rule: fit_prefix.induct) auto

lemma fit_prefix_maximal:
  "utf8_size (take k t) \<le> n \<Longrightarrow> length (take k t) \<le> length (fit_prefix n t)"
proof (induction n t arbitrary: k rule: fit_prefix.induct)
  case (2 n c t)
  then show ?case by (cases k) auto
qed simp

lemma fit_suffix_size: "utf8_size (fit_suffix n t) \<le> n"
  by (induction n t rule: fit_suffix.induct) auto

lemma fit_suffix_suffix: "\<exists>k. fit_suffix n t = drop k t"
proof (induction n t rule: fit_suffix.induct)
  case (2 n c t)
  then show ?case
    by (metis drop0 drop_Suc_Cons fit_suffix.simps(2))
qed simp

text \<open>The shapes of input on which a step reads a character.\<close>

lemma decode_step_GoodE:
  assumes "decode_step bs = Good c n"
  obtains (one) b0 r where "bs = b0 # r" "b0 < 128" "c = b0" "n = 1"
  | (two) b0 b1 r where "bs = b0 # b1 # r" "194 \<le> b0" "b0 < 224" "cont b1" "n = 2"
      "c = (b0 - 192) * 64 + (b1 - 128)"
  | (three) b0 b1 b2 r where "bs = b0 # b1 # b2 # r" "224 \<le> b0" "b0 < 240" "cont b1" "cont b2" "n = 3"
      "\<not> (if b1 < 160 then b0 = 224 else b0 = 237)"
      "c = (b0 - 224) * 4096 + (b1 - 128) * 64 + (b2 - 128)"
  | (four) b0 b1 b2 b3 r where "bs = b0 # b1 # b2 # b3 # r" "240 \<le> b0" "b0 < 245" "cont b1" "cont b2"
      "cont b3" "n = 4" "\<not> (if b1 < 144 then b0 = 240 else b0 = 244)"
      "c = (b0 - 240) * 262144 + (b1 - 128) * 4096 + (b2 - 128) * 64 + (b3 - 128)"
proof -
  obtain b0 r0 where bs: "bs = b0 # r0" using assms by (cases bs) auto
  consider "b0 < 128" | "128 \<le> b0" "b0 < 194" | "194 \<le> b0" "b0 < 224" | "224 \<le> b0" "b0 < 240"
    | "240 \<le> b0" "b0 < 245" | "245 \<le> b0" by linarith
  then show thesis
  proof cases
    case 1
    then show ?thesis using assms bs one by simp
  next
    case 2
    then show ?thesis using assms bs by simp
  next
    case 3
    then show ?thesis using assms bs two by (auto split: if_splits list.splits)
  next
    case 4
    then show ?thesis using assms bs
      by (cases r0; cases "tl r0") (simp_all add: three split: if_split_asm)
  next
    case 5
    then show ?thesis using assms bs
      by (cases r0; cases "tl r0"; cases "tl (tl r0)") (simp_all add: four split: if_split_asm)
  next
    case 6
    then show ?thesis using assms bs by simp
  qed
qed

text \<open>A step that reads a character of \<open>n\<close> bytes, cut to fewer, is one ill-formed subpart.\<close>

lemma decode_step_take:
  assumes "decode_step bs = Good c n" and "0 < m" and "m < n"
  shows "decode_step (take m bs) = Bad m"
  using assms(1)
proof (cases rule: decode_step_GoodE)
  case one
  then show ?thesis using assms by simp
next
  case (two b0 b1 r)
  then have "m = 1" using assms by simp
  then show ?thesis using two by simp
next
  case (three b0 b1 b2 r)
  then consider "m = 1" | "m = 2" using assms by linarith
  then show ?thesis using three by cases simp_all
next
  case (four b0 b1 b2 b3 r)
  then consider "m = 1" | "m = 2" | "m = 3" using assms by linarith
  then show ?thesis using four by cases simp_all
qed

lemma decode_step_cut:
  assumes "scalar c" and "0 < m" and "m < length (utf8_char c)"
  shows "decode_step (take m (utf8_char c)) = Bad m"
  using decode_step_take [OF _ assms(2,3)] decode_step_char [OF assms(1), of "[]"] by simp

lemma decode_ignore_cut:
  assumes "scalar c" and "m < length (utf8_char c)"
  shows "decode_ignore (take m (utf8_char c)) = []"
proof (cases "take m (utf8_char c)")
  case (Cons b bs)
  then have "0 < m" by (cases m) auto
  with assms Cons have "decode_step (b # bs) = Bad m"
    using decode_step_cut by metis
  moreover have "length bs = m - 1"
    using Cons assms(2) by (metis length_Cons diff_Suc_1 length_take min.absorb4)
  ultimately show ?thesis using Cons by (simp add: decode_ignore_def)
qed (simp add: decode_ignore_def)

theorem decode_ignore_take:
  "\<forall>c \<in> set t. scalar c \<Longrightarrow> decode_ignore (take n (utf8 t)) = fit_prefix n t"
proof (induction n t rule: fit_prefix.induct)
  case (1 n)
  then show ?case by (simp add: decode_ignore_def)
next
  case (2 n c t)
  show ?case
  proof (cases "length (utf8_char c) \<le> n")
    case True
    then have "take n (utf8 (c # t)) = utf8_char c @ take (n - length (utf8_char c)) (utf8 t)"
      by simp
    with 2 True show ?thesis by (simp add: decode_ignore_def decode_with_char)
  next
    case False
    then have "take n (utf8 (c # t)) = take n (utf8_char c)" by simp
    with 2 False decode_ignore_cut show ?thesis by simp
  qed
qed

lemma decode_ignore_conts:
  "\<forall>b \<in> set bs. cont b \<Longrightarrow> decode_ignore (bs @ rest) = decode_ignore rest"
  by (induction bs) (auto simp: decode_ignore_def cont_def)

theorem decode_ignore_drop:
  assumes "\<forall>c \<in> set t. scalar c" and "n \<le> utf8_size t"
  shows "decode_ignore (drop (utf8_size t - n) (utf8 t)) = fit_suffix n t"
  using assms
proof (induction n t rule: fit_suffix.induct)
  case (1 n)
  then show ?case by (simp add: decode_ignore_def)
next
  case (2 n c t)
  let ?d = "utf8_size (c # t) - n"
  show ?case
  proof (cases "utf8_size (c # t) \<le> n")
    case True
    then show ?thesis using 2 decode_with_utf8 [of "c # t" "[]" "[]"]
      by (simp add: decode_ignore_def)
  next
    case False
    show ?thesis
    proof (cases "n \<le> utf8_size t")
      case True
      then have "drop ?d (utf8 (c # t)) = drop (utf8_size t - n) (utf8 t)" by simp
      with 2 False True show ?thesis by simp
    next
      case large: False
      then have d: "0 < ?d" "?d \<le> length (utf8_char c)" using False by auto
      then have "drop ?d (utf8 (c # t)) = drop ?d (utf8_char c) @ utf8 t" by simp
      moreover have "\<forall>b \<in> set (drop ?d (utf8_char c)). cont b"
        using d(1) utf8_char_cont by (metis drop_Suc gr0_implies_Suc in_set_dropD)
      moreover have "fit_suffix n t = t" using large by (cases t) auto
      ultimately show ?thesis using False 2 decode_with_utf8 [of t "[]" "[]"]
        by (simp add: decode_ignore_conts) (simp add: decode_ignore_def)
    qed
  qed
qed

text \<open>What decoding can produce: every character is a scalar, so the text encodes again.\<close>

lemma cont_split: "cont b \<Longrightarrow> \<exists>y < 64. b = 128 + y"
  unfolding cont_def by (rule exI [of _ "b - 128"]) auto

lemma decode_step_scalar:
  assumes "decode_step bs = Good c n"
  shows "scalar c"
  using assms
proof (cases rule: decode_step_GoodE)
  case one
  then show ?thesis by (simp add: scalar_def is_surrogate_def)
next
  case two
  then show ?thesis by (auto simp: scalar_def is_surrogate_def cont_def)
next
  case (three b0 b1 b2 r)
  obtain x where "x < 16" "b0 = 224 + x" using three(2,3) that [of "b0 - 224"] by simp
  moreover obtain y z where "y < 64" "b1 = 128 + y" "z < 64" "b2 = 128 + z"
    using three(4,5) cont_split by blast
  moreover have "x \<le> 12 \<or> x = 13 \<or> 14 \<le> x" by linarith
  ultimately show ?thesis using three(7,8) by (auto simp: scalar_def is_surrogate_def split: if_splits)
next
  case (four b0 b1 b2 b3 r)
  obtain x where "x < 5" "b0 = 240 + x" using four(2,3) that [of "b0 - 240"] by simp
  moreover obtain y z w where "y < 64" "b1 = 128 + y" "z < 64" "b2 = 128 + z" "w < 64" "b3 = 128 + w"
    using four(4,5,6) cont_split by metis
  ultimately show ?thesis using four(8,9) by (auto simp: scalar_def is_surrogate_def split: if_splits)
qed

lemma decode_with_scalar:
  "\<forall>c \<in> set r. scalar c \<Longrightarrow> \<forall>c \<in> set (decode_with r bs). scalar c"
proof (induction r bs rule: decode_with.induct)
  case (2 r b bs)
  then show ?case
    using decode_step_scalar [of "b # bs"]
    by (cases "decode_step (b # bs)") (simp_all del: decode_step.simps add: ball_Un)
qed simp

lemma encode_utf8_scalar: "\<forall>c \<in> set t. scalar c \<Longrightarrow> encode_utf8 t = Inr (utf8 t)"
  by (auto simp: encode_utf8_def scalar_def)

declare decode_step.simps [simp del]

end
