(* ===== verification/Doors.thy ===== *)
theory Doors
  imports Complex_Main Utf8
begin

text \<open>
  The numeric doors: \<^verbatim>\<open>src/log_foundry/sinks/_retry.py\<close> and the validators of
  \<^verbatim>\<open>src/log_foundry/config.py\<close>. Every number a caller or a destination supplies passes one
  of these before the library waits on it or counts with it. A Python float is a rational, an
  infinity or NaN; an argument is classified by what \<^verbatim>\<open>isinstance\<close> and the unbound accessors
  \<^verbatim>\<open>int.__index__\<close> and \<^verbatim>\<open>float.__float__\<close> read from its own storage, so an overridden
  comparison of a subclass cannot be expressed and plays no part. The lemmas show which values
  each door admits and that no admitted value can make a wait unbounded or make it raise.
\<close>

datatype flt = Fin rat | PInf | NInf | NaN

datatype pynum = NI int | NF flt

fun flt_lt :: "flt \<Rightarrow> flt \<Rightarrow> bool" where
  "flt_lt NaN _ = False"
| "flt_lt _ NaN = False"
| "flt_lt (Fin a) (Fin b) = (a < b)"
| "flt_lt (Fin _) PInf = True"
| "flt_lt (Fin _) NInf = False"
| "flt_lt PInf _ = False"
| "flt_lt NInf NInf = False"
| "flt_lt NInf _ = True"

text \<open>Mixed comparisons are exact in Python, so an \<^verbatim>\<open>int\<close> compares as the rational it is.\<close>

fun num_flt :: "pynum \<Rightarrow> flt" where
  "num_flt (NI i) = Fin (of_int i)"
| "num_flt (NF f) = f"

definition num_lt :: "pynum \<Rightarrow> pynum \<Rightarrow> bool" where
  "num_lt a b = flt_lt (num_flt a) (num_flt b)"

definition isinf :: "pynum \<Rightarrow> bool" where
  "isinf a \<longleftrightarrow> num_flt a = PInf \<or> num_flt a = NInf"

text \<open>\<^verbatim>\<open>min(a, b)\<close> keeps its first argument unless the second is less.\<close>

definition py_min :: "pynum \<Rightarrow> pynum \<Rightarrow> pynum" where
  "py_min a b = (if num_lt b a then b else a)"

abbreviation zero :: pynum where
  "zero \<equiv> NI 0"

text \<open>A numeric argument as the doors see it.\<close>

datatype numarg =
    AInt int        \<comment> \<open>an \<^verbatim>\<open>int\<close> instance, subclass or \<^verbatim>\<open>bool\<close>, holding this integer\<close>
  | AFloat flt      \<comment> \<open>a \<^verbatim>\<open>float\<close> instance or subclass\<close>
  | ANone
  | AOther pystr    \<comment> \<open>anything else, with its class name\<close>

definition MAX_WAIT :: pynum where
  "MAX_WAIT = NF (Fin 86400)"

text \<open>What \<^verbatim>\<open>wait\<close> does: nothing, \<^verbatim>\<open>time.sleep\<close>, or \<^verbatim>\<open>Event.wait\<close> on the stop event.\<close>

datatype pause = NoPause | Sleep pynum | WaitStop pynum

definition wait :: "pynum \<Rightarrow> bool \<Rightarrow> pause" where
  "wait delay has_stop =
     (if \<not> num_lt zero delay \<or> isinf delay then NoPause
      else let delay = py_min delay MAX_WAIT
           in if \<not> has_stop then Sleep delay else WaitStop delay)"

definition clamp_server_delay :: "pynum option \<Rightarrow> pynum \<Rightarrow> pynum option" where
  "clamp_server_delay delay cap =
     (case delay of
        None \<Rightarrow> None
      | Some v \<Rightarrow>
          if \<not> num_lt zero v \<or> isinf v then None
          else if \<not> num_lt zero cap then None
          else Some (py_min v cap))"

fun exact_number :: "numarg \<Rightarrow> pynum option" where
  "exact_number (AInt i) = Some (NI i)"
| "exact_number (AFloat f) = Some (NF f)"
| "exact_number _ = None"

text \<open>The test \<^verbatim>\<open>0 < exact < float("inf")\<close> of the timeout doors.\<close>

definition bounds_something :: "pynum \<Rightarrow> bool" where
  "bounds_something exact \<longleftrightarrow> num_lt zero exact \<and> num_lt exact (NF PInf)"

definition usable_timeout :: "numarg \<Rightarrow> pynum \<Rightarrow> pynum result" where
  "usable_timeout arg dflt =
     (case exact_number arg of
        None \<Rightarrow> Inl TypeError
      | Some exact \<Rightarrow> Inr (if bounds_something exact then exact else dflt))"

definition exact_seconds :: "numarg \<Rightarrow> pynum result" where
  "exact_seconds arg = (case exact_number arg of None \<Rightarrow> Inl TypeError | Some exact \<Rightarrow> Inr exact)"

definition require_timeout :: "numarg \<Rightarrow> pynum result" where
  "require_timeout arg =
     (case exact_seconds arg of
        Inl e \<Rightarrow> Inl e
      | Inr exact \<Rightarrow> if \<not> bounds_something exact then Inl ValueError else Inr exact)"

fun require_positive :: "numarg \<Rightarrow> int result" where
  "require_positive (AInt exact) = (if exact \<le> 0 then Inl ValueError else Inr exact)"
| "require_positive _ = Inl TypeError"

fun exact_int :: "numarg \<Rightarrow> int result" where
  "exact_int (AInt exact) = Inr exact"
| "exact_int _ = Inl TypeError"

definition floor_count :: "numarg \<Rightarrow> int \<Rightarrow> int result" where
  "floor_count arg flr = map_sum id (\<lambda>exact. max exact flr) (exact_int arg)"

text \<open>\<^verbatim>\<open>threading.TIMEOUT_MAX\<close> is a constant of the platform, an argument here.\<close>

definition wait_budget :: "rat \<Rightarrow> numarg \<Rightarrow> pynum option result" where
  "wait_budget timeout_max arg =
     (case arg of
        ANone \<Rightarrow> Inr None
      | _ \<Rightarrow>
        (case exact_number arg of
           None \<Rightarrow> Inl TypeError
         | Some exact \<Rightarrow>
             if num_flt exact = NaN then Inl ValueError
             else if num_lt (NF (Fin timeout_max)) exact then Inr None
             else if num_lt exact (NF (Fin (- timeout_max))) then Inr (Some (NF (Fin 0)))
             else Inr (Some exact)))"

text \<open>The ceiling and text validators of \<^verbatim>\<open>configure\<close>.\<close>

fun config_require_positive :: "numarg \<Rightarrow> int option result" where
  "config_require_positive ANone = Inr None"
| "config_require_positive (AInt exact) = (if exact < 1 then Inl ValueError else Inr (Some exact))"
| "config_require_positive _ = Inl TypeError"

fun config_require_text :: "inbound \<Rightarrow> pystr option result" where
  "config_require_text INone = Inr None"
| "config_require_text (IStr plain) =
     (case encode_utf8 plain of Inl _ \<Rightarrow> Inl ValueError | Inr _ \<Rightarrow> Inr (Some plain))"
| "config_require_text (IStrSub plain) =
     (case encode_utf8 plain of Inl _ \<Rightarrow> Inl ValueError | Inr _ \<Rightarrow> Inr (Some plain))"
| "config_require_text (IOther _) = Inl TypeError"

subsection \<open>What each door admits\<close>

lemma num_lt_simps [simp]:
  "num_lt zero x \<longleftrightarrow> (case num_flt x of Fin r \<Rightarrow> 0 < r | PInf \<Rightarrow> True | _ \<Rightarrow> False)"
  "num_lt x (NF PInf) \<longleftrightarrow> (case num_flt x of Fin r \<Rightarrow> True | NInf \<Rightarrow> True | _ \<Rightarrow> False)"
  by (simp_all add: num_lt_def split: flt.splits)

lemma num_lt_Fin [simp]:
  "num_lt (NF (Fin a)) x \<longleftrightarrow> (case num_flt x of Fin r \<Rightarrow> a < r | PInf \<Rightarrow> True | _ \<Rightarrow> False)"
  "num_lt x (NF (Fin a)) \<longleftrightarrow> (case num_flt x of Fin r \<Rightarrow> r < a | NInf \<Rightarrow> True | _ \<Rightarrow> False)"
  by (simp_all add: num_lt_def split: flt.splits)

lemma bounds_something_iff: "bounds_something x \<longleftrightarrow> (\<exists>r > 0. num_flt x = Fin r)"
  by (auto simp: bounds_something_def split: flt.splits)

lemma py_min_finite:
  assumes "num_flt a = Fin x" and "num_flt b = Fin y \<or> num_flt b = PInf"
  shows "num_flt (py_min a b) = Fin (case num_flt b of Fin y \<Rightarrow> min x y | _ \<Rightarrow> x)"
  using assms by (auto simp: py_min_def num_lt_def min_def)

text \<open>A pause is always finite, positive and at most a day: no delay, however it was computed
  or whichever header it came from, makes \<^verbatim>\<open>time.sleep\<close> or \<^verbatim>\<open>Event.wait\<close> raise or block
  without bound, and a delay that is zero, negative, infinite or NaN pauses not at all.\<close>

theorem wait_bounded:
  "(case wait delay has_stop of
      NoPause \<Rightarrow> \<not> (\<exists>r > 0. num_flt delay = Fin r)
    | Sleep d \<Rightarrow> \<not> has_stop \<and> (\<exists>r > 0. num_flt delay = Fin r \<and> num_flt d = Fin (min r 86400))
    | WaitStop d \<Rightarrow> has_stop \<and> (\<exists>r > 0. num_flt delay = Fin r \<and> num_flt d = Fin (min r 86400)))"
proof (cases "num_flt delay")
  case (Fin r)
  then show ?thesis
    using py_min_finite [of delay r MAX_WAIT 86400] by (auto simp: wait_def isinf_def MAX_WAIT_def Let_def)
qed (auto simp: wait_def isinf_def)

text \<open>A destination's advice is honoured only when it bounds a wait: the clamped delay is
  finite, positive and no larger than either the advice or the caller's ceiling, and the caller
  falls back to its own backoff exactly when the advice is absent, zero, negative, infinite or
  NaN, or when the ceiling is not positive.\<close>

theorem clamp_server_delay_spec:
  "clamp_server_delay delay cap =
     (case delay of
        None \<Rightarrow> None
      | Some v \<Rightarrow>
          (case (num_flt v, num_flt cap) of
             (Fin r, Fin c) \<Rightarrow> if 0 < r \<and> 0 < c then Some (if c < r then cap else v) else None
           | (Fin r, PInf) \<Rightarrow> if 0 < r then Some v else None
           | _ \<Rightarrow> None))"
  by (auto simp: clamp_server_delay_def isinf_def py_min_def num_lt_def split: option.splits flt.splits)

text \<open>The refusing and the flooring timeout door agree on what bounds a wait: both return the
  number itself exactly when it is finite and positive; otherwise one raises, \<^verbatim>\<open>TypeError\<close> for
  a non-number and \<^verbatim>\<open>ValueError\<close> for a zero, negative, infinite or NaN one, and the other
  returns its default, with the same \<^verbatim>\<open>TypeError\<close>.\<close>

theorem timeout_doors_agree:
  "require_timeout arg =
     (case exact_number arg of
        None \<Rightarrow> Inl TypeError
      | Some x \<Rightarrow> if \<exists>r > 0. num_flt x = Fin r then Inr x else Inl ValueError) \<and>
   usable_timeout arg dflt =
     (case require_timeout arg of
        Inr x \<Rightarrow> Inr x
      | Inl e \<Rightarrow> if e = ValueError then Inr dflt else Inl e)"
  by (auto simp: require_timeout_def usable_timeout_def exact_seconds_def bounds_something_iff
      split: option.splits)

text \<open>A wait budget is \<^verbatim>\<open>None\<close> (no bound asked for), or a number within
  \<^verbatim>\<open>threading.TIMEOUT_MAX\<close> of zero, so handing it to \<^verbatim>\<open>join\<close> or \<^verbatim>\<open>wait\<close> cannot
  overflow; only a non-number and NaN are refused.\<close>

theorem wait_budget_safe:
  assumes "0 \<le> tmax"
  shows "case wait_budget tmax arg of
      Inr None \<Rightarrow> True
    | Inr (Some b) \<Rightarrow> \<exists>r. num_flt b = Fin r \<and> - tmax \<le> r \<and> r \<le> tmax
    | Inl e \<Rightarrow> (e = TypeError \<and> (\<exists>n. arg = AOther n)) \<or> (e = ValueError \<and> arg = AFloat NaN)"
proof (cases "exact_number arg")
  case None
  then show ?thesis by (cases arg) (auto simp: wait_budget_def)
next
  case (Some x)
  then have arg: "arg = AInt i \<Longrightarrow> x = NI i" "arg = AFloat f \<Longrightarrow> x = NF f" for i f by auto
  show ?thesis
  proof (cases arg)
    case (AInt i)
    with arg assms show ?thesis by (auto simp: wait_budget_def)
  next
    case (AFloat f)
    with arg assms show ?thesis by (cases f) (auto simp: wait_budget_def)
  qed (use Some in auto)
qed

theorem wait_budget_safe_witness:
  "case wait_budget 9223372036 (AFloat PInf) of
      Inr None \<Rightarrow> True
    | Inr (Some b) \<Rightarrow> \<exists>r. num_flt b = Fin r \<and> - 9223372036 \<le> r \<and> r \<le> 9223372036
    | Inl e \<Rightarrow> (e = TypeError \<and> (\<exists>n. AFloat PInf = AOther n)) \<or> (e = ValueError \<and> AFloat PInf = AFloat NaN)"
  by (rule wait_budget_safe) simp

end
