(* ===== verification/Truncate.thy ===== *)
theory Truncate
  imports Utf8
begin

text \<open>
  The text ceilings of \<^verbatim>\<open>src/log_foundry/sanitize.py\<close>: \<^verbatim>\<open>_measured\<close>, \<^verbatim>\<open>_clip\<close>,
  \<^verbatim>\<open>truncate_str\<close>, \<^verbatim>\<open>truncate_tail\<close>, and the bounded rendering of integers. The source cuts a
  long text to \<^verbatim>\<open>max_bytes + 1\<close> characters before it encodes anything; the lemmas show that
  this shortcut changes no result, that a clipped text is the longest head (or tail) that fits
  beside the marker, that the result always encodes as UTF-8, and that it never exceeds the
  ceiling by more than the marker itself.
\<close>

definition TRUNCATION_MARKER :: pystr where
  "TRUNCATION_MARKER = 8230 # str ''[truncated]''"

definition MARKER_BYTES :: nat where
  "MARKER_BYTES = utf8_size TRUNCATION_MARKER"

definition REPLACEMENT :: nat where
  "REPLACEMENT = 65533"

subsection \<open>Integers\<close>

text \<open>\<^verbatim>\<open>int.bit_length\<close>.\<close>

fun bits :: "nat \<Rightarrow> nat" where
  "bits n = (if n = 0 then 0 else Suc (bits (n div 2)))"

declare bits.simps [simp del]

definition bit_length :: "int \<Rightarrow> nat" where
  "bit_length i = bits (nat \<bar>i\<bar>)"

text \<open>The decimal digit estimate every bound on integers uses.\<close>

definition int_digits :: "int \<Rightarrow> nat" where
  "int_digits value = bit_length value * 30103 div 100000 + 1"

fun decimal :: "nat \<Rightarrow> pystr" where
  "decimal n = (if n < 10 then [48 + n] else decimal (n div 10) @ [48 + n mod 10])"

declare decimal.simps [simp del]

definition int_repr :: "int \<Rightarrow> pystr" where
  "int_repr i = (if i < 0 then 45 # decimal (nat (- i)) else decimal (nat i))"

text \<open>\<^verbatim>\<open>sys.get_int_max_str_digits()\<close> is a process setting, an argument here; a limit that is
  zero or negative means none.\<close>

definition int_digit_ceiling :: "int \<Rightarrow> nat \<Rightarrow> nat" where
  "int_digit_ceiling limit max_value_bytes =
     (if limit \<le> 0 then max_value_bytes else min max_value_bytes (nat limit))"

definition int_placeholder :: "int \<Rightarrow> pystr" where
  "int_placeholder value = str ''<int: ~'' @ decimal (int_digits value) @ str '' digits>''"

definition int_text :: "int \<Rightarrow> nat \<Rightarrow> int \<Rightarrow> pystr" where
  "int_text limit dflt value =
     (let digits = int_digits value;
          rendered = (if value < 0 then digits + 1 else digits);
          ceiling = (if limit \<le> 0 then dflt else min (nat limit) dflt)
      in if rendered > ceiling then int_placeholder value else int_repr value)"

subsection \<open>Clipping\<close>

definition subst_surrogates :: "pystr \<Rightarrow> pystr" where
  "subst_surrogates t = map (\<lambda>c. if is_surrogate c then REPLACEMENT else c) t"

definition measured :: "pystr \<Rightarrow> pystr \<times> bytes \<times> bool" where
  "measured value =
     (case encode_utf8 value of
        Inr raw \<Rightarrow> (value, raw, False)
      | Inl _ \<Rightarrow> (let clean = subst_surrogates value in (clean, utf8 clean, True)))"

definition clip :: "pystr \<Rightarrow> nat \<Rightarrow> pystr \<times> bool \<times> nat" where
  "clip value max_bytes =
     (let value = (if length value > max_bytes then take (max_bytes + 1) value else value);
          (plain, raw, replaced) = measured value;
          size = length raw
      in if size \<le> max_bytes then (plain, replaced, size)
         else let budget = int max_bytes - int MARKER_BYTES
              in if budget \<le> 0 then (TRUNCATION_MARKER, True, MARKER_BYTES)
                 else let head = decode_ignore (take (nat budget) raw)
                      in (head @ TRUNCATION_MARKER, True, length (utf8 head) + MARKER_BYTES))"

definition truncate_str :: "pystr \<Rightarrow> nat \<Rightarrow> pystr \<times> bool" where
  "truncate_str value max_bytes = (let (clipped, altered, _) = clip value max_bytes in (clipped, altered))"

definition truncate_tail :: "pystr \<Rightarrow> nat \<Rightarrow> pystr \<times> bool" where
  "truncate_tail value max_bytes =
     (let len = length value;
          value = (if len > max_bytes then drop (len - max_bytes - 1) value else value);
          (plain, raw, replaced) = measured value
      in if length raw \<le> max_bytes then (plain, replaced)
         else let budget = int max_bytes - int MARKER_BYTES
              in if budget \<le> 0 then (TRUNCATION_MARKER, True)
                 else (TRUNCATION_MARKER @ decode_ignore (drop (length raw - nat budget) raw), True))"

subsection \<open>What the source means by clipping: the reference\<close>

text \<open>The ceiling rule stated on the whole text, with no pre-slice and no byte arithmetic.\<close>

definition clip_spec :: "pystr \<Rightarrow> nat \<Rightarrow> pystr \<times> bool" where
  "clip_spec value max_bytes =
     (let clean = subst_surrogates value
      in if utf8_size clean \<le> max_bytes then (clean, clean \<noteq> value)
         else (fit_prefix (max_bytes - MARKER_BYTES) clean @ TRUNCATION_MARKER, True))"

definition tail_spec :: "pystr \<Rightarrow> nat \<Rightarrow> pystr \<times> bool" where
  "tail_spec value max_bytes =
     (let clean = subst_surrogates value
      in if utf8_size clean \<le> max_bytes then (clean, clean \<noteq> value)
         else (TRUNCATION_MARKER @ fit_suffix (max_bytes - MARKER_BYTES) clean, True))"

subsection \<open>Measuring\<close>

lemma MARKER_BYTES_eq [simp]: "MARKER_BYTES = 14"
  by (simp add: MARKER_BYTES_def TRUNCATION_MARKER_def str_def utf8_char_def)

lemma marker_scalar: "c \<in> set TRUNCATION_MARKER \<Longrightarrow> scalar c"
  by (auto simp: TRUNCATION_MARKER_def str_def scalar_def is_surrogate_def)

lemma utf8_size_marker [simp]: "utf8_size TRUNCATION_MARKER = 14"
  using MARKER_BYTES_eq unfolding MARKER_BYTES_def .

lemma subst_surrogates_id: "\<not> (\<exists>c \<in> set t. is_surrogate c) \<Longrightarrow> subst_surrogates t = t"
  by (auto simp: subst_surrogates_def intro: map_idI)

lemma subst_surrogates_changed: "subst_surrogates t \<noteq> t \<longleftrightarrow> (\<exists>c \<in> set t. is_surrogate c)"
proof
  assume "\<exists>c \<in> set t. is_surrogate c"
  then obtain i where i: "i < length t" "is_surrogate (t ! i)" by (metis in_set_conv_nth)
  then have "subst_surrogates t ! i \<noteq> t ! i"
    by (auto simp: subst_surrogates_def is_surrogate_def REPLACEMENT_def)
  then show "subst_surrogates t \<noteq> t" by metis
qed (use subst_surrogates_id in blast)

lemma length_subst_surrogates [simp]: "length (subst_surrogates t) = length t"
  by (simp add: subst_surrogates_def)

lemma subst_surrogates_simps [simp]:
  "subst_surrogates [] = []"
  "subst_surrogates (s @ t) = subst_surrogates s @ subst_surrogates t"
  "subst_surrogates (take n t) = take n (subst_surrogates t)"
  "subst_surrogates (drop n t) = drop n (subst_surrogates t)"
  by (simp_all add: subst_surrogates_def take_map drop_map)

lemma subst_surrogates_scalar: "wf_text t \<Longrightarrow> \<forall>c \<in> set (subst_surrogates t). scalar c"
  by (auto simp: subst_surrogates_def scalar_def wf_text_def is_surrogate_def REPLACEMENT_def)

lemma measured_eq:
  "measured t = (subst_surrogates t, utf8 (subst_surrogates t), subst_surrogates t \<noteq> t)"
  by (auto simp: measured_def encode_utf8_def Let_def subst_surrogates_id subst_surrogates_changed)

lemma wf_text_take [simp]: "wf_text t \<Longrightarrow> wf_text (take n t)"
  by (auto simp: wf_text_def dest: in_set_takeD)

lemma wf_text_drop [simp]: "wf_text t \<Longrightarrow> wf_text (drop n t)"
  by (auto simp: wf_text_def dest: in_set_dropD)

subsection \<open>The pre-slice\<close>

lemma fit_prefix_pre_slice: "n < m \<Longrightarrow> fit_prefix n (take m t) = fit_prefix n t"
proof (induction n t arbitrary: m rule: fit_prefix.induct)
  case (2 n c t)
  then obtain m' where m: "m = Suc m'" by (cases m) auto
  show ?case
  proof (cases "length (utf8_char c) \<le> n")
    case True
    then have "n - length (utf8_char c) < m'" using 2(2) m utf8_char_length [of c] by linarith
    with True 2 m show ?thesis by simp
  next
    case False
    with m show ?thesis by simp
  qed
qed simp

lemma fit_suffix_drop: "n < utf8_size (drop k t) \<Longrightarrow> fit_suffix n (drop k t) = fit_suffix n t"
proof (induction k arbitrary: t)
  case (Suc k)
  show ?case
  proof (cases t)
    case (Cons c u)
    then have "n < utf8_size (drop k u)" using Suc.prems by simp
    moreover from this have "n < utf8_size (c # u)" using utf8_size_drop [of k u] by simp
    ultimately show ?thesis using Suc.IH [of u] Cons by simp
  qed simp
qed simp

lemma fit_suffix_le: "n \<le> m \<Longrightarrow> fit_suffix n (fit_suffix m t) = fit_suffix n t"
  by (induction m t rule: fit_suffix.induct) auto

lemma long_slices:
  assumes "max_bytes < length t"
  shows "max_bytes < utf8_size (take (Suc max_bytes) t)"
    and "max_bytes < utf8_size (drop (length t - max_bytes - 1) t)"
    and "max_bytes < utf8_size t"
  using assms utf8_size_ge_length [of "take (Suc max_bytes) t"]
    utf8_size_ge_length [of "drop (length t - max_bytes - 1) t"] utf8_size_ge_length [of t]
  by auto

text \<open>The clipped text, its flag and its byte count, on the unsliced text.\<close>

lemma clip_eq:
  assumes "wf_text value"
  shows "clip value max_bytes =
    (fst (clip_spec value max_bytes), snd (clip_spec value max_bytes),
     utf8_size (fst (clip_spec value max_bytes)))"
proof -
  let ?v = "if length value > max_bytes then take (max_bytes + 1) value else value"
  let ?clean = "subst_surrogates value"
  have long: "utf8_size (subst_surrogates ?v) \<le> max_bytes \<longleftrightarrow> utf8_size ?clean \<le> max_bytes"
    using long_slices(1,3) [of max_bytes ?clean] by auto
  have short: "utf8_size ?clean \<le> max_bytes \<Longrightarrow> ?v = value"
    using utf8_size_ge_length [of ?clean] by auto
  have head: "decode_ignore (take n (utf8 (subst_surrogates ?v))) = fit_prefix n (subst_surrogates ?v)" for n
    using assms by (intro decode_ignore_take subst_surrogates_scalar) auto
  have slice: "fit_prefix n (subst_surrogates ?v) = fit_prefix n ?clean" if "n \<le> max_bytes" for n
    using that fit_prefix_pre_slice [of n "Suc max_bytes" ?clean] by simp
  show ?thesis
  proof (cases "utf8_size ?clean \<le> max_bytes")
    case True
    with long short show ?thesis
      by (simp add: clip_def clip_spec_def measured_eq Let_def utf8_size_def)
  next
    case False
    then have "\<not> length (utf8 (subst_surrogates ?v)) \<le> max_bytes"
      using long by (simp add: utf8_size_def)
    moreover have "nat (int max_bytes - int MARKER_BYTES) = max_bytes - MARKER_BYTES" by simp
    moreover have "fit_prefix 0 t = []" for t by (cases t) auto
    ultimately show ?thesis using False head slice
      by (simp add: clip_def clip_spec_def measured_eq Let_def utf8_size_def [symmetric])
  qed
qed

text \<open>C3. \<^verbatim>\<open>truncate_str\<close> computes the ceiling rule: surrogates become U+FFFD; a text whose
  encoding fits the ceiling is returned whole, marked altered only when a surrogate was replaced;
  otherwise the result is the longest head whose encoding fits beside the marker, then the marker.
  The pre-slice to \<^verbatim>\<open>max_bytes + 1\<close> characters, the byte cut and the lenient decode change
  none of it.\<close>

theorem truncate_str_spec:
  assumes "wf_text value"
  shows "truncate_str value max_bytes = clip_spec value max_bytes"
  using clip_eq [OF assms] by (simp add: truncate_str_def)

theorem truncate_str_spec_witness:
  "truncate_str (replicate 30 97) 16 = clip_spec (replicate 30 97) 16"
  by (rule truncate_str_spec) (simp add: wf_text_def)

lemma fit_suffix_zero: "n \<le> m \<Longrightarrow> fit_suffix (n - m) t = []"
proof (induction t)
  case (Cons c t)
  then show ?case using utf8_char_length [of c] by simp
qed simp

lemma truncate_tail_unfold:
  assumes "v = (if length w > max_bytes then drop (length w - max_bytes - 1) w else w)"
    and "u = subst_surrogates v"
  shows "truncate_tail w max_bytes =
    (if utf8_size u \<le> max_bytes then (u, u \<noteq> v)
     else if max_bytes \<le> MARKER_BYTES then (TRUNCATION_MARKER, True)
     else (TRUNCATION_MARKER @ decode_ignore (drop (utf8_size u - (max_bytes - MARKER_BYTES)) (utf8 u)), True))"
proof -
  have "nat (int max_bytes - int MARKER_BYTES) = max_bytes - MARKER_BYTES" by simp
  then show ?thesis
    unfolding truncate_tail_def Let_def assms(1) [symmetric] measured_eq assms(2) [symmetric]
    by (simp add: utf8_size_def [symmetric])
qed

text \<open>\<^verbatim>\<open>truncate_tail\<close> computes the same rule from the other end: the marker, then the
  longest tail whose encoding fits beside it.\<close>

theorem truncate_tail_spec:
  assumes "wf_text w"
  shows "truncate_tail w max_bytes = tail_spec w max_bytes"
proof -
  let ?k = "length w - max_bytes - 1"
  define v where "v = (if length w > max_bytes then drop ?k w else w)"
  define u where "u = subst_surrogates v"
  let ?clean = "subst_surrogates w"
  have u: "u = (if length w > max_bytes then drop ?k ?clean else ?clean)"
    by (simp add: u_def v_def)
  have long: "utf8_size u \<le> max_bytes \<longleftrightarrow> utf8_size ?clean \<le> max_bytes"
    using long_slices(2,3) [of max_bytes ?clean] by (auto simp: u)
  have tail: "decode_ignore (drop (utf8_size u - n) (utf8 u)) = fit_suffix n ?clean"
    if "n \<le> max_bytes" "\<not> utf8_size ?clean \<le> max_bytes" for n
  proof -
    have "\<forall>c \<in> set u. scalar c"
      unfolding u_def using assms by (intro subst_surrogates_scalar) (simp add: v_def)
    then have "decode_ignore (drop (utf8_size u - n) (utf8 u)) = fit_suffix n u"
      using that long by (intro decode_ignore_drop) auto
    also have "\<dots> = fit_suffix n ?clean"
      using long_slices(2) [of max_bytes ?clean] that(1) fit_suffix_drop [of n ?k ?clean] by (auto simp: u)
    finally show ?thesis .
  qed
  show ?thesis
  proof (cases "utf8_size ?clean \<le> max_bytes")
    case True
    then have "length w \<le> max_bytes" using utf8_size_ge_length [of ?clean] by simp
    with True show ?thesis
      by (simp add: truncate_tail_unfold [OF v_def u_def] tail_spec_def Let_def u_def v_def)
  next
    case False
    with long tail [of "max_bytes - MARKER_BYTES"] show ?thesis
      by (cases "max_bytes \<le> MARKER_BYTES")
        (simp_all add: truncate_tail_unfold [OF v_def u_def] tail_spec_def Let_def fit_suffix_zero [of 0 0, simplified]
          del: MARKER_BYTES_eq)
  qed
qed

theorem truncate_tail_spec_witness:
  "truncate_tail (replicate 30 97) 16 = tail_spec (replicate 30 97) 16"
  by (rule truncate_tail_spec) (simp add: wf_text_def)

text \<open>Consequences of the rule that every caller relies on.\<close>

lemma clip_spec_scalar:
  "wf_text v \<Longrightarrow> c \<in> set (fst (clip_spec v max_bytes)) \<Longrightarrow> scalar c"
  using subst_surrogates_scalar [of v] marker_scalar
    fit_prefix_prefix [of "max_bytes - MARKER_BYTES" "subst_surrogates v"]
  by (fastforce simp: clip_spec_def Let_def split: if_splits dest: in_set_takeD)

lemma clip_spec_size: "utf8_size (fst (clip_spec v max_bytes)) \<le> max max_bytes MARKER_BYTES"
  using fit_prefix_size [of "max_bytes - MARKER_BYTES" "subst_surrogates v"]
  by (auto simp: clip_spec_def Let_def)

lemma clip_spec_same:
  "snd (clip_spec v max_bytes) = False \<Longrightarrow> fst (clip_spec v max_bytes) = v"
  by (auto simp: clip_spec_def Let_def split: if_splits)

lemma clip_spec_fits:
  "\<forall>c \<in> set v. scalar c \<Longrightarrow> utf8_size v \<le> max_bytes \<Longrightarrow> clip_spec v max_bytes = (v, False)"
  using subst_surrogates_id [of v] by (auto simp: clip_spec_def Let_def scalar_def)

text \<open>A bounded text always encodes as UTF-8 and its encoding is at most the ceiling, or the
  fourteen bytes of the marker where the ceiling is smaller than the marker; a text reported
  unaltered is the caller's text.\<close>

theorem truncate_str_bounds:
  assumes "wf_text v"
  shows "(\<exists>raw. encode_utf8 (fst (truncate_str v max_bytes)) = Inr raw
               \<and> length raw \<le> max max_bytes MARKER_BYTES)
         \<and> (\<not> snd (truncate_str v max_bytes) \<longrightarrow> fst (truncate_str v max_bytes) = v)"
proof (intro conjI impI)
  have eq: "truncate_str v max_bytes = clip_spec v max_bytes"
    using clip_eq [OF assms] by (simp add: truncate_str_def)
  have "encode_utf8 (fst (truncate_str v max_bytes)) = Inr (utf8 (fst (clip_spec v max_bytes)))"
    unfolding eq by (rule encode_utf8_scalar) (use clip_spec_scalar [OF assms] in blast)
  then show "\<exists>raw. encode_utf8 (fst (truncate_str v max_bytes)) = Inr raw
               \<and> length raw \<le> max max_bytes MARKER_BYTES"
    using clip_spec_size [of v max_bytes] by (auto simp: utf8_size_def)
  show "fst (truncate_str v max_bytes) = v" if "\<not> snd (truncate_str v max_bytes)"
    using that clip_spec_same unfolding eq by blast
qed

theorem truncate_str_bounds_witness:
  "\<exists>raw. encode_utf8 (fst (truncate_str (55296 # replicate 30 97) 16)) = Inr raw
         \<and> length raw \<le> max 16 MARKER_BYTES"
  by (rule truncate_str_bounds [THEN conjunct1]) (simp add: wf_text_def)

end
