(* ===== verification/Ids.thy ===== *)
theory Ids
  imports Prelude
begin

text \<open>
  \<^verbatim>\<open>src/log_foundry/ids.py\<close>: W3C trace and span ids and the \<^verbatim>\<open>traceparent\<close> codec. The random
  bytes of \<^verbatim>\<open>os.urandom\<close> are an argument of the generators. The lemmas show that the codec
  round-trips, exactly which headers it accepts, and that a generated id is valid unless the
  operating system returned all zero bytes.
\<close>

definition HEX :: pystr where
  "HEX = str ''0123456789abcdef''"

definition FLAGS_SAMPLED :: pystr where
  "FLAGS_SAMPLED = str ''01''"

definition VERSION :: pystr where
  "VERSION = str ''00''"

definition INVALID_VERSION :: pystr where
  "INVALID_VERSION = str ''ff''"

abbreviation DASH :: nat where
  "DASH \<equiv> 45"

text \<open>\<^verbatim>\<open>bytes.hex()\<close>: two lowercase digits for each byte.\<close>

definition hex_digit :: "nat \<Rightarrow> nat" where
  "hex_digit d = (if d < 10 then 48 + d else 87 + d)"

definition hex_of_bytes :: "bytes \<Rightarrow> pystr" where
  "hex_of_bytes bs = concat (map (\<lambda>b. [hex_digit (b div 16), hex_digit (b mod 16)]) bs)"

definition new_trace_id :: "bytes \<Rightarrow> pystr" where
  "new_trace_id urandom16 = hex_of_bytes urandom16"

definition new_span_id :: "bytes \<Rightarrow> pystr" where
  "new_span_id urandom8 = hex_of_bytes urandom8"

text \<open>\<^verbatim>\<open>uuid.uuid4().hex\<close>: 16 random bytes with the version and variant bits set.\<close>

definition new_log_id :: "bytes \<Rightarrow> pystr" where
  "new_log_id urandom16 =
     hex_of_bytes (urandom16[6 := 64 + urandom16 ! 6 mod 16, 8 := 128 + urandom16 ! 8 mod 64])"

definition is_hex :: "pystr \<Rightarrow> nat \<Rightarrow> bool" where
  "is_hex value n \<longleftrightarrow> length value = n \<and> set value - set HEX = {}"

fun is_valid_trace_id :: "inbound \<Rightarrow> bool" where
  "is_valid_trace_id (IStr value) = (is_hex value 32 \<and> value \<noteq> replicate 32 48)"
| "is_valid_trace_id _ = False"

fun is_valid_span_id :: "inbound \<Rightarrow> bool" where
  "is_valid_span_id (IStr value) = (is_hex value 16 \<and> value \<noteq> replicate 16 48)"
| "is_valid_span_id _ = False"

fun parse_traceparent :: "inbound \<Rightarrow> (pystr \<times> pystr) option" where
  "parse_traceparent (IStr value) =
     (let parts = split_on DASH (strip value) in
      case parts of
        version # trace_id # span_id # flags # _ \<Rightarrow>
          if \<not> is_hex version 2 \<or> version = INVALID_VERSION then None
          else if version = VERSION \<and> (length parts \<noteq> 4 \<or> \<not> is_hex flags 2) then None
          else if \<not> is_valid_trace_id (IStr trace_id) \<or> \<not> is_valid_span_id (IStr span_id) then None
          else Some (trace_id, span_id)
      | _ \<Rightarrow> None)"
| "parse_traceparent _ = None"

definition format_traceparent :: "pystr \<Rightarrow> pystr \<Rightarrow> pystr" where
  "format_traceparent trace_id span_id =
     VERSION @ [DASH] @ trace_id @ [DASH] @ span_id @ [DASH] @ FLAGS_SAMPLED"

subsection \<open>Hexadecimal text\<close>

lemma HEX_ranges: "HEX = [48..<58] @ [97..<103]"
proof -
  have "[48..<58] = [48::nat,49,50,51,52,53,54,55,56,57]" "[97..<103] = [97::nat,98,99,100,101,102]"
    by (simp_all add: upt_conv_Cons)
  then show ?thesis by (simp add: HEX_def str_def)
qed

lemma HEX_set: "set HEX = {48..57} \<union> {97..102}"
proof -
  have "set HEX = {48..<58} \<union> {97..<103}" by (simp only: HEX_ranges set_append set_upt)
  then show ?thesis by (simp add: set_eq_iff) presburger
qed

lemma is_hex_chars: "is_hex v n \<Longrightarrow> c \<in> set v \<Longrightarrow> (48 \<le> c \<and> c \<le> 57) \<or> (97 \<le> c \<and> c \<le> 102)"
  by (auto simp: is_hex_def HEX_set)

lemma is_hex_no_dash: "is_hex v n \<Longrightarrow> DASH \<notin> set v"
  using is_hex_chars by fastforce

lemma is_hex_no_space: "is_hex v n \<Longrightarrow> c \<in> set v \<Longrightarrow> \<not> is_space c"
  using is_hex_chars [of v n c] by (auto simp: is_space_def)

lemma hex_digit_HEX: "d < 16 \<Longrightarrow> hex_digit d \<in> set HEX"
  by (auto simp: hex_digit_def HEX_set)

lemma hex_digit_zero: "d < 16 \<Longrightarrow> hex_digit d = 48 \<longleftrightarrow> d = 0"
  by (auto simp: hex_digit_def)

lemma length_hex_of_bytes [simp]: "length (hex_of_bytes bs) = 2 * length bs"
  by (induction bs) (auto simp: hex_of_bytes_def)

lemma hex_of_bytes_Cons [simp]:
  "hex_of_bytes (b # bs) = hex_digit (b div 16) # hex_digit (b mod 16) # hex_of_bytes bs"
  by (simp add: hex_of_bytes_def)

lemma hex_of_bytes_Nil [simp]: "hex_of_bytes [] = []"
  by (simp add: hex_of_bytes_def)

lemma set_hex_of_bytes: "\<forall>b \<in> set bs. b < 256 \<Longrightarrow> set (hex_of_bytes bs) \<subseteq> set HEX"
proof (induction bs)
  case (Cons b bs)
  then show ?case using hex_digit_HEX [of "b div 16"] hex_digit_HEX [of "b mod 16"] by auto
qed simp

lemma is_hex_of_bytes: "\<forall>b \<in> set bs. b < 256 \<Longrightarrow> is_hex (hex_of_bytes bs) (2 * length bs)"
  using set_hex_of_bytes by (auto simp: is_hex_def)

lemma hex_of_bytes_zero:
  "\<forall>b \<in> set bs. b < 256 \<Longrightarrow> set (hex_of_bytes bs) \<subseteq> {48} \<longleftrightarrow> set bs \<subseteq> {0}"
proof (induction bs)
  case (Cons b bs)
  then have "hex_digit (b div 16) = 48 \<and> hex_digit (b mod 16) = 48 \<longleftrightarrow> b = 0"
    by (subst (1 2) hex_digit_zero) auto
  with Cons show ?case by auto
qed simp

lemma hex_of_bytes_all_zero:
  assumes "\<forall>b \<in> set bs. b < 256"
  shows "hex_of_bytes bs = replicate (2 * length bs) 48 \<longleftrightarrow> (\<forall>b \<in> set bs. b = 0)"
proof -
  have "hex_of_bytes bs = replicate (2 * length bs) 48 \<longleftrightarrow> set (hex_of_bytes bs) \<subseteq> {48}"
    using replicate_eqI [of "hex_of_bytes bs" "2 * length bs" 48] by (auto simp: subset_iff)
  with hex_of_bytes_zero [OF assms] show ?thesis by auto
qed

lemma valid_id_shapes:
  "is_valid_trace_id (IStr t) \<Longrightarrow> is_hex t 32"
  "is_valid_span_id (IStr s) \<Longrightarrow> is_hex s 16"
  by auto

lemma VERSION_hex: "is_hex VERSION 2" and FLAGS_hex: "is_hex FLAGS_SAMPLED 2"
  and VERSION_usable: "VERSION \<noteq> INVALID_VERSION"
  by (simp_all add: is_hex_def HEX_set VERSION_def FLAGS_SAMPLED_def INVALID_VERSION_def str_def)

subsection \<open>The codec\<close>

lemma format_traceparent_join:
  "format_traceparent t s = join_with DASH [VERSION, t, s, FLAGS_SAMPLED]"
  by (simp add: format_traceparent_def)

lemma format_traceparent_split:
  assumes "is_hex t n" and "is_hex s m"
  shows "split_on DASH (strip (format_traceparent t s)) = [VERSION, t, s, FLAGS_SAMPLED]"
proof -
  have hex: "\<And>p. p \<in> set [VERSION, t, s, FLAGS_SAMPLED] \<Longrightarrow> \<exists>k. is_hex p k"
    using assms VERSION_hex FLAGS_hex by auto
  have "\<And>c. c \<in> set (format_traceparent t s) \<Longrightarrow> \<not> is_space c"
    using is_hex_no_space assms VERSION_hex FLAGS_hex
    by (fastforce simp: format_traceparent_def is_space_def)
  then have "strip (format_traceparent t s) = format_traceparent t s"
    by (rule strip_id)
  then have "strip (format_traceparent t s) = join_with DASH [VERSION, t, s, FLAGS_SAMPLED]"
    by (simp only: format_traceparent_join)
  moreover have "split_on DASH (join_with DASH [VERSION, t, s, FLAGS_SAMPLED])
      = [VERSION, t, s, FLAGS_SAMPLED]"
    by (rule split_join) (use hex is_hex_no_dash in blast)+
  ultimately show ?thesis by simp
qed

lemma sample_ids:
  "is_valid_trace_id (IStr (replicate 32 97))" "is_valid_span_id (IStr (replicate 16 49))"
  by (simp_all add: is_hex_def HEX_set replicate_eq_replicate)

text \<open>C4. A context the library formats is the context any receiver of it parses: for valid
  ids, \<^verbatim>\<open>parse_traceparent(format_traceparent(t, s))\<close> is exactly \<^verbatim>\<open>(t, s)\<close>.\<close>

theorem traceparent_roundtrip:
  assumes "is_valid_trace_id (IStr t)" and "is_valid_span_id (IStr s)"
  shows "parse_traceparent (IStr (format_traceparent t s)) = Some (t, s)"
  using assms VERSION_hex VERSION_usable FLAGS_hex
    format_traceparent_split [OF valid_id_shapes(1) [OF assms(1)] valid_id_shapes(2) [OF assms(2)]]
  by (simp add: Let_def)

theorem traceparent_roundtrip_witness:
  "parse_traceparent (IStr (format_traceparent (replicate 32 97) (replicate 16 49)))
     = Some (replicate 32 97, replicate 16 49)"
  by (rule traceparent_roundtrip [OF sample_ids])

text \<open>Exactly which headers are accepted: the stripped value splits at the dashes into at
  least four fields, the version is two hex digits other than the reserved \<^verbatim>\<open>ff\<close>, version
  \<^verbatim>\<open>00\<close> has exactly four fields with two hex flag digits, and the two ids are W3C-valid; a
  higher version is accepted with further fields ignored. A \<^verbatim>\<open>str\<close> subclass or any other
  object is never parsed.\<close>

theorem parse_traceparent_iff:
  "parse_traceparent v = Some (t, s) \<longleftrightarrow>
     (\<exists>value ver flags more.
        v = IStr value \<and> split_on DASH (strip value) = ver # t # s # flags # more \<and>
        is_hex ver 2 \<and> ver \<noteq> INVALID_VERSION \<and>
        (ver = VERSION \<longrightarrow> more = [] \<and> is_hex flags 2) \<and>
        is_valid_trace_id (IStr t) \<and> is_valid_span_id (IStr s))"
  by (cases v) (auto simp: Let_def split: list.splits if_splits)

theorem parse_traceparent_iff_witness:
  "\<exists>value ver flags more.
     IStr (format_traceparent (replicate 32 97) (replicate 16 49)) = IStr value \<and>
     split_on DASH (strip value) = ver # replicate 32 97 # replicate 16 49 # flags # more \<and>
     is_hex ver 2 \<and> ver \<noteq> INVALID_VERSION \<and>
     (ver = VERSION \<longrightarrow> more = [] \<and> is_hex flags 2) \<and>
     is_valid_trace_id (IStr (replicate 32 97)) \<and> is_valid_span_id (IStr (replicate 16 49))"
proof (rule parse_traceparent_iff [THEN iffD1])
  have "split_on DASH (strip (format_traceparent (replicate 32 97) (replicate 16 49)))
      = [VERSION, replicate 32 97, replicate 16 49, FLAGS_SAMPLED]"
    using format_traceparent_split [OF valid_id_shapes(1) [OF sample_ids(1)]
        valid_id_shapes(2) [OF sample_ids(2)]] .
  then show "parse_traceparent (IStr (format_traceparent (replicate 32 97) (replicate 16 49)))
      = Some (replicate 32 97, replicate 16 49)"
    using sample_ids VERSION_hex VERSION_usable FLAGS_hex by (simp add: Let_def)
qed

text \<open>A generated trace id and span id are W3C-valid unless every random byte was zero, the
  one value the validity test reserves.\<close>

theorem new_ids_valid:
  assumes "length r16 = 16" and "length r8 = 8"
    and "\<forall>b \<in> set r16 \<union> set r8. b < 256" and "\<exists>b \<in> set r16. b \<noteq> 0" and "\<exists>b \<in> set r8. b \<noteq> 0"
  shows "is_valid_trace_id (IStr (new_trace_id r16)) \<and> is_valid_span_id (IStr (new_span_id r8))"
  using assms is_hex_of_bytes [of r16] is_hex_of_bytes [of r8]
    hex_of_bytes_all_zero [of r16] hex_of_bytes_all_zero [of r8]
  by (auto simp: new_trace_id_def new_span_id_def)

theorem new_ids_valid_witness:
  "is_valid_trace_id (IStr (new_trace_id (1 # replicate 15 0)))
     \<and> is_valid_span_id (IStr (new_span_id (255 # replicate 7 0)))"
  by (rule new_ids_valid) auto

end
