(* ===== verification/Json.thy ===== *)
theory Json
  imports Doors Truncate Ids
begin

text \<open>
  JSON values as the library builds them, and \<^verbatim>\<open>json.dumps\<close> of the standard library with the
  separators it defaults to, with and without \<^verbatim>\<open>ensure_ascii\<close>. The text of a finite float is
  CPython's \<^verbatim>\<open>float.__repr__\<close>, an argument of the renderer.
\<close>

datatype jval =
    JNull
  | JBool bool
  | JInt int
  | JFloat flt
  | JStr pystr
  | JList "jval list"
  | JDict "(pystr \<times> jval) list"

type_synonym event = "(pystr, jval) dict"

definition hex4 :: "nat \<Rightarrow> pystr" where
  "hex4 n = map hex_digit [n div 4096 mod 16, n div 256 mod 16, n div 16 mod 16, n mod 16]"

text \<open>Two-character escapes, then \<^verbatim>\<open>\u00XX\<close> for the other control characters; with
  \<^verbatim>\<open>ensure_ascii\<close> everything beyond ASCII as one \<^verbatim>\<open>\u\<close> escape or a surrogate pair.\<close>

definition escape_char :: "bool \<Rightarrow> nat \<Rightarrow> pystr" where
  "escape_char ascii c =
     (if c = 34 then [92, 34]
      else if c = 92 then [92, 92]
      else if c = 10 then [92, 110]
      else if c = 13 then [92, 114]
      else if c = 9 then [92, 116]
      else if c = 12 then [92, 102]
      else if c = 8 then [92, 98]
      else if c < 32 then [92, 117] @ hex4 c
      else if ascii \<and> 126 < c then
        (if c < 65536 then [92, 117] @ hex4 c
         else [92, 117] @ hex4 (55296 + (c - 65536) div 1024) @ [92, 117] @ hex4 (56320 + (c - 65536) mod 1024))
      else [c])"

definition dumps_str :: "bool \<Rightarrow> pystr \<Rightarrow> pystr" where
  "dumps_str ascii s = [34] @ concat (map (escape_char ascii) s) @ [34]"

fun dumps_flt :: "(rat \<Rightarrow> pystr) \<Rightarrow> flt \<Rightarrow> pystr" where
  "dumps_flt frepr (Fin r) = frepr r"
| "dumps_flt frepr PInf = str ''Infinity''"
| "dumps_flt frepr NInf = str ''-Infinity''"
| "dumps_flt frepr NaN = str ''NaN''"

fun join2 :: "pystr list \<Rightarrow> pystr" where
  "join2 [] = []"
| "join2 [p] = p"
| "join2 (p # q # ps) = p @ [44, 32] @ join2 (q # ps)"

fun json_dumps :: "bool \<Rightarrow> (rat \<Rightarrow> pystr) \<Rightarrow> jval \<Rightarrow> pystr" where
  "json_dumps a fr JNull = str ''null''"
| "json_dumps a fr (JBool b) = (if b then str ''true'' else str ''false'')"
| "json_dumps a fr (JInt i) = int_repr i"
| "json_dumps a fr (JFloat f) = dumps_flt fr f"
| "json_dumps a fr (JStr s) = dumps_str a s"
| "json_dumps a fr (JList js) = [91] @ join2 (map (json_dumps a fr) js) @ [93]"
| "json_dumps a fr (JDict kvs) =
     [123] @ join2 (map (\<lambda>(k, v). dumps_str a k @ [58, 32] @ json_dumps a fr v) kvs) @ [125]"

subsection \<open>Measures of a value\<close>

text \<open>The number of values in a value, itself included.\<close>

fun jnodes :: "jval \<Rightarrow> nat" where
  "jnodes (JList js) = Suc (sum_list (map jnodes js))"
| "jnodes (JDict kvs) = Suc (sum_list (map (\<lambda>(k, v). jnodes v) kvs))"
| "jnodes _ = 1"

text \<open>Levels of nesting: a scalar is at level 0.\<close>

fun jdepth :: "jval \<Rightarrow> nat" where
  "jdepth (JList js) = (if js = [] then 0 else Suc (Max (set (map jdepth js))))"
| "jdepth (JDict kvs) = (if kvs = [] then 0 else Suc (Max (set (map (\<lambda>(k, v). jdepth v) kvs))))"
| "jdepth _ = 0"

lemma jnodes_pos [simp]: "0 < jnodes j"
  by (cases j) auto

subsection \<open>ASCII rendering\<close>

definition ascii_text :: "pystr \<Rightarrow> bool" where
  "ascii_text t \<longleftrightarrow> (\<forall>c \<in> set t. c < 128)"

lemma ascii_text_simps [simp]:
  "ascii_text []" "ascii_text (c # t) \<longleftrightarrow> c < 128 \<and> ascii_text t"
  "ascii_text (s @ t) \<longleftrightarrow> ascii_text s \<and> ascii_text t"
  by (auto simp: ascii_text_def)

lemma ascii_concat: "ascii_text (concat ts) \<longleftrightarrow> (\<forall>t \<in> set ts. ascii_text t)"
  by (induction ts) auto

lemma ascii_hex4 [simp]: "ascii_text (hex4 n)"
proof -
  have "hex_digit (d mod 16) < 128" for d
    using mod_less_divisor [of 16 d] unfolding hex_digit_def by (auto split: if_splits)
  then show ?thesis by (simp add: hex4_def)
qed

lemma ascii_escape [simp]: "ascii_text (escape_char True c)"
  by (auto simp: escape_char_def)

lemma ascii_dumps_str [simp]: "ascii_text (dumps_str True s)"
  by (simp add: dumps_str_def ascii_concat)

lemma ascii_decimal [simp]: "ascii_text (decimal n)"
  by (induction n rule: decimal.induct) (subst decimal.simps, auto)

lemma ascii_int_repr [simp]: "ascii_text (int_repr i)"
  by (simp add: int_repr_def)

lemma ascii_join2: "ascii_text (join2 ps) \<longleftrightarrow> (\<forall>p \<in> set ps. ascii_text p)"
  by (induction ps rule: join2.induct) auto

lemma ascii_str: "\<forall>c \<in> set s. of_char c < (128::nat) \<Longrightarrow> ascii_text (str s)"
  by (auto simp: ascii_text_def str_def)

lemma ascii_json_dumps:
  assumes "\<And>r. ascii_text (fr r)"
  shows "ascii_text (json_dumps True fr j)"
proof (induction j)
  case (JFloat f)
  then show ?case using assms by (cases f) (simp_all add: str_def)
next
  case (JDict kvs)
  then have "\<forall>(k, v) \<in> set kvs. ascii_text (json_dumps True fr v)" by fastforce
  then show ?case by (auto simp: ascii_join2 split: prod.splits)
qed (auto simp: ascii_join2 str_def)

lemma ascii_utf8_size: "ascii_text t \<Longrightarrow> utf8_size t = length t"
  by (induction t) (auto simp: utf8_char_def)

end
