(* ===== verification/Coercer.thy ===== *)
theory Coercer
  imports Json
begin

text \<open>
  The coercion pass of \<^verbatim>\<open>src/log_foundry/sanitize.py\<close>: class \<^verbatim>\<open>_Coercer\<close>, \<^verbatim>\<open>coerce\<close>,
  \<^verbatim>\<open>sanitize_fields\<close> and \<^verbatim>\<open>_coerce_unbounded\<close>. The caller's objects live in a heap, because
  the pass recognises a container that holds itself by identity, so the objects may be cyclic.
  An object records the builtin its real type derives from, whether the type is exactly that
  builtin, what \<^verbatim>\<open>isinstance\<close> answers through \<^verbatim>\<open>__class__\<close> or a registered ABC, what its
  storage holds, and what its methods return or raise; iteration yields finitely many items and
  then ends or raises. The methods are observers: they do not change the heap.

  The source threads a depth and stops at \<^verbatim>\<open>max_depth\<close>. Here the coercer of one depth is built
  from the coercer of the next: \<open>level n\<close> is \<^verbatim>\<open>(self.value, self.key)\<close> at depth
  \<^verbatim>\<open>max_depth - n\<close>, and \<open>None\<close> in the place of the children is a depth that has reached
  the limit.
\<close>

type_synonym ref = nat

datatype base =
    BNone | BStr | BInt | BBool | BFloat | BDict | BList | BTuple | BSet | BFrozenset
  | BBytes | BByteArray | BMemoryView | BObject

datatype claim =
    CEnum | CInt | CFloat | CStr | CTime | CUUID | CDecimal | CMapping | CSet | CSequence | CTextlike

record pyobj =
  o_base :: base                     \<comment> \<open>the builtin the real type derives from\<close>
  o_exact :: bool                    \<comment> \<open>\<^verbatim>\<open>type(value)\<close> is exactly that builtin\<close>
  o_enum :: bool                     \<comment> \<open>the real type derives from \<^verbatim>\<open>Enum\<close>\<close>
  o_claims :: "claim list result"    \<comment> \<open>other positive \<^verbatim>\<open>isinstance\<close> answers, or \<^verbatim>\<open>__class__\<close> raising\<close>
  o_name :: "pystr option"           \<comment> \<open>the stored class name, if it can be read\<close>
  o_text :: pystr
  o_int :: int
  o_float :: flt
  o_bytes :: bytes                   \<comment> \<open>contents of a bytes-like object, in C order\<close>
  o_contig :: bool
  o_rows :: nat                      \<comment> \<open>\<^verbatim>\<open>view.shape[0] if view.shape else 1\<close>\<close>
  o_items :: "(ref \<times> ref) list"      \<comment> \<open>what \<^verbatim>\<open>.items()\<close> yields\<close>
  o_members :: "ref list"            \<comment> \<open>what iteration yields\<close>
  o_raises :: "pyexn option"         \<comment> \<open>what the iteration raises after that\<close>
  o_str :: "pystr result"            \<comment> \<open>\<^verbatim>\<open>str(value)\<close>\<close>
  o_iso :: "pystr result"            \<comment> \<open>\<^verbatim>\<open>value.isoformat()\<close>\<close>
  o_value :: "ref result"            \<comment> \<open>\<^verbatim>\<open>value.value\<close>\<close>
  o_member_name :: "pystr result"    \<comment> \<open>\<^verbatim>\<open>value._name_\<close>\<close>

type_synonym heap = "ref \<Rightarrow> pyobj"

text \<open>The ceilings of the config, the budgets of one pass, and \<^verbatim>\<open>float.__repr__\<close> on finite
  floats.\<close>

record limits =
  max_value_bytes :: nat
  max_keys :: nat
  max_depth :: nat
  int_ceiling :: nat
  max_nodes :: nat
  max_bytes :: nat
  frepr :: "rat \<Rightarrow> pystr"

record cst =
  truncated :: bool
  parents :: "ref list"
  nodes :: nat
  charged :: nat
  stopped :: "pystr option"

definition CIRCULAR :: pystr where "CIRCULAR = str ''<circular>''"
definition DEPTH_LIMIT :: pystr where "DEPTH_LIMIT = str ''<depth limit>''"
definition NODE_LIMIT :: pystr where "NODE_LIMIT = str ''<node limit>''"
definition SIZE_LIMIT :: pystr where "SIZE_LIMIT = str ''<size limit>''"

definition MAX_NODES :: nat where "MAX_NODES = 131072"
definition MAX_RENDERED_BYTES :: nat where "MAX_RENDERED_BYTES = 16 * 1024 * 1024"

definition new_coercer :: cst where
  "new_coercer = \<lparr>truncated = False, parents = [], nodes = 0, charged = 0, stopped = None\<rparr>"

definition halt :: "pystr \<Rightarrow> cst \<Rightarrow> cst" where
  "halt p st = st\<lparr>stopped := Some p, truncated := True\<rparr>"

definition mark :: "cst \<Rightarrow> cst" where
  "mark st = st\<lparr>truncated := True\<rparr>"

subsection \<open>Scalars\<close>

text \<open>Charging and clipping, shared by \<^verbatim>\<open>text\<close> and \<^verbatim>\<open>produced\<close>; \<open>cost\<close> is what is charged.\<close>

definition charge_text :: "limits \<Rightarrow> pystr \<Rightarrow> bool \<Rightarrow> nat \<Rightarrow> cst \<Rightarrow> pystr \<times> cst" where
  "charge_text L clipped altered cost st =
     (if charged st + cost > max_bytes L then (SIZE_LIMIT, halt SIZE_LIMIT st)
      else let st = st\<lparr>charged := charged st + cost\<rparr>
           in (clipped, if altered then mark st else st))"

definition c_text :: "limits \<Rightarrow> pystr \<Rightarrow> cst \<Rightarrow> pystr \<times> cst" where
  "c_text L t st = (let (clipped, altered, size) = clip t (max_value_bytes L)
                    in charge_text L clipped altered size st)"

definition c_produced :: "limits \<Rightarrow> pystr \<Rightarrow> cst \<Rightarrow> pystr \<times> cst" where
  "c_produced L t st =
     (let chars = length t; (clipped, altered, size) = clip t (max_value_bytes L)
      in charge_text L clipped altered (max chars size) st)"

definition rendered_length :: "int \<Rightarrow> nat" where
  "rendered_length i = (if i < 0 then int_digits i + 1 else int_digits i)"

definition c_integer :: "limits \<Rightarrow> int \<Rightarrow> cst \<Rightarrow> jval \<times> cst" where
  "c_integer L i st =
     (let rendered = rendered_length i
      in if rendered > int_ceiling L then (JStr (int_placeholder i), mark st)
         else if charged st + rendered > max_bytes L then (JStr SIZE_LIMIT, halt SIZE_LIMIT st)
         else (JInt i, st\<lparr>charged := charged st + rendered\<rparr>))"

fun float_name :: "(rat \<Rightarrow> pystr) \<Rightarrow> flt \<Rightarrow> pystr" where
  "float_name fr (Fin r) = fr r"
| "float_name fr PInf = str ''inf''"
| "float_name fr NInf = str ''-inf''"
| "float_name fr NaN = str ''nan''"

definition finite_flt :: "flt \<Rightarrow> bool" where
  "finite_flt f \<longleftrightarrow> (\<exists>r. f = Fin r)"

lemma finite_flt_code [code]:
  "finite_flt f = (case f of Fin _ \<Rightarrow> True | _ \<Rightarrow> False)"
  by (cases f) (auto simp: finite_flt_def)

definition c_real :: "limits \<Rightarrow> flt \<Rightarrow> cst \<Rightarrow> jval \<times> cst" where
  "c_real L f st =
     (if finite_flt f then (JFloat f, st)
      else (JStr (str ''<float: '' @ float_name (frepr L) f @ str ''>''), mark st))"

definition type_name :: "pyobj \<Rightarrow> pystr" where
  "type_name ob = (case o_name ob of Some n \<Rightarrow> n | None \<Rightarrow> str ''?'')"

definition enum_text :: "pyobj \<Rightarrow> pystr result" where
  "enum_text ob = map_sum id (\<lambda>n. type_name ob @ str ''.'' @ n) (o_member_name ob)"

definition c_placeholder :: "limits \<Rightarrow> pyobj \<Rightarrow> cst \<Rightarrow> pystr \<times> cst" where
  "c_placeholder L ob st = c_produced L (str ''<unserializable: '' @ type_name ob @ str ''>'') st"

definition head_bytes :: "limits \<Rightarrow> pyobj \<Rightarrow> bytes" where
  "head_bytes L ob =
     (let limit = max_value_bytes L + 1; bs = o_bytes ob
      in if o_base ob = BBytes \<or> o_base ob = BByteArray then take limit bs
         else if length bs < limit then bs
         else if o_contig ob then take limit bs
         else let row = length bs div o_rows ob in take (row * ((limit + row - 1) div row)) bs)"

definition c_decoded :: "bytes \<Rightarrow> cst \<Rightarrow> pystr \<times> cst" where
  "c_decoded bs st =
     (case decode_strict bs of Inr t \<Rightarrow> (t, st) | Inl _ \<Rightarrow> (decode_replace bs, mark st))"

subsection \<open>Type tests\<close>

text \<open>\<^verbatim>\<open>isinstance\<close>: the real type answers first; otherwise \<^verbatim>\<open>__class__\<close> is read, which may
  raise.\<close>

definition if_inst :: "pyobj \<Rightarrow> bool \<Rightarrow> claim \<Rightarrow> cst \<Rightarrow> 'a result \<times> cst \<Rightarrow> 'a result \<times> cst \<Rightarrow> 'a result \<times> cst" where
  "if_inst ob isa c st yes no =
     (if isa then yes
      else case o_claims ob of
             Inl e \<Rightarrow> (Inl e, st)
           | Inr cs \<Rightarrow> if c \<in> set cs then yes else no)"

definition is_int :: "pyobj \<Rightarrow> bool" where
  "is_int ob \<longleftrightarrow> o_base ob = BInt \<or> o_base ob = BBool"

definition is_textlike :: "pyobj \<Rightarrow> bool" where
  "is_textlike ob \<longleftrightarrow> o_base ob \<in> {BStr, BBytes, BByteArray, BMemoryView}"

definition real_routed :: "pyobj \<Rightarrow> bool" where
  "real_routed ob \<longleftrightarrow> o_base ob \<in>
     {BStr, BBytes, BByteArray, BDict, BTuple, BList, BSet, BFrozenset, BInt, BBool, BFloat}"

definition enum_text_builtin :: "pyobj \<Rightarrow> bool" where
  "enum_text_builtin ob \<longleftrightarrow> o_base ob \<in> {BTuple, BList, BDict, BSet, BFrozenset, BBytes, BByteArray}"

definition container_base :: "pyobj \<Rightarrow> bool" where
  "container_base ob \<longleftrightarrow> o_base ob \<in> {BTuple, BList, BDict, BSet, BFrozenset}"

subsection \<open>Containers\<close>

type_synonym children = "(ref \<Rightarrow> cst \<Rightarrow> jval \<times> cst) \<times> (ref \<Rightarrow> cst \<Rightarrow> pystr \<times> cst)"

fun mapping_loop ::
  "limits \<Rightarrow> children \<Rightarrow> (ref \<times> ref) list \<Rightarrow> pyexn option \<Rightarrow> event \<Rightarrow> cst \<Rightarrow> event result \<times> cst" where
  "mapping_loop L c [] raises out st = (case raises of None \<Rightarrow> (Inr out, st) | Some e \<Rightarrow> (Inl e, st))"
| "mapping_loop L c ((kr, vr) # items) raises out st =
     (if length out \<ge> max_keys L then (Inr out, mark st)
      else let (name, st1) = snd c kr st
           in case stopped st1 of
                Some p \<Rightarrow> (Inr (dict_set p (JStr p) out), st1)
              | None \<Rightarrow>
                  let (j, st2) = fst c vr st1; out2 = dict_set name j out
                  in if stopped st2 \<noteq> None then (Inr out2, st2)
                     else mapping_loop L c items raises out2 st2)"

fun members_loop ::
  "limits \<Rightarrow> children \<Rightarrow> ref list \<Rightarrow> pyexn option \<Rightarrow> jval list \<Rightarrow> cst \<Rightarrow> jval list result \<times> cst" where
  "members_loop L c [] raises out st = (case raises of None \<Rightarrow> (Inr out, st) | Some e \<Rightarrow> (Inl e, st))"
| "members_loop L c (r # rs) raises out st =
     (if length out \<ge> max_keys L then (Inr out, mark st)
      else let (j, st1) = fst c r st; out1 = out @ [j]
           in if stopped st1 \<noteq> None then (Inr out1, st1) else members_loop L c rs raises out1 st1)"

definition push_parent :: "ref \<Rightarrow> cst \<Rightarrow> cst" where
  "push_parent r st = st\<lparr>parents := r # parents st\<rparr>"

definition pop_parent :: "cst \<Rightarrow> cst" where
  "pop_parent st = st\<lparr>parents := tl (parents st)\<rparr>"

definition c_mapping :: "limits \<Rightarrow> heap \<Rightarrow> children \<Rightarrow> ref \<Rightarrow> cst \<Rightarrow> jval result \<times> cst" where
  "c_mapping L h c r st =
     (if r \<in> set (parents st) then (Inr (JStr CIRCULAR), st)
      else let (res, st1) = mapping_loop L c (o_items (h r)) (o_raises (h r)) [] (push_parent r st)
           in (map_sum id JDict res, pop_parent st1))"

definition c_members :: "limits \<Rightarrow> heap \<Rightarrow> children \<Rightarrow> ref \<Rightarrow> cst \<Rightarrow> jval result \<times> cst" where
  "c_members L h c r st =
     (if r \<in> set (parents st) then (Inr (JStr CIRCULAR), st)
      else let (res, st1) = members_loop L c (o_members (h r)) (o_raises (h r)) [] (push_parent r st)
           in (map_sum id JList res, pop_parent st1))"

subsection \<open>Values\<close>

definition ok_str :: "pystr \<times> cst \<Rightarrow> jval result \<times> cst" where
  "ok_str p = (Inr (JStr (fst p)), snd p)"

definition ok_val :: "jval \<times> cst \<Rightarrow> jval result \<times> cst" where
  "ok_val p = (Inr (fst p), snd p)"

definition produce :: "limits \<Rightarrow> pystr result \<Rightarrow> cst \<Rightarrow> jval result \<times> cst" where
  "produce L t st = (case t of Inl e \<Rightarrow> (Inl e, st) | Inr s \<Rightarrow> ok_str (c_produced L s st))"

text \<open>Reads through an unbound accessor, which raises \<^verbatim>\<open>TypeError\<close> for an impostor.\<close>

definition read_text :: "limits \<Rightarrow> pyobj \<Rightarrow> cst \<Rightarrow> jval result \<times> cst" where
  "read_text L ob st = (if o_base ob = BStr then ok_str (c_text L (o_text ob) st) else (Inl TypeError, st))"

definition read_int :: "limits \<Rightarrow> pyobj \<Rightarrow> cst \<Rightarrow> jval result \<times> cst" where
  "read_int L ob st = (if is_int ob then ok_val (c_integer L (o_int ob) st) else (Inl TypeError, st))"

definition read_float :: "limits \<Rightarrow> pyobj \<Rightarrow> cst \<Rightarrow> jval result \<times> cst" where
  "read_float L ob st =
     (if o_base ob = BFloat then ok_val (c_real L (o_float ob) st) else (Inl TypeError, st))"

definition enum_branch :: "limits \<Rightarrow> heap \<Rightarrow> pyobj \<Rightarrow> cst \<Rightarrow> jval result \<times> cst" where
  "enum_branch L h ob st =
     (case o_value ob of
        Inl e \<Rightarrow> (Inl e, st)
      | Inr m \<Rightarrow>
        (let member = h m in
         if o_base member = BInt \<and> o_exact member then ok_val (c_integer L (o_int member) st)
         else if_inst member (o_base member = BFloat) CFloat st
           (read_float L member st)
           (if o_base member = BBool then (Inr (JBool (o_int member \<noteq> 0)), st)
            else if o_base member = BNone then (Inr JNull, st)
            else if_inst member (o_base member = BStr) CStr st
              (read_text L member st)
              (if enum_text_builtin ob then produce L (enum_text ob) st
               else produce L (o_str ob) st))))"

definition dispatch_rest :: "limits \<Rightarrow> heap \<Rightarrow> children \<Rightarrow> ref \<Rightarrow> cst \<Rightarrow> jval result \<times> cst" where
  "dispatch_rest L h c r st =
     (let ob = h r in
      if_inst ob (is_int ob) CInt st (read_int L ob st) (
      if_inst ob (o_base ob = BFloat) CFloat st (read_float L ob st) (
      if o_base ob = BStr then ok_str (c_text L (o_text ob) st)
      else if o_base ob \<in> {BBytes, BByteArray, BMemoryView} then
        (let (t, st1) = c_decoded (head_bytes L ob) st in ok_str (c_text L t st1))
      else if o_base ob = BDict then c_mapping L h c r st
      else if o_base ob \<in> {BTuple, BList, BSet, BFrozenset} then c_members L h c r st
      else
      if_inst ob False CTime st (produce L (o_iso ob) st) (
      if_inst ob False CUUID st (produce L (o_str ob) st) (
      if_inst ob False CDecimal st (produce L (o_str ob) st) (
      if_inst ob False CMapping st (c_mapping L h c r st) (
      if_inst ob False CSet st (c_members L h c r st) (
      if_inst ob False CSequence st
        (if_inst ob (is_textlike ob) CTextlike st
           (ok_str (c_placeholder L ob st))
           (if_inst ob False CStr st
              (ok_str (c_placeholder L ob st))
              (c_members L h c r st)))
        (ok_str (c_placeholder L ob st)))))))))) "

fun dispatch :: "limits \<Rightarrow> heap \<Rightarrow> children option \<Rightarrow> ref \<Rightarrow> cst \<Rightarrow> jval result \<times> cst" where
  "dispatch L h None r st = (Inr (JStr DEPTH_LIMIT), mark st)"
| "dispatch L h (Some c) r st =
     (let ob = h r in
      if o_base ob = BNone then (Inr JNull, st)
      else if o_exact ob \<and> o_base ob = BStr then ok_str (c_text L (o_text ob) st)
      else if o_exact ob \<and> o_base ob = BInt then ok_val (c_integer L (o_int ob) st)
      else if o_exact ob \<and> o_base ob = BFloat then ok_val (c_real L (o_float ob) st)
      else if o_base ob = BBool then (Inr (JBool (o_int ob \<noteq> 0)), st)
      else if o_exact ob \<and> o_base ob = BDict then c_mapping L h c r st
      else if o_exact ob \<and> o_base ob = BList then c_members L h c r st
      else
      if_inst ob (o_enum ob) CEnum st
        (if o_enum ob \<or> \<not> real_routed ob then enum_branch L h ob st else dispatch_rest L h c r st)
        (dispatch_rest L h c r st))"

definition coerce_value :: "limits \<Rightarrow> heap \<Rightarrow> children option \<Rightarrow> ref \<Rightarrow> cst \<Rightarrow> jval \<times> cst" where
  "coerce_value L h ch r st =
     (if nodes st \<ge> max_nodes L then (JStr NODE_LIMIT, halt NODE_LIMIT st)
      else let st = st\<lparr>nodes := nodes st + 1\<rparr>
           in case dispatch L h ch r st of
                (Inr j, st1) \<Rightarrow> (j, st1)
              | (Inl e, st1) \<Rightarrow> (let (t, st2) = c_placeholder L (h r) st1 in (JStr t, st2)))"

subsection \<open>Keys\<close>

definition container_key :: "limits \<Rightarrow> heap \<Rightarrow> children option \<Rightarrow> ref \<Rightarrow> cst \<Rightarrow> pystr result \<times> cst" where
  "container_key L h ch r st =
     (if nodes st \<ge> max_nodes L then (Inr NODE_LIMIT, halt NODE_LIMIT st)
      else
       let st = st\<lparr>nodes := nodes st + 1\<rparr>;
           (coerced, st1) =
             (case ch of
                None \<Rightarrow> (Inr (JStr DEPTH_LIMIT), mark st)
              | Some c \<Rightarrow> if o_base (h r) = BDict then c_mapping L h c r st else c_members L h c r st)
       in case coerced of
            Inl e \<Rightarrow> (Inl e, st1)
          | Inr j \<Rightarrow>
              (case stopped st1 of
                 Some p \<Rightarrow> (Inr p, st1)
               | None \<Rightarrow>
                   let (clipped, altered, _) = clip (json_dumps False (frepr L) j) (max_value_bytes L)
                   in (Inr clipped, if altered then mark st1 else st1)))"

definition bytes_key_fits :: "limits \<Rightarrow> pyobj \<Rightarrow> cst \<Rightarrow> bool" where
  "bytes_key_fits L ob st \<longleftrightarrow> charged st + 4 * length (o_bytes ob) + 3 \<le> max_bytes L"

definition produce_key :: "limits \<Rightarrow> pystr result \<Rightarrow> cst \<Rightarrow> pystr result \<times> cst" where
  "produce_key L t st = (case t of Inl e \<Rightarrow> (Inl e, st) | Inr s \<Rightarrow> (let (k, st1) = c_produced L s st in (Inr k, st1)))"

definition int_key :: "limits \<Rightarrow> pyobj \<Rightarrow> cst \<Rightarrow> pystr result \<times> cst" where
  "int_key L ob st =
     (if \<not> is_int ob then (Inl TypeError, st)
      else let rendered = rendered_length (o_int ob)
           in if rendered \<le> int_ceiling L then
                (if charged st + rendered - 1 > max_bytes L then (Inr SIZE_LIMIT, halt SIZE_LIMIT st)
                 else produce_key L (o_str ob) st)
              else produce_key L (Inr (int_placeholder (o_int ob))) (mark st))"

definition float_key :: "limits \<Rightarrow> pyobj \<Rightarrow> cst \<Rightarrow> pystr result \<times> cst" where
  "float_key L ob st =
     (if o_base ob \<noteq> BFloat then (Inl TypeError, st)
      else case c_real L (o_float ob) st of
             (JStr s, st1) \<Rightarrow> produce_key L (Inr s) st1
           | (_, st1) \<Rightarrow> produce_key L (Inr (float_name (frepr L) (o_float ob))) st1)"

definition key_rest :: "limits \<Rightarrow> pyobj \<Rightarrow> cst \<Rightarrow> pystr result \<times> cst" where
  "key_rest L ob st =
     (if (o_base ob = BBytes \<or> o_base ob = BByteArray) \<and> \<not> bytes_key_fits L ob st
      then (Inr SIZE_LIMIT, halt SIZE_LIMIT st)
      else produce_key L (o_str ob) st)"

definition key_raw :: "limits \<Rightarrow> heap \<Rightarrow> children option \<Rightarrow> ref \<Rightarrow> cst \<Rightarrow> pystr result \<times> cst" where
  "key_raw L h ch r st =
     (let ob = h r in
      if container_base ob \<and> \<not> o_enum ob then container_key L h ch r st
      else if o_enum ob \<and> enum_text_builtin ob then produce_key L (enum_text ob) st
      else
      if_inst ob (o_base ob = BStr) CStr st
        (if o_base ob = BStr then (let (t, st1) = c_text L (o_text ob) st in (Inr t, st1))
         else (Inl TypeError, st)) (
      if_inst ob (is_int ob) CInt st
        (if o_base ob \<noteq> BBool then int_key L ob st
         else if_inst ob False CFloat st (float_key L ob st) (key_rest L ob st)) (
      if_inst ob (o_base ob = BFloat) CFloat st
        (if \<not> o_enum ob then float_key L ob st else key_rest L ob st)
        (key_rest L ob st))))"

definition coerce_key :: "limits \<Rightarrow> heap \<Rightarrow> children option \<Rightarrow> ref \<Rightarrow> cst \<Rightarrow> pystr \<times> cst" where
  "coerce_key L h ch r st =
     (case key_raw L h ch r st of
        (Inr k, st1) \<Rightarrow> (k, st1)
      | (Inl e, st1) \<Rightarrow>
          c_produced L (str ''<unserializable key: '' @ type_name (h r) @ str ''>'') (mark st1))"

subsection \<open>The pass\<close>

primrec level :: "limits \<Rightarrow> heap \<Rightarrow> nat \<Rightarrow> children" where
  "level L h 0 = (coerce_value L h None, coerce_key L h None)"
| "level L h (Suc n) = (coerce_value L h (Some (level L h n)), coerce_key L h (Some (level L h n)))"

definition coerce :: "limits \<Rightarrow> heap \<Rightarrow> ref \<Rightarrow> jval" where
  "coerce L h r = fst (fst (level L h (max_depth L)) r new_coercer)"

definition sanitize_fields :: "limits \<Rightarrow> heap \<Rightarrow> ref \<Rightarrow> event \<times> bool" where
  "sanitize_fields L h r =
     (case c_mapping L h (level L h (max_depth L)) r new_coercer of
        (Inr (JDict d), st) \<Rightarrow> (d, truncated st)
      | _ \<Rightarrow> ([], True))"

text \<open>The limits one pass runs with: the config's ceilings and the module's budgets, and for
  \<^verbatim>\<open>_coerce_unbounded\<close> the types-only ceilings with no budget (\<^verbatim>\<open>sys.maxsize\<close> an argument).\<close>

definition budgeted :: "int \<Rightarrow> nat \<Rightarrow> nat \<Rightarrow> nat \<Rightarrow> (rat \<Rightarrow> pystr) \<Rightarrow> limits" where
  "budgeted digit_limit mvb mk md fr =
     \<lparr>max_value_bytes = mvb, max_keys = mk, max_depth = md,
      int_ceiling = int_digit_ceiling digit_limit mvb,
      max_nodes = MAX_NODES, max_bytes = MAX_RENDERED_BYTES, frepr = fr\<rparr>"

definition TRANSFORM_MAX_DEPTH :: nat where "TRANSFORM_MAX_DEPTH = 100"

definition types_only :: "int \<Rightarrow> nat \<Rightarrow> (rat \<Rightarrow> pystr) \<Rightarrow> limits" where
  "types_only digit_limit maxsize fr =
     \<lparr>max_value_bytes = maxsize, max_keys = maxsize, max_depth = TRANSFORM_MAX_DEPTH,
      int_ceiling = int_digit_ceiling digit_limit maxsize,
      max_nodes = maxsize, max_bytes = maxsize, frepr = fr\<rparr>"

definition coerce_unbounded :: "int \<Rightarrow> nat \<Rightarrow> (rat \<Rightarrow> pystr) \<Rightarrow> heap \<Rightarrow> ref \<Rightarrow> (event \<times> bool) result" where
  "coerce_unbounded digit_limit maxsize fr h r =
     (let L = types_only digit_limit maxsize fr
      in case c_mapping L h (level L h (max_depth L)) r new_coercer of
           (Inl e, _) \<Rightarrow> Inl e
         | (Inr (JDict d), st) \<Rightarrow> Inr (d, truncated st)
         | (Inr _, _) \<Rightarrow> Inl TypeError)"

end
