(* ===== verification/Coercer_Laws.thy ===== *)
theory Coercer_Laws
  imports Coercer
begin

text \<open>
  What the coercion pass promises, for every heap: it returns (every definition of the pass is a
  total function), what it returns is JSON within the ceilings, and neither the node budget nor
  the byte budget is ever exceeded. The contract between one depth and the next is the locale
  \<open>child_level\<close>: the source's methods are proved against it once, and the interpretation at
  every level discharges it for the model itself.
\<close>

subsection \<open>Well-formed inputs and results\<close>

text \<open>Every \<^verbatim>\<open>str\<close> an object holds or a method returns is a sequence of code points.\<close>

definition wf_res :: "pystr result \<Rightarrow> bool" where
  "wf_res t \<longleftrightarrow> (case t of Inr s \<Rightarrow> wf_text s | Inl _ \<Rightarrow> True)"

definition wf_obj :: "pyobj \<Rightarrow> bool" where
  "wf_obj ob \<longleftrightarrow> wf_text (o_text ob) \<and> wf_res (o_str ob) \<and> wf_res (o_iso ob) \<and>
     wf_res (o_member_name ob) \<and> (\<forall>n. o_name ob = Some n \<longrightarrow> wf_text n)"

definition wf_world :: "limits \<Rightarrow> heap \<Rightarrow> bool" where
  "wf_world L h \<longleftrightarrow> (\<forall>r. wf_obj (h r)) \<and> (\<forall>q. wf_text (frepr L q))"

text \<open>The texts the pass writes: bounded by the ceiling, or one of its own placeholders.\<close>

definition str_good :: "limits \<Rightarrow> pystr \<Rightarrow> bool" where
  "str_good L s \<longleftrightarrow> (\<forall>c \<in> set s. scalar c) \<and>
     (utf8_size s \<le> max (max_value_bytes L) MARKER_BYTES
      \<or> s \<in> {CIRCULAR, DEPTH_LIMIT, NODE_LIMIT, SIZE_LIMIT}
      \<or> (\<exists>i. s = int_placeholder i)
      \<or> (\<exists>f. \<not> finite_flt f \<and> s = str ''<float: '' @ float_name (frepr L) f @ str ''>''))"

fun jgood :: "limits \<Rightarrow> jval \<Rightarrow> bool" where
  "jgood L (JInt i) = (rendered_length i \<le> int_ceiling L)"
| "jgood L (JFloat f) = finite_flt f"
| "jgood L (JStr s) = str_good L s"
| "jgood L (JList js) = (length js \<le> max_keys L \<and> (\<forall>j \<in> set js. jgood L j))"
| "jgood L (JDict kvs) =
     (length kvs \<le> max_keys L \<and> dict_wf kvs \<and> (\<forall>(k, j) \<in> set kvs. str_good L k \<and> jgood L j))"
| "jgood L _ = True"

subsection \<open>How the state evolves\<close>

definition st_ok :: "limits \<Rightarrow> cst \<Rightarrow> bool" where
  "st_ok L st \<longleftrightarrow> nodes st \<le> max_nodes L \<and> charged st \<le> max_bytes L \<and>
     (\<forall>p. stopped st = Some p \<longrightarrow> p = NODE_LIMIT \<or> p = SIZE_LIMIT)"

definition evolves :: "limits \<Rightarrow> cst \<Rightarrow> cst \<Rightarrow> bool" where
  "evolves L st st' \<longleftrightarrow> st_ok L st' \<and> nodes st \<le> nodes st' \<and> charged st \<le> charged st' \<and>
     parents st' = parents st \<and> (truncated st \<longrightarrow> truncated st') \<and>
     (stopped st = None \<and> stopped st' \<noteq> None \<longrightarrow> truncated st')"

definition extra :: "cst \<Rightarrow> nat" where
  "extra st = (if stopped st = None then 0 else 1)"

lemma evolves_refl [simp]: "st_ok L st \<Longrightarrow> evolves L st st"
  by (auto simp: evolves_def)

lemma evolves_trans: "evolves L a b \<Longrightarrow> evolves L b c \<Longrightarrow> evolves L a c"
  unfolding evolves_def by (metis order_trans)

lemma evolves_ok: "evolves L a b \<Longrightarrow> st_ok L b"
  by (simp add: evolves_def)

lemma evolves_mark: "evolves L a b \<Longrightarrow> evolves L a (mark b)"
  by (auto simp: evolves_def mark_def st_ok_def)

lemma evolves_halt: "st_ok L st \<Longrightarrow> p = NODE_LIMIT \<or> p = SIZE_LIMIT \<Longrightarrow> evolves L st (halt p st)"
  by (auto simp: evolves_def halt_def st_ok_def)

lemma evolves_push_pop:
  "evolves L (push_parent r st) st' \<Longrightarrow> evolves L st (pop_parent st')"
  by (auto simp: evolves_def push_parent_def pop_parent_def st_ok_def)

lemma push_simps [simp]:
  "nodes (push_parent r st) = nodes st" "stopped (push_parent r st) = stopped st"
  "st_ok L (push_parent r st) = st_ok L st"
  by (simp_all add: push_parent_def st_ok_def)

lemma pop_simps [simp]: "nodes (pop_parent st) = nodes st" "extra (pop_parent st) = extra st"
  by (simp_all add: pop_parent_def extra_def)

text \<open>The contract of a step that returns a text, and of one that returns a value or raises;
  \<open>e\<close> is how many values of the result are not yet counted as nodes.\<close>

definition text_law :: "limits \<Rightarrow> cst \<Rightarrow> pystr \<times> cst \<Rightarrow> bool" where
  "text_law L st p \<longleftrightarrow> str_good L (fst p) \<and> evolves L st (snd p)"

definition val_law :: "limits \<Rightarrow> nat \<Rightarrow> nat \<Rightarrow> cst \<Rightarrow> jval \<times> cst \<Rightarrow> bool" where
  "val_law L n e st p \<longleftrightarrow> jgood L (fst p) \<and> jdepth (fst p) \<le> n \<and> evolves L st (snd p) \<and>
     (stopped st = None \<longrightarrow> jnodes (fst p) + nodes st \<le> nodes (snd p) + e + extra (snd p))"

definition res_law :: "limits \<Rightarrow> nat \<Rightarrow> nat \<Rightarrow> cst \<Rightarrow> jval result \<times> cst \<Rightarrow> bool" where
  "res_law L n e st p \<longleftrightarrow>
     (case fst p of Inr j \<Rightarrow> val_law L n e st (j, snd p) | Inl _ \<Rightarrow> evolves L st (snd p))"

definition key_law :: "limits \<Rightarrow> cst \<Rightarrow> pystr result \<times> cst \<Rightarrow> bool" where
  "key_law L st p \<longleftrightarrow>
     (case fst p of Inr k \<Rightarrow> text_law L st (k, snd p) | Inl _ \<Rightarrow> evolves L st (snd p))"

subsection \<open>Scalars\<close>

lemma scalar_literal: "\<forall>c \<in> set s. of_char c < (128::nat) \<Longrightarrow> c \<in> set (str s) \<Longrightarrow> scalar c"
  by (auto simp: str_def scalar_def is_surrogate_def)

lemma wf_text_simps [simp]:
  "wf_text []" "wf_text (c # t) \<longleftrightarrow> c \<le> 1114111 \<and> wf_text t"
  "wf_text (s @ t) \<longleftrightarrow> wf_text s \<and> wf_text t"
  by (auto simp: wf_text_def)

lemma wf_text_str [simp]: "wf_text (str s)"
proof -
  have "of_char c \<le> (1114111::nat)" for c :: char
    using nat_of_char_less_256 [of c] by linarith
  then show ?thesis by (auto simp: wf_text_def str_def)
qed

lemma ascii_scalar: "ascii_text t \<Longrightarrow> c \<in> set t \<Longrightarrow> scalar c"
  by (auto simp: ascii_text_def scalar_def is_surrogate_def)

lemma ascii_wf: "ascii_text t \<Longrightarrow> wf_text t"
  by (auto simp: ascii_text_def wf_text_def)

lemma placeholder_ascii:
  "ascii_text CIRCULAR" "ascii_text DEPTH_LIMIT" "ascii_text NODE_LIMIT" "ascii_text SIZE_LIMIT"
  "ascii_text (int_placeholder i)"
  "\<not> finite_flt f \<Longrightarrow> ascii_text (str ''<float: '' @ float_name fr f @ str ''>'')"
  by (cases f; simp add: CIRCULAR_def DEPTH_LIMIT_def NODE_LIMIT_def SIZE_LIMIT_def
      int_placeholder_def str_def finite_flt_def)+

lemma str_good_placeholder [simp]:
  "str_good L CIRCULAR" "str_good L DEPTH_LIMIT" "str_good L NODE_LIMIT" "str_good L SIZE_LIMIT"
  "str_good L (int_placeholder i)"
  "\<not> finite_flt f \<Longrightarrow> str_good L (str ''<float: '' @ float_name (frepr L) f @ str ''>'')"
  unfolding str_good_def using ascii_scalar [OF placeholder_ascii(1)]
    ascii_scalar [OF placeholder_ascii(2)] ascii_scalar [OF placeholder_ascii(3)]
    ascii_scalar [OF placeholder_ascii(4)] ascii_scalar [OF placeholder_ascii(5)]
    ascii_scalar [OF placeholder_ascii(6)]
  by blast+

lemma str_good_clip: "wf_text t \<Longrightarrow> str_good L (fst (clip t (max_value_bytes L)))"
  using clip_spec_scalar [of t] clip_spec_size [of t "max_value_bytes L"]
  by (auto simp: clip_eq str_good_def)

lemma charge_text_law:
  assumes "str_good L clipped" and "st_ok L st"
  shows "text_law L st (charge_text L clipped altered cost st)"
  using assms evolves_halt [of L st SIZE_LIMIT]
  by (auto simp: text_law_def charge_text_def Let_def evolves_def st_ok_def mark_def)

lemma c_text_law: "wf_text t \<Longrightarrow> st_ok L st \<Longrightarrow> text_law L st (c_text L t st)"
  using charge_text_law [OF str_good_clip] by (simp add: c_text_def split: prod.splits) (metis fst_conv)

lemma c_produced_law: "wf_text t \<Longrightarrow> st_ok L st \<Longrightarrow> text_law L st (c_produced L t st)"
  using charge_text_law [OF str_good_clip] by (simp add: c_produced_def Let_def split: prod.splits) (metis fst_conv)

text \<open>A text is a value of depth 0 that counts one node.\<close>

lemma scalar_val_law:
  "evolves L st st' \<Longrightarrow> jgood L j \<Longrightarrow> jdepth j = 0 \<Longrightarrow> jnodes j = Suc 0 \<Longrightarrow> val_law L n (Suc 0) st (j, st')"
  by (auto simp: val_law_def evolves_def)

lemma text_val_law: "text_law L st (s, st') \<Longrightarrow> val_law L n (Suc 0) st (JStr s, st')"
  by (auto simp: text_law_def intro: scalar_val_law)

lemma ok_str_law: "text_law L st p \<Longrightarrow> res_law L n (Suc 0) st (ok_str p)"
  using text_val_law [of L st "fst p" "snd p"] by (simp add: res_law_def ok_str_def)

lemma c_integer_law: "st_ok L st \<Longrightarrow> val_law L n (Suc 0) st (c_integer L i st)"
  by (auto simp: c_integer_def Let_def evolves_def st_ok_def
      intro!: scalar_val_law evolves_mark evolves_halt)

lemma c_real_law: "st_ok L st \<Longrightarrow> val_law L n (Suc 0) st (c_real L f st)"
  by (auto simp: c_real_def intro!: scalar_val_law evolves_mark)

lemma ok_val_law: "val_law L n (Suc 0) st p \<Longrightarrow> res_law L n (Suc 0) st (ok_val p)"
  by (simp add: res_law_def ok_val_def)

lemma res_law_const:
  "st_ok L st \<Longrightarrow> jgood L j \<Longrightarrow> jdepth j = 0 \<Longrightarrow> jnodes j = Suc 0 \<Longrightarrow> res_law L n (Suc 0) st (Inr j, st)"
  "st_ok L st \<Longrightarrow> res_law L n e st (Inl x, st)"
  by (auto simp: res_law_def val_law_def)

lemma wf_type_name: "wf_obj ob \<Longrightarrow> wf_text (type_name ob)"
  by (auto simp: type_name_def wf_obj_def split: option.splits)

lemma wf_enum_text: "wf_obj ob \<Longrightarrow> wf_res (enum_text ob)"
  using wf_type_name [of ob]
  by (auto simp: enum_text_def wf_res_def wf_obj_def split: sum.splits)

lemma produce_law: "wf_res t \<Longrightarrow> st_ok L st \<Longrightarrow> res_law L n (Suc 0) st (produce L t st)"
  by (cases t) (auto simp: produce_def wf_res_def intro: res_law_const ok_str_law c_produced_law)

lemma c_placeholder_law: "wf_obj ob \<Longrightarrow> st_ok L st \<Longrightarrow> text_law L st (c_placeholder L ob st)"
  unfolding c_placeholder_def by (rule c_produced_law) (simp_all add: wf_type_name)

lemma read_laws:
  assumes "wf_obj ob" and "st_ok L st"
  shows "res_law L n (Suc 0) st (read_text L ob st)" and "res_law L n (Suc 0) st (read_int L ob st)"
    and "res_law L n (Suc 0) st (read_float L ob st)"
  using assms
  by (auto simp: read_text_def read_int_def read_float_def wf_obj_def
      intro!: res_law_const ok_str_law c_text_law ok_val_law c_integer_law c_real_law)

lemma decoded_wf: "wf_text (fst (c_decoded bs st))"
proof (cases "decode_strict bs")
  case (Inr t)
  have "decode_strict bs = Inr t \<Longrightarrow> \<forall>c \<in> set t. scalar c" for t
  proof (induction bs arbitrary: t rule: decode_strict.induct)
    case (2 b bs)
    then show ?case
      using decode_step_scalar [of "b # bs"]
      by (cases "decode_step (b # bs)"; cases "decode_strict (drop (case decode_step (b # bs) of Good _ n \<Rightarrow> n - 1 | Bad n \<Rightarrow> 0) bs)")
        auto
  qed simp
  with Inr show ?thesis by (auto simp: c_decoded_def wf_text_def scalar_def)
next
  case (Inl e)
  have "\<forall>c \<in> set (decode_replace bs). scalar c"
    unfolding decode_replace_def by (rule decode_with_scalar) (simp add: scalar_def is_surrogate_def)
  with Inl show ?thesis by (auto simp: c_decoded_def wf_text_def scalar_def)
qed

lemma decoded_evolves: "st_ok L st \<Longrightarrow> evolves L st (snd (c_decoded bs st))"
  by (auto simp: c_decoded_def split: sum.splits intro: evolves_mark)

lemma if_inst_res_law:
  assumes "st_ok L st" and "res_law L n e st yes" and "res_law L n e st no"
  shows "res_law L n e st (if_inst ob isa c st yes no)"
  using assms by (auto simp: if_inst_def intro: res_law_const split: sum.splits)

lemma if_inst_key_law:
  assumes "st_ok L st" and "key_law L st yes" and "key_law L st no"
  shows "key_law L st (if_inst ob isa c st yes no)"
  using assms by (auto simp: if_inst_def key_law_def split: sum.splits)

lemma enum_branch_law:
  assumes "wf_world L h" and "wf_obj ob" and "st_ok L st"
  shows "res_law L n (Suc 0) st (enum_branch L h ob st)"
proof (cases "o_value ob")
  case (Inl e)
  then show ?thesis using assms by (simp add: enum_branch_def res_law_const)
next
  case (Inr m)
  then have "wf_obj (h m)" using assms by (simp add: wf_world_def)
  with Inr assms show ?thesis
    by (auto simp: enum_branch_def Let_def wf_obj_def
        intro!: if_inst_res_law read_laws ok_val_law c_integer_law res_law_const produce_law wf_enum_text)
qed

lemma produce_key_law: "wf_res t \<Longrightarrow> st_ok L st \<Longrightarrow> key_law L st (produce_key L t st)"
  using c_produced_law [of "projr t" L st]
  by (cases t; cases "c_produced L (projr t) st") (auto simp: produce_key_def wf_res_def key_law_def)

lemma key_law_mark: "key_law L (mark st) p \<Longrightarrow> st_ok L st \<Longrightarrow> key_law L st p"
  using evolves_trans [OF evolves_mark [OF evolves_refl]]
  by (auto simp: key_law_def text_law_def split: sum.splits)

lemma st_ok_mark [simp]: "st_ok L (mark st) = st_ok L st"
  by (simp add: st_ok_def mark_def)

lemma key_law_const:
  "st_ok L st \<Longrightarrow> key_law L st (Inl e, st)"
  "st_ok L st \<Longrightarrow> key_law L st (Inr SIZE_LIMIT, halt SIZE_LIMIT st)"
  "st_ok L st \<Longrightarrow> key_law L st (Inr NODE_LIMIT, halt NODE_LIMIT st)"
  by (auto simp: key_law_def text_law_def evolves_halt)

lemma key_law_if:
  "(b \<Longrightarrow> key_law L st x) \<Longrightarrow> (\<not> b \<Longrightarrow> key_law L st y) \<Longrightarrow> key_law L st (if b then x else y)"
  by simp

lemma res_law_if:
  "(b \<Longrightarrow> res_law L n e st x) \<Longrightarrow> (\<not> b \<Longrightarrow> res_law L n e st y) \<Longrightarrow> res_law L n e st (if b then x else y)"
  by simp

lemma int_key_law:
  assumes "wf_obj ob" and "st_ok L st"
  shows "key_law L st (int_key L ob st)"
proof -
  have "wf_res (o_str ob)" "wf_res (Inr (int_placeholder (o_int ob)))"
    using assms ascii_wf [OF placeholder_ascii(5)] by (auto simp: wf_obj_def wf_res_def)
  then show ?thesis
    unfolding int_key_def Let_def
    by (intro key_law_if key_law_const produce_key_law key_law_mark [OF produce_key_law] assms)
      (simp_all add: assms)
qed

lemma float_key_law:
  assumes "wf_world L h" and "st_ok L st"
  shows "key_law L st (float_key L ob st)"
proof (cases "finite_flt (o_float ob)")
  case True
  then obtain q where "o_float ob = Fin q" by (auto simp: finite_flt_def)
  with assms show ?thesis
    by (auto simp: float_key_def c_real_def finite_flt_def wf_world_def wf_res_def
        intro!: produce_key_law) (simp add: key_law_def)
next
  case False
  then have "wf_text (str ''<float: '' @ float_name (frepr L) (o_float ob) @ str ''>'')"
    using placeholder_ascii(6) ascii_wf by blast
  with False assms show ?thesis
    by (auto simp: float_key_def c_real_def wf_res_def intro!: key_law_mark [OF produce_key_law])
      (simp add: key_law_def)
qed

lemma key_rest_law: "wf_obj ob \<Longrightarrow> st_ok L st \<Longrightarrow> key_law L st (key_rest L ob st)"
  unfolding key_rest_def by (intro key_law_if key_law_const produce_key_law) (simp_all add: wf_obj_def)

subsection \<open>One depth above another\<close>

definition jsum :: "event \<Rightarrow> nat" where
  "jsum d = sum_list (map (\<lambda>(k, j). jnodes j) d)"

lemma jsum_simps [simp]: "jsum [] = 0" "jsum ((k, j) # d) = jnodes j + jsum d"
  by (simp_all add: jsum_def)

lemma jsum_dict_set: "jsum (dict_set k j d) \<le> jsum d + jnodes j"
  by (induction k j d rule: dict_set.induct) auto

lemma jnodes_JDict: "jnodes (JDict d) = Suc (jsum d)"
  by (simp add: jsum_def)

text \<open>The dictionary built so far by \<^verbatim>\<open>mapping\<close>, whose values come from a level \<open>n\<close>.\<close>

definition out_ok :: "limits \<Rightarrow> nat \<Rightarrow> event \<Rightarrow> bool" where
  "out_ok L n d \<longleftrightarrow> length d \<le> max_keys L \<and> dict_wf d \<and>
     (\<forall>(k, j) \<in> set d. str_good L k \<and> jgood L j \<and> jdepth j \<le> n)"

lemma out_ok_set:
  assumes "out_ok L n d" and "length d < max_keys L" and "str_good L k" and "jgood L j" and "jdepth j \<le> n"
  shows "out_ok L n (dict_set k j d)"
  using assms set_dict_set [of k j d] length_dict_set_le [of k j d]
  by (fastforce simp: out_ok_def)

lemma jdepth_le:
  "(\<And>j. j \<in> set js \<Longrightarrow> jdepth j \<le> n) \<Longrightarrow> jdepth (JList js) \<le> Suc n"
  "(\<And>k j. (k, j) \<in> set d \<Longrightarrow> jdepth j \<le> n) \<Longrightarrow> jdepth (JDict d) \<le> Suc n"
  by (auto intro!: Max.boundedI)

locale child_level =
  fixes L :: limits and h :: heap and n :: nat and c :: children
  assumes child_val: "wf_world L h \<Longrightarrow> st_ok L st \<Longrightarrow> val_law L n 0 st (fst c r st)"
    and child_key: "wf_world L h \<Longrightarrow> st_ok L st \<Longrightarrow> text_law L st (snd c r st)"
begin

lemma mapping_loop_law:
  assumes "wf_world L h" and "st_ok L st" and "out_ok L n out"
    and "mapping_loop L c items raises out st = (res, st')"
  shows "evolves L st st' \<and> (\<forall>d. res = Inr d \<longrightarrow> out_ok L n d \<and>
    (stopped st = None \<longrightarrow> jsum d + nodes st \<le> nodes st' + jsum out + extra st'))"
  using assms(2-)
proof (induction items arbitrary: out st)
  case Nil
  then show ?case by (auto split: option.splits)
next
  case (Cons kv items)
  obtain kr vr where kv: "kv = (kr, vr)" by (cases kv)
  obtain name st1 where k: "snd c kr st = (name, st1)" by (cases "snd c kr st")
  have klaw: "str_good L name" "evolves L st st1"
    using child_key [OF assms(1) Cons.prems(1), of kr] k by (auto simp: text_law_def)
  show ?case
  proof (cases "length out \<ge> max_keys L")
    case True
    then show ?thesis using Cons.prems kv by (auto intro: evolves_mark simp: evolves_def mark_def st_ok_def)
  next
    case room: False
    show ?thesis
    proof (cases "stopped st1")
      case (Some p)
      then have "str_good L p" using klaw(2) by (auto simp: evolves_def st_ok_def)
      then have "out_ok L n (dict_set p (JStr p) out)"
        using Cons.prems(2) room by (intro out_ok_set) auto
      moreover have "jsum (dict_set p (JStr p) out) \<le> jsum out + 1"
        using jsum_dict_set [of p "JStr p" out] by simp
      ultimately show ?thesis using Cons.prems(3) kv k room Some klaw
        by (auto simp: extra_def evolves_def)
    next
      case None
      obtain j st2 where v: "fst c vr st1 = (j, st2)" by (cases "fst c vr st1")
      have vlaw: "jgood L j" "jdepth j \<le> n" "evolves L st1 st2" "jnodes j + nodes st1 \<le> nodes st2 + extra st2"
        using child_val [OF assms(1) evolves_ok [OF klaw(2)], of vr] v None by (auto simp: val_law_def)
      have st2: "evolves L st st2" by (rule evolves_trans [OF klaw(2) vlaw(3)])
      let ?out = "dict_set name j out"
      have out2: "out_ok L n ?out" using Cons.prems(2) room klaw vlaw by (intro out_ok_set) auto
      have sum2: "jsum ?out + nodes st \<le> nodes st2 + jsum out + extra st2"
        using jsum_dict_set [of name j out] vlaw(4) klaw(2) by (auto simp: evolves_def)
      show ?thesis
      proof (cases "stopped st2")
        case (Some p)
        then show ?thesis using Cons.prems(3) kv k room None v st2 out2 sum2 by auto
      next
        case none2: None
        then have rec: "mapping_loop L c items raises ?out st2 = (res, st')"
          using Cons.prems(3) kv k room None v by simp
        have "evolves L st2 st' \<and> (\<forall>d. res = Inr d \<longrightarrow> out_ok L n d \<and>
          (stopped st2 = None \<longrightarrow> jsum d + nodes st2 \<le> nodes st' + jsum ?out + extra st'))"
          by (rule Cons.IH [OF evolves_ok [OF st2] out2 rec])
        with none2 sum2 evolves_trans [OF st2] show ?thesis by (fastforce simp: extra_def)
      qed
    qed
  qed
qed

lemma members_loop_law:
  assumes "wf_world L h" and "st_ok L st"
    and "length out \<le> max_keys L" and "\<forall>j \<in> set out. jgood L j \<and> jdepth j \<le> n"
    and "members_loop L c rs raises out st = (res, st')"
  shows "evolves L st st' \<and> (\<forall>js. res = Inr js \<longrightarrow>
    length js \<le> max_keys L \<and> (\<forall>j \<in> set js. jgood L j \<and> jdepth j \<le> n) \<and>
    (stopped st = None \<longrightarrow>
       sum_list (map jnodes js) + nodes st \<le> nodes st' + sum_list (map jnodes out) + extra st'))"
  using assms(2-)
proof (induction rs arbitrary: out st)
  case Nil
  then show ?case by (auto split: option.splits)
next
  case (Cons r rs)
  obtain j st1 where v: "fst c r st = (j, st1)" by (cases "fst c r st")
  have vlaw: "jgood L j" "jdepth j \<le> n" "evolves L st st1"
    "stopped st = None \<Longrightarrow> jnodes j + nodes st \<le> nodes st1 + extra st1"
    using child_val [OF assms(1) Cons.prems(1), of r] v by (auto simp: val_law_def)
  show ?case
  proof (cases "length out \<ge> max_keys L")
    case True
    then show ?thesis using Cons.prems by (auto intro: evolves_mark simp: evolves_def mark_def st_ok_def)
  next
    case room: False
    show ?thesis
    proof (cases "stopped st1")
      case (Some p)
      then show ?thesis using Cons.prems v vlaw room by auto
    next
      case None
      then have rec: "members_loop L c rs raises (out @ [j]) st1 = (res, st')"
        using Cons.prems(4) v room by simp
      have "evolves L st1 st' \<and> (\<forall>js. res = Inr js \<longrightarrow>
        length js \<le> max_keys L \<and> (\<forall>j \<in> set js. jgood L j \<and> jdepth j \<le> n) \<and>
        (stopped st1 = None \<longrightarrow>
           sum_list (map jnodes js) + nodes st1 \<le> nodes st' + sum_list (map jnodes (out @ [j])) + extra st'))"
        by (rule Cons.IH [OF evolves_ok [OF vlaw(3)] _ _ rec])
          (use Cons.prems vlaw room in auto)
      with None vlaw evolves_trans [OF vlaw(3)] show ?thesis by (fastforce simp: extra_def)
    qed
  qed
qed

lemma c_mapping_law:
  assumes "wf_world L h" and "st_ok L st"
  shows "res_law L (Suc n) (Suc 0) st (c_mapping L h c r st)"
proof (cases "r \<in> set (parents st)")
  case True
  then show ?thesis using assms by (simp add: c_mapping_def res_law_const)
next
  case False
  obtain res st1 where m: "mapping_loop L c (o_items (h r)) (o_raises (h r)) [] (push_parent r st) = (res, st1)"
    by (cases "mapping_loop L c (o_items (h r)) (o_raises (h r)) [] (push_parent r st)")
  have law: "evolves L (push_parent r st) st1 \<and> (\<forall>d. res = Inr d \<longrightarrow> out_ok L n d \<and>
      (stopped st = None \<longrightarrow> jsum d + nodes st \<le> nodes st1 + extra st1))"
    using mapping_loop_law [OF assms(1) _ _ m] assms(2) by (simp add: out_ok_def)
  have eq: "c_mapping L h c r st = (map_sum id JDict res, pop_parent st1)"
    using False m by (simp add: c_mapping_def)
  show ?thesis
  proof (cases res)
    case (Inr d)
    then have "jdepth (JDict d) \<le> Suc n" using law by (intro jdepth_le) (auto simp: out_ok_def)
    with Inr law show ?thesis
      by (auto simp: eq res_law_def val_law_def evolves_push_pop out_ok_def jnodes_JDict simp del: jdepth.simps jnodes.simps)
  qed (use law in \<open>simp add: eq res_law_def evolves_push_pop\<close>)
qed

lemma c_members_law:
  assumes "wf_world L h" and "st_ok L st"
  shows "res_law L (Suc n) (Suc 0) st (c_members L h c r st)"
proof (cases "r \<in> set (parents st)")
  case True
  then show ?thesis using assms by (simp add: c_members_def res_law_const)
next
  case False
  obtain res st1 where m: "members_loop L c (o_members (h r)) (o_raises (h r)) [] (push_parent r st) = (res, st1)"
    by (cases "members_loop L c (o_members (h r)) (o_raises (h r)) [] (push_parent r st)")
  have law: "evolves L (push_parent r st) st1 \<and> (\<forall>js. res = Inr js \<longrightarrow>
      length js \<le> max_keys L \<and> (\<forall>j \<in> set js. jgood L j \<and> jdepth j \<le> n) \<and>
      (stopped st = None \<longrightarrow> sum_list (map jnodes js) + nodes st \<le> nodes st1 + extra st1))"
    using members_loop_law [OF assms(1) _ _ _ m] assms(2) by simp
  have eq: "c_members L h c r st = (map_sum id JList res, pop_parent st1)"
    using False m by (simp add: c_members_def)
  show ?thesis
  proof (cases res)
    case (Inr js)
    then have "jdepth (JList js) \<le> Suc n" using law by (intro jdepth_le) auto
    with Inr law show ?thesis
      by (auto simp: eq res_law_def val_law_def evolves_push_pop simp del: jdepth.simps)
  qed (use law in \<open>simp add: eq res_law_def evolves_push_pop\<close>)
qed

lemma dispatch_rest_law:
  assumes "wf_world L h" and "st_ok L st"
  shows "res_law L (Suc n) (Suc 0) st (dispatch_rest L h c r st)"
proof -
  have wf: "wf_obj (h r)" using assms by (simp add: wf_world_def)
  have bytes: "res_law L (Suc n) (Suc 0) st (let (t, st1) = c_decoded bs st in ok_str (c_text L t st1))" for bs
  proof -
    obtain t st1 where d: "c_decoded bs st = (t, st1)" by (cases "c_decoded bs st")
    have "evolves L st st1" "wf_text t"
      using decoded_evolves [OF assms(2), of bs] decoded_wf [of bs st] d by auto
    then have "text_law L st (c_text L t st1)"
      using c_text_law [of t L st1] evolves_trans by (auto simp: text_law_def dest: evolves_ok)
    then show ?thesis using d by (simp add: ok_str_law)
  qed
  have "wf_text (o_text (h r))" "wf_res (o_iso (h r))" "wf_res (o_str (h r))"
    using wf by (auto simp: wf_obj_def)
  then show ?thesis
    unfolding dispatch_rest_def Let_def [of "h r"]
    by (intro if_inst_res_law res_law_if assms(2) read_laws wf bytes
        c_mapping_law c_members_law produce_law ok_str_law c_text_law c_placeholder_law assms(1))
qed

lemma dispatch_law:
  assumes "wf_world L h" and "st_ok L st"
  shows "res_law L (Suc n) (Suc 0) st (dispatch L h (Some c) r st)"
proof -
  have wf: "wf_obj (h r)" using assms by (simp add: wf_world_def)
  then have "wf_text (o_text (h r))" by (simp add: wf_obj_def)
  then show ?thesis
    unfolding dispatch.simps Let_def
    by (intro if_inst_res_law res_law_if assms enum_branch_law wf dispatch_rest_law
        c_mapping_law c_members_law ok_str_law c_text_law ok_val_law c_integer_law c_real_law)
      (simp_all add: assms res_law_const)
qed

end

lemma wf_dumps_str: "wf_text s \<Longrightarrow> wf_text (dumps_str False s)"
proof -
  assume "wf_text s"
  then have "wf_text (escape_char False x)" if "x \<in> set s" for x
    using that ascii_wf [OF ascii_hex4 [of x]] by (auto simp: escape_char_def wf_text_def)
  then show ?thesis by (auto simp: dumps_str_def wf_text_def)
qed

lemma wf_join2: "wf_text (join2 ps) \<longleftrightarrow> (\<forall>p \<in> set ps. wf_text p)"
  by (induction ps rule: join2.induct) auto

lemma str_good_wf: "str_good L s \<Longrightarrow> wf_text s"
  by (auto simp: str_good_def wf_text_def scalar_def)

lemma wf_dumps_good: "wf_world L h \<Longrightarrow> jgood L j \<Longrightarrow> wf_text (json_dumps False (frepr L) j)"
proof (induction j)
  case (JInt i)
  then show ?case by (simp add: ascii_wf)
next
  case (JFloat f)
  then show ?case by (auto simp: finite_flt_def wf_world_def)
next
  case (JStr s)
  then show ?case by (simp add: wf_dumps_str str_good_wf)
next
  case (JList js)
  then show ?case by (auto simp: wf_join2)
next
  case (JDict kvs)
  then have "wf_text (json_dumps False (frepr L) j) \<and> wf_text (dumps_str False k)" if "(k, j) \<in> set kvs" for k j
    using that by (fastforce intro: wf_dumps_str str_good_wf)
  then show ?case by (auto simp: wf_join2)
qed simp_all

text \<open>What the children of a depth promise, whether there are any or the depth is the last one.\<close>

definition children_ok :: "limits \<Rightarrow> heap \<Rightarrow> nat \<Rightarrow> children option \<Rightarrow> bool" where
  "children_ok L h n ch \<longleftrightarrow> (case ch of None \<Rightarrow> n = 0 | Some c \<Rightarrow> \<exists>m. n = Suc m \<and> child_level L h m c)"

lemma dispatch_any_law:
  assumes "children_ok L h n ch" and "wf_world L h" and "st_ok L st"
  shows "res_law L n (Suc 0) st (dispatch L h ch r st)"
proof (cases ch)
  case None
  then show ?thesis using assms
    by (auto simp: res_law_def children_ok_def intro!: scalar_val_law evolves_mark)
next
  case (Some c)
  then obtain m where "n = Suc m" "child_level L h m c" using assms(1) by (auto simp: children_ok_def)
  then show ?thesis using Some child_level.dispatch_law [OF _ assms(2,3)] by simp
qed

lemma st_ok_count: "st_ok L st \<Longrightarrow> nodes st < max_nodes L \<Longrightarrow> st_ok L (st\<lparr>nodes := nodes st + 1\<rparr>)"
  and evolves_count: "evolves L (st\<lparr>nodes := nodes st + 1\<rparr>) st' \<Longrightarrow> evolves L st st'"
  by (auto simp: st_ok_def evolves_def)

lemma coerce_value_law:
  assumes "children_ok L h n ch" and "wf_world L h" and "st_ok L st"
  shows "val_law L n 0 st (coerce_value L h ch r st)"
proof (cases "nodes st \<ge> max_nodes L")
  case True
  then show ?thesis using assms evolves_halt [of L st NODE_LIMIT]
    by (simp add: coerce_value_def val_law_def extra_def halt_def)
next
  case False
  let ?st = "st\<lparr>nodes := nodes st + 1\<rparr>"
  have ok: "st_ok L ?st" using assms(3) False by (intro st_ok_count) auto
  obtain res st1 where d: "dispatch L h ch r ?st = (res, st1)" by (cases "dispatch L h ch r ?st")
  have law: "res_law L n (Suc 0) ?st (res, st1)"
    using dispatch_any_law [OF assms(1,2) ok, of r] d by simp
  show ?thesis
  proof (cases res)
    case (Inr j)
    with law d False show ?thesis
      by (auto simp: coerce_value_def res_law_def val_law_def intro: evolves_count)
  next
    case (Inl e)
    obtain t st2 where p: "c_placeholder L (h r) st1 = (t, st2)" by (cases "c_placeholder L (h r) st1")
    have e1: "evolves L ?st st1" using law Inl by (simp add: res_law_def)
    have "text_law L st1 (t, st2)"
      using c_placeholder_law [of "h r" L st1] assms(2) evolves_ok [OF e1] p by (simp add: wf_world_def)
    then have "str_good L t" "evolves L ?st st2" using e1 evolves_trans by (auto simp: text_law_def)
    then show ?thesis using d Inl p False
      by (auto simp: coerce_value_def val_law_def evolves_def)
  qed
qed

lemma container_key_law:
  assumes "children_ok L h n ch" and "wf_world L h" and "st_ok L st"
  shows "key_law L st (container_key L h ch r st)"
proof (cases "nodes st \<ge> max_nodes L")
  case True
  then show ?thesis using assms by (simp add: container_key_def key_law_const)
next
  case False
  let ?st = "st\<lparr>nodes := nodes st + 1\<rparr>"
  let ?c = "case ch of None \<Rightarrow> (Inr (JStr DEPTH_LIMIT), mark ?st)
     | Some c \<Rightarrow> if o_base (h r) = BDict then c_mapping L h c r ?st else c_members L h c r ?st"
  have ok: "st_ok L ?st" using assms(3) False by (intro st_ok_count) auto
  have law: "res_law L n (Suc 0) ?st ?c"
  proof (cases ch)
    case None
    then show ?thesis using ok by (auto simp: res_law_def intro!: scalar_val_law evolves_mark)
  next
    case (Some c)
    then obtain m where "n = Suc m" "child_level L h m c" using assms(1) by (auto simp: children_ok_def)
    then show ?thesis
      using Some child_level.c_mapping_law [OF _ assms(2) ok] child_level.c_members_law [OF _ assms(2) ok] by simp
  qed
  obtain res st1 where d: "?c = (res, st1)" by (cases ?c)
  have e1: "evolves L st st1" using law d evolves_count by (auto simp: res_law_def val_law_def split: sum.splits)
  have key: "container_key L h ch r st = (case res of Inl e \<Rightarrow> (Inl e, st1) | Inr j \<Rightarrow>
      (case stopped st1 of Some p \<Rightarrow> (Inr p, st1) | None \<Rightarrow>
         let (clipped, altered, _) = clip (json_dumps False (frepr L) j) (max_value_bytes L)
         in (Inr clipped, if altered then mark st1 else st1)))"
    unfolding container_key_def Let_def [of "?st"] if_not_P [OF False] d by (simp add: Let_def)
  show ?thesis
  proof (cases res)
    case (Inl e)
    then show ?thesis using e1 by (simp add: key key_law_def)
  next
    case (Inr j)
    then have "str_good L (fst (clip (json_dumps False (frepr L) j) (max_value_bytes L)))"
      using law d wf_dumps_good [OF assms(2)] by (intro str_good_clip) (auto simp: res_law_def val_law_def)
    moreover have "str_good L p" if "stopped st1 = Some p" for p
      using that evolves_ok [OF e1] by (auto simp: st_ok_def)
    ultimately show ?thesis using Inr e1 evolves_mark [OF e1]
      by (auto simp: key key_law_def text_law_def split: option.splits prod.splits)
  qed
qed

lemma coerce_key_law:
  assumes "children_ok L h n ch" and "wf_world L h" and "st_ok L st"
  shows "text_law L st (coerce_key L h ch r st)"
proof -
  have wf: "wf_obj (h r)" and "wf_text (o_text (h r))" using assms(2) by (auto simp: wf_world_def wf_obj_def)
  then have txt_law: "key_law L st (let (t, st1) = c_text L (o_text (h r)) st in (Inr t, st1))"
    using c_text_law [of "o_text (h r)" L st] assms(3) by (auto simp: key_law_def split: prod.splits)
  have raw: "key_law L st (key_raw L h ch r st)"
    unfolding key_raw_def Let_def [of "h r"]
    by (intro key_law_if if_inst_key_law container_key_law [OF assms] produce_key_law wf_enum_text wf
        assms(3) assms(2) txt_law key_law_const int_key_law float_key_law [OF assms(2)] key_rest_law)
  obtain res st1 where k: "key_raw L h ch r st = (res, st1)" by (cases "key_raw L h ch r st")
  show ?thesis
  proof (cases res)
    case (Inr t)
    then show ?thesis using raw k by (simp add: coerce_key_def key_law_def)
  next
    case (Inl e)
    then have e1: "evolves L st (mark st1)" using raw k by (auto simp: key_law_def intro: evolves_mark)
    have "text_law L (mark st1) (coerce_key L h ch r st)"
      using Inl k wf_type_name [OF wf] evolves_ok [OF e1]
      by (simp add: coerce_key_def c_produced_law)
    with e1 evolves_trans show ?thesis by (auto simp: text_law_def)
  qed
qed

lemma level_law: "child_level L h n (level L h n)"
proof (induction n)
  case 0
  have ch: "children_ok L h 0 None" by (simp add: children_ok_def)
  show ?case
    by unfold_locales (simp_all add: coerce_value_law [OF ch] coerce_key_law [OF ch])
next
  case (Suc n)
  then have ch: "children_ok L h (Suc n) (Some (level L h n))" by (simp add: children_ok_def)
  show ?case
    by unfold_locales (simp_all add: coerce_value_law [OF ch] coerce_key_law [OF ch])
qed

interpretation lvl: child_level L h n "level L h n" for L h n
  by (rule level_law)

subsection \<open>The pass as its callers see it\<close>

lemma new_coercer_ok: "st_ok L new_coercer"
  by (simp add: st_ok_def new_coercer_def)

lemma sanitize_fields_cases:
  assumes "wf_world L h"
  shows "\<exists>st. evolves L new_coercer st \<and> out_ok L (max_depth L) (fst (sanitize_fields L h r)) \<and>
    jsum (fst (sanitize_fields L h r)) \<le> nodes st + extra st"
proof -
  let ?p = "mapping_loop L (level L h (max_depth L)) (o_items (h r)) (o_raises (h r)) [] (push_parent r new_coercer)"
  obtain res st1 where m: "?p = (res, st1)" by (cases ?p)
  have law: "evolves L (push_parent r new_coercer) st1 \<and> (\<forall>d. res = Inr d \<longrightarrow> out_ok L (max_depth L) d \<and>
      (stopped (push_parent r new_coercer) = None \<longrightarrow>
        jsum d + nodes (push_parent r new_coercer) \<le> nodes st1 + jsum [] + extra st1))"
    using lvl.mapping_loop_law [OF assms _ _ m] new_coercer_ok by (simp add: out_ok_def)
  have "sanitize_fields L h r = (case res of Inr d \<Rightarrow> (d, truncated st1) | Inl _ \<Rightarrow> ([], True))"
    using m by (auto simp: sanitize_fields_def c_mapping_def new_coercer_def pop_parent_def split: sum.splits)
  with law show ?thesis
    by (intro exI [of _ "pop_parent st1"])
      (auto simp: evolves_push_pop new_coercer_def out_ok_def split: sum.splits)
qed

subsection \<open>Two small heaps\<close>

definition plain_obj :: pyobj where
  "plain_obj = \<lparr>o_base = BNone, o_exact = True, o_enum = False, o_claims = Inr [], o_name = None,
     o_text = [], o_int = 0, o_float = Fin 0, o_bytes = [], o_contig = True, o_rows = 1, o_items = [],
     o_members = [], o_raises = None, o_str = Inr [], o_iso = Inl TypeError, o_value = Inl TypeError,
     o_member_name = Inl TypeError\<rparr>"

text \<open>\<^verbatim>\<open>d = {"a": 7}\<close> at 0, and \<^verbatim>\<open>d = {"a": d}\<close> at 3.\<close>

definition small_heap :: heap where
  "small_heap = (\<lambda>r.
     if r = 0 then plain_obj\<lparr>o_base := BDict, o_items := [(1, 2)]\<rparr>
     else if r = 1 then plain_obj\<lparr>o_base := BStr, o_text := [97]\<rparr>
     else if r = 2 then plain_obj\<lparr>o_base := BInt, o_int := 7\<rparr>
     else if r = 3 then plain_obj\<lparr>o_base := BDict, o_items := [(1, 3)]\<rparr>
     else plain_obj)"

definition small_limits :: limits where
  "small_limits = budgeted 4300 100 10 4 (\<lambda>_. [])"

lemma small_world: "wf_world small_limits small_heap"
  by (simp add: wf_world_def wf_obj_def wf_res_def small_heap_def plain_obj_def small_limits_def budgeted_def)

text \<open>C1. Whatever the caller logs, cyclic, hostile or huge, the fields that reach an event are
  JSON within the configured ceilings: at most \<^verbatim>\<open>max_keys\<close> entries per container, distinct keys,
  nesting within \<^verbatim>\<open>max_depth\<close>, every text encodable and within \<^verbatim>\<open>max_value_bytes\<close> (or one of
  the pass's own placeholders), every float finite, every integer within the digit ceiling.\<close>

theorem sanitize_fields_safe:
  assumes "wf_world L h"
  shows "out_ok L (max_depth L) (fst (sanitize_fields L h r))"
  using sanitize_fields_cases [OF assms] by blast

theorem sanitize_fields_safe_witness:
  "out_ok small_limits 4 (fst (sanitize_fields small_limits small_heap 3))"
  using sanitize_fields_safe [OF small_world, of 3] by (simp add: small_limits_def budgeted_def)

text \<open>One pass writes at most \<^verbatim>\<open>_MAX_NODES\<close> values and one placeholder, however the
  structure shares or repeats its parts: the work of a pass is bounded by its budget and not by
  what the caller's objects unfold to.\<close>

theorem sanitize_fields_node_budget:
  assumes "wf_world L h"
  shows "jsum (fst (sanitize_fields L h r)) \<le> max_nodes L + 1"
  using sanitize_fields_cases [OF assms, of r]
  by (auto simp: evolves_def st_ok_def extra_def split: if_splits)

theorem sanitize_fields_node_budget_witness:
  "jsum (fst (sanitize_fields small_limits small_heap 3)) \<le> MAX_NODES + 1"
  using sanitize_fields_node_budget [OF small_world, of 3] by (simp add: small_limits_def budgeted_def)

end
