(* ===== verification/Fidelity.thy ===== *)
theory Fidelity
  imports Coercer_Laws
begin

text \<open>
  The coercion pass is faithful to what a caller may log: fields that are plain JSON already and
  lie within every ceiling and budget reach the event unchanged and unmarked. \<open>denotes\<close> reads a
  JSON value off the heap; an object that denotes a value cannot be part of a cycle, so the
  identity test of \<^verbatim>\<open>mapping\<close> and \<^verbatim>\<open>members\<close> never fires on one.
\<close>

subsection \<open>Objects that are plain JSON\<close>

definition exactly :: "pyobj \<Rightarrow> base \<Rightarrow> bool" where
  "exactly ob b \<longleftrightarrow> o_base ob = b \<and> o_exact ob"

inductive denotes :: "heap \<Rightarrow> ref \<Rightarrow> jval \<Rightarrow> bool" for h where
  null: "o_base (h r) = BNone \<Longrightarrow> denotes h r JNull"
| bool: "o_base (h r) = BBool \<Longrightarrow> denotes h r (JBool (o_int (h r) \<noteq> 0))"
| int: "exactly (h r) BInt \<Longrightarrow> denotes h r (JInt (o_int (h r)))"
| float: "exactly (h r) BFloat \<Longrightarrow> denotes h r (JFloat (o_float (h r)))"
| string: "exactly (h r) BStr \<Longrightarrow> denotes h r (JStr (o_text (h r)))"
| list: "exactly (h r) BList \<Longrightarrow> o_raises (h r) = None \<Longrightarrow>
    list_all2 (denotes h) (o_members (h r)) js \<Longrightarrow> denotes h r (JList js)"
| dict: "exactly (h r) BDict \<Longrightarrow> o_raises (h r) = None \<Longrightarrow>
    list_all2 (\<lambda>p q. exactly (h (fst p)) BStr \<and> fst q = o_text (h (fst p)) \<and> denotes h (snd p) (snd q))
      (o_items (h r)) d \<Longrightarrow> denotes h r (JDict d)"

text \<open>A value within the ceilings, and what rendering it charges to the byte budget.\<close>

definition text_fits :: "limits \<Rightarrow> pystr \<Rightarrow> bool" where
  "text_fits L s \<longleftrightarrow> (\<forall>c \<in> set s. scalar c) \<and> utf8_size s \<le> max_value_bytes L"

fun jfits :: "limits \<Rightarrow> jval \<Rightarrow> bool" where
  "jfits L (JInt i) = (rendered_length i \<le> int_ceiling L)"
| "jfits L (JFloat f) = finite_flt f"
| "jfits L (JStr s) = text_fits L s"
| "jfits L (JList js) = (length js \<le> max_keys L \<and> (\<forall>j \<in> set js. jfits L j))"
| "jfits L (JDict d) =
     (length d \<le> max_keys L \<and> dict_wf d \<and> (\<forall>(k, j) \<in> set d. text_fits L k \<and> jfits L j))"
| "jfits L _ = True"

fun jcost :: "jval \<Rightarrow> nat" where
  "jcost (JInt i) = rendered_length i"
| "jcost (JStr s) = utf8_size s"
| "jcost (JList js) = sum_list (map jcost js)"
| "jcost (JDict d) = sum_list (map (\<lambda>(k, j). utf8_size k + jcost j) d)"
| "jcost _ = 0"

inductive_cases denotes_list: "denotes h r (JList js)"
inductive_cases denotes_dict: "denotes h r (JDict d)"

lemma denotes_functional: "denotes h r j \<Longrightarrow> denotes h r j' \<Longrightarrow> j' = j"
proof (induction arbitrary: j' rule: denotes.induct)
  case (list r js)
  from list.prems list.hyps obtain js' where j: "j' = JList js'"
    and l: "list_all2 (denotes h) (o_members (h r)) js'"
    by (cases rule: denotes.cases) (auto simp: exactly_def)
  have "js' = js"
    using list.IH l by (auto simp: list_all2_conv_all_nth intro!: nth_equalityI)
  then show ?case by (simp add: j)
next
  case (dict r d)
  from dict.prems dict.hyps obtain d' where j: "j' = JDict d'"
    and l: "list_all2 (\<lambda>p q. exactly (h (fst p)) BStr \<and> fst q = o_text (h (fst p)) \<and> denotes h (snd p) (snd q))
      (o_items (h r)) d'"
    by (cases rule: denotes.cases) (auto simp: exactly_def)
  have "d' = d"
    using dict.IH l by (auto simp: list_all2_conv_all_nth prod_eq_iff intro!: nth_equalityI)
  then show ?case by (simp add: j)
qed (erule denotes.cases; simp add: exactly_def)+

subsection \<open>The pass on a value that fits\<close>

lemma clip_fits: "text_fits L s \<Longrightarrow> clip s (max_value_bytes L) = (s, False, utf8_size s)"
  using clip_eq [of s "max_value_bytes L"] clip_spec_fits [of s "max_value_bytes L"]
  by (auto simp: text_fits_def wf_text_def scalar_def)

definition advance :: "nat \<Rightarrow> nat \<Rightarrow> cst \<Rightarrow> cst" where
  "advance n b st = st\<lparr>nodes := nodes st + n, charged := charged st + b\<rparr>"

definition room :: "limits \<Rightarrow> nat \<Rightarrow> nat \<Rightarrow> cst \<Rightarrow> bool" where
  "room L n b st \<longleftrightarrow> stopped st = None \<and> nodes st + n \<le> max_nodes L \<and> charged st + b \<le> max_bytes L"

text \<open>Every container being visited denotes a value larger than the one visited inside it.\<close>

definition above :: "heap \<Rightarrow> nat \<Rightarrow> cst \<Rightarrow> bool" where
  "above h m st \<longleftrightarrow> (\<forall>p \<in> set (parents st). \<exists>j. denotes h p j \<and> m < jnodes j)"

lemma advance_simps [simp]:
  "advance 0 0 st = st" "stopped (advance n b st) = stopped st" "parents (advance n b st) = parents st"
  "advance n b (advance n' b' st) = advance (n' + n) (b' + b) st"
  "above h m (advance n b st) = above h m st" "truncated (advance n b st) = truncated st"
  "pop_parent (advance n b (push_parent r st)) = advance n b st"
  by (simp_all add: advance_def above_def pop_parent_def push_parent_def add.assoc)

lemma advance_count: "advance n b (st\<lparr>nodes := Suc (nodes st)\<rparr>) = advance (Suc n) b st"
  by (simp add: advance_def)

lemma room_simps [simp]:
  "room L n b (advance n' b' st) = room L (n' + n) (b' + b) st"
  "room L n b (push_parent r st) = room L n b st"
  by (auto simp: room_def advance_def push_parent_def add.assoc)

lemma room_mono: "room L n b st \<Longrightarrow> n' \<le> n \<Longrightarrow> b' \<le> b \<Longrightarrow> room L n' b' st"
  by (auto simp: room_def)

lemma above_mono: "above h m st \<Longrightarrow> m' \<le> m \<Longrightarrow> above h m' st"
  unfolding above_def by (meson le_less_trans)

lemma above_push: "above h m st \<Longrightarrow> denotes h r j \<Longrightarrow> m < jnodes j \<Longrightarrow> above h m (push_parent r st)"
  by (auto simp: above_def push_parent_def)

lemma above_fresh: "above h (jnodes j) st \<Longrightarrow> denotes h r j \<Longrightarrow> r \<notin> set (parents st)"
  unfolding above_def using denotes_functional by fastforce

lemma c_text_fits:
  assumes "text_fits L s" and "room L n (utf8_size s) st"
  shows "c_text L s st = (s, advance 0 (utf8_size s) st)"
  using assms by (simp add: c_text_def clip_fits charge_text_def room_def advance_def)

lemma key_fits:
  assumes "exactly (h r) BStr" and "text_fits L (o_text (h r))" and "room L n (utf8_size (o_text (h r))) st"
  shows "coerce_key L h ch r st = (o_text (h r), advance 0 (utf8_size (o_text (h r))) st)"
  using assms c_text_fits [OF assms(2,3)]
  by (simp add: coerce_key_def key_raw_def container_base_def enum_text_builtin_def exactly_def if_inst_def Let_def)

definition dcost :: "event \<Rightarrow> nat" where
  "dcost d = sum_list (map (\<lambda>(k, j). utf8_size k + jcost j) d)"

lemma dcost_simps [simp]: "dcost [] = 0" "dcost ((k, j) # d) = utf8_size k + jcost j + dcost d"
  by (simp_all add: dcost_def)

lemma jsum_member: "(k, j) \<in> set d \<Longrightarrow> jnodes j \<le> jsum d"
  by (induction d) auto

lemma sum_nodes_member: "j \<in> set js \<Longrightarrow> jnodes j \<le> sum_list (map jnodes js)"
  by (induction js) auto

locale faithful_child =
  fixes L :: limits and h :: heap and n :: nat and c :: children
  assumes value_faithful:
    "denotes h r j \<Longrightarrow> jfits L j \<Longrightarrow> jdepth j < n \<Longrightarrow> room L (jnodes j) (jcost j) st \<Longrightarrow>
     above h (jnodes j) st \<Longrightarrow> fst c r st = (j, advance (jnodes j) (jcost j) st)"
    and key_faithful:
    "exactly (h r) BStr \<Longrightarrow> text_fits L (o_text (h r)) \<Longrightarrow> room L m (utf8_size (o_text (h r))) st \<Longrightarrow>
     snd c r st = (o_text (h r), advance 0 (utf8_size (o_text (h r))) st)"
begin

lemma mapping_loop_faithful:
  assumes "list_all2 (\<lambda>p q. exactly (h (fst p)) BStr \<and> fst q = o_text (h (fst p)) \<and> denotes h (snd p) (snd q))
      items d"
    and "\<forall>(k, j) \<in> set d. text_fits L k \<and> jfits L j \<and> jdepth j < n"
    and "distinct (map fst (out @ d))" and "length out + length d \<le> max_keys L"
    and "room L (jsum d) (dcost d) st" and "above h (jsum d) st"
  shows "mapping_loop L c items None out st = (Inr (out @ d), advance (jsum d) (dcost d) st)"
  using assms
proof (induction items d arbitrary: out st rule: list_all2_induct)
  case (Cons p items q d)
  obtain kr vr k j where pq: "p = (kr, vr)" "q = (k, j)" by (cases p, cases q)
  let ?st = "advance 0 (utf8_size k) st"
  have k: "snd c kr st = (k, ?st)"
    using key_faithful [of kr "jsum (q # d)" st] Cons.hyps(1) Cons.prems(1)
      room_mono [OF Cons.prems(4), of "jsum (q # d)" "utf8_size k"] by (simp add: pq)
  have v: "fst c vr ?st = (j, advance (jnodes j) (jcost j) ?st)"
    using Cons.hyps(1) Cons.prems(1) room_mono [OF Cons.prems(4), of "jnodes j" "utf8_size k + jcost j"]
      above_mono [OF Cons.prems(5), of "jnodes j"]
    by (intro value_faithful) (simp_all add: pq)
  have fresh: "dict_set k j out = out @ [(k, j)]"
    using Cons.prems(2) by (intro dict_set_fresh) (auto simp: pq)
  let ?st2 = "advance (jnodes j) (utf8_size k + jcost j) st"
  have "mapping_loop L c items None (out @ [(k, j)]) ?st2 =
      (Inr ((out @ [(k, j)]) @ d), advance (jsum d) (dcost d) ?st2)"
    using Cons.prems above_mono [OF Cons.prems(5), of "jsum d"]
    by (intro Cons.IH) (auto simp: pq add.commute add.left_commute)
  moreover have "stopped st = None" using Cons.prems(4) by (simp add: room_def)
  ultimately show ?case using k v fresh Cons.prems(3) by (simp add: pq add.assoc)
qed simp

lemma members_loop_faithful:
  assumes "list_all2 (denotes h) rs js" and "\<forall>j \<in> set js. jfits L j \<and> jdepth j < n"
    and "length out + length js \<le> max_keys L"
    and "room L (sum_list (map jnodes js)) (sum_list (map jcost js)) st"
    and "above h (sum_list (map jnodes js)) st"
  shows "members_loop L c rs None out st =
    (Inr (out @ js), advance (sum_list (map jnodes js)) (sum_list (map jcost js)) st)"
  using assms
proof (induction rs js arbitrary: out st rule: list_all2_induct)
  case (Cons r rs j js)
  have v: "fst c r st = (j, advance (jnodes j) (jcost j) st)"
    using Cons.hyps(1) Cons.prems(1) room_mono [OF Cons.prems(3), of "jnodes j" "jcost j"]
      above_mono [OF Cons.prems(4), of "jnodes j"]
    by (intro value_faithful) simp_all
  have "members_loop L c rs None (out @ [j]) (advance (jnodes j) (jcost j) st) =
      (Inr ((out @ [j]) @ js), advance (sum_list (map jnodes js)) (sum_list (map jcost js))
        (advance (jnodes j) (jcost j) st))"
    using Cons.prems above_mono [OF Cons.prems(4), of "sum_list (map jnodes js)"]
    by (intro Cons.IH) simp_all
  moreover have "stopped st = None" using Cons.prems(3) by (simp add: room_def)
  ultimately show ?case using v Cons.prems(2) by simp
qed simp

lemma c_mapping_faithful:
  assumes d: "denotes h r (JDict d)" and "jfits L (JDict d)" and "\<forall>(k, j) \<in> set d. jdepth j < n"
    and "room L (jsum d) (dcost d) st" and "above h (Suc (jsum d)) st"
  shows "c_mapping L h c r st = (Inr (JDict d), advance (jsum d) (dcost d) st)"
proof -
  have "r \<notin> set (parents st)" using above_fresh [OF _ d] assms(5) by (simp add: jsum_def)
  moreover have "above h (jsum d) (push_parent r st)"
    using above_push [OF above_mono [OF assms(5)] d] by (simp add: jsum_def)
  then have "mapping_loop L c (o_items (h r)) None [] (push_parent r st) =
      (Inr ([] @ d), advance (jsum d) (dcost d) (push_parent r st))"
    using assms by (intro mapping_loop_faithful) (auto simp: dict_wf_def elim: denotes_dict)
  moreover have "o_raises (h r) = None" using d by (auto elim: denotes_dict)
  ultimately show ?thesis by (simp add: c_mapping_def)
qed

lemma c_members_faithful:
  assumes d: "denotes h r (JList js)" and "jfits L (JList js)" and "\<forall>j \<in> set js. jdepth j < n"
    and "room L (sum_list (map jnodes js)) (sum_list (map jcost js)) st"
    and "above h (Suc (sum_list (map jnodes js))) st"
  shows "c_members L h c r st =
    (Inr (JList js), advance (sum_list (map jnodes js)) (sum_list (map jcost js)) st)"
proof -
  have "r \<notin> set (parents st)" using above_fresh [OF _ d] assms(5) by simp
  moreover have "above h (sum_list (map jnodes js)) (push_parent r st)"
    using above_push [OF above_mono [OF assms(5)] d] by simp
  then have "members_loop L c (o_members (h r)) None [] (push_parent r st) =
      (Inr ([] @ js), advance (sum_list (map jnodes js)) (sum_list (map jcost js)) (push_parent r st))"
    using assms by (intro members_loop_faithful) (auto elim: denotes_list)
  moreover have "o_raises (h r) = None" using d by (auto elim: denotes_list)
  ultimately show ?thesis by (simp add: c_members_def)
qed

lemma jdepth_children:
  "jdepth (JList js) < Suc n \<Longrightarrow> \<forall>j \<in> set js. jdepth j < n"
  "jdepth (JDict d) < Suc n \<Longrightarrow> \<forall>(k, j) \<in> set d. jdepth j < n"
  by (auto split: if_splits)

lemma dispatch_faithful:
  assumes d: "denotes h r j" and "jfits L j" and "jdepth j < Suc n"
    and "room L (jnodes j - 1) (jcost j) st" and "above h (jnodes j) st"
  shows "dispatch L h (Some c) r st = (Inr j, advance (jnodes j - 1) (jcost j) st)"
  using d
proof cases
  case string
  then show ?thesis using assms c_text_fits [of L "o_text (h r)" 0 st]
    by (simp add: exactly_def ok_str_def Let_def)
next
  case int
  then show ?thesis using assms
    by (simp add: exactly_def ok_val_def Let_def c_integer_def room_def advance_def)
next
  case float
  then show ?thesis using assms by (simp add: exactly_def ok_val_def Let_def c_real_def)
next
  case (list js)
  then show ?thesis using assms jdepth_children(1) [of js] c_members_faithful [of r js st]
    by (simp add: exactly_def Let_def)
next
  case (dict d)
  then show ?thesis using assms jdepth_children(2) [of d] c_mapping_faithful [of r d st]
    by (simp add: exactly_def Let_def jnodes_JDict dcost_def del: jnodes.simps)
qed (use assms in \<open>simp_all add: Let_def\<close>)

end

lemma coerce_value_faithful:
  assumes "faithful_child L h n c" and d: "denotes h r j" and "jfits L j" and "jdepth j < Suc n"
    and room: "room L (jnodes j) (jcost j) st" and "above h (jnodes j) st"
  shows "coerce_value L h (Some c) r st = (j, advance (jnodes j) (jcost j) st)"
proof -
  obtain k where k: "jnodes j = Suc k" by (cases j) auto
  let ?st = "st\<lparr>nodes := nodes st + 1\<rparr>"
  have "room L (jnodes j - 1) (jcost j) ?st" "above h (jnodes j) ?st"
    using assms k by (simp_all add: room_def above_def)
  then have "dispatch L h (Some c) r ?st = (Inr j, advance (jnodes j - 1) (jcost j) ?st)"
    by (intro faithful_child.dispatch_faithful [OF assms(1-4)])
  moreover have "advance (jnodes j - 1) (jcost j) ?st = advance (jnodes j) (jcost j) st"
    by (simp add: advance_def k)
  moreover have "nodes st < max_nodes L" using room k by (simp add: room_def)
  ultimately show ?thesis by (simp add: coerce_value_def)
qed

lemma level_faithful: "faithful_child L h n (level L h n)"
proof (induction n)
  case 0
  show ?case by unfold_locales (simp_all add: key_fits)
next
  case (Suc n)
  then show ?case by unfold_locales (simp_all add: key_fits coerce_value_faithful)
qed

interpretation faithful_level: faithful_child L h n "level L h n" for L h n
  by (rule level_faithful)

text \<open>C2. Fields that are plain JSON within the ceilings and the budgets reach the event exactly
  as they were logged, and the event is not marked truncated.\<close>

theorem sanitize_fields_faithful:
  assumes "denotes h r (JDict d)" and "jfits L (JDict d)" and "\<forall>(k, j) \<in> set d. jdepth j < max_depth L"
    and "jsum d \<le> max_nodes L" and "jcost (JDict d) \<le> max_bytes L"
  shows "sanitize_fields L h r = (d, False)"
proof -
  have "c_mapping L h (level L h (max_depth L)) r new_coercer =
      (Inr (JDict d), advance (jsum d) (dcost d) new_coercer)"
    using assms by (intro faithful_level.c_mapping_faithful)
      (auto simp: room_def above_def new_coercer_def dcost_def)
  then show ?thesis by (simp add: sanitize_fields_def new_coercer_def)
qed

theorem sanitize_fields_faithful_witness: "sanitize_fields small_limits small_heap 0 = ([([97], JInt 7)], False)"
proof (rule sanitize_fields_faithful)
  have "denotes small_heap 2 (JInt (o_int (small_heap 2)))"
    by (rule denotes.int) (simp add: small_heap_def plain_obj_def exactly_def)
  then have "denotes small_heap 2 (JInt 7)" by (simp add: small_heap_def plain_obj_def)
  then show "denotes small_heap 0 (JDict [([97], JInt 7)])"
    by (intro denotes.dict) (auto simp: small_heap_def plain_obj_def exactly_def)
qed (simp_all add: small_limits_def budgeted_def rendered_length_def int_digits_def bit_length_def
    bits.simps dict_wf_def text_fits_def scalar_def is_surrogate_def utf8_char_def int_digit_ceiling_def
    MAX_NODES_def MAX_RENDERED_BYTES_def)

end
