(* ===== verification/Events.thy ===== *)
theory Events
  imports Fidelity
begin

text \<open>
  Building events: \<^verbatim>\<open>src/log_foundry/model.py\<close>, with the configuration record of
  \<^verbatim>\<open>src/log_foundry/config.py\<close> it reads. A dictionary of the caller is a list of pairs of
  references; whether a probe finds a stored key is what \<^verbatim>\<open>__hash__\<close> and \<^verbatim>\<open>__eq__\<close> of the
  caller's keys answer, or raise. The dictionary \<^verbatim>\<open>build_event\<close> merges is a new object, placed
  at the address the allocator chose.
\<close>

type_synonym fields = "(ref \<times> ref) list"

record world =
  w_heap :: heap
  w_alloc :: ref                          \<comment> \<open>the address of the merged dictionary\<close>
  w_probe :: "ref \<Rightarrow> ref \<Rightarrow> bool result"    \<comment> \<open>is the key looked up the stored one\<close>
  w_digits :: int                         \<comment> \<open>\<^verbatim>\<open>sys.get_int_max_str_digits()\<close>\<close>
  w_frepr :: "rat \<Rightarrow> pystr"
  w_intern :: "pystr \<Rightarrow> ref"              \<comment> \<open>a \<^verbatim>\<open>str\<close> object with this text\<close>

record 's config =
  service :: pystr
  version :: pystr
  cfg_env :: pystr
  cfg_sink :: "'s option"
  cfg_defaults :: fields
  cfg_value_bytes :: nat
  cfg_stack_bytes :: nat
  cfg_keys :: nat
  cfg_depth :: nat

definition default_config :: "'s config" where
  "default_config = \<lparr>service = str ''unknown'', version = str ''0.0.0'', cfg_env = str ''dev'',
     cfg_sink = None, cfg_defaults = [], cfg_value_bytes = 8192, cfg_stack_bytes = 32768,
     cfg_keys = 256, cfg_depth = 8\<rparr>"

definition cfg_limits :: "world \<Rightarrow> 's config \<Rightarrow> limits" where
  "cfg_limits W cfg = budgeted (w_digits W) (cfg_value_bytes cfg) (cfg_keys cfg) (cfg_depth cfg) (w_frepr W)"

record span =
  trace_id :: pystr
  span_id :: pystr
  parent_span_id :: "pystr option"
  span_name :: inbound
  start_ts :: flt
  span_defaults :: fields
  events :: "event list"
  closed :: bool
  swept :: bool

definition START_MESSAGE :: pystr where "START_MESSAGE = str ''span.start''"
definition END_MESSAGE :: pystr where "END_MESSAGE = str ''span.end''"
definition TRUNCATED :: pystr where "TRUNCATED = str ''truncated''"

text \<open>One reading of the clock and of the random source.\<close>

record instant =
  year :: nat
  month :: nat
  day :: nat
  hour :: nat
  minute :: nat
  second :: nat
  microsecond :: nat

definition padded :: "nat \<Rightarrow> nat \<Rightarrow> pystr" where
  "padded w n = (let d = decimal n in replicate (w - length d) 48 @ d)"

definition iso_now :: "instant \<Rightarrow> pystr" where
  "iso_now now = decimal (year now) @ [45] @ padded 2 (month now) @ [45] @ padded 2 (day now) @ [84]
     @ padded 2 (hour now) @ [58] @ padded 2 (minute now) @ [58] @ padded 2 (second now) @ [46]
     @ padded 3 (microsecond now div 1000) @ [90]"

record draw =
  d_now :: instant
  d_log :: bytes      \<comment> \<open>the 16 random bytes of the log identifier\<close>

subsection \<open>Merging the caller's dictionaries\<close>

text \<open>Looking a key up: the position of the stored key that equals it.\<close>

fun key_find :: "(ref \<Rightarrow> ref \<Rightarrow> bool result) \<Rightarrow> ref \<Rightarrow> fields \<Rightarrow> nat option result" where
  "key_find probe k [] = Inr None"
| "key_find probe k ((k', v) # d) =
     (case probe k k' of
        Inl e \<Rightarrow> Inl e
      | Inr True \<Rightarrow> Inr (Some 0)
      | Inr False \<Rightarrow> map_sum id (map_option Suc) (key_find probe k d))"

definition key_set :: "(ref \<Rightarrow> ref \<Rightarrow> bool result) \<Rightarrow> ref \<Rightarrow> ref \<Rightarrow> fields \<Rightarrow> fields result" where
  "key_set probe k v d =
     (case key_find probe k d of
        Inl e \<Rightarrow> Inl e
      | Inr None \<Rightarrow> Inr (d @ [(k, v)])
      | Inr (Some i) \<Rightarrow> Inr (d[i := (fst (d ! i), v)]))"

fun key_update :: "(ref \<Rightarrow> ref \<Rightarrow> bool result) \<Rightarrow> fields \<Rightarrow> fields \<Rightarrow> fields result" where
  "key_update probe d [] = Inr d"
| "key_update probe d ((k, v) # s) =
     (case key_set probe k v d of Inl e \<Rightarrow> Inl e | Inr d' \<Rightarrow> key_update probe d' s)"

text \<open>\<^verbatim>\<open>{**a, **b, ...}\<close>\<close>

fun splat :: "(ref \<Rightarrow> ref \<Rightarrow> bool result) \<Rightarrow> fields \<Rightarrow> fields list \<Rightarrow> fields result" where
  "splat probe d [] = Inr d"
| "splat probe d (s # ss) = (case key_update probe d s of Inl e \<Rightarrow> Inl e | Inr d' \<Rightarrow> splat probe d' ss)"

fun merged_source :: "(ref \<Rightarrow> ref \<Rightarrow> bool result) \<Rightarrow> fields \<Rightarrow> fields \<times> bool \<Rightarrow> fields \<times> bool" where
  "merged_source probe [] acc = acc"
| "merged_source probe ((k, v) # s) (out, dropped) =
     merged_source probe s
       (case key_find probe k out of
          Inl e \<Rightarrow> (out, True)
        | Inr None \<Rightarrow> (out @ [(k, v)], dropped)
        | Inr (Some _) \<Rightarrow> (out, dropped))"

definition merged :: "(ref \<Rightarrow> ref \<Rightarrow> bool result) \<Rightarrow> fields list \<Rightarrow> fields \<times> bool" where
  "merged probe sources = fold (merged_source probe) sources ([], False)"

subsection \<open>Events\<close>

definition new_dict :: "fields \<Rightarrow> pyobj" where
  "new_dict items = \<lparr>o_base = BDict, o_exact = True, o_enum = False, o_claims = Inr [],
     o_name = Some (str ''dict''), o_text = [], o_int = 0, o_float = Fin 0, o_bytes = [], o_contig = True,
     o_rows = 1, o_items = items, o_members = map fst items, o_raises = None, o_str = Inr [],
     o_iso = Inl (OtherError (str ''AttributeError'')), o_value = Inl (OtherError (str ''AttributeError'')),
     o_member_name = Inl (OtherError (str ''AttributeError''))\<rparr>"

definition sanitize_dict :: "world \<Rightarrow> 's config \<Rightarrow> fields \<Rightarrow> event \<times> bool" where
  "sanitize_dict W cfg d =
     sanitize_fields (cfg_limits W cfg) ((w_heap W)(w_alloc W := new_dict d)) (w_alloc W)"

text \<open>\<^verbatim>\<open>truncate_str\<close> reads its argument with \<^verbatim>\<open>str\<close>'s own accessors, which refuse anything
  that is not a \<^verbatim>\<open>str\<close>.\<close>

fun truncate_arg :: "inbound \<Rightarrow> nat \<Rightarrow> (pystr \<times> bool) result" where
  "truncate_arg (IStr t) n = Inr (truncate_str t n)"
| "truncate_arg (IStrSub t) n = Inr (truncate_str t n)"
| "truncate_arg _ n = Inl TypeError"

definition opt_str :: "pystr option \<Rightarrow> jval" where
  "opt_str t = (case t of None \<Rightarrow> JNull | Some s \<Rightarrow> JStr s)"

definition merge_sources :: "world \<Rightarrow> 's config \<Rightarrow> span \<Rightarrow> fields \<Rightarrow> fields \<Rightarrow> fields \<times> bool" where
  "merge_sources W cfg sp fs baggage =
     (case splat (w_probe W) [] [cfg_defaults cfg, span_defaults sp, baggage, fs] of
        Inr all \<Rightarrow> (all, False)
      | Inl e \<Rightarrow> merged (w_probe W) [fs, baggage, span_defaults sp, cfg_defaults cfg])"

definition build_event ::
  "world \<Rightarrow> 's config \<Rightarrow> draw \<Rightarrow> span \<Rightarrow> pystr \<Rightarrow> inbound \<Rightarrow> fields \<Rightarrow> fields \<Rightarrow> event result" where
  "build_event W cfg dr sp lev message fs baggage =
     (let (all, dropped) = merge_sources W cfg sp fs baggage;
          (safe, clipped) = sanitize_dict W cfg all
      in case truncate_arg message (cfg_value_bytes cfg) of
           Inl e \<Rightarrow> Inl e
         | Inr (bounded_message, message_clipped) \<Rightarrow>
           (case truncate_arg (span_name sp) (cfg_value_bytes cfg) of
              Inl e \<Rightarrow> Inl e
            | Inr (bounded_function, function_clipped) \<Rightarrow>
              Inr ([(str ''timestamp'', JStr (iso_now (d_now dr))),
                    (str ''level'', JStr lev),
                    (str ''message'', JStr bounded_message),
                    (str ''trace_id'', JStr (trace_id sp)),
                    (str ''span_id'', JStr (span_id sp)),
                    (str ''parent_span_id'', opt_str (parent_span_id sp)),
                    (str ''log_id'', JStr (new_log_id (d_log dr))),
                    (str ''function'', JStr bounded_function),
                    (str ''service'', JStr (service cfg)),
                    (str ''version'', JStr (version cfg)),
                    (str ''env'', JStr (cfg_env cfg))]
                   @ (if clipped \<or> dropped \<or> message_clipped \<or> function_clipped
                      then [(TRUNCATED, JBool True)] else [])
                   @ [(str ''fields'', JDict safe)])))"

definition start_event :: "world \<Rightarrow> 's config \<Rightarrow> draw \<Rightarrow> span \<Rightarrow> event result" where
  "start_event W cfg dr sp = build_event W cfg dr sp (str ''INFO'') (IStr START_MESSAGE) [] []"

text \<open>What an exception shows of itself: the stored names of its class and module, \<^verbatim>\<open>str(exc)\<close>
  and its formatted traceback, each of which the caller's class may make raise.\<close>

record exc_info =
  x_name :: "pystr option"
  x_module :: "pystr result"
  x_str :: "pystr result"
  x_stack :: "pystr result"

definition exc_type_name :: "exc_info \<Rightarrow> pystr" where
  "exc_type_name x = (case x_name x of Some n \<Rightarrow> n | None \<Rightarrow> str ''?'')"

definition stored_module :: "exc_info \<Rightarrow> pystr" where
  "stored_module x = (case x_module x of Inr s \<Rightarrow> s | Inl e \<Rightarrow> str ''?'')"

definition exception_message :: "exc_info \<Rightarrow> pystr" where
  "exception_message x = (case x_str x of Inr s \<Rightarrow> s | Inl e \<Rightarrow> str ''<unprintable message>'')"

definition exception_stack :: "exc_info \<Rightarrow> pystr" where
  "exception_stack x =
     (case x_stack x of Inr s \<Rightarrow> s | Inl e \<Rightarrow> str ''<unformattable traceback: '' @ exc_type_name x @ str ''>'')"

definition error_fields :: "'s config \<Rightarrow> exc_info \<Rightarrow> event \<times> bool" where
  "error_fields cfg x =
     (let (tname, t1) = truncate_str (exc_type_name x) (cfg_value_bytes cfg);
          (module, t2) = truncate_str (stored_module x) (cfg_value_bytes cfg);
          (message, t3) = truncate_str (exception_message x) (cfg_value_bytes cfg);
          (stack, t4) = truncate_tail (exception_stack x) (cfg_stack_bytes cfg)
      in ([(str ''type'', JStr tname), (str ''module'', JStr module),
           (str ''message'', JStr message), (str ''stack'', JStr stack)], t1 \<or> t2 \<or> t3 \<or> t4))"

text \<open>\<open>elapsed\<close> is the float \<^verbatim>\<open>(time.monotonic() - span.start_ts) * 1000.0\<close>.\<close>

definition end_event ::
  "world \<Rightarrow> 's config \<Rightarrow> draw \<Rightarrow> span \<Rightarrow> flt \<Rightarrow> pystr \<Rightarrow> exc_info option \<Rightarrow> event result" where
  "end_event W cfg dr sp elapsed status exc =
     (let lev = (if status = str ''ok'' then str ''INFO'' else str ''ERROR'')
      in case build_event W cfg dr sp lev (IStr END_MESSAGE) [] [] of
           Inl e \<Rightarrow> Inl e
         | Inr ev \<Rightarrow>
           (let ev = dict_set (str ''status'') (JStr status) (dict_set (str ''duration_ms'') (JFloat elapsed) ev)
            in case exc of
                 None \<Rightarrow> Inr ev
               | Some x \<Rightarrow>
                 (let (err, clipped) = error_fields cfg x;
                      ev = dict_set (str ''error'') (JDict err) ev
                  in Inr (if clipped then dict_set TRUNCATED (JBool True) ev else ev))))"

definition backfill_one :: "event \<Rightarrow> bool \<Rightarrow> event \<Rightarrow> event" where
  "backfill_one safe clipped ev =
     (if dict_get ev (str ''message'') \<in> {Some (JStr START_MESSAGE), Some (JStr END_MESSAGE)}
      then (case dict_get ev (str ''fields'') of
              Some (JDict fs) \<Rightarrow>
                (let ev = dict_set (str ''fields'') (JDict (dict_update fs safe)) ev
                 in if clipped then dict_set TRUNCATED (JBool True) ev else ev)
            | _ \<Rightarrow> ev)
      else ev)"

definition backfill_baggage :: "world \<Rightarrow> 's config \<Rightarrow> fields \<Rightarrow> span \<Rightarrow> span" where
  "backfill_baggage W cfg baggage sp =
     (if baggage = [] then sp
      else let (safe, clipped) = sanitize_dict W cfg baggage
           in sp\<lparr>events := map (backfill_one safe clipped) (events sp)\<rparr>)"

subsection \<open>Precedence of the merged dictionaries\<close>

text \<open>Keys that compare without raising: the probe answers an equivalence.\<close>

definition look :: "(ref \<Rightarrow> ref \<Rightarrow> bool) \<Rightarrow> ref \<Rightarrow> fields \<Rightarrow> ref option" where
  "look eqv k d = map_option snd (find (\<lambda>p. eqv k (fst p)) d)"

lemma look_simps [simp]:
  "look eqv k [] = None"
  "look eqv k ((k', v) # d) = (if eqv k k' then Some v else look eqv k d)"
  by (simp_all add: look_def)

lemma key_set_total [simp]:
  "key_set (\<lambda>a b. Inr (eqv a b)) k v [] = Inr [(k, v)]"
  "key_set (\<lambda>a b. Inr (eqv a b)) k v ((k', v') # d) =
     (if eqv k k' then Inr ((k', v) # d)
      else map_sum id ((#) (k', v')) (key_set (\<lambda>a b. Inr (eqv a b)) k v d))"
  by (auto simp: key_set_def map_sum_def split: sum.splits option.splits bool.splits)

lemma key_find_total:
  "\<exists>r. key_find (\<lambda>a b. Inr (eqv a b)) k d = Inr r \<and> (r = None \<longleftrightarrow> look eqv k d = None)"
  by (induction d) (auto split: bool.splits)

lemma key_set_look:
  assumes "equivp eqv"
  shows "\<exists>d'. key_set (\<lambda>a b. Inr (eqv a b)) k v d = Inr d' \<and>
    (\<forall>x. look eqv x d' = (if eqv x k then Some v else look eqv x d))"
proof (induction d)
  case (Cons p d)
  obtain k' v' where p: "p = (k', v')" by (cases p)
  from Cons obtain d' where "key_set (\<lambda>a b. Inr (eqv a b)) k v d = Inr d'"
    "\<forall>x. look eqv x d' = (if eqv x k then Some v else look eqv x d)" by blast
  moreover have "eqv x k' = eqv x k" if "eqv k k'" for x
    using assms that by (meson equivp_symp equivp_transp)
  moreover have "\<not> eqv x k" if "\<not> eqv k k'" "eqv x k'" for x
    using assms that by (meson equivp_symp equivp_transp)
  ultimately show ?case by (auto simp: p)
qed simp

primrec kwf :: "(ref \<Rightarrow> ref \<Rightarrow> bool) \<Rightarrow> fields \<Rightarrow> bool" where
  "kwf eqv [] = True"
| "kwf eqv (p # d) = (look eqv (fst p) d = None \<and> kwf eqv d)"

lemma look_cong: "equivp eqv \<Longrightarrow> eqv x k \<Longrightarrow> look eqv x d = look eqv k d"
  by (simp add: look_def equivp_def)

lemma key_update_look:
  assumes "equivp eqv" and "kwf eqv s"
  shows "\<exists>d'. key_update (\<lambda>a b. Inr (eqv a b)) d s = Inr d' \<and>
    (\<forall>x. look eqv x d' = (case look eqv x s of Some v \<Rightarrow> Some v | None \<Rightarrow> look eqv x d))"
  using assms(2)
proof (induction s arbitrary: d)
  case (Cons p s)
  obtain k v where p: "p = (k, v)" by (cases p)
  obtain d1 where d1: "key_set (\<lambda>a b. Inr (eqv a b)) k v d = Inr d1"
    "\<forall>x. look eqv x d1 = (if eqv x k then Some v else look eqv x d)"
    using key_set_look [OF assms(1)] by blast
  obtain d2 where d2: "key_update (\<lambda>a b. Inr (eqv a b)) d1 s = Inr d2"
    "\<forall>x. look eqv x d2 = (case look eqv x s of Some v \<Rightarrow> Some v | None \<Rightarrow> look eqv x d1)"
    using Cons.IH [of d1] Cons.prems by (auto simp: p)
  have "look eqv x s = None" if "eqv x k" for x
    using Cons.prems look_cong [OF assms(1) that] by (simp add: p)
  with d1 d2 show ?case by (auto simp: p split: option.splits)
qed simp

lemma merged_source_look:
  assumes "equivp eqv"
  shows "\<exists>out'. merged_source (\<lambda>a b. Inr (eqv a b)) s (out, dr) = (out', dr) \<and>
    (\<forall>x. look eqv x out' = (case look eqv x out of Some v \<Rightarrow> Some v | None \<Rightarrow> look eqv x s))"
proof (induction s arbitrary: out)
  case (Cons p s)
  obtain k v where p: "p = (k, v)" by (cases p)
  obtain r where r: "key_find (\<lambda>a b. Inr (eqv a b)) k out = Inr r" "r = None \<longleftrightarrow> look eqv k out = None"
    using key_find_total by blast
  have app: "look eqv x (out @ [(k, v)]) =
      (case look eqv x out of Some w \<Rightarrow> Some w | None \<Rightarrow> if eqv x k then Some v else None)" for x
    by (induction out) auto
  show ?case
  proof (cases r)
    case None
    then show ?thesis using Cons.IH [of "out @ [(k, v)]"] r by (fastforce simp: p app split: option.splits)
  next
    case (Some i)
    then have "look eqv x out \<noteq> None" if "eqv x k" for x
      using r look_cong [OF assms that] by simp
    then show ?thesis using Cons.IH [of out] r Some by (fastforce simp: p split: option.splits)
  qed
qed (auto split: option.splits)

definition first_of :: "(ref \<Rightarrow> ref \<Rightarrow> bool) \<Rightarrow> ref \<Rightarrow> fields list \<Rightarrow> ref option" where
  "first_of eqv x ds = (case find (\<lambda>d. look eqv x d \<noteq> None) ds of None \<Rightarrow> None | Some d \<Rightarrow> look eqv x d)"

lemma first_of_simps [simp]:
  "first_of eqv x [] = None"
  "first_of eqv x (d # ds) = (case look eqv x d of Some v \<Rightarrow> Some v | None \<Rightarrow> first_of eqv x ds)"
  by (auto simp: first_of_def split: option.splits)

lemma splat_look:
  assumes "equivp eqv" and "\<forall>s \<in> set ss. kwf eqv s"
  shows "\<exists>d'. splat (\<lambda>a b. Inr (eqv a b)) d ss = Inr d' \<and>
    (\<forall>x. look eqv x d' = first_of eqv x (rev ss @ [d]))"
  using assms(2)
proof (induction ss arbitrary: d)
  case (Cons s ss)
  obtain d1 where d1: "key_update (\<lambda>a b. Inr (eqv a b)) d s = Inr d1"
    "\<forall>x. look eqv x d1 = (case look eqv x s of Some v \<Rightarrow> Some v | None \<Rightarrow> look eqv x d)"
    using key_update_look [OF assms(1)] Cons.prems by fastforce
  have app: "first_of eqv x (as @ bs) = (case first_of eqv x as of Some v \<Rightarrow> Some v | None \<Rightarrow> first_of eqv x bs)"
    for x as bs by (induction as) (auto split: option.splits)
  obtain d2 where "splat (\<lambda>a b. Inr (eqv a b)) d1 ss = Inr d2"
    "\<forall>x. look eqv x d2 = first_of eqv x (rev ss @ [d1])" using Cons.IH [of d1] Cons.prems by auto
  with d1 show ?case by (auto simp: app split: option.splits)
qed (simp split: option.splits)

lemma merged_look:
  assumes "equivp eqv"
  shows "\<exists>out'. fold (merged_source (\<lambda>a b. Inr (eqv a b))) ss (out, False) = (out', False) \<and>
    (\<forall>x. look eqv x out' = first_of eqv x (out # ss))"
proof (induction ss arbitrary: out)
  case (Cons s ss)
  obtain o1 where o1: "merged_source (\<lambda>a b. Inr (eqv a b)) s (out, False) = (o1, False)"
    "\<forall>x. look eqv x o1 = (case look eqv x out of Some v \<Rightarrow> Some v | None \<Rightarrow> look eqv x s)"
    using merged_source_look [OF assms] by blast
  obtain o2 where "fold (merged_source (\<lambda>a b. Inr (eqv a b))) ss (o1, False) = (o2, False)"
    "\<And>x. look eqv x o2 = first_of eqv x (o1 # ss)" using Cons.IH [of o1] by blast
  with o1 show ?case by (auto split: option.splits)
qed (simp split: option.splits)

text \<open>Call-site fields take precedence over baggage, baggage over the span's defaults, and
  those over the configured defaults, whichever of the two merges ran: the fast one, or the
  entry-by-entry one that survives keys whose comparison raises.\<close>

theorem merge_precedence:
  assumes "equivp eqv" and "w_probe W = (\<lambda>a b. Inr (eqv a b))"
    and "kwf eqv (cfg_defaults cfg)" and "kwf eqv (span_defaults sp)" and "kwf eqv baggage" and "kwf eqv fs"
  shows "\<not> snd (merge_sources W cfg sp fs baggage) \<and>
    look eqv x (fst (merge_sources W cfg sp fs baggage)) =
      first_of eqv x [fs, baggage, span_defaults sp, cfg_defaults cfg] \<and>
    look eqv x (fst (merged (w_probe W) [fs, baggage, span_defaults sp, cfg_defaults cfg])) =
      first_of eqv x [fs, baggage, span_defaults sp, cfg_defaults cfg]"
proof -
  let ?ss = "[cfg_defaults cfg, span_defaults sp, baggage, fs]"
  obtain d where "splat (w_probe W) [] ?ss = Inr d" "look eqv x d = first_of eqv x (rev ?ss @ [[]])"
    using splat_look [OF assms(1), of ?ss "[]"] assms by auto
  moreover obtain out where "fold (merged_source (w_probe W)) (rev ?ss) ([], False) = (out, False)"
    "look eqv x out = first_of eqv x ([] # rev ?ss)"
    using merged_look [OF assms(1), of "rev ?ss" "[]"] assms(2) by auto
  ultimately show ?thesis by (simp add: merge_sources_def merged_def split: option.splits)
qed

subsection \<open>Events carry the identity of their span\<close>

lemma str_eq_iff [simp]: "str s = str t \<longleftrightarrow> s = t"
proof -
  have "inj (of_char :: char \<Rightarrow> nat)" by (rule inj_of_char)
  then show ?thesis by (simp add: str_def inj_map_eq_map)
qed

lemmas event_key_defs = START_MESSAGE_def END_MESSAGE_def TRUNCATED_def

definition belongs :: "span \<Rightarrow> event \<Rightarrow> bool" where
  "belongs sp ev \<longleftrightarrow> dict_get ev (str ''trace_id'') = Some (JStr (trace_id sp)) \<and>
     dict_get ev (str ''span_id'') = Some (JStr (span_id sp)) \<and>
     dict_get ev (str ''parent_span_id'') = Some (opt_str (parent_span_id sp))"

lemma build_event_cases:
  assumes "build_event W cfg dr sp lev message fs baggage = Inr ev"
  obtains all dropped safe clipped m mc f fc where
    "merge_sources W cfg sp fs baggage = (all, dropped)" "sanitize_dict W cfg all = (safe, clipped)"
    "truncate_arg message (cfg_value_bytes cfg) = Inr (m, mc)"
    "truncate_arg (span_name sp) (cfg_value_bytes cfg) = Inr (f, fc)"
    "dict_get ev (str ''message'') = Some (JStr m)" "dict_get ev (str ''function'') = Some (JStr f)"
    "dict_get ev (str ''level'') = Some (JStr lev)" "dict_get ev (str ''fields'') = Some (JDict safe)"
    "dict_get ev TRUNCATED = (if clipped \<or> dropped \<or> mc \<or> fc then Some (JBool True) else None)"
    "dict_wf ev" "belongs sp ev" "dict_get ev (str ''error'') = None"
proof -
  obtain all dropped where 1: "merge_sources W cfg sp fs baggage = (all, dropped)" by (cases "merge_sources W cfg sp fs baggage")
  obtain safe clipped where 2: "sanitize_dict W cfg all = (safe, clipped)" by (cases "sanitize_dict W cfg all")
  obtain m mc where 3: "truncate_arg message (cfg_value_bytes cfg) = Inr (m, mc)"
    using assms 1 2 by (auto simp: build_event_def split: sum.splits)
  obtain f fc where 4: "truncate_arg (span_name sp) (cfg_value_bytes cfg) = Inr (f, fc)"
    using assms 1 2 3 by (auto simp: build_event_def split: sum.splits)
  show ?thesis
    using assms by (intro that [OF 1 2 3 4])
      (auto simp: build_event_def 1 2 3 4 belongs_def dict_wf_def TRUNCATED_def dict_get_def)
qed

lemma belongs_set:
  "belongs sp ev \<Longrightarrow> k \<notin> {str ''trace_id'', str ''span_id'', str ''parent_span_id''} \<Longrightarrow> belongs sp (dict_set k v ev)"
  by (auto simp: belongs_def)

lemma build_event_belongs:
  "build_event W cfg dr sp lev message fs baggage = Inr ev \<Longrightarrow> belongs sp ev"
  by (erule build_event_cases)

lemma end_event_cases:
  assumes "end_event W cfg dr sp elapsed status exc = Inr ev"
  shows "belongs sp ev \<and> dict_wf ev \<and> dict_get ev (str ''status'') = Some (JStr status) \<and>
    dict_get ev (str ''level'') = Some (JStr (if status = str ''ok'' then str ''INFO'' else str ''ERROR'')) \<and>
    dict_get ev (str ''duration_ms'') = Some (JFloat elapsed) \<and>
    dict_get ev (str ''error'') = map_option (\<lambda>x. JDict (fst (error_fields cfg x))) exc"
proof -
  let ?lev = "if status = str ''ok'' then str ''INFO'' else str ''ERROR''"
  obtain ev0 where b: "build_event W cfg dr sp ?lev (IStr END_MESSAGE) [] [] = Inr ev0"
    using assms by (cases "build_event W cfg dr sp ?lev (IStr END_MESSAGE) [] []") (auto simp: end_event_def Let_def)
  let ?ev1 = "dict_set (str ''status'') (JStr status) (dict_set (str ''duration_ms'') (JFloat elapsed) ev0)"
  have ev: "ev = (case exc of None \<Rightarrow> ?ev1
      | Some x \<Rightarrow> let ev2 = dict_set (str ''error'') (JDict (fst (error_fields cfg x))) ?ev1
          in if snd (error_fields cfg x) then dict_set TRUNCATED (JBool True) ev2 else ev2)"
    using assms b by (auto simp: end_event_def Let_def split: option.splits prod.splits)
  have 0: "belongs sp ev0" "dict_wf ev0" "dict_get ev0 (str ''level'') = Some (JStr ?lev)"
    "dict_get ev0 (str ''error'') = None"
    using b by (auto elim: build_event_cases)
  have 1: "belongs sp ?ev1" "dict_wf ?ev1" using 0 by (simp_all add: belongs_set)
  show ?thesis
  proof (cases exc)
    case None
    with 0 1 show ?thesis by (simp add: ev)
  next
    case (Some x)
    with 0 1 show ?thesis by (simp add: ev TRUNCATED_def belongs_set Let_def)
  qed
qed

definition world_ok :: "world \<Rightarrow> bool" where
  "world_ok W \<longleftrightarrow> (\<forall>r. wf_obj (w_heap W r)) \<and> (\<forall>q. wf_text (w_frepr W q))"

fun inbound_text :: "inbound \<Rightarrow> pystr option" where
  "inbound_text (IStr t) = Some t"
| "inbound_text (IStrSub t) = Some t"
| "inbound_text _ = None"

lemma sanitize_dict_safe:
  assumes "world_ok W"
  shows "out_ok (cfg_limits W cfg) (cfg_depth cfg) (fst (sanitize_dict W cfg d))"
proof -
  let ?h = "(w_heap W)(w_alloc W := new_dict d)"
  have "wf_world (cfg_limits W cfg) ?h"
    using assms by (simp add: wf_world_def world_ok_def cfg_limits_def budgeted_def wf_obj_def wf_res_def new_dict_def)
  then obtain st where "out_ok (cfg_limits W cfg) (max_depth (cfg_limits W cfg)) (fst (sanitize_dict W cfg d))"
    using sanitize_fields_cases unfolding sanitize_dict_def by blast
  then show ?thesis by (simp add: cfg_limits_def budgeted_def)
qed

lemma truncate_arg_cases:
  assumes "truncate_arg t n = Inr (m, c)" and "\<And>s. inbound_text t = Some s \<Longrightarrow> wf_text s"
  shows "(\<forall>c \<in> set m. scalar c) \<and> utf8_size m \<le> max n MARKER_BYTES \<and> (c \<or> inbound_text t = Some m)"
proof -
  obtain s where s: "inbound_text t = Some s" "truncate_str s n = (m, c)"
    using assms(1) by (cases t) auto
  then have "clip_spec s n = (m, c)"
    using clip_eq [of s n] assms(2) by (simp add: truncate_str_def)
  then show ?thesis
    using s assms(2) clip_spec_scalar [of s _ n] clip_spec_size [of s n] clip_spec_same [of s n] by fastforce
qed

lemma build_event_total:
  "(\<exists>ev. build_event W cfg dr sp lev message fs baggage = Inr ev) \<longleftrightarrow>
     inbound_text message \<noteq> None \<and> inbound_text (span_name sp) \<noteq> None"
  by (cases message; cases "span_name sp") (simp_all add: build_event_def Let_def case_prod_beta)

lemma build_event_error: "build_event W cfg dr sp lev message fs baggage = Inl e \<Longrightarrow> e = TypeError"
  by (cases message; cases "span_name sp") (simp_all add: build_event_def Let_def case_prod_beta)


lemma backfill_one_scope:
  "(\<forall>k. k \<in> {str ''fields'', TRUNCATED} \<or> dict_get (backfill_one safe clipped ev) k = dict_get ev k) \<and>
   (backfill_one safe clipped ev = ev \<or>
     dict_get ev (str ''message'') \<in> {Some (JStr START_MESSAGE), Some (JStr END_MESSAGE)} \<and>
     (\<exists>d. dict_get ev (str ''fields'') = Some (JDict d) \<and>
       dict_get (backfill_one safe clipped ev) (str ''fields'') = Some (JDict (dict_update d safe))))"
proof (cases "dict_get ev (str ''message'') \<in> {Some (JStr START_MESSAGE), Some (JStr END_MESSAGE)} \<and>
    (\<exists>d. dict_get ev (str ''fields'') = Some (JDict d))")
  case True
  then obtain d where d: "dict_get ev (str ''fields'') = Some (JDict d)" by blast
  have "str ''fields'' \<noteq> TRUNCATED" by (simp add: TRUNCATED_def)
  then show ?thesis using True d by (simp add: backfill_one_def Let_def)
next
  case False
  then have "backfill_one safe clipped ev = ev"
    unfolding backfill_one_def by (simp split: option.split jval.split) blast
  then show ?thesis by simp
qed

text \<open>A world with one small heap, and a span in it.\<close>

definition small_world_of :: world where
  "small_world_of = \<lparr>w_heap = small_heap, w_alloc = 9, w_probe = (\<lambda>a b. Inr (a = b)), w_digits = 4300,
     w_frepr = (\<lambda>_. []), w_intern = (\<lambda>_. 1)\<rparr>"

definition small_span :: span where
  "small_span = \<lparr>trace_id = [97], span_id = [98], parent_span_id = None, span_name = IStr [102],
     start_ts = Fin 0, span_defaults = [(1, 2)], events = [], closed = False, swept = False\<rparr>"

definition small_draw :: draw where
  "small_draw = \<lparr>d_now = \<lparr>year = 2024, month = 1, day = 2, hour = 3, minute = 4, second = 5, microsecond = 6\<rparr>,
     d_log = replicate 16 7\<rparr>"

definition small_config :: "unit config" where
  "small_config = default_config"

lemma small_world_ok: "world_ok small_world_of"
  using small_world by (simp add: world_ok_def small_world_of_def wf_world_def)

theorem merge_precedence_witness:
  "look (=) 1 (fst (merge_sources small_world_of small_config small_span [(1, 3)] [])) = Some 3"
  using merge_precedence [of "(=)" small_world_of small_config small_span "[]" "[(1, 3)]" 1]
  by (simp add: small_world_of_def small_config_def default_config_def small_span_def identity_equivp)


text \<open>Backfilling baggage rewrites lifecycle events only, and of those only the fields and
  the truncation mark: the buffer keeps its length and order, every event keeps the identity of
  its span, and a key of the baggage ends up with the baggage's value.\<close>

theorem backfill_scope:
  "length (events (backfill_baggage W cfg baggage sp)) = length (events sp) \<and>
   list_all2 (\<lambda>ev ev'.
       (\<forall>k. k \<in> {str ''fields'', TRUNCATED} \<or> dict_get ev' k = dict_get ev k) \<and>
       (ev' = ev \<or> dict_get ev (str ''message'') \<in> {Some (JStr START_MESSAGE), Some (JStr END_MESSAGE)} \<and>
         (\<exists>d. dict_get ev (str ''fields'') = Some (JDict d) \<and>
           dict_get ev' (str ''fields'') = Some (JDict (dict_update d (fst (sanitize_dict W cfg baggage)))))))
     (events sp) (events (backfill_baggage W cfg baggage sp))"
proof (cases "baggage = []")
  case True
  then show ?thesis by (simp add: backfill_baggage_def list_all2_same)
next
  case False
  obtain safe clipped where sd: "sanitize_dict W cfg baggage = (safe, clipped)" by (cases "sanitize_dict W cfg baggage")
  then have "events (backfill_baggage W cfg baggage sp) = map (backfill_one safe clipped) (events sp)"
    using False by (simp add: backfill_baggage_def)
  then show ?thesis using backfill_one_scope by (simp add: sd list_all2_map2 list_all2_same)
qed

end
