(* ===== verification/Context.thy ===== *)
theory Context
  imports Events "HOL-Library.Sublist"
begin

text \<open>
  The tracing context of \<^verbatim>\<open>src/log_foundry/context.py\<close>: the three context variables (span
  stack, baggage, adopted trace context) and the W3C baggage header, written with
  \<^verbatim>\<open>urllib.parse.quote\<close> and read back with \<^verbatim>\<open>unquote\<close>. A token of a context variable is the
  value the variable had before; spans are named by their position in the span store of the
  tracing layer.
\<close>

record ctx =
  stack :: "nat list"           \<comment> \<open>\<^verbatim>\<open>_span_stack\<close>, innermost last\<close>
  baggage :: fields
  adopted :: "(pystr \<times> pystr option) option"

definition empty_ctx :: ctx where
  "empty_ctx = \<lparr>stack = [], baggage = [], adopted = None\<rparr>"

definition current_span :: "ctx \<Rightarrow> nat option" where
  "current_span c = (if stack c = [] then None else Some (last (stack c)))"

definition push_span :: "nat \<Rightarrow> ctx \<Rightarrow> nat list \<times> ctx" where
  "push_span s c = (stack c, c\<lparr>stack := stack c @ [s]\<rparr>)"

definition pop_span :: "nat list \<Rightarrow> ctx \<Rightarrow> ctx" where
  "pop_span token c = c\<lparr>stack := token\<rparr>"

definition set_baggage :: "(ref \<Rightarrow> ref \<Rightarrow> bool result) \<Rightarrow> fields \<Rightarrow> ctx \<Rightarrow> ctx result" where
  "set_baggage probe kv c =
     (case splat probe [] [baggage c, kv] of Inl e \<Rightarrow> Inl e | Inr b \<Rightarrow> Inr (c\<lparr>baggage := b\<rparr>))"

definition push_baggage_scope :: "ctx \<Rightarrow> fields \<times> ctx" where
  "push_baggage_scope c = (baggage c, c)"

definition pop_baggage_scope :: "fields \<Rightarrow> ctx \<Rightarrow> ctx" where
  "pop_baggage_scope token c = c\<lparr>adopted := None, baggage := token\<rparr>"

definition reset_context :: "ctx \<Rightarrow> ctx" where
  "reset_context c = c\<lparr>adopted := None, baggage := []\<rparr>"

definition set_adopted_context :: "pystr \<Rightarrow> pystr option \<Rightarrow> ctx \<Rightarrow> ctx" where
  "set_adopted_context t p c = c\<lparr>adopted := Some (t, p)\<rparr>"

definition current_traceparent :: "(nat \<Rightarrow> span) \<Rightarrow> ctx \<Rightarrow> pystr option" where
  "current_traceparent spans c =
     map_option (\<lambda>s. format_traceparent (trace_id (spans s)) (span_id (spans s))) (current_span c)"

definition current_trace_context :: "(nat \<Rightarrow> span) \<Rightarrow> ctx \<Rightarrow> (pystr \<times> pystr) option" where
  "current_trace_context spans c =
     map_option (\<lambda>s. (trace_id (spans s), span_id (spans s))) (current_span c)"

subsection \<open>Percent encoding\<close>

definition unreserved :: "nat \<Rightarrow> bool" where
  "unreserved c \<longleftrightarrow> (48 \<le> c \<and> c \<le> 57) \<or> (65 \<le> c \<and> c \<le> 90) \<or> (97 \<le> c \<and> c \<le> 122) \<or>
     c = 95 \<or> c = 46 \<or> c = 45 \<or> c = 126"

definition upper_hex :: "nat \<Rightarrow> nat" where
  "upper_hex d = (if d < 10 then 48 + d else 55 + d)"

definition quote_byte :: "nat \<Rightarrow> pystr" where
  "quote_byte b = (if unreserved b then [b] else [37, upper_hex (b div 16), upper_hex (b mod 16)])"

definition quote :: "pystr \<Rightarrow> pystr result" where
  "quote t = map_sum id (\<lambda>bs. concat (map quote_byte bs)) (encode_utf8 t)"

definition unhex :: "nat \<Rightarrow> nat option" where
  "unhex c = (if 48 \<le> c \<and> c \<le> 57 then Some (c - 48)
     else if 65 \<le> c \<and> c \<le> 70 then Some (c - 55)
     else if 97 \<le> c \<and> c \<le> 102 then Some (c - 87) else None)"

fun unquote_to_bytes :: "pystr \<Rightarrow> bytes" where
  "unquote_to_bytes [] = []"
| "unquote_to_bytes (c # r) =
     (if c = 37 then
        (case r of
           a # b # r' \<Rightarrow>
             (case (unhex a, unhex b) of
                (Some x, Some y) \<Rightarrow> (16 * x + y) # unquote_to_bytes r'
              | _ \<Rightarrow> c # unquote_to_bytes r)
         | _ \<Rightarrow> c # unquote_to_bytes r)
      else c # unquote_to_bytes r)"

text \<open>Runs of ASCII characters are unquoted and decoded, other characters are kept.\<close>

fun unquote_runs :: "pystr \<Rightarrow> pystr \<Rightarrow> pystr" where
  "unquote_runs run [] = decode_replace (unquote_to_bytes run)"
| "unquote_runs run (c # r) =
     (if c < 128 then unquote_runs (run @ [c]) r
      else decode_replace (unquote_to_bytes run) @ c # unquote_runs [] r)"

definition unquote :: "pystr \<Rightarrow> pystr" where
  "unquote t = (if 37 \<in> set t then unquote_runs [] t else t)"

subsection \<open>The baggage header\<close>

definition BAGGAGE_MAX_BYTES :: nat where "BAGGAGE_MAX_BYTES = 8192"

text \<open>\<open>pystr_of\<close> is \<^verbatim>\<open>str(value)\<close> on a coerced value that is no \<^verbatim>\<open>str\<close>, \<open>pytype\<close> the
  stored name of its class.\<close>

definition value_text :: "(jval \<Rightarrow> pystr result) \<Rightarrow> jval \<Rightarrow> pystr result" where
  "value_text pystr_of v = (case v of JStr s \<Rightarrow> Inr s | _ \<Rightarrow> pystr_of v)"

definition render_member ::
  "(jval \<Rightarrow> pystr result) \<Rightarrow> (jval \<Rightarrow> pystr) \<Rightarrow> pystr \<Rightarrow> jval \<Rightarrow> pystr option" where
  "render_member pystr_of pytype key v =
     (case quote key of
        Inl e \<Rightarrow> None
      | Inr encoded_key \<Rightarrow>
        if encoded_key = [] then None
        else
         (case (case value_text pystr_of v of Inl e \<Rightarrow> Inl e | Inr t \<Rightarrow> quote t) of
            Inr encoded_value \<Rightarrow> Some (encoded_key @ [61] @ encoded_value)
          | Inl e \<Rightarrow>
            (case quote (str ''<unserializable: '' @ pytype v @ str ''>'') of
               Inr encoded_value \<Rightarrow> Some (encoded_key @ [61] @ encoded_value)
             | Inl e \<Rightarrow> None)))"

record hdr =
  members :: "pystr list"
  hsize :: nat
  dropped :: nat
  ended :: bool

definition header_step ::
  "(jval \<Rightarrow> pystr result) \<Rightarrow> (jval \<Rightarrow> pystr) \<Rightarrow> pystr \<times> jval \<Rightarrow> hdr \<Rightarrow> hdr" where
  "header_step pystr_of pytype kv hs =
     (if ended hs then hs\<lparr>dropped := dropped hs + 1\<rparr>
      else case render_member pystr_of pytype (fst kv) (snd kv) of
             None \<Rightarrow> hs\<lparr>dropped := dropped hs + 1\<rparr>
           | Some member \<Rightarrow>
               (let grown = hsize hs + length member + (if members hs = [] then 0 else 1)
                in if grown > BAGGAGE_MAX_BYTES then hs\<lparr>ended := True, dropped := dropped hs + 1\<rparr>
                   else hs\<lparr>members := members hs @ [member], hsize := grown\<rparr>))"

text \<open>The header and how many members were dropped from it.\<close>

definition format_baggage_header ::
  "world \<Rightarrow> 's config \<Rightarrow> (jval \<Rightarrow> pystr result) \<Rightarrow> (jval \<Rightarrow> pystr) \<Rightarrow> fields \<Rightarrow> pystr \<times> nat" where
  "format_baggage_header W cfg pystr_of pytype bag =
     (if bag = [] then ([], 0)
      else let coerced = fst (sanitize_dict W cfg bag);
               hs = fold (header_step pystr_of pytype) coerced
                      \<lparr>members = [], hsize = 0, dropped = 0, ended = False\<rparr>
           in (join_with 44 (members hs), dropped hs))"

text \<open>The running total after a header dropped \<open>count\<close> members, and whether one of them
  crossed a threshold and is announced.\<close>

definition WARN_EVERY :: nat where "WARN_EVERY = 1000"

definition announce_dropped :: "nat \<Rightarrow> nat \<Rightarrow> nat \<times> bool" where
  "announce_dropped count tally =
     (tally + count, list_ex (\<lambda>n. n = 1 \<or> n mod WARN_EVERY = 0) [tally + 1..<tally + count + 1])"

definition encoded_length :: "pystr \<Rightarrow> nat" where
  "encoded_length t = utf8_size (map (\<lambda>c. if is_surrogate c then 63 else c) t)"

fun parse_members :: "pystr list \<Rightarrow> (pystr, pystr) dict \<Rightarrow> (pystr, pystr) dict option" where
  "parse_members [] parsed = Some parsed"
| "parse_members (member # ms) parsed =
     (let entry = strip (takeWhile (\<lambda>c. c \<noteq> 59) member)
      in if entry = [] then parse_members ms parsed
         else if 61 \<notin> set entry then None
         else let key = unquote (strip (takeWhile (\<lambda>c. c \<noteq> 61) entry));
                  val = unquote (strip (tl (dropWhile (\<lambda>c. c \<noteq> 61) entry)))
              in if key = [] then None
                 else parse_members ms (dict_set key val parsed))"

fun parse_baggage_header :: "inbound \<Rightarrow> (pystr, pystr) dict option" where
  "parse_baggage_header (IStr header) =
     (if strip header = [] then None
      else if encoded_length header > BAGGAGE_MAX_BYTES then None
      else case parse_members (split_on 44 header) [] of
             None \<Rightarrow> None
           | Some parsed \<Rightarrow> if parsed = [] then None else Some parsed)"
| "parse_baggage_header _ = None"

subsection \<open>Quoting round trip\<close>

definition plain_char :: "nat \<Rightarrow> bool" where
  "plain_char c \<longleftrightarrow> unreserved c \<or> c = 37"

lemma unhex_upper [simp]: "d < 16 \<Longrightarrow> unhex (upper_hex d) = Some d"
  by (auto simp: unhex_def upper_hex_def)

lemma upper_hex_unreserved: "d < 16 \<Longrightarrow> unreserved (upper_hex d)"
  by (cases "d < 10") (simp_all add: unreserved_def upper_hex_def)

lemma quote_byte_plain:
  assumes "b < 256" and "c \<in> set (quote_byte b)"
  shows "plain_char c"
proof -
  have "b div 16 < 16" "b mod 16 < 16" using assms(1) by auto
  then show ?thesis using assms(2) upper_hex_unreserved
    by (auto simp: quote_byte_def plain_char_def split: if_splits)
qed

lemma unquote_quote_byte:
  assumes "b < 256"
  shows "unquote_to_bytes (quote_byte b @ r) = b # unquote_to_bytes r"
proof (cases "unreserved b")
  case True
  then have "b \<noteq> 37" by (auto simp: unreserved_def)
  with True show ?thesis by (simp add: quote_byte_def)
next
  case False
  have "b div 16 < 16" "b mod 16 < 16" using assms by auto
  with False show ?thesis by (simp add: quote_byte_def)
qed

lemma unquote_quote_bytes:
  "\<forall>b \<in> set bs. b < 256 \<Longrightarrow> unquote_to_bytes (concat (map quote_byte bs)) = bs"
  by (induction bs) (auto simp: unquote_quote_byte)

lemma unquote_runs_ascii: "\<forall>c \<in> set t. c < 128 \<Longrightarrow> unquote_runs run t = decode_replace (unquote_to_bytes (run @ t))"
  by (induction t arbitrary: run) auto

lemma utf8_char_head: "scalar c \<Longrightarrow> hd (utf8_char c) < 256"
proof -
  assume "scalar c"
  then have "c < 1114112" by (simp add: scalar_def)
  then have "c div 262144 < 5" "c < 2048 \<Longrightarrow> c div 64 < 32" "c < 65536 \<Longrightarrow> c div 4096 < 16"
    by (simp_all add: div_less_iff_less_mult)
  then show ?thesis by (cases "c < 128"; cases "c < 2048"; cases "c < 65536") (simp_all add: utf8_char_def)
qed

lemma utf8_byte: "scalar c \<Longrightarrow> b \<in> set (utf8_char c) \<Longrightarrow> b < 256"
  using utf8_char_cont [of b c] utf8_char_head [of c]
  by (cases "utf8_char c") (auto simp: cont_def)

lemma utf8_ascii: "\<forall>b \<in> set (utf8 t). b < 128 \<Longrightarrow> utf8 t = t"
proof (induction t)
  case (Cons c t)
  have "utf8_char c = [c]"
  proof (cases "c < 128")
    case False
    then have "128 \<le> hd (utf8_char c)" by (simp add: utf8_char_def)
    moreover have "hd (utf8_char c) < 128" using Cons.prems by (simp add: ball_Un)
    ultimately show ?thesis by simp
  qed (simp add: utf8_char_def)
  with Cons show ?case by simp
qed simp

abbreviation quoted :: "pystr \<Rightarrow> pystr" where
  "quoted t \<equiv> concat (map quote_byte (utf8 t))"

lemma utf8_bytes: "\<forall>c \<in> set t. scalar c \<Longrightarrow> \<forall>b \<in> set (utf8 t). b < 256"
  by (induction t) (auto dest: utf8_byte)

lemma quoted_plain: "\<forall>c \<in> set t. scalar c \<Longrightarrow> \<forall>c \<in> set (quoted t). plain_char c"
  using utf8_bytes [of t] quote_byte_plain by fastforce

lemma plain_char_facts:
  "plain_char c \<Longrightarrow> c < 128 \<and> \<not> is_space c \<and> c \<noteq> 44 \<and> c \<noteq> 59 \<and> c \<noteq> 61"
  by (auto simp: plain_char_def unreserved_def is_space_def)

lemma unquote_quoted:
  assumes "\<forall>c \<in> set t. scalar c"
  shows "unquote (quoted t) = t"
proof (cases "37 \<in> set (quoted t)")
  case True
  have "decode_replace (utf8 t) = t"
    using decode_with_utf8 [OF assms, of _ "[]"] by (simp add: decode_replace_def)
  with True show ?thesis
    using unquote_runs_ascii [of "quoted t" "[]"] quoted_plain [OF assms] plain_char_facts
      unquote_quote_bytes [OF utf8_bytes [OF assms]] by (fastforce simp: unquote_def)
next
  case False
  have "unreserved b" if "b \<in> set (utf8 t)" for b
    using False that by (auto simp: quote_byte_def split: if_splits)
  then have "\<forall>b \<in> set (utf8 t). quote_byte b = [b] \<and> b < 128"
    by (fastforce simp: quote_byte_def unreserved_def)
  then have "quoted t = utf8 t" "utf8 t = t"
    by (auto intro!: utf8_ascii simp: map_idI cong: map_cong)
  then show ?thesis unfolding unquote_def if_not_P [OF False] by simp
qed

lemma quoted_nonempty: "quoted t = [] \<longleftrightarrow> t = []"
proof (cases t)
  case (Cons c r)
  obtain b bs where "utf8_char c = b # bs" by (cases "utf8_char c") auto
  then show ?thesis by (simp add: Cons quote_byte_def)
qed simp

text \<open>One member as it is written.\<close>

abbreviation member_text :: "pystr \<times> pystr \<Rightarrow> pystr" where
  "member_text m \<equiv> quoted (fst m) @ [61] @ quoted (snd m)"

definition member_ok :: "pystr \<times> pystr \<Rightarrow> bool" where
  "member_ok m \<longleftrightarrow> fst m \<noteq> [] \<and> (\<forall>c \<in> set (fst m). scalar c) \<and> (\<forall>c \<in> set (snd m). scalar c)"

lemma member_chars:
  assumes "member_ok m" and "c \<in> set (member_text m)"
  shows "c < 128 \<and> \<not> is_space c \<and> c \<noteq> 44 \<and> c \<noteq> 59"
proof -
  have "plain_char c \<or> c = 61"
    using assms quoted_plain [of "fst m"] quoted_plain [of "snd m"] unfolding member_ok_def by force
  then show ?thesis using plain_char_facts [of c] by (auto simp: is_space_def)
qed

lemma parse_member_text:
  assumes "member_ok m"
  shows "parse_members (member_text m # ms) parsed = parse_members ms (dict_set (fst m) (snd m) parsed)"
proof -
  define e where "e = member_text m"
  have no: "61 \<notin> set (quoted (fst m))" "strip (quoted (fst m)) = quoted (fst m)"
    "strip (quoted (snd m)) = quoted (snd m)"
    using assms quoted_plain plain_char_facts unfolding member_ok_def
    by (fastforce intro!: strip_id)+
  have "takeWhile (\<lambda>c. c \<noteq> 59) e = e"
    using member_chars [OF assms] unfolding takeWhile_eq_all_conv e_def by blast
  moreover have "strip e = e" using member_chars [OF assms] unfolding e_def by (intro strip_id) blast
  moreover have "takeWhile (\<lambda>c. c \<noteq> 61) e = quoted (fst m)"
    using no(1) unfolding e_def by (subst takeWhile_append2) auto
  moreover have "dropWhile (\<lambda>c. c \<noteq> 61) e = 61 # quoted (snd m)"
    using no(1) unfolding e_def by (subst dropWhile_append2) auto
  moreover have "e \<noteq> []" "61 \<in> set e" by (simp_all add: e_def)
  ultimately have "parse_members (e # ms) parsed = parse_members ms (dict_set (fst m) (snd m) parsed)"
    using assms no unquote_quoted [of "fst m"] unquote_quoted [of "snd m"]
    by (simp add: member_ok_def Let_def del: takeWhile_eq_all_conv)
  then show ?thesis by (simp only: e_def)
qed

lemma parse_member_texts:
  assumes "\<forall>m \<in> set kept. member_ok m" and "distinct (map fst (parsed @ kept))"
  shows "parse_members (map member_text kept) parsed = Some (parsed @ kept)"
  using assms
proof (induction kept arbitrary: parsed)
  case (Cons m kept)
  have "dict_set (fst m) (snd m) parsed = parsed @ [m]"
    using Cons.prems(2) dict_set_fresh [of "fst m" parsed "snd m"] by auto
  moreover have "parse_members (map member_text kept) (parsed @ [m]) = Some ((parsed @ [m]) @ kept)"
    using Cons.prems by (intro Cons.IH) auto
  ultimately show ?case
    using parse_member_text [of m "map member_text kept" parsed] Cons.prems(1) by simp
qed simp

subsection \<open>The header is what the parser reads\<close>

definition placeholder_for :: "(jval \<Rightarrow> pystr) \<Rightarrow> jval \<Rightarrow> pystr" where
  "placeholder_for pytype v = str ''<unserializable: '' @ pytype v @ str ''>''"

text \<open>Texts the language returns are sequences of code points.\<close>

definition texts_ok :: "(jval \<Rightarrow> pystr result) \<Rightarrow> (jval \<Rightarrow> pystr) \<Rightarrow> bool" where
  "texts_ok pystr_of pytype \<longleftrightarrow> (\<forall>v. wf_res (pystr_of v) \<and> wf_text (pytype v))"

lemma quote_scalar: "wf_text t \<Longrightarrow> quote t = Inr q \<Longrightarrow> q = quoted t \<and> (\<forall>c \<in> set t. scalar c)"
  by (auto simp: quote_def encode_utf8_def wf_text_def scalar_def split: if_splits)

lemma render_member_cases:
  assumes "texts_ok pystr_of pytype" and "wf_text k" and "\<And>s. v = JStr s \<Longrightarrow> wf_text s"
    and "render_member pystr_of pytype k v = Some member"
  shows "\<exists>t. member = member_text (k, t) \<and> member_ok (k, t) \<and>
    (value_text pystr_of v = Inr t \<or> t = placeholder_for pytype v)"
proof -
  have wf: "wf_text t" if "value_text pystr_of v = Inr t" for t
    using assms(1,3) that by (cases v) (auto simp: value_text_def texts_ok_def wf_res_def split: sum.splits)
  have wfp: "wf_text (placeholder_for pytype v)"
    using assms(1) by (simp add: placeholder_for_def texts_ok_def)
  obtain ek where ek: "quote k = Inr ek" "ek \<noteq> []"
    using assms(4) by (auto simp: render_member_def split: sum.splits if_splits)
  note k = quote_scalar [OF assms(2) ek(1)]
  obtain t ev where t: "quote t = Inr ev" "member = ek @ [61] @ ev"
    "value_text pystr_of v = Inr t \<or> t = placeholder_for pytype v"
    using assms(4) ek by (auto simp: render_member_def placeholder_for_def split: sum.splits)
  then have "ev = quoted t \<and> (\<forall>c \<in> set t. scalar c)"
    using wf wfp quote_scalar by metis
  then show ?thesis
    using k ek(2) t by (intro exI [of _ t]) (auto simp: member_ok_def quoted_nonempty)
qed

lemma length_join: "length (join_with c ps) = sum_list (map length ps) + (length ps - 1)"
  by (induction c ps rule: join_with.induct) auto

text \<open>What the loop has written after the members \<open>past\<close>.\<close>

definition header_inv :: "(jval \<Rightarrow> pystr result) \<Rightarrow> (jval \<Rightarrow> pystr) \<Rightarrow> (pystr \<times> jval) list \<Rightarrow> hdr \<Rightarrow> bool" where
  "header_inv pystr_of pytype past hs \<longleftrightarrow>
     (\<exists>kept. members hs = map member_text kept \<and> (\<forall>m \<in> set kept. member_ok m) \<and>
       subseq (map fst kept) (map fst past) \<and> length kept + dropped hs = length past \<and>
       (\<forall>(k, t) \<in> set kept. \<exists>v. (k, v) \<in> set past \<and>
         (value_text pystr_of v = Inr t \<or> t = placeholder_for pytype v))) \<and>
     hsize hs = sum_list (map length (members hs)) + (length (members hs) - 1) \<and>
     hsize hs \<le> BAGGAGE_MAX_BYTES"

lemma header_step_inv:
  assumes "texts_ok pystr_of pytype" and "wf_text k" and "\<And>s. v = JStr s \<Longrightarrow> wf_text s"
    and "header_inv pystr_of pytype past hs"
  shows "header_inv pystr_of pytype (past @ [(k, v)]) (header_step pystr_of pytype (k, v) hs)"
proof -
  obtain kept where kept: "members hs = map member_text kept" "\<forall>m \<in> set kept. member_ok m"
    "subseq (map fst kept) (map fst past)" "length kept + dropped hs = length past"
    "\<forall>(k, t) \<in> set kept. \<exists>v. (k, v) \<in> set past \<and> (value_text pystr_of v = Inr t \<or> t = placeholder_for pytype v)"
    and size: "hsize hs = sum_list (map length (members hs)) + (length (members hs) - 1)" "hsize hs \<le> BAGGAGE_MAX_BYTES"
    using assms(4) unfolding header_inv_def by blast
  have skip: "header_inv pystr_of pytype (past @ [(k, v)]) hs'"
    if "members hs' = members hs" "hsize hs' = hsize hs" "dropped hs' = dropped hs + 1" for hs'
    unfolding header_inv_def that using kept size
    by (intro conjI exI [of _ kept]) (fastforce intro: list_emb_append2 simp: kept(1))+
  show ?thesis
  proof (cases "ended hs")
    case True
    then show ?thesis by (intro skip) (simp_all add: header_step_def)
  next
    case False
    show ?thesis
    proof (cases "render_member pystr_of pytype k v")
      case None
      with False show ?thesis by (intro skip) (simp_all add: header_step_def)
    next
      case (Some member)
      from render_member_cases [OF assms(1-3) Some] obtain t where
        t: "member = member_text (k, t)" "member_ok (k, t)"
        "value_text pystr_of v = Inr t \<or> t = placeholder_for pytype v" by blast
      let ?grown = "hsize hs + length member + (if members hs = [] then 0 else 1)"
      show ?thesis
      proof (cases "?grown > BAGGAGE_MAX_BYTES")
        case True
        with False Some show ?thesis by (intro skip) (simp_all add: header_step_def)
      next
        case small: False
        let ?hs = "hs\<lparr>members := members hs @ [member], hsize := ?grown\<rparr>"
        have st: "header_step pystr_of pytype (k, v) hs = ?hs"
          using False Some small by (simp add: header_step_def Let_def)
        have sz: "hsize ?hs = sum_list (map length (members ?hs)) + (length (members ?hs) - 1)"
          using size(1) by (cases "members hs") auto
        have "subseq (map fst (kept @ [(k, t)])) (map fst (past @ [(k, v)]))"
          using kept(3) by (simp add: list_emb_append_mono)
        then have "\<exists>kept'. members ?hs = map member_text kept' \<and> (\<forall>m \<in> set kept'. member_ok m) \<and>
           subseq (map fst kept') (map fst (past @ [(k, v)])) \<and> length kept' + dropped ?hs = length (past @ [(k, v)]) \<and>
           (\<forall>(k', t') \<in> set kept'. \<exists>v'. (k', v') \<in> set (past @ [(k, v)]) \<and>
             (value_text pystr_of v' = Inr t' \<or> t' = placeholder_for pytype v'))"
          using kept t by (intro exI [of _ "kept @ [(k, t)]"]) fastforce
        then show ?thesis unfolding st header_inv_def using sz small by simp
      qed
    qed
  qed
qed

lemma header_fold_inv:
  assumes "texts_ok pystr_of pytype" and "\<forall>(k, v) \<in> set items. wf_text k \<and> (\<forall>s. v = JStr s \<longrightarrow> wf_text s)"
    and "header_inv pystr_of pytype past hs"
  shows "header_inv pystr_of pytype (past @ items) (fold (header_step pystr_of pytype) items hs)"
  using assms(2,3)
proof (induction items arbitrary: past hs)
  case (Cons p items)
  obtain k v where p: "p = (k, v)" by (cases p)
  have "header_inv pystr_of pytype (past @ [(k, v)]) (header_step pystr_of pytype (k, v) hs)"
    using Cons.prems by (intro header_step_inv assms(1)) (auto simp: p)
  from Cons.IH [OF _ this] show ?case using Cons.prems(1) by (simp add: p)
qed simp

lemma distinct_subseq: "subseq xs ys \<Longrightarrow> distinct ys \<Longrightarrow> distinct xs"
  by (induction rule: list_emb.induct) (auto dest: list_emb_set)

lemma join_chars: "c \<in> set (join_with 44 ps) \<Longrightarrow> c = 44 \<or> (\<exists>p \<in> set ps. c \<in> set p)"
  by (induction "44 :: nat" ps rule: join_with.induct) auto

lemma encoded_length_ascii: "\<forall>c \<in> set t. c < 128 \<Longrightarrow> encoded_length t = length t"
proof (induction t)
  case (Cons c t)
  then have "\<not> is_surrogate c" by (auto simp: is_surrogate_def)
  then show ?case using Cons by (simp add: encoded_length_def utf8_char_def)
qed (simp add: encoded_length_def)

lemma parse_header_text:
  assumes "\<forall>m \<in> set kept. member_ok m" and "distinct (map fst kept)"
    and "length (join_with 44 (map member_text kept)) \<le> BAGGAGE_MAX_BYTES"
  shows "parse_baggage_header (IStr (join_with 44 (map member_text kept))) = (if kept = [] then None else Some kept)"
proof (cases kept)
  case Nil
  then show ?thesis by (simp add: strip_def)
next
  case (Cons m ms)
  define header where "header = join_with 44 (map member_text kept)"
  have chars: "c < 128 \<and> \<not> is_space c" if "c \<in> set header" for c
    using that join_chars [of c "map member_text kept"] assms(1) member_chars [of _ c]
    unfolding header_def by (fastforce simp: is_space_def)
  have "strip header = header" using chars by (intro strip_id) blast
  moreover have "header \<noteq> []" by (cases ms) (simp_all add: header_def Cons)
  moreover have "encoded_length header \<le> BAGGAGE_MAX_BYTES"
    using encoded_length_ascii [of header] chars assms(3) by (simp add: header_def)
  moreover have "split_on 44 header = map member_text kept"
  proof -
    have "44 \<notin> set p" if "p \<in> set (map member_text kept)" for p
    proof -
      from that obtain q where "q \<in> set kept" "p = member_text q" by auto
      then show ?thesis using member_chars [of q 44] assms(1) by blast
    qed
    then show ?thesis unfolding header_def using Cons by (intro split_join) blast+
  qed
  ultimately have "parse_baggage_header (IStr header) = Some kept"
    using parse_member_texts [of kept "[]"] assms Cons by simp
  then show ?thesis by (simp add: header_def Cons)
qed

text \<open>C10. What this library writes into an outbound baggage header, it reads back: the header is
  within the size the parser accepts, parsing it gives exactly the members that were written, in
  order, each key a key of the baggage and each text the text of its value (or the placeholder
  of a value with none), and every member of the baggage was either written or counted as
  dropped.\<close>

theorem baggage_roundtrip:
  assumes "world_ok W" and "texts_ok pystr_of pytype" and "bag \<noteq> []"
  shows "\<exists>kept.
    parse_baggage_header (IStr (fst (format_baggage_header W cfg pystr_of pytype bag))) =
      (if kept = [] then None else Some kept) \<and>
    length (fst (format_baggage_header W cfg pystr_of pytype bag)) \<le> BAGGAGE_MAX_BYTES \<and>
    length kept + snd (format_baggage_header W cfg pystr_of pytype bag) = length (fst (sanitize_dict W cfg bag)) \<and>
    subseq (map fst kept) (map fst (fst (sanitize_dict W cfg bag))) \<and>
    (\<forall>(k, t) \<in> set kept. \<exists>v. (k, v) \<in> set (fst (sanitize_dict W cfg bag)) \<and>
      (value_text pystr_of v = Inr t \<or> t = placeholder_for pytype v))"
proof -
  let ?items = "fst (sanitize_dict W cfg bag)"
  let ?h0 = "\<lparr>members = [], hsize = 0, dropped = 0, ended = False\<rparr>"
  let ?hs = "fold (header_step pystr_of pytype) ?items ?h0"
  have out: "out_ok (cfg_limits W cfg) (cfg_depth cfg) ?items" by (rule sanitize_dict_safe [OF assms(1)])
  then have "\<forall>(k, v) \<in> set ?items. wf_text k \<and> (\<forall>s. v = JStr s \<longrightarrow> wf_text s)"
    by (fastforce simp: out_ok_def intro: str_good_wf)
  then have "header_inv pystr_of pytype ([] @ ?items) ?hs"
    by (intro header_fold_inv assms) (simp_all add: header_inv_def)
  then obtain kept where kept: "members ?hs = map member_text kept" "\<forall>m \<in> set kept. member_ok m"
    "subseq (map fst kept) (map fst ?items)" "length kept + dropped ?hs = length ?items"
    "\<forall>(k, t) \<in> set kept. \<exists>v. (k, v) \<in> set ?items \<and> (value_text pystr_of v = Inr t \<or> t = placeholder_for pytype v)"
    and size: "length (join_with 44 (members ?hs)) \<le> BAGGAGE_MAX_BYTES"
    unfolding header_inv_def by (auto simp: length_join)
  have "distinct (map fst kept)"
    using distinct_subseq [OF kept(3)] out by (simp add: out_ok_def dict_wf_def)
  then have "parse_baggage_header (IStr (join_with 44 (members ?hs))) = (if kept = [] then None else Some kept)"
    using parse_header_text [of kept] kept(1,2) size by (simp only: kept(1))
  moreover have "format_baggage_header W cfg pystr_of pytype bag = (join_with 44 (members ?hs), dropped ?hs)"
    using assms(3) by (simp add: format_baggage_header_def Let_def)
  ultimately show ?thesis using kept size by (intro exI [of _ kept]) simp
qed

theorem baggage_roundtrip_witness:
  "\<exists>kept. parse_baggage_header (IStr (fst (format_baggage_header small_world_of small_config
      (\<lambda>_. Inr [55]) (\<lambda>_. [97]) [(1, 2)]))) = (if kept = [] then None else Some kept)"
  using baggage_roundtrip [OF small_world_ok, of "\<lambda>_. Inr [55]" "\<lambda>_. [97]" "[(1, 2)]" small_config]
  by (auto simp: texts_ok_def wf_res_def)

end
