(* ===== verification/Tracing.thy ===== *)
theory Tracing
  imports Context "HOL-Library.Multiset"
begin

text \<open>
  Spans and logging calls: \<^verbatim>\<open>src/log_foundry/decorator.py\<close> and \<^verbatim>\<open>src/log_foundry/api.py\<close> as
  operations on one tracer state, in one execution context. A span is an entry of the span store;
  the context's stack names it by its index, so an update of a span is seen by everyone who holds
  it, as with the objects of the source. What the clock, the random source and the destination
  answer comes from a \<open>source\<close>, read at a tick that every reading advances. A program that uses
  the library is a list of \<open>action\<close>s, with traced calls nested in one another.
\<close>

record source =
  s_trace :: "nat \<Rightarrow> bytes"             \<comment> \<open>random bytes of a trace identifier\<close>
  s_span :: "nat \<Rightarrow> bytes"
  s_draw :: "nat \<Rightarrow> draw"
  s_clock :: "nat \<Rightarrow> flt"               \<comment> \<open>\<^verbatim>\<open>time.monotonic()\<close>\<close>
  s_elapsed :: "flt \<Rightarrow> nat \<Rightarrow> flt"      \<comment> \<open>milliseconds since a start, in floats\<close>
  s_emit :: "nat \<Rightarrow> pyexn option"       \<comment> \<open>what \<^verbatim>\<open>sink.emit\<close> raises\<close>
  s_echo :: "nat \<Rightarrow> pyexn option"       \<comment> \<open>what the console write raises\<close>
  s_worker :: "nat \<Rightarrow> pyexn option"     \<comment> \<open>what \<^verbatim>\<open>_get_worker\<close> raises\<close>
  s_exc :: "pyexn \<Rightarrow> exc_info"          \<comment> \<open>the exception object of a failure\<close>

record 's tracer =
  t_cfg :: "'s config"
  t_spans :: "span list"
  t_ctx :: ctx
  t_sent :: "event list list"          \<comment> \<open>batches handed to the worker\<close>
  t_orphans :: "event list"            \<comment> \<open>events emitted straight to the sink\<close>
  t_noted :: "'s list"                 \<comment> \<open>sinks recorded by \<^verbatim>\<open>_note_orphan_emit\<close>\<close>
  t_echoed :: "event list"
  t_orphan_lost :: nat
  t_in_span_lost :: nat
  t_reports :: "pystr list"            \<comment> \<open>reasons passed to \<^verbatim>\<open>_diag.rejected\<close>\<close>
  t_tick :: nat

definition tick :: "'s tracer \<Rightarrow> nat \<times> 's tracer" where
  "tick st = (t_tick st, st\<lparr>t_tick := t_tick st + 1\<rparr>)"

definition in_span :: "'s tracer \<Rightarrow> nat option" where
  "in_span st = current_span (t_ctx st)"

definition span_at :: "'s tracer \<Rightarrow> nat \<Rightarrow> span" where
  "span_at st i = t_spans st ! i"

definition put_span :: "nat \<Rightarrow> span \<Rightarrow> 's tracer \<Rightarrow> 's tracer" where
  "put_span i sp st = st\<lparr>t_spans := (t_spans st)[i := sp]\<rparr>"

definition report :: "pystr \<Rightarrow> 's tracer \<Rightarrow> 's tracer" where
  "report reason st = st\<lparr>t_reports := t_reports st @ [reason]\<rparr>"

subsection \<open>Opening a span\<close>

text \<open>The identity a new span takes: its parent's trace, an adopted one, or a new one.\<close>

definition span_parent :: "source \<Rightarrow> nat \<Rightarrow> 's tracer \<Rightarrow> pystr \<times> pystr option" where
  "span_parent S n st =
     (case in_span st of
        Some i \<Rightarrow> (trace_id (span_at st i), Some (span_id (span_at st i)))
      | None \<Rightarrow>
          (case adopted (t_ctx st) of
             Some ad \<Rightarrow> ad
           | None \<Rightarrow> (new_trace_id (s_trace S n), None)))"

definition new_span :: "source \<Rightarrow> nat \<Rightarrow> inbound \<Rightarrow> fields \<Rightarrow> 's tracer \<Rightarrow> span" where
  "new_span S n name defaults st =
     \<lparr>trace_id = fst (span_parent S n st), span_id = new_span_id (s_span S n),
      parent_span_id = snd (span_parent S n st), span_name = name, start_ts = s_clock S n,
      span_defaults = defaults, events = [], closed = False, swept = False\<rparr>"

text \<open>The span with its start event, not yet in the store.\<close>

definition open_span ::
  "world \<Rightarrow> source \<Rightarrow> inbound \<Rightarrow> fields \<Rightarrow> 's tracer \<Rightarrow> span result \<times> 's tracer" where
  "open_span W S name defaults st =
     (let (n, st) = tick st; sp = new_span S n name defaults st
      in case start_event W (t_cfg st) (s_draw S n) sp of
           Inl e \<Rightarrow> (Inl e, st)
         | Inr ev \<Rightarrow> (Inr (sp\<lparr>events := events sp @ [ev]\<rparr>), st))"

text \<open>What \<^verbatim>\<open>_begin\<close> hands to \<^verbatim>\<open>_end\<close>: the span, the stack token and the baggage token.\<close>

type_synonym scope = "nat option \<times> nat list option \<times> fields option"

definition begin_span :: "world \<Rightarrow> source \<Rightarrow> inbound \<Rightarrow> fields \<Rightarrow> 's tracer \<Rightarrow> scope \<times> 's tracer" where
  "begin_span W S name defaults st =
     (let (scope, st) =
            (if in_span st = None
             then (let (tok, c) = push_baggage_scope (t_ctx st) in (Some tok, st\<lparr>t_ctx := c\<rparr>))
             else (None, st))
      in case open_span W S name defaults st of
           (Inl e, st) \<Rightarrow> ((None, None, scope), st)
         | (Inr sp, st) \<Rightarrow>
             (let i = length (t_spans st);
                  (tok, c) = push_span i (t_ctx st)
              in ((Some i, Some tok, scope), st\<lparr>t_spans := t_spans st @ [sp], t_ctx := c\<rparr>)))"

subsection \<open>Continuing a trace\<close>

fun exact_arg :: "inbound \<Rightarrow> inbound" where
  "exact_arg (IStrSub t) = IStr t"
| "exact_arg v = v"

definition current_span_was_swept :: "'s tracer \<Rightarrow> bool" where
  "current_span_was_swept st =
     (case in_span st of
        None \<Rightarrow> False
      | Some i \<Rightarrow> parent_span_id (span_at st i) = None \<and> swept (span_at st i))"

definition reparent_event :: "pystr \<Rightarrow> pystr \<Rightarrow> pystr option \<Rightarrow> event \<Rightarrow> event" where
  "reparent_event sid tid pid ev =
     (let ev = dict_set (str ''trace_id'') (JStr tid) ev
      in if dict_get ev (str ''span_id'') = Some (JStr sid)
         then dict_set (str ''parent_span_id'') (opt_str pid) ev else ev)"

definition reparent_current_span :: "pystr \<Rightarrow> pystr option \<Rightarrow> 's tracer \<Rightarrow> 's tracer" where
  "reparent_current_span tid pid st =
     (case in_span st of
        None \<Rightarrow> st
      | Some i \<Rightarrow>
          (let sp = span_at st i
           in if parent_span_id sp \<noteq> None then st
              else put_span i (sp\<lparr>trace_id := tid, parent_span_id := pid,
                                 events := map (reparent_event (span_id sp) tid pid) (events sp)\<rparr>) st))"

datatype continue_result = Continued | Rejected | NothingSupplied

definition choose_context ::
  "inbound \<Rightarrow> inbound \<Rightarrow> inbound \<Rightarrow> 's tracer \<Rightarrow> (pystr \<times> pystr option) option \<times> bool \<times> 's tracer" where
  "choose_context traceparent tid pid st =
     (if traceparent \<noteq> INone then
        (let st = (if tid \<noteq> INone \<or> pid \<noteq> INone
                   then report (str ''both traceparent and explicit ids given; traceparent wins'') st else st)
         in case parse_traceparent traceparent of
              None \<Rightarrow> (None, True, report (str ''unparseable traceparent'') st)
            | Some (t, p) \<Rightarrow> (Some (t, Some p), False, st))
      else (case tid of
        INone \<Rightarrow>
          if pid \<noteq> INone then (None, True, report (str ''parent_span_id given with no trace_id to join'') st)
          else (None, False, st)
      | _ \<Rightarrow>
          if \<not> is_valid_trace_id tid then (None, True, report (str ''invalid trace_id'') st)
          else (case (tid, pid) of
                  (IStr t, IStr p) \<Rightarrow>
                    if \<not> is_valid_span_id pid
                    then (Some (t, None), False, report (str ''invalid parent_span_id; joining as a root'') st)
                    else (Some (t, Some p), False, st)
                | (IStr t, INone) \<Rightarrow> (Some (t, None), False, st)
                | (IStr t, _) \<Rightarrow> (Some (t, None), False, report (str ''invalid parent_span_id; joining as a root'') st)
                | _ \<Rightarrow> (None, True, st))))"

definition adopt_baggage :: "world \<Rightarrow> inbound \<Rightarrow> 's tracer \<Rightarrow> (bool \<times> 's tracer) result" where
  "adopt_baggage W bag st =
     (if bag = INone then Inr (False, st)
      else case parse_baggage_header bag of
             None \<Rightarrow> Inr (True, report (str ''unusable baggage header'') st)
           | Some parsed \<Rightarrow>
               (case set_baggage (w_probe W) (map (\<lambda>(k, v). (w_intern W k, w_intern W v)) parsed) (t_ctx st) of
                  Inl e \<Rightarrow> Inl e
                | Inr c \<Rightarrow> Inr (False, st\<lparr>t_ctx := c\<rparr>)))"

fun refuse_swept ::
  "(pystr \<times> pystr option) option \<times> bool \<times> 's tracer \<Rightarrow> (pystr \<times> pystr option) option \<times> bool \<times> 's tracer" where
  "refuse_swept (ad, announced, st) =
     (if ad \<noteq> None \<and> current_span_was_swept st
      then (None, True, report (str ''the current span has already been flushed; trace context refused'') st)
      else (ad, announced, st))"

fun adopt_context :: "(pystr \<times> pystr option) option \<Rightarrow> 's tracer \<Rightarrow> 's tracer" where
  "adopt_context None st = st"
| "adopt_context (Some (t, p)) st =
     reparent_current_span t p (st\<lparr>t_ctx := set_adopted_context t p (t_ctx st)\<rparr>)"

definition continue_trace ::
  "world \<Rightarrow> inbound \<Rightarrow> inbound \<Rightarrow> inbound \<Rightarrow> inbound \<Rightarrow> 's tracer \<Rightarrow> continue_result result \<times> 's tracer" where
  "continue_trace W traceparent tid pid bag st =
     (let (ad, announced, st) =
            refuse_swept (choose_context (exact_arg traceparent) (exact_arg tid) (exact_arg pid) st);
          st = adopt_context ad st
      in case adopt_baggage W (exact_arg bag) st of
           Inl e \<Rightarrow> (Inl e, st)
         | Inr (announced', st) \<Rightarrow>
             (Inr (if ad \<noteq> None then Continued
                   else if announced \<or> announced' then Rejected else NothingSupplied), st))"

subsection \<open>Sweeping, flushing and closing\<close>

text \<open>\<^verbatim>\<open>_get_worker\<close>, then \<^verbatim>\<open>submit\<close> of what is in the buffer.\<close>

definition submit_span :: "source \<Rightarrow> nat \<Rightarrow> (span \<Rightarrow> span) \<Rightarrow> 's tracer \<Rightarrow> pyexn option \<times> 's tracer" where
  "submit_span S i f st =
     (let (n, st) = tick st
      in case s_worker S n of
           Some e \<Rightarrow> (Some e, st)
         | None \<Rightarrow>
             (let sp = f (span_at st i)
              in (None, (put_span i (sp\<lparr>events := []\<rparr>) st)\<lparr>t_sent := t_sent st @ [events sp]\<rparr>)))"

fun sweep_spans :: "world \<Rightarrow> source \<Rightarrow> nat list \<Rightarrow> 's tracer \<Rightarrow> pyexn option \<times> 's tracer" where
  "sweep_spans W S [] st = (None, st)"
| "sweep_spans W S (i # is) st =
     (if events (span_at st i) = [] then sweep_spans W S is (put_span i ((span_at st i)\<lparr>swept := True\<rparr>) st)
      else case submit_span S i
                  (\<lambda>sp. (backfill_baggage W (t_cfg st) (baggage (t_ctx st)) sp)\<lparr>swept := True\<rparr>) st of
             (Some e, st) \<Rightarrow> (Some e, st)
           | (None, st) \<Rightarrow> sweep_spans W S is st)"

definition sweep_open_spans :: "world \<Rightarrow> source \<Rightarrow> 's tracer \<Rightarrow> pyexn option \<times> 's tracer" where
  "sweep_open_spans W S st = sweep_spans W S (stack (t_ctx st)) st"

definition flush_span :: "source \<Rightarrow> nat \<Rightarrow> 's tracer \<Rightarrow> pyexn option \<times> 's tracer" where
  "flush_span S i st = submit_span S i id st"

definition note_in_span_loss :: "nat \<Rightarrow> 's tracer \<Rightarrow> 's tracer" where
  "note_in_span_loss n st = st\<lparr>t_in_span_lost := t_in_span_lost st + n\<rparr>"

definition note_orphan_loss :: "'s tracer \<Rightarrow> 's tracer" where
  "note_orphan_loss st = st\<lparr>t_orphan_lost := t_orphan_lost st + 1\<rparr>"

definition close_span ::
  "world \<Rightarrow> source \<Rightarrow> nat \<Rightarrow> pystr \<Rightarrow> exc_info option \<Rightarrow> 's tracer \<Rightarrow> pyexn option \<times> 's tracer" where
  "close_span W S i status exc st =
     (let (n, st) = tick st; sp = span_at st i
      in case end_event W (t_cfg st) (s_draw S n) sp (s_elapsed S (start_ts sp) n) status exc of
           Inl e \<Rightarrow> (Some e, st)
         | Inr ev \<Rightarrow>
             (let sp = backfill_baggage W (t_cfg st) (baggage (t_ctx st)) (sp\<lparr>events := events sp @ [ev]\<rparr>)
              in flush_span S i (put_span i (sp\<lparr>closed := True\<rparr>) st)))"

text \<open>The first half of \<^verbatim>\<open>_end\<close>: close the span, or count what it loses.\<close>

definition settle_span ::
  "world \<Rightarrow> source \<Rightarrow> nat option \<Rightarrow> pystr \<Rightarrow> exc_info option \<Rightarrow> 's tracer \<Rightarrow> 's tracer" where
  "settle_span W S opened status exc st =
     (case opened of
        None \<Rightarrow> st
      | Some i \<Rightarrow>
          (case close_span W S i status exc st of
             (None, st) \<Rightarrow> st
           | (Some e, st) \<Rightarrow> note_in_span_loss (length (events (span_at st i))) st))"

definition end_span ::
  "world \<Rightarrow> source \<Rightarrow> scope \<Rightarrow> pystr \<Rightarrow> exc_info option \<Rightarrow> 's tracer \<Rightarrow> 's tracer" where
  "end_span W S sc status exc st =
     (let (opened, token, scope) = sc;
          st = settle_span W S opened status exc st;
          st = (case token of None \<Rightarrow> st | Some tok \<Rightarrow> st\<lparr>t_ctx := pop_span tok (t_ctx st)\<rparr>)
      in case scope of None \<Rightarrow> st | Some tok \<Rightarrow> st\<lparr>t_ctx := pop_baggage_scope tok (t_ctx st)\<rparr>)"

subsection \<open>Logging calls\<close>

definition merge_fields :: "(ref \<Rightarrow> ref \<Rightarrow> bool result) \<Rightarrow> fields result \<Rightarrow> fields \<Rightarrow> fields" where
  "merge_fields probe fs kv =
     (case fs of
        Inl e \<Rightarrow> kv
      | Inr [] \<Rightarrow> kv
      | Inr d \<Rightarrow> (case splat probe [] [d, kv] of Inr all \<Rightarrow> all | Inl e \<Rightarrow> kv))"

definition ensure_sink :: "'s \<Rightarrow> 's config \<Rightarrow> 's \<times> 's config" where
  "ensure_sink stdout cfg =
     (case cfg_sink cfg of Some s \<Rightarrow> (s, cfg) | None \<Rightarrow> (stdout, cfg\<lparr>cfg_sink := Some stdout\<rparr>))"

definition emit_orphan ::
  "world \<Rightarrow> source \<Rightarrow> 's \<Rightarrow> pystr \<Rightarrow> inbound \<Rightarrow> fields \<Rightarrow> 's tracer \<Rightarrow> event option \<times> 's tracer" where
  "emit_orphan W S stdout lev message fs st =
     (let (n, st) = tick st;
          orphan = \<lparr>trace_id = new_trace_id (s_trace S n), span_id = new_span_id (s_span S n),
                    parent_span_id = None, span_name = message, start_ts = Fin 0, span_defaults = [],
                    events = [], closed = False, swept = False\<rparr>
      in case build_event W (t_cfg st) (s_draw S n) orphan lev message fs (baggage (t_ctx st)) of
           Inl e \<Rightarrow> (None, note_orphan_loss st)
         | Inr ev \<Rightarrow>
             (let (sink, cfg) = ensure_sink stdout (t_cfg st);
                  st = st\<lparr>t_cfg := cfg, t_noted := t_noted st @ [sink]\<rparr>
              in case s_emit S n of
                   None \<Rightarrow> (Some ev, st\<lparr>t_orphans := t_orphans st @ [ev]\<rparr>)
                 | Some e \<Rightarrow> (Some ev, note_orphan_loss st)))"

definition log_in_span ::
  "world \<Rightarrow> source \<Rightarrow> nat \<Rightarrow> pystr \<Rightarrow> inbound \<Rightarrow> fields \<Rightarrow> 's tracer \<Rightarrow> event option \<times> 's tracer" where
  "log_in_span W S i lev message fs st =
     (let (n, st) = tick st; sp = span_at st i
      in case build_event W (t_cfg st) (s_draw S n) sp lev message fs (baggage (t_ctx st)) of
           Inl e \<Rightarrow> (None, note_in_span_loss 1 st)
         | Inr ev \<Rightarrow> (Some ev, put_span i (sp\<lparr>events := events sp @ [ev]\<rparr>) st))"

definition log_event ::
  "world \<Rightarrow> source \<Rightarrow> 's \<Rightarrow> pystr \<Rightarrow> inbound \<Rightarrow> bool \<Rightarrow> fields \<Rightarrow> 's tracer \<Rightarrow> 's tracer" where
  "log_event W S stdout lev message echo fs st =
     (let (ev, st) =
            (case in_span st of
               Some i \<Rightarrow> if \<not> closed (span_at st i) then log_in_span W S i lev message fs st
                         else emit_orphan W S stdout lev message fs st
             | None \<Rightarrow> emit_orphan W S stdout lev message fs st)
      in case ev of
           Some e \<Rightarrow> if echo \<and> s_echo S (t_tick st) = None then st\<lparr>t_echoed := t_echoed st @ [e]\<rparr> else st
         | None \<Rightarrow> st)"

subsection \<open>Programs that use the library\<close>

datatype action =
    Log pystr inbound bool "fields result" fields      \<comment> \<open>level, message, \<^verbatim>\<open>echo\<close>, \<^verbatim>\<open>fields=\<close>, keywords\<close>
  | SetBaggage fields
  | Continue inbound inbound inbound inbound
  | Sweep                                              \<comment> \<open>the part of \<^verbatim>\<open>flush()\<close> this layer does\<close>
  | Reset
  | Raise exc_info
  | Try "action list"                                  \<comment> \<open>whatever is raised inside is caught\<close>
  | Traced pystr fields "action list"                  \<comment> \<open>a call of a decorated function\<close>

fun run :: "world \<Rightarrow> source \<Rightarrow> 's \<Rightarrow> action \<Rightarrow> 's tracer \<Rightarrow> exc_info option \<times> 's tracer"
  and run_all :: "world \<Rightarrow> source \<Rightarrow> 's \<Rightarrow> action list \<Rightarrow> 's tracer \<Rightarrow> exc_info option \<times> 's tracer" where
  "run W S so (Log lev message echo fs kv) st =
     (None, log_event W S so lev message echo (merge_fields (w_probe W) fs kv) st)"
| "run W S so (SetBaggage kv) st =
     (case set_baggage (w_probe W) kv (t_ctx st) of
        Inl e \<Rightarrow> (Some (s_exc S e), st)
      | Inr c \<Rightarrow> (None, st\<lparr>t_ctx := c\<rparr>))"
| "run W S so (Continue traceparent tid pid bag) st =
     (case continue_trace W traceparent tid pid bag st of
        (Inl e, st) \<Rightarrow> (Some (s_exc S e), st)
      | (Inr r, st) \<Rightarrow> (None, st))"
| "run W S so Sweep st = (None, snd (sweep_open_spans W S st))"
| "run W S so Reset st = (None, st\<lparr>t_ctx := reset_context (t_ctx st)\<rparr>)"
| "run W S so (Raise x) st = (Some x, st)"
| "run W S so (Try body) st = (None, snd (run_all W S so body st))"
| "run W S so (Traced name defaults body) st =
     (let (sc, st) = begin_span W S (IStr name) defaults st;
          (raised, st) = run_all W S so body st;
          status = (if raised = None then str ''ok'' else str ''error'')
      in (raised, end_span W S sc status raised st))"
| "run_all W S so [] st = (None, st)"
| "run_all W S so (a # as) st =
     (case run W S so a st of
        (Some x, st) \<Rightarrow> (Some x, st)
      | (None, st) \<Rightarrow> run_all W S so as st)"

subsection \<open>Relations every program respects\<close>

text \<open>The interface between the operations and a program: a relation between the state before and
  after, closed under every operation, and under closing a span around any related states.\<close>

locale traced_relation =
  fixes W :: world and S :: source and so :: 's and R :: "'s tracer \<Rightarrow> 's tracer \<Rightarrow> bool"
  assumes R_refl: "R st st"
    and R_trans: "R st st1 \<Longrightarrow> R st1 st2 \<Longrightarrow> R st st2"
    and R_log: "R st (log_event W S so lev message echo fs st)"
    and R_baggage: "set_baggage (w_probe W) kv (t_ctx st) = Inr c \<Longrightarrow> R st (st\<lparr>t_ctx := c\<rparr>)"
    and R_continue: "R st (snd (continue_trace W traceparent tid pid bag st))"
    and R_sweep: "R st (snd (sweep_open_spans W S st))"
    and R_reset: "R st (st\<lparr>t_ctx := reset_context (t_ctx st)\<rparr>)"
    and R_traced: "begin_span W S name defaults st = (sc, st1) \<Longrightarrow> R st1 st2 \<Longrightarrow>
      R st (end_span W S sc status exc st2)"
begin

lemma run_related: "R st (snd (run W S so a st))"
  and run_all_related: "R st (snd (run_all W S so as st))"
proof (induction W \<equiv> W S \<equiv> S so \<equiv> so a st and W \<equiv> W S \<equiv> S so \<equiv> so as st rule: run_run_all.induct)
  case (1 lev message echo fs kv st)
  then show ?case by (simp add: R_log)
next
  case (2 kv st)
  then show ?case by (auto simp: R_baggage R_refl split: sum.splits)
next
  case (3 traceparent tid pid bag st)
  then show ?case using R_continue [of st traceparent tid pid bag] by (auto split: sum.splits prod.splits)
next
  case (8 name defaults body st)
  obtain sc st1 where b: "begin_span W S (IStr name) defaults st = (sc, st1)" by (cases "begin_span W S (IStr name) defaults st")
  obtain raised st2 where r: "run_all W S so body st1 = (raised, st2)" by (cases "run_all W S so body st1")
  have "R st1 st2" using 8 b r by fastforce
  then show ?case using R_traced [OF b] by (simp add: b r Let_def)
next
  case (10 a as st)
  show ?case
  proof (cases "run W S so a st")
    case (Pair raised st1)
    then have "R st st1" using "10.hyps"(1) by simp
    then show ?thesis using Pair "10.hyps"(2) [OF Pair [symmetric]] R_trans by (cases raised) auto
  qed
qed (simp_all add: R_sweep R_reset R_refl)

end

subsection \<open>The context is restored\<close>

lemma tracer_frame [simp]:
  "t_ctx (put_span i sp st) = t_ctx st" "t_cfg (put_span i sp st) = t_cfg st"
  "t_sent (put_span i sp st) = t_sent st" "t_spans (put_span i sp st) = (t_spans st)[i := sp]"
  "t_tick (put_span i sp st) = t_tick st"
  "t_ctx (report r st) = t_ctx st" "t_spans (report r st) = t_spans st" "t_sent (report r st) = t_sent st"
  "t_tick (report r st) = t_tick st" "t_cfg (report r st) = t_cfg st"
  "t_ctx (note_in_span_loss n st) = t_ctx st" "t_spans (note_in_span_loss n st) = t_spans st"
  "t_sent (note_in_span_loss n st) = t_sent st" "t_tick (note_in_span_loss n st) = t_tick st"
  "t_ctx (note_orphan_loss st) = t_ctx st" "t_spans (note_orphan_loss st) = t_spans st"
  "t_sent (note_orphan_loss st) = t_sent st" "t_tick (note_orphan_loss st) = t_tick st"
  by (simp_all add: put_span_def report_def note_in_span_loss_def note_orphan_loss_def)

lemma tick_simps [simp]: "fst (tick st) = t_tick st" "snd (tick st) = st\<lparr>t_tick := Suc (t_tick st)\<rparr>"
  by (simp_all add: tick_def)

lemma tick_eq: "tick st = (t_tick st, st\<lparr>t_tick := Suc (t_tick st)\<rparr>)"
  by (simp add: tick_def)

lemma span_at_frame [simp]:
  "span_at (st\<lparr>t_tick := n\<rparr>) i = span_at st i" "in_span (st\<lparr>t_tick := n\<rparr>) = in_span st"
  "in_span (put_span i sp st) = in_span st" "in_span (report r st) = in_span st"
  "span_at (report r st) i = span_at st i" "span_at (st\<lparr>t_ctx := c\<rparr>) i = span_at st i"
  by (simp_all add: span_at_def in_span_def)

text \<open>The operations that write to the spans and the counters leave the context variables alone.\<close>

lemma submit_ctx [simp]: "t_ctx (snd (submit_span S i f st)) = t_ctx st"
  by (auto simp: submit_span_def tick_eq Let_def split: option.splits)

lemma sweep_ctx [simp]: "t_ctx (snd (sweep_spans W S is st)) = t_ctx st"
proof (induction W S "is" st rule: sweep_spans.induct)
  case (2 W S i "is" st)
  let ?f = "\<lambda>sp. (backfill_baggage W (t_cfg st) (baggage (t_ctx st)) sp)\<lparr>swept := True\<rparr>"
  obtain r st1 where "submit_span S i ?f st = (r, st1)" by (cases "submit_span S i ?f st")
  moreover from this have "t_ctx st1 = t_ctx st" using submit_ctx [of S i ?f st] by simp
  ultimately show ?case using 2 by (cases r) auto
qed simp

lemma close_ctx [simp]: "t_ctx (snd (close_span W S i status exc st)) = t_ctx st"
  by (auto simp: close_span_def flush_span_def tick_eq Let_def split: sum.splits)

lemma log_event_steps:
  obtains st1 es where "log_event W S so lev message echo fs st = st1\<lparr>t_echoed := es\<rparr>"
    "st1 = snd (emit_orphan W S so lev message fs st) \<or>
     (\<exists>i. in_span st = Some i \<and> st1 = snd (log_in_span W S i lev message fs st))"
proof -
  let ?p = "case in_span st of
      Some i \<Rightarrow> if \<not> closed (span_at st i) then log_in_span W S i lev message fs st
                else emit_orphan W S so lev message fs st
    | None \<Rightarrow> emit_orphan W S so lev message fs st"
  have "\<exists>es. log_event W S so lev message echo fs st = (snd ?p)\<lparr>t_echoed := es\<rparr>"
  proof (cases ?p)
    case (Pair ev st1)
    have keep: "\<exists>es. st1 = st1\<lparr>t_echoed := es\<rparr>" by (intro exI [of _ "t_echoed st1"]) simp
    show ?thesis
    proof (cases "ev \<noteq> None \<and> echo \<and> s_echo S (t_tick st1) = None")
      case True
      then show ?thesis unfolding log_event_def Let_def Pair by auto
    next
      case False
      then have "log_event W S so lev message echo fs st = st1"
        unfolding log_event_def Let_def Pair by (auto split: option.split)
      with keep show ?thesis unfolding Pair by simp
    qed
  qed
  moreover have "snd ?p = snd (emit_orphan W S so lev message fs st) \<or>
     (\<exists>i. in_span st = Some i \<and> snd ?p = snd (log_in_span W S i lev message fs st))"
    by (auto split: option.splits)
  ultimately show ?thesis using that by blast
qed

lemma log_ctx [simp]: "t_ctx (log_event W S so lev message echo fs st) = t_ctx st"
proof -
  have "t_ctx (snd (emit_orphan W S so lev message fs st)) = t_ctx st"
    by (auto simp: emit_orphan_def tick_eq Let_def split: sum.splits option.splits prod.splits)
  moreover have "t_ctx (snd (log_in_span W S i lev message fs st)) = t_ctx st" for i
    by (auto simp: log_in_span_def tick_eq Let_def split: sum.splits)
  ultimately show ?thesis
    by (cases rule: log_event_steps [of W S so lev message echo fs st]) auto
qed

lemma open_ctx [simp]: "t_ctx (snd (open_span W S name defaults st)) = t_ctx st"
  by (auto simp: open_span_def tick_eq Let_def split: sum.splits prod.splits)

lemma ctx_eqs:
  "open_span W S name defaults st = (r, st') \<Longrightarrow> t_ctx st' = t_ctx st"
  "close_span W S i status exc st = (x, st') \<Longrightarrow> t_ctx st' = t_ctx st"
  by (metis open_ctx snd_conv, metis close_ctx snd_conv)

lemma choose_ctx [simp]:
  "t_ctx (snd (snd (choose_context a b c st))) = t_ctx st"
  "t_spans (snd (snd (choose_context a b c st))) = t_spans st"
  "t_sent (snd (snd (choose_context a b c st))) = t_sent st"
  "t_tick (snd (snd (choose_context a b c st))) = t_tick st"
  by (auto simp: choose_context_def Let_def split: option.splits inbound.splits)

lemma reparent_ctx [simp]: "t_ctx (reparent_current_span t p st) = t_ctx st"
  by (auto simp: reparent_current_span_def Let_def split: option.splits)

lemma set_baggage_stack: "set_baggage probe kv c = Inr c' \<Longrightarrow> stack c' = stack c"
  by (auto simp: set_baggage_def split: sum.splits)

text \<open>What \<^verbatim>\<open>continue_trace\<close> does is: reports, one adoption with its reparenting, one baggage
  update.\<close>

lemma refuse_swept_frame:
  "refuse_swept (ad, an, st) = (ad', an', st') \<Longrightarrow>
     t_ctx st' = t_ctx st \<and> t_spans st' = t_spans st \<and> t_sent st' = t_sent st \<and> t_tick st' = t_tick st"
  by (auto split: if_splits)

lemma adopt_baggage_frame:
  "adopt_baggage W d st = Inr (an, st') \<Longrightarrow>
     stack (t_ctx st') = stack (t_ctx st) \<and> t_spans st' = t_spans st \<and> t_sent st' = t_sent st \<and> t_tick st' = t_tick st"
  by (auto simp: adopt_baggage_def set_baggage_stack split: if_splits option.splits sum.splits)

lemma continue_steps:
  fixes st :: "'s tracer"
  obtains ad and st0 :: "'s tracer" where
    "t_ctx st0 = t_ctx st" "t_spans st0 = t_spans st" "t_sent st0 = t_sent st" "t_tick st0 = t_tick st"
    "stack (t_ctx (snd (continue_trace W a b c d st))) = stack (t_ctx (adopt_context ad st0))"
    "t_spans (snd (continue_trace W a b c d st)) = t_spans (adopt_context ad st0)"
    "t_sent (snd (continue_trace W a b c d st)) = t_sent (adopt_context ad st0)"
    "t_tick (snd (continue_trace W a b c d st)) = t_tick (adopt_context ad st0)"
proof -
  obtain ad1 an1 s1 where ch: "choose_context (exact_arg a) (exact_arg b) (exact_arg c) st = (ad1, an1, s1)"
    by (cases "choose_context (exact_arg a) (exact_arg b) (exact_arg c) st")
  obtain ad an st0 where re: "refuse_swept (ad1, an1, s1) = (ad, an, st0)" by (cases "refuse_swept (ad1, an1, s1)")
  have "t_ctx st0 = t_ctx st" "t_spans st0 = t_spans st" "t_sent st0 = t_sent st" "t_tick st0 = t_tick st"
    using choose_ctx [of "exact_arg a" "exact_arg b" "exact_arg c" st] refuse_swept_frame [OF re]
    by (simp_all add: ch)
  moreover have "stack (t_ctx st') = stack (t_ctx (adopt_context ad st0)) \<and> t_spans st' = t_spans (adopt_context ad st0) \<and>
      t_sent st' = t_sent (adopt_context ad st0) \<and> t_tick st' = t_tick (adopt_context ad st0)"
    if "snd (continue_trace W a b c d st) = st'" for st'
    using that
    by (cases "adopt_baggage W (exact_arg d) (adopt_context ad st0)")
      (auto simp: continue_trace_def ch re Let_def dest: adopt_baggage_frame simp del: refuse_swept.simps)
  ultimately show ?thesis using that by blast
qed

lemma adopt_stack [simp]: "stack (t_ctx (adopt_context ad st)) = stack (t_ctx st)"
  by (cases "(ad, st)" rule: adopt_context.cases) (simp_all add: set_adopted_context_def)

lemma continue_stack [simp]: "stack (t_ctx (snd (continue_trace W a b c d st))) = stack (t_ctx st)"
  by (cases rule: continue_steps [of st W a b c d]) simp

lemma begin_stack:
  assumes "begin_span W S name defaults st = ((i, tok, scope), st1)"
  shows "(tok = None \<longrightarrow> i = None \<and> stack (t_ctx st1) = stack (t_ctx st)) \<and> (\<forall>t. tok = Some t \<longrightarrow> t = stack (t_ctx st)) \<and>
    (scope = (if in_span st = None then Some (baggage (t_ctx st)) else None))"
  using assms
  by (auto simp: begin_span_def push_baggage_scope_def push_span_def Let_def ctx_eqs
      split: prod.splits sum.splits if_splits)

lemma settle_ctx [simp]: "t_ctx (settle_span W S i status exc st) = t_ctx st"
  by (auto simp: settle_span_def ctx_eqs split: prod.splits option.splits)

definition end_ctx_of :: "scope \<Rightarrow> ctx \<Rightarrow> ctx" where
  "end_ctx_of sc c = (case sc of (i, tok, scope) \<Rightarrow>
     (let c = (case tok of None \<Rightarrow> c | Some t \<Rightarrow> pop_span t c)
      in case scope of None \<Rightarrow> c | Some t \<Rightarrow> pop_baggage_scope t c))"

lemma end_span_eq:
  "end_span W S (i, tok, scope) status exc st =
    (settle_span W S i status exc st)\<lparr>t_ctx := end_ctx_of (i, tok, scope) (t_ctx st)\<rparr>"
proof -
  let ?s = "settle_span W S i status exc st"
  have "?s\<lparr>t_ctx := t_ctx ?s\<rparr> = ?s" by simp
  then have "?s\<lparr>t_ctx := t_ctx st\<rparr> = ?s" by (simp only: settle_ctx)
  then show ?thesis
    by (cases tok; cases scope) (simp_all add: end_span_def end_ctx_of_def Let_def)
qed

lemma end_ctx: "t_ctx (end_span W S sc status exc st) = end_ctx_of sc (t_ctx st)"
  by (cases sc) (simp add: end_span_eq)

lemmas end_ctx_simps = end_ctx end_ctx_of_def pop_span_def pop_baggage_scope_def

interpretation stack_restored: traced_relation W S so "\<lambda>st st'. stack (t_ctx st') = stack (t_ctx st)" for W S so
proof unfold_locales
  fix name defaults and st st1 st2 :: "'s tracer" and sc status exc
  assume b: "begin_span W S name defaults st = (sc, st1)" and "stack (t_ctx st2) = stack (t_ctx st1)"
  obtain i tok scope where sc: "sc = (i, tok, scope)" by (cases sc)
  show "stack (t_ctx (end_span W S sc status exc st2)) = stack (t_ctx st)"
    using begin_stack [OF b [unfolded sc]] \<open>stack (t_ctx st2) = _\<close>
    by (cases tok; cases scope) (auto simp: sc end_ctx_simps)
qed (simp_all add: set_baggage_stack reset_context_def sweep_open_spans_def)

text \<open>Whatever a program does inside a traced call, exceptions included, the stack of open
  spans after the call is the stack before it.\<close>

theorem run_restores_stack: "stack (t_ctx (snd (run W S so a st))) = stack (t_ctx st)"
  by (rule stack_restored.run_related)


subsection \<open>Events are coherent and none is dropped\<close>

definition lid :: "event \<Rightarrow> jval option" where
  "lid ev = dict_get ev (str ''log_id'')"

definition drawn :: "source \<Rightarrow> nat \<Rightarrow> jval option" where
  "drawn S n = Some (JStr (new_log_id (d_log (s_draw S n))))"

definition lids :: "event list \<Rightarrow> jval option multiset" where
  "lids evs = mset (map lid evs)"

text \<open>The identifiers of all events in a buffer or handed to the worker.\<close>

definition held_ids :: "'s tracer \<Rightarrow> jval option multiset" where
  "held_ids st = sum_list (map (\<lambda>sp. lids (events sp)) (t_spans st)) + sum_list (map lids (t_sent st))"

definition span_coherent :: "span \<Rightarrow> bool" where
  "span_coherent sp \<longleftrightarrow> (\<forall>ev \<in> set (events sp). belongs sp ev)"

definition batch_coherent :: "event list \<Rightarrow> bool" where
  "batch_coherent evs \<longleftrightarrow> evs \<noteq> [] \<and> (\<exists>sp. \<forall>ev \<in> set evs. belongs sp ev)"

definition coherent :: "'s tracer \<Rightarrow> bool" where
  "coherent st \<longleftrightarrow> (\<forall>i \<in> set (stack (t_ctx st)). i < length (t_spans st)) \<and>
     (\<forall>sp \<in> set (t_spans st). span_coherent sp) \<and> (\<forall>b \<in> set (t_sent st). batch_coherent b)"

text \<open>The events after are the events before and one for each of some distinct ticks in between.\<close>

definition grows :: "source \<Rightarrow> 's tracer \<Rightarrow> 's tracer \<Rightarrow> bool" where
  "grows S st st' \<longleftrightarrow> t_tick st \<le> t_tick st' \<and>
     (\<exists>ns. distinct ns \<and> set ns \<subseteq> {t_tick st..<t_tick st'} \<and> held_ids st' = held_ids st + mset (map (drawn S) ns))"

lemma lids_simps [simp]:
  "lids [] = {#}" "lids (ev # evs) = add_mset (lid ev) (lids evs)" "lids (a @ b) = lids a + lids b"
  by (simp_all add: lids_def)

lemma grows_trans: "grows S a b \<Longrightarrow> grows S b c \<Longrightarrow> grows S a c"
proof -
  assume "grows S a b" "grows S b c"
  then obtain ms ns where "t_tick a \<le> t_tick b" "t_tick b \<le> t_tick c"
    "distinct ms" "set ms \<subseteq> {t_tick a..<t_tick b}" "held_ids b = held_ids a + mset (map (drawn S) ms)"
    "distinct ns" "set ns \<subseteq> {t_tick b..<t_tick c}" "held_ids c = held_ids b + mset (map (drawn S) ns)"
    unfolding grows_def by blast
  then show ?thesis unfolding grows_def
    by (intro conjI exI [of _ "ms @ ns"]) fastforce+
qed

lemma grows_same: "t_tick st \<le> t_tick st' \<Longrightarrow> held_ids st' = held_ids st \<Longrightarrow> grows S st st'"
  unfolding grows_def by (intro conjI exI [of _ "[]"]) simp_all

lemma grows_one: "t_tick st' = Suc (t_tick st) \<Longrightarrow> held_ids st' = add_mset (drawn S (t_tick st)) (held_ids st) \<Longrightarrow> grows S st st'"
  unfolding grows_def by (intro conjI exI [of _ "[t_tick st]"]) simp_all

lemma held_ids_frame: "t_spans st' = t_spans st \<Longrightarrow> t_sent st' = t_sent st \<Longrightarrow> held_ids st' = held_ids st"
  by (simp add: held_ids_def)

lemma sum_list_update_monoid:
  fixes f :: "'a \<Rightarrow> 'b multiset"
  shows "i < length xs \<Longrightarrow> sum_list (map f (xs[i := y])) + f (xs ! i) = sum_list (map f xs) + f y"
proof (induction xs arbitrary: i)
  case (Cons x xs)
  then show ?case by (cases i) (simp_all add: ac_simps)
qed simp

lemma held_put:
  assumes "i < length (t_spans st)"
  shows "held_ids (put_span i sp st) + lids (events (span_at st i)) = held_ids st + lids (events sp)"
  using sum_list_update_monoid [OF assms, of "\<lambda>sp. lids (events sp)" sp]
  by (simp add: held_ids_def span_at_def ac_simps)

lemma build_event_lid: "build_event W cfg (s_draw S n) sp lev message fs bag = Inr ev \<Longrightarrow> lid ev = drawn S n"
  by (auto simp: build_event_def lid_def drawn_def Let_def split: sum.splits prod.splits)

lemma lid_set [simp]: "k \<noteq> str ''log_id'' \<Longrightarrow> lid (dict_set k v ev) = lid ev"
  by (simp add: lid_def)

lemma end_event_lid:
  assumes "end_event W cfg (s_draw S n) sp elapsed status exc = Inr ev"
  shows "lid ev = drawn S n"
  using assms by (auto simp: end_event_def TRUNCATED_def Let_def build_event_lid split: sum.splits option.splits prod.splits if_splits)

lemma backfill_keeps:
  "belongs sp (backfill_one safe cl ev) = belongs sp ev" "lid (backfill_one safe cl ev) = lid ev"
proof -
  have "dict_get (backfill_one safe cl ev) (str k) = dict_get ev (str k)" if "k \<noteq> ''fields''" "k \<noteq> ''truncated''" for k
    using conjunct1 [OF backfill_one_scope, of safe cl ev, rule_format, of "str k"] that by (simp add: TRUNCATED_def)
  then show "belongs sp (backfill_one safe cl ev) = belongs sp ev" "lid (backfill_one safe cl ev) = lid ev"
    by (simp_all add: belongs_def lid_def)
qed

lemma belongs_cong:
  "trace_id sp' = trace_id sp \<Longrightarrow> span_id sp' = span_id sp \<Longrightarrow> parent_span_id sp' = parent_span_id sp \<Longrightarrow>
   belongs sp' ev = belongs sp ev"
  by (simp add: belongs_def)

lemma lids_map: "(\<And>ev. ev \<in> set evs \<Longrightarrow> lid (f ev) = lid ev) \<Longrightarrow> lids (map f evs) = lids evs"
  unfolding lids_def by (rule arg_cong [of _ _ mset]) simp

lemma backfill_baggage_keeps:
  "span_coherent (backfill_baggage W cfg bag sp) = span_coherent sp"
  "lids (events (backfill_baggage W cfg bag sp)) = lids (events sp)"
  "events (backfill_baggage W cfg bag sp) = [] \<longleftrightarrow> events sp = []"
proof -
  obtain safe cl where sd: "sanitize_dict W cfg bag = (safe, cl)" by (cases "sanitize_dict W cfg bag")
  have b: "belongs (sp\<lparr>events := es\<rparr>) ev = belongs sp ev" for es ev by (rule belongs_cong) simp_all
  show "span_coherent (backfill_baggage W cfg bag sp) = span_coherent sp"
    "lids (events (backfill_baggage W cfg bag sp)) = lids (events sp)"
    "events (backfill_baggage W cfg bag sp) = [] \<longleftrightarrow> events sp = []"
    by (simp_all add: backfill_baggage_def sd span_coherent_def b backfill_keeps lids_map)
qed

lemma reparent_keeps:
  assumes "belongs sp ev"
  shows "belongs (sp\<lparr>trace_id := t, parent_span_id := p, events := es\<rparr>) (reparent_event (span_id sp) t p ev)"
    and "lid (reparent_event (span_id sp) t p ev) = lid ev"
  using assms by (simp_all add: belongs_def reparent_event_def Let_def)

subsection \<open>Every operation keeps coherence\<close>

definition keeps :: "source \<Rightarrow> 's tracer \<Rightarrow> 's tracer \<Rightarrow> bool" where
  "keeps S st st' \<longleftrightarrow> (coherent st \<longrightarrow> coherent st' \<and> stack (t_ctx st') = stack (t_ctx st) \<and>
     length (t_spans st) \<le> length (t_spans st') \<and> grows S st st')"

lemma keeps_trans: "keeps S a b \<Longrightarrow> keeps S b c \<Longrightarrow> keeps S a c"
  unfolding keeps_def by (auto intro: grows_trans)

lemma keeps_frame:
  assumes "t_spans st' = t_spans st" and "t_sent st' = t_sent st" and "stack (t_ctx st') = stack (t_ctx st)"
    and "t_tick st \<le> t_tick st'"
  shows "keeps S st st'"
  using assms by (auto simp: keeps_def coherent_def intro!: grows_same held_ids_frame)

lemma keeps_refl: "keeps S st st"
  by (rule keeps_frame) simp_all

lemma coherent_put:
  "coherent st \<Longrightarrow> span_coherent sp \<Longrightarrow> coherent (put_span i sp st)"
  by (auto simp: coherent_def dest!: subsetD [OF set_update_subset_insert])

lemma coherent_at: "coherent st \<Longrightarrow> i < length (t_spans st) \<Longrightarrow> span_coherent (span_at st i)"
  by (simp add: coherent_def span_at_def)

lemma in_span_valid: "coherent st \<Longrightarrow> in_span st = Some i \<Longrightarrow> i < length (t_spans st)"
  by (auto simp: coherent_def in_span_def current_span_def split: if_splits)

text \<open>Replacing a span by one with the same events, up to what their identifiers show.\<close>

lemma keeps_put:
  assumes "coherent st \<Longrightarrow> i < length (t_spans st) \<and> span_coherent sp \<and>
      lids (events sp) = lids (events (span_at st i))"
  shows "keeps S st (put_span i sp st)"
proof -
  have "held_ids (put_span i sp st) = held_ids st" if "coherent st"
    using held_put [of i st sp] assms that by simp
  then show ?thesis using assms by (auto simp: keeps_def coherent_put intro!: grows_same)
qed

lemma keeps_append:
  assumes "coherent st \<Longrightarrow> i < length (t_spans st) \<and> belongs (span_at st i) ev" and "lid ev = drawn S (t_tick st)"
  shows "keeps S st (put_span i ((span_at st i)\<lparr>events := events (span_at st i) @ [ev]\<rparr>) (st\<lparr>t_tick := Suc (t_tick st)\<rparr>))"
    (is "keeps S st ?st'")
proof -
  let ?sp = "(span_at st i)\<lparr>events := events (span_at st i) @ [ev]\<rparr>"
  have "span_coherent ?sp" "held_ids ?st' = add_mset (lid ev) (held_ids st)" if c: "coherent st"
  proof -
    have b: "belongs (?sp) = belongs (span_at st i)" by (rule ext, rule belongs_cong) simp_all
    show "span_coherent ?sp" using coherent_at [OF c] assms(1) [OF c] by (auto simp: span_coherent_def b)
    show "held_ids ?st' = add_mset (lid ev) (held_ids st)"
      using held_put [of i "st\<lparr>t_tick := Suc (t_tick st)\<rparr>" ?sp] assms(1) [OF c] held_ids_frame [of "st\<lparr>t_tick := Suc (t_tick st)\<rparr>" st]
      by simp
  qed
  moreover have "coherent (st\<lparr>t_tick := Suc (t_tick st)\<rparr>) = coherent st" by (simp add: coherent_def)
  ultimately show ?thesis using assms by (auto simp: keeps_def coherent_put intro!: grows_one)
qed

lemma keeps_log_in_span: "in_span st = Some i \<Longrightarrow> keeps S st (snd (log_in_span W S i lev message fs st))"
proof -
  assume i: "in_span st = Some i"
  let ?st = "st\<lparr>t_tick := Suc (t_tick st)\<rparr>"
  let ?b = "build_event W (t_cfg st) (s_draw S (t_tick st)) (span_at st i) lev message fs (baggage (t_ctx st))"
  show ?thesis
  proof (cases ?b)
    case (Inl e)
    then show ?thesis by (auto simp: log_in_span_def tick_eq Let_def intro!: keeps_frame)
  next
    case (Inr ev)
    then show ?thesis
      using keeps_append [of st i ev S] in_span_valid [OF _ i] build_event_belongs [OF Inr] build_event_lid [OF Inr]
      by (simp add: log_in_span_def tick_eq Let_def)
  qed
qed

lemma keeps_emit_orphan: "keeps S st (snd (emit_orphan W S so lev message fs st))"
  by (rule keeps_frame) (auto simp: emit_orphan_def tick_eq Let_def split: sum.splits option.splits prod.splits)

lemma keeps_log: "keeps S st (log_event W S so lev message echo fs st)"
proof (cases rule: log_event_steps [of W S so lev message echo fs st])
  case (1 st1 es)
  then have "keeps S st st1" by (auto intro: keeps_emit_orphan keeps_log_in_span)
  moreover have "keeps S st1 (st1\<lparr>t_echoed := es\<rparr>)" by (rule keeps_frame) simp_all
  ultimately show ?thesis using 1 keeps_trans by metis
qed

lemma keeps_adopt: "keeps S st (adopt_context ad st)"
proof (cases ad)
  case (Some tp)
  obtain t p where tp: "tp = (t, p)" by (cases tp)
  let ?st = "st\<lparr>t_ctx := set_adopted_context t p (t_ctx st)\<rparr>"
  have 1: "keeps S st ?st" by (rule keeps_frame) (simp_all add: set_adopted_context_def)
  have 2: "keeps S ?st (reparent_current_span t p ?st)"
  proof (cases "in_span ?st")
    case (Some i)
    let ?sp = "span_at ?st i"
    let ?new = "?sp\<lparr>trace_id := t, parent_span_id := p, events := map (reparent_event (span_id ?sp) t p) (events ?sp)\<rparr>"
    have "span_coherent ?new" "lids (events ?new) = lids (events ?sp)" if "span_coherent ?sp"
      using that reparent_keeps [of ?sp] by (auto simp: span_coherent_def intro!: lids_map)
    then have "keeps S ?st (put_span i ?new ?st)"
      using in_span_valid [OF _ Some] coherent_at by (intro keeps_put) blast
    then show ?thesis using Some by (simp add: reparent_current_span_def Let_def keeps_refl)
  qed (simp add: reparent_current_span_def keeps_refl)
  show ?thesis using keeps_trans [OF 1 2] by (simp add: Some tp)
qed (simp add: keeps_refl)

lemma keeps_continue: "keeps S st (snd (continue_trace W a b c d st))"
proof (cases rule: continue_steps [of st W a b c d])
  case (1 ad st0)
  have "keeps S st st0" by (rule keeps_frame) (simp_all add: 1)
  moreover have "keeps S (adopt_context ad st0) (snd (continue_trace W a b c d st))"
    by (rule keeps_frame) (simp_all add: 1)
  ultimately show ?thesis using keeps_adopt keeps_trans by metis
qed

text \<open>Submitting moves the events of one span, all of them, into one batch.\<close>

lemma keeps_submit:
  assumes "coherent st \<Longrightarrow> i < length (t_spans st) \<and> span_coherent (f (span_at st i)) \<and>
      events (f (span_at st i)) \<noteq> [] \<and> lids (events (f (span_at st i))) = lids (events (span_at st i))"
  shows "keeps S st (snd (submit_span S i f st))"
proof -
  let ?st = "st\<lparr>t_tick := Suc (t_tick st)\<rparr>"
  let ?sp = "f (span_at st i)"
  let ?st' = "(put_span i (?sp\<lparr>events := []\<rparr>) ?st)\<lparr>t_sent := t_sent st @ [events ?sp]\<rparr>"
  have "coherent ?st' \<and> held_ids ?st' = held_ids st" if c: "coherent st"
  proof
    have "coherent ?st" using c by (simp add: coherent_def)
    then have "coherent (put_span i (?sp\<lparr>events := []\<rparr>) ?st)" by (rule coherent_put) (simp add: span_coherent_def)
    moreover have "batch_coherent (events ?sp)"
      using assms [OF c] by (auto simp: batch_coherent_def span_coherent_def)
    ultimately show "coherent ?st'" by (auto simp: coherent_def)
    have "held_ids (put_span i (?sp\<lparr>events := []\<rparr>) ?st) + lids (events ?sp) = held_ids ?st"
      using held_put [of i ?st "?sp\<lparr>events := []\<rparr>"] assms [OF c] by simp
    then show "held_ids ?st' = held_ids st" by (simp add: held_ids_def ac_simps)
  qed
  then have "keeps S st ?st'" by (auto simp: keeps_def intro!: grows_same)
  moreover have "keeps S st ?st" by (rule keeps_frame) simp_all
  ultimately show ?thesis by (cases "s_worker S (t_tick st)") (simp_all add: submit_span_def tick_eq Let_def)
qed

lemma keeps_sweep: "set is \<subseteq> {..<length (t_spans st)} \<Longrightarrow> keeps S st (snd (sweep_spans W S is st))"
proof (induction W S "is" st rule: sweep_spans.induct)
  case (2 W S i "is" st)
  let ?f = "\<lambda>sp. (backfill_baggage W (t_cfg st) (baggage (t_ctx st)) sp)\<lparr>swept := True\<rparr>"
  have c: "span_coherent (sp\<lparr>swept := True\<rparr>) = span_coherent sp" for sp
    using belongs_cong [of "sp\<lparr>swept := True\<rparr>" sp] by (simp add: span_coherent_def)
  show ?case
  proof (cases "events (span_at st i) = []")
    case True
    let ?st = "put_span i ((span_at st i)\<lparr>swept := True\<rparr>) st"
    have "keeps S st ?st" using "2.prems" coherent_at [of st i] by (intro keeps_put) (simp add: c)
    moreover have "keeps S ?st (snd (sweep_spans W S is ?st))" using 2 True by simp
    ultimately show ?thesis using True keeps_trans by fastforce
  next
    case False
    obtain r st1 where sub: "submit_span S i ?f st = (r, st1)" by (cases "submit_span S i ?f st")
    have "keeps S st (snd (submit_span S i ?f st))"
      using False "2.prems" coherent_at [of st i] by (intro keeps_submit) (simp add: c backfill_baggage_keeps)
    then have k: "keeps S st st1" by (simp add: sub)
    have len: "length (t_spans st1) = length (t_spans st)"
      using sub by (auto simp: submit_span_def tick_eq Let_def split: option.splits)
    show ?thesis
    proof (cases r)
      case None
      have "keeps S st1 (snd (sweep_spans W S is st1))"
        using "2.IH"(2) [OF False sub [symmetric]] None "2.prems" len by simp
      then show ?thesis using False sub None keeps_trans [OF k] by simp
    qed (use False sub k in simp)
  qed
qed (simp add: keeps_refl)

lemma keeps_close: "i < length (t_spans st) \<Longrightarrow> keeps S st (snd (close_span W S i status exc st))"
proof -
  assume i: "i < length (t_spans st)"
  let ?st = "st\<lparr>t_tick := Suc (t_tick st)\<rparr>" and ?sp = "span_at st i"
  let ?e = "end_event W (t_cfg st) (s_draw S (t_tick st)) ?sp (s_elapsed S (start_ts ?sp) (t_tick st)) status exc"
  show ?thesis
  proof (cases ?e)
    case (Inl e)
    then show ?thesis by (auto simp: close_span_def tick_eq Let_def intro!: keeps_frame)
  next
    case (Inr ev)
    let ?sp1 = "?sp\<lparr>events := events ?sp @ [ev]\<rparr>"
    let ?st1 = "put_span i ?sp1 ?st"
    let ?sp2 = "(backfill_baggage W (t_cfg st) (baggage (t_ctx st)) ?sp1)\<lparr>closed := True\<rparr>"
    have c: "span_coherent (sp\<lparr>closed := True\<rparr>) = span_coherent sp" for sp
      using belongs_cong [of "sp\<lparr>closed := True\<rparr>" sp] by (simp add: span_coherent_def)
    have at: "span_at ?st1 i = ?sp1" using i by (simp add: span_at_def)
    have k1: "keeps S st ?st1"
      using i end_event_cases [OF Inr] end_event_lid [OF Inr] by (intro keeps_append) simp_all
    have k2: "keeps S ?st1 (put_span i ?sp2 ?st1)"
      using i coherent_at [of ?st1 i] by (intro keeps_put) (simp add: c at backfill_baggage_keeps)
    have put: "put_span i ?sp2 ?st1 = put_span i ?sp2 ?st" by (simp add: put_span_def)
    have k3: "keeps S (put_span i ?sp2 ?st) (snd (submit_span S i id (put_span i ?sp2 ?st)))"
      using i coherent_at [of "put_span i ?sp2 ?st" i]
      by (intro keeps_submit) (simp add: span_at_def backfill_baggage_keeps)
    have "snd (close_span W S i status exc st) = snd (submit_span S i id (put_span i ?sp2 ?st))"
      using Inr by (simp add: close_span_def flush_span_def tick_eq Let_def)
    then show ?thesis using keeps_trans [OF k1 keeps_trans [OF k2]] k3 by (simp add: put)
  qed
qed

lemma open_span_cases:
  assumes "open_span W S name defaults st = (r, st')"
  shows "t_spans st' = t_spans st \<and> t_sent st' = t_sent st \<and> t_ctx st' = t_ctx st \<and> t_tick st' = Suc (t_tick st) \<and>
    (\<forall>sp. r = Inr sp \<longrightarrow> span_coherent sp \<and> lids (events sp) = {#drawn S (t_tick st)#} \<and> \<not> closed sp \<and>
       span_name sp = name)"
proof -
  define sp where "sp = new_span S (t_tick st) name defaults (st\<lparr>t_tick := Suc (t_tick st)\<rparr>)"
  have ev: "open_span W S name defaults st =
      (case start_event W (t_cfg st) (s_draw S (t_tick st)) sp of
         Inl e \<Rightarrow> (Inl e, st\<lparr>t_tick := Suc (t_tick st)\<rparr>)
       | Inr ev \<Rightarrow> (Inr (sp\<lparr>events := events sp @ [ev]\<rparr>), st\<lparr>t_tick := Suc (t_tick st)\<rparr>))"
    unfolding sp_def by (simp add: open_span_def tick_eq Let_def)
  have e: "events sp = []" "\<not> closed sp" "span_name sp = name" by (simp_all add: sp_def new_span_def)
  show ?thesis
  proof (cases "start_event W (t_cfg st) (s_draw S (t_tick st)) sp")
    case (Inr x)
    then have "belongs sp x" "lid x = drawn S (t_tick st)"
      using build_event_belongs build_event_lid unfolding start_event_def by blast+
    moreover have "belongs (sp\<lparr>events := es\<rparr>) x = belongs sp x" for es by (rule belongs_cong) simp_all
    ultimately show ?thesis using assms ev e Inr by (auto simp: span_coherent_def)
  qed (use assms ev in auto)
qed

lemma begin_keeps:
  assumes "begin_span W S name defaults st = ((i, tok, scope), st1)" and "coherent st"
  shows "coherent st1 \<and> grows S st st1 \<and> length (t_spans st) \<le> length (t_spans st1) \<and>
    (\<forall>j. i = Some j \<longrightarrow> j \<in> set (stack (t_ctx st1)))"
proof -
  let ?st = "if in_span st = None then st\<lparr>t_ctx := t_ctx st\<rparr> else st"
  have st: "?st = st" by simp
  obtain r st' where o: "open_span W S name defaults st = (r, st')" by (cases "open_span W S name defaults st")
  note oc = open_span_cases [OF o]
  show ?thesis
  proof (cases r)
    case (Inl e)
    then have "st1 = st'" "i = None"
      using assms(1) o by (auto simp: begin_span_def push_baggage_scope_def Let_def split: if_splits)
    then show ?thesis using oc assms(2) by (auto simp: coherent_def intro!: grows_same held_ids_frame)
  next
    case (Inr sp)
    then have st1: "st1 = st'\<lparr>t_spans := t_spans st' @ [sp], t_ctx := (t_ctx st')\<lparr>stack := stack (t_ctx st') @ [length (t_spans st')]\<rparr>\<rparr>"
      and "i = Some (length (t_spans st'))"
      using assms(1) o by (auto simp: begin_span_def push_baggage_scope_def push_span_def Let_def split: if_splits)
    moreover have "held_ids st1 = add_mset (drawn S (t_tick st)) (held_ids st)"
      using oc Inr by (simp add: st1 held_ids_def)
    ultimately show ?thesis using oc Inr assms(2)
      by (auto simp: coherent_def less_Suc_eq intro!: grows_one)
  qed
qed

lemma end_keeps:
  assumes "coherent st" and "\<And>j. i = Some j \<Longrightarrow> j < length (t_spans st)"
    and "\<And>t. tok = Some t \<Longrightarrow> \<forall>j \<in> set t. j < length (t_spans st)"
  shows "coherent (end_span W S (i, tok, scope) status exc st) \<and> grows S st (end_span W S (i, tok, scope) status exc st) \<and>
    length (t_spans st) \<le> length (t_spans (end_span W S (i, tok, scope) status exc st))"
proof -
  have k: "keeps S st (settle_span W S i status exc st)" (is "keeps S st ?st1")
  proof (cases i)
    case (Some j)
    obtain r st' where c: "close_span W S j status exc st = (r, st')" by (cases "close_span W S j status exc st")
    have k1: "keeps S st st'" using keeps_close [of j st S W status exc] assms(2) [OF Some] by (simp add: c)
    have k2: "keeps S st' (note_in_span_loss n st')" for n by (rule keeps_frame) simp_all
    show ?thesis using Some c k1 keeps_trans [OF k1 k2] by (cases r) (auto simp: settle_span_def)
  qed (simp add: settle_span_def keeps_refl)
  let ?c = "end_ctx_of (i, tok, scope) (t_ctx st)"
  have "stack ?c = (case tok of None \<Rightarrow> stack (t_ctx st) | Some t \<Rightarrow> t)"
    by (cases tok; cases scope) (simp_all add: end_ctx_of_def pop_span_def pop_baggage_scope_def)
  moreover have k1: "coherent ?st1" "length (t_spans st) \<le> length (t_spans ?st1)" "grows S st ?st1"
    using k assms(1) by (simp_all add: keeps_def)
  moreover have "\<forall>j \<in> set (stack (t_ctx st)). j < length (t_spans st)" using assms(1) by (simp add: coherent_def)
  ultimately have "\<forall>j \<in> set (stack ?c). j < length (t_spans ?st1)"
    using assms(3) by (cases tok) (auto dest: order.strict_trans2)
  then have "coherent (?st1\<lparr>t_ctx := ?c\<rparr>)" using k1(1) by (simp add: coherent_def)
  moreover have "grows S st (?st1\<lparr>t_ctx := ?c\<rparr>)" using k1(3) by (simp add: grows_def held_ids_def)
  ultimately show ?thesis using k1(2) by (simp add: end_span_eq)
qed

lemma keeps_set_baggage: "set_baggage probe kv (t_ctx st) = Inr c \<Longrightarrow> keeps S st (st\<lparr>t_ctx := c\<rparr>)"
  by (rule keeps_frame) (simp_all add: set_baggage_stack)

lemma keeps_reset: "keeps S st (st\<lparr>t_ctx := reset_context (t_ctx st)\<rparr>)"
  by (rule keeps_frame) (simp_all add: reset_context_def)

lemma keeps_sweep_open: "keeps S st (snd (sweep_open_spans W S st))"
proof (cases "coherent st")
  case True
  then show ?thesis unfolding sweep_open_spans_def by (intro keeps_sweep) (auto simp: coherent_def)
qed (simp add: keeps_def)

interpretation coherence: traced_relation W S so "keeps S" for W S so
proof unfold_locales
  fix name defaults and st st1 st2 :: "'s tracer" and sc status exc
  assume b: "begin_span W S name defaults st = (sc, st1)" and k: "keeps S st1 st2"
  obtain i tok scope where sc: "sc = (i, tok, scope)" by (cases sc)
  show "keeps S st (end_span W S sc status exc st2)"
    unfolding keeps_def
  proof
    assume c: "coherent st"
    note b1 = begin_keeps [OF b [unfolded sc] c] and b2 = begin_stack [OF b [unfolded sc]]
    have k': "coherent st2" "stack (t_ctx st2) = stack (t_ctx st1)" "length (t_spans st1) \<le> length (t_spans st2)" "grows S st1 st2"
      using k b1 by (auto simp: keeps_def)
    have "j < length (t_spans st2)" if "i = Some j" for j
      using b1 that k' by (auto simp: coherent_def)
    moreover have "\<forall>j \<in> set t. j < length (t_spans st2)" if "tok = Some t" for t
      using b1 b2 that k' c by (fastforce simp: coherent_def)
    ultimately have e: "coherent (end_span W S sc status exc st2)" "grows S st2 (end_span W S sc status exc st2)"
      "length (t_spans st2) \<le> length (t_spans (end_span W S sc status exc st2))"
      using end_keeps [OF k'(1), of i tok W S scope status exc] unfolding sc by blast+
    moreover have "stack (t_ctx (end_span W S sc status exc st2)) = stack (t_ctx st)"
      using stack_restored.R_traced [OF b] k'(2) by blast
    ultimately show "coherent (end_span W S sc status exc st2) \<and>
        stack (t_ctx (end_span W S sc status exc st2)) = stack (t_ctx st) \<and>
        length (t_spans st) \<le> length (t_spans (end_span W S sc status exc st2)) \<and> grows S st (end_span W S sc status exc st2)"
      using b1 k' grows_trans by (metis order_trans)
  qed
qed (rule keeps_refl, erule (1) keeps_trans, rule keeps_log, erule keeps_set_baggage, rule keeps_continue,
    rule keeps_sweep_open, rule keeps_reset)

text \<open>C6. At every moment of every program, every buffered event carries the trace, span and
  parent identifiers its span has at that moment, also after a trace was adopted in mid-span, and
  every batch handed to the worker is non-empty and its events agree on all three.\<close>

theorem run_coherent:
  assumes "coherent st"
  shows "coherent (snd (run W S so a st))"
  using coherence.run_related [of S st W so a] assms by (simp add: keeps_def)


subsection \<open>A call that returns has handed everything over\<close>

definition worker_up :: "source \<Rightarrow> bool" where
  "worker_up S \<longleftrightarrow> (\<forall>n. s_worker S n = None)"

text \<open>A span that is no longer on the stack is closed and its buffer is empty.\<close>

definition settled :: "'s tracer \<Rightarrow> bool" where
  "settled st \<longleftrightarrow>
     (\<forall>i < length (t_spans st). inbound_text (span_name (t_spans st ! i)) \<noteq> None \<and>
       (i \<notin> set (stack (t_ctx st)) \<longrightarrow> closed (t_spans st ! i) \<and> events (t_spans st ! i) = []))"

definition delivers :: "source \<Rightarrow> 's tracer \<Rightarrow> 's tracer \<Rightarrow> bool" where
  "delivers S st st' \<longleftrightarrow> keeps S st st' \<and> (worker_up S \<and> coherent st \<and> settled st \<longrightarrow> settled st')"

lemma settled_frame: "t_spans st' = t_spans st \<Longrightarrow> stack (t_ctx st') = stack (t_ctx st) \<Longrightarrow> settled st' = settled st"
  by (simp add: settled_def)

lemma settled_put:
  "settled st \<Longrightarrow> i \<in> set (stack (t_ctx st)) \<Longrightarrow> span_name sp = span_name (span_at st i) \<Longrightarrow> settled (put_span i sp st)"
  by (cases "i < length (t_spans st)") (auto simp: settled_def nth_list_update span_at_def)

lemma in_span_stack: "in_span st = Some i \<Longrightarrow> i \<in> set (stack (t_ctx st))"
  by (auto simp: in_span_def current_span_def split: if_splits)

lemma backfill_name [simp]:
  "span_name (backfill_baggage W cfg bag sp) = span_name sp" "start_ts (backfill_baggage W cfg bag sp) = start_ts sp"
  by (simp_all add: backfill_baggage_def split_beta Let_def)

lemma settled_log: "settled st \<Longrightarrow> settled (log_event W S so lev message echo fs st)"
proof (cases rule: log_event_steps [of W S so lev message echo fs st])
  case (1 st1 es)
  assume s: "settled st"
  have "t_spans (snd (emit_orphan W S so lev message fs st)) = t_spans st"
    by (auto simp: emit_orphan_def tick_eq Let_def split: sum.splits option.splits prod.splits)
  then have o: "settled (snd (emit_orphan W S so lev message fs st))"
    using s keeps_emit_orphan [of S st W so lev message fs] settled_frame
    by (auto simp: emit_orphan_def tick_eq Let_def settled_def split: sum.splits option.splits prod.splits)
  have "settled (snd (log_in_span W S i lev message fs st))" if "in_span st = Some i" for i
    using settled_put [OF _ in_span_stack, of "st\<lparr>t_tick := Suc (t_tick st)\<rparr>" i] s that
    by (auto simp: log_in_span_def tick_eq Let_def settled_def split: sum.splits)
  with o 1 have "settled st1" by auto
  then show ?thesis using 1(1) by (simp add: settled_def)
qed

lemma settled_adopt: "settled st \<Longrightarrow> settled (adopt_context ad st)"
proof (cases ad)
  case (Some tp)
  assume s: "settled st"
  obtain t p where tp: "tp = (t, p)" by (cases tp)
  let ?st = "st\<lparr>t_ctx := set_adopted_context t p (t_ctx st)\<rparr>"
  have st: "settled ?st" using s by (simp add: settled_def set_adopted_context_def)
  have "settled (reparent_current_span t p ?st)"
  proof (cases "in_span ?st")
    case (Some i)
    with st show ?thesis
      by (auto simp: reparent_current_span_def Let_def intro!: settled_put dest: in_span_stack)
  qed (simp add: reparent_current_span_def st)
  then show ?thesis by (simp add: Some tp)
qed simp

lemma settled_sweep: "worker_up S \<Longrightarrow> settled st \<Longrightarrow> set is \<subseteq> set (stack (t_ctx st)) \<Longrightarrow> settled (snd (sweep_spans W S is st))"
proof (induction W S "is" st rule: sweep_spans.induct)
  case (2 W S i "is" st)
  let ?f = "\<lambda>sp. (backfill_baggage W (t_cfg st) (baggage (t_ctx st)) sp)\<lparr>swept := True\<rparr>"
  show ?case
  proof (cases "events (span_at st i) = []")
    case True
    then show ?thesis using 2 settled_put [of st i] by simp
  next
    case False
    let ?st1 = "(put_span i ((?f (span_at st i))\<lparr>events := []\<rparr>) (st\<lparr>t_tick := Suc (t_tick st)\<rparr>))
      \<lparr>t_sent := t_sent st @ [events (?f (span_at st i))]\<rparr>"
    have sub: "submit_span S i ?f st = (None, ?st1)"
      using "2.prems"(1) by (simp add: submit_span_def tick_eq Let_def worker_up_def)
    have "settled (put_span i ((?f (span_at st i))\<lparr>events := []\<rparr>) st)"
      using "2.prems" by (intro settled_put) simp_all
    then have "settled ?st1" by (simp add: settled_def)
    then show ?thesis using "2.IH"(2) [OF False sub [symmetric]] "2.prems" sub False by simp
  qed
qed simp

lemma end_event_total:
  assumes "inbound_text (span_name sp) \<noteq> None"
  shows "\<exists>ev. end_event W cfg dr sp elapsed status exc = Inr ev"
proof -
  let ?lev = "if status = str ''ok'' then str ''INFO'' else str ''ERROR''"
  obtain ev0 where b: "build_event W cfg dr sp ?lev (IStr END_MESSAGE) [] [] = Inr ev0"
    using build_event_total assms by fastforce
  show ?thesis unfolding end_event_def Let_def b by (cases exc) (simp_all add: split_beta)
qed

lemma close_settles:
  assumes "worker_up S" and "i < length (t_spans st)" and "inbound_text (span_name (span_at st i)) \<noteq> None"
  shows "\<exists>sp. t_spans (settle_span W S (Some i) status exc st) = (t_spans st)[i := sp] \<and>
    closed sp \<and> events sp = [] \<and> span_name sp = span_name (span_at st i)"
proof -
  let ?sp = "span_at st i"
  have "\<exists>ev. end_event W (t_cfg st) (s_draw S (t_tick st)) ?sp (s_elapsed S (start_ts ?sp) (t_tick st)) status exc = Inr ev"
    (is "\<exists>ev. ?e = Inr ev")
    by (rule end_event_total [OF assms(3)])
  then obtain ev where ev: "?e = Inr ev" by blast
  let ?sp2 = "(backfill_baggage W (t_cfg st) (baggage (t_ctx st)) (?sp\<lparr>events := events ?sp @ [ev]\<rparr>))\<lparr>closed := True\<rparr>"
  have "t_spans (settle_span W S (Some i) status exc st) = (t_spans st)[i := ?sp2\<lparr>events := []\<rparr>]"
    using assms ev by (simp add: settle_span_def close_span_def flush_span_def submit_span_def tick_eq Let_def
        worker_up_def span_at_def)
  then show ?thesis by (intro exI [of _ "?sp2\<lparr>events := []\<rparr>"]) simp
qed

lemma begin_shape:
  assumes "begin_span W S name defaults st = ((i, tok, scope), st1)"
  shows "(i = None \<and> tok = None \<and> t_spans st1 = t_spans st \<and> stack (t_ctx st1) = stack (t_ctx st)) \<or>
    (\<exists>sp. i = Some (length (t_spans st)) \<and> tok = Some (stack (t_ctx st)) \<and> t_spans st1 = t_spans st @ [sp] \<and>
      stack (t_ctx st1) = stack (t_ctx st) @ [length (t_spans st)] \<and> inbound_text (span_name sp) \<noteq> None)"
proof -
  obtain r st' where o: "open_span W S name defaults st = (r, st')" by (cases "open_span W S name defaults st")
  note oc = open_span_cases [OF o]
  have nm: "inbound_text (span_name sp) \<noteq> None" if "r = Inr sp" for sp
  proof -
    have "\<exists>sp0 ev. start_event W (t_cfg st) (s_draw S (t_tick st)) sp0 = Inr ev \<and> span_name sp0 = name"
      using o that by (auto simp: open_span_def tick_eq Let_def new_span_def split: sum.splits)
    then show ?thesis using build_event_total oc that unfolding start_event_def by (metis (no_types, lifting))
  qed
  show ?thesis using assms o oc nm
    by (cases r) (auto simp: begin_span_def push_baggage_scope_def push_span_def Let_def split: if_splits)
qed

lemma settled_end:
  assumes b: "begin_span W S name defaults st = ((i, tok, scope), st1)" and "worker_up S"
    and "coherent st" and "settled st" and k: "keeps S st1 st2" and s2: "settled st1 \<Longrightarrow> settled st2"
  shows "settled (end_span W S (i, tok, scope) status exc st2)"
proof -
  have c1: "coherent st1" using begin_keeps [OF b assms(3)] by blast
  then have c2: "coherent st2" "stack (t_ctx st2) = stack (t_ctx st1)" "length (t_spans st1) \<le> length (t_spans st2)"
    using k by (simp_all add: keeps_def)
  from begin_shape [OF b] show ?thesis
  proof (elim disjE exE conjE)
    assume n: "i = None" "tok = None" "t_spans st1 = t_spans st" "stack (t_ctx st1) = stack (t_ctx st)"
    then have "settled st2" using s2 assms(4) settled_frame by blast
    then show ?thesis using n by (cases scope) (simp_all add: end_span_eq end_ctx_of_def settle_span_def settled_def pop_baggage_scope_def)
  next
    fix sp
    let ?i = "length (t_spans st)"
    assume sp: "i = Some ?i" "tok = Some (stack (t_ctx st))" "t_spans st1 = t_spans st @ [sp]"
      "stack (t_ctx st1) = stack (t_ctx st) @ [?i]" "inbound_text (span_name sp) \<noteq> None"
    have "settled st1" using sp assms(4) by (auto simp: settled_def nth_append less_Suc_eq)
    then have st2: "settled st2" by (rule s2)
    have i2: "?i < length (t_spans st2)" using c2(3) sp(3) by simp
    obtain sp' where sp': "t_spans (settle_span W S (Some ?i) status exc st2) = (t_spans st2)[?i := sp']"
      "closed sp'" "events sp' = []" "span_name sp' = span_name (span_at st2 ?i)"
      using close_settles [OF assms(2) i2, of W status exc] st2 i2 by (auto simp: settled_def span_at_def)
    have stk: "stack (end_ctx_of (i, tok, scope) (t_ctx st2)) = stack (t_ctx st)"
      by (cases scope) (simp_all add: sp end_ctx_of_def pop_span_def pop_baggage_scope_def)
    show ?thesis
      using st2 sp' i2 sp(4) c2(2) unfolding end_span_eq settled_def
      by (auto simp: stk [unfolded sp(1)] sp(1) nth_list_update span_at_def)
  qed
qed

lemma delivers_basic:
  "delivers S st st"
  "delivers S st st1 \<Longrightarrow> delivers S st1 st2 \<Longrightarrow> delivers S st st2"
  "delivers S st (log_event W S so lev message echo fs st)"
  "set_baggage probe kv (t_ctx st) = Inr c \<Longrightarrow> delivers S st (st\<lparr>t_ctx := c\<rparr>)"
  "delivers S st (st\<lparr>t_ctx := reset_context (t_ctx st)\<rparr>)"
proof -
  show "delivers S st st1 \<Longrightarrow> delivers S st1 st2 \<Longrightarrow> delivers S st st2"
    unfolding delivers_def by (meson keeps_trans keeps_def)
  show "set_baggage probe kv (t_ctx st) = Inr c \<Longrightarrow> delivers S st (st\<lparr>t_ctx := c\<rparr>)"
    by (simp add: delivers_def keeps_set_baggage settled_def set_baggage_stack)
  show "delivers S st (st\<lparr>t_ctx := reset_context (t_ctx st)\<rparr>)"
    unfolding delivers_def using keeps_reset [of S st] by (simp add: settled_def reset_context_def)
qed (simp_all add: delivers_def keeps_refl keeps_log settled_log)

interpretation delivery: traced_relation W S so "delivers S" for W S so
proof unfold_locales
  show "delivers S st (snd (continue_trace W traceparent tid pid bag st))" for st :: "'s tracer" and traceparent tid pid bag
  proof (cases rule: continue_steps [of st W traceparent tid pid bag])
    case (1 ad st0)
    have "settled (snd (continue_trace W traceparent tid pid bag st))" if "settled st"
      using settled_adopt [of st0 ad] that 1 settled_frame by metis
    then show ?thesis by (simp add: delivers_def keeps_continue)
  qed
  show "delivers S st (snd (sweep_open_spans W S st))" for st :: "'s tracer"
    using keeps_sweep_open [of S st W] settled_sweep [of S st "stack (t_ctx st)" W]
    by (simp add: delivers_def sweep_open_spans_def)
  show "delivers S st (end_span W S sc status exc st2)"
    if b: "begin_span W S name defaults st = (sc, st1)" and d: "delivers S st1 st2"
    for name defaults and st st1 st2 :: "'s tracer" and sc status exc
  proof -
    obtain i tok scope where sc: "sc = (i, tok, scope)" by (cases sc)
    have "settled st2" if "worker_up S" "coherent st" "settled st1"
      using d that begin_keeps [OF b [unfolded sc]] by (simp add: delivers_def)
    then show ?thesis
      using coherence.R_traced [OF b] settled_end [OF b [unfolded sc], of st2] d
      by (auto simp: delivers_def sc)
  qed
qed (rule delivers_basic, erule (1) delivers_basic, rule delivers_basic, erule delivers_basic, rule delivers_basic)


subsection \<open>Which trace contexts are adopted\<close>

lemma parse_traceparent_valid:
  "parse_traceparent v = Some (t, p) \<Longrightarrow> is_valid_trace_id (IStr t) \<and> is_valid_span_id (IStr p)"
  by (cases v) (auto simp: Let_def split: list.splits if_splits)

definition ids_valid :: "pystr \<Rightarrow> pystr option \<Rightarrow> bool" where
  "ids_valid t p \<longleftrightarrow> is_valid_trace_id (IStr t) \<and> (\<forall>q. p = Some q \<longrightarrow> is_valid_span_id (IStr q))"

lemma choose_context_cases:
  assumes "choose_context a b c st = (ad, an, st')"
  shows "(\<forall>t p. ad = Some (t, p) \<longrightarrow> ids_valid t p \<and> \<not> an) \<and> length (t_reports st) \<le> length (t_reports st') \<and>
    (an \<longrightarrow> length (t_reports st) < length (t_reports st')) \<and>
    (ad = None \<and> \<not> an \<longrightarrow> st' = st)"
  using assms unfolding choose_context_def ids_valid_def
  by (auto simp: Let_def report_def dest: parse_traceparent_valid split: option.splits inbound.splits if_splits)

lemma adopt_context_fields [simp]:
  "t_reports (adopt_context ad st) = t_reports st"
  "adopted (t_ctx (adopt_context ad st)) = (case ad of None \<Rightarrow> adopted (t_ctx st) | Some tp \<Rightarrow> Some tp)"
  by (cases "(ad, st)" rule: adopt_context.cases;
      auto simp: set_adopted_context_def reparent_current_span_def put_span_def Let_def split: option.splits)+

lemma adopt_baggage_reports:
  "adopt_baggage W bag st = Inr (an, st') \<Longrightarrow> adopted (t_ctx st') = adopted (t_ctx st) \<and> t_spans st' = t_spans st \<and>
     length (t_reports st') = length (t_reports st) + (if an then 1 else 0)"
  by (auto simp: adopt_baggage_def report_def set_baggage_def split: if_splits option.splits sum.splits)

lemma refuse_swept_cases:
  assumes "refuse_swept (ad1, an1, s1) = (ad, an, st0)"
  shows "(ad = ad1 \<and> an = an1 \<and> st0 = s1 \<and> (ad1 \<noteq> None \<longrightarrow> \<not> current_span_was_swept s1)) \<or>
    (ad = None \<and> an \<and> t_ctx st0 = t_ctx s1 \<and> t_spans st0 = t_spans s1 \<and> length (t_reports st0) = Suc (length (t_reports s1)))"
  using assms by (auto simp: report_def split: if_splits)

text \<open>\<^verbatim>\<open>continue_trace\<close> adopts only W3C-valid identifiers, never into a root span whose
  events were already flushed; where it adopts nothing it leaves the adopted context and every
  span alone; and it never rejects silently.\<close>

theorem continue_trace_spec:
  assumes "continue_trace W traceparent tid pid bag st = (Inr r, st')"
  shows "(r = Continued \<longrightarrow> \<not> current_span_was_swept st \<and>
      (\<exists>t p. adopted (t_ctx st') = Some (t, p) \<and> ids_valid t p)) \<and>
    (r \<noteq> Continued \<longrightarrow> adopted (t_ctx st') = adopted (t_ctx st) \<and> t_spans st' = t_spans st) \<and>
    (r = Rejected \<longrightarrow> length (t_reports st) < length (t_reports st'))"
proof -
  obtain ad1 an1 s1 where ch: "choose_context (exact_arg traceparent) (exact_arg tid) (exact_arg pid) st = (ad1, an1, s1)"
    by (cases "choose_context (exact_arg traceparent) (exact_arg tid) (exact_arg pid) st")
  obtain ad an st0 where re: "refuse_swept (ad1, an1, s1) = (ad, an, st0)" by (cases "refuse_swept (ad1, an1, s1)")
  have s1: "t_ctx s1 = t_ctx st" "t_spans s1 = t_spans st"
    using choose_ctx [of "exact_arg traceparent" "exact_arg tid" "exact_arg pid" st] by (simp_all add: ch)
  then have sw: "current_span_was_swept s1 = current_span_was_swept st"
    by (simp add: current_span_was_swept_def in_span_def span_at_def split: option.splits)
  obtain an' where ab: "adopt_baggage W (exact_arg bag) (adopt_context ad st0) = Inr (an', st')"
    and r: "r = (if ad \<noteq> None then Continued else if an \<or> an' then Rejected else NothingSupplied)"
    using assms unfolding continue_trace_def ch re Let_def prod.case
    by (auto split: sum.splits prod.splits)
  note b = adopt_baggage_reports [OF ab] and c = choose_context_cases [OF ch]
  show ?thesis
  proof (cases ad)
    case None
    then show ?thesis using b c r refuse_swept_cases [OF re] s1 by auto
  next
    case (Some tp)
    then have ad1: "ad1 = Some tp" "st0 = s1" "\<not> current_span_was_swept s1"
      using refuse_swept_cases [OF re] by auto
    obtain t p where "tp = (t, p)" by (cases tp)
    then show ?thesis using b c r Some ad1 sw by (simp add: set_adopted_context_def)
  qed
qed

definition idle_tracer :: "unit tracer" where
  "idle_tracer = \<lparr>t_cfg = small_config, t_spans = [], t_ctx = empty_ctx, t_sent = [], t_orphans = [],
     t_noted = [], t_echoed = [], t_orphan_lost = 0, t_in_span_lost = 0, t_reports = [], t_tick = 0\<rparr>"

definition small_source :: source where
  "small_source = \<lparr>s_trace = (\<lambda>n. replicate 16 (n + 1)), s_span = (\<lambda>n. replicate 8 (n + 1)),
     s_draw = (\<lambda>n. small_draw), s_clock = (\<lambda>n. Fin 0), s_elapsed = (\<lambda>f n. f), s_emit = (\<lambda>n. None),
     s_echo = (\<lambda>n. None), s_worker = (\<lambda>n. None),
     s_exc = (\<lambda>e. \<lparr>x_name = None, x_module = Inr [], x_str = Inr [], x_stack = Inr []\<rparr>)\<rparr>"

text \<open>A request: a traced call that logs, calls another traced function and raises.\<close>

definition small_program :: action where
  "small_program = Traced [102] [] [Log (str ''INFO'') (IStr [104]) False (Inr []) [(1, 2)],
     Try [Traced [103] [] [Raise (s_exc small_source TypeError)]], Raise (s_exc small_source ValueError)]"

lemma idle_ok: "coherent idle_tracer" "settled idle_tracer" "stack (t_ctx idle_tracer) = []" "worker_up small_source"
  by (simp_all add: idle_tracer_def coherent_def settled_def empty_ctx_def worker_up_def small_source_def)

theorem run_coherent_witness: "coherent (snd (run small_world_of small_source () small_program idle_tracer))"
  by (rule run_coherent [OF idle_ok(1)])



theorem continue_trace_spec_witness:
  "\<exists>st'. continue_trace small_world_of INone (IStr (replicate 32 97)) INone INone idle_tracer = (Inr Continued, st') \<and>
     (\<exists>t p. adopted (t_ctx st') = Some (t, p) \<and> ids_valid t p)"
proof -
  have "current_span_was_swept idle_tracer = False"
    by (simp add: current_span_was_swept_def in_span_def current_span_def idle_tracer_def empty_ctx_def)
  then obtain st' where e: "continue_trace small_world_of INone (IStr (replicate 32 97)) INone INone idle_tracer = (Inr Continued, st')"
    using sample_ids(1) by (auto simp: continue_trace_def choose_context_def adopt_baggage_def simp del: is_valid_trace_id.simps)
  show ?thesis using continue_trace_spec [OF e] e by simp
qed


end
