(* ===== verification/Worker.thy ===== *)
theory Worker
  imports Tracing
begin

text \<open>
  The background worker of \<^verbatim>\<open>src/log_foundry/worker.py\<close>: a bounded queue, one drain thread that
  batches and retries, callers that submit, flush, swap the sink and stop. The drain thread is a
  small-step machine whose steps are the points where it touches shared state (the queue, the
  counters, the sink, the clock); between any two of its steps every caller may act, so the step
  relation \<open>wstep\<close> covers all interleavings. Fields whose name starts with \<open>g_\<close> are ghosts: they
  record what was accepted and what became of it, and no operation reads them.

  A sink is named by its identity, a marker by its index in the marker table.
\<close>

subsection \<open>State\<close>

datatype item = Batch "event list" | Marker nat | Shutdown

text \<open>Why pending submissions are being emitted, and what follows.\<close>

datatype why = ForMarker nat | ForBatch rat | ForFinal "nat list"

datatype phase =
    Head                              \<comment> \<open>\<^verbatim>\<open>while not self._stop.is_set()\<close>\<close>
  | Getting                           \<comment> \<open>\<^verbatim>\<open>self._queue.get(timeout=...)\<close>\<close>
  | Filling                           \<comment> \<open>deciding whether the batch is due\<close>
  | Emitting why nat rat              \<comment> \<open>before attempt \<open>k\<close>, with the longest attempt so far\<close>
  | InSink nat why nat rat rat        \<comment> \<open>inside \<^verbatim>\<open>emit\<close> of a sink: start time, longest\<close>
  | Waiting why nat rat               \<comment> \<open>the back-off after attempt \<open>k\<close>\<close>
  | Collecting "nat list"             \<comment> \<open>the loop of \<^verbatim>\<open>_final_drain\<close>, with the markers taken\<close>
  | Ending "pystr option"             \<comment> \<open>\<^verbatim>\<open>_drain\<close> is over; the exception that ended it\<close>
  | Releasing                         \<comment> \<open>before \<^verbatim>\<open>_release_waiters\<close> of \<^verbatim>\<open>_run\<close>\<close>
  | Finished

record marker =
  mk_event :: bool
  mk_delivered :: bool
  mk_seen :: nat
  g_created :: nat                    \<comment> \<open>submissions settled when the marker was made\<close>
  g_put :: "nat option"               \<comment> \<open>submissions accepted when it entered the queue\<close>

record wcfg =
  c_batch_size :: nat
  c_flush_interval :: rat
  c_max_queue :: nat
  c_max_retries :: nat

text \<open>A swap between its reassignment and its verdict: the displaced sink, and the marker of the
  second flush.\<close>

record swap =
  sw_old :: nat
  sw_drained :: bool                  \<comment> \<open>the first flush succeeded\<close>
  sw_marker :: "nat option"

record wstate =
  w_sink :: nat
  w_held :: "nat list"
  w_queue :: "item list"
  w_dropped :: nat
  w_failed :: nat                     \<comment> \<open>\<^verbatim>\<open>failed_batches\<close>\<close>
  w_stopped_reason :: "pystr option"
  w_late :: nat                       \<comment> \<open>\<^verbatim>\<open>submitted_after_shutdown\<close>\<close>
  w_incomplete :: nat                 \<comment> \<open>\<^verbatim>\<open>incomplete_swaps\<close>\<close>
  w_retired :: bool                   \<comment> \<open>\<^verbatim>\<open>retirements > self._epoch\<close>\<close>
  w_stop :: bool
  w_finished :: bool                  \<comment> \<open>\<^verbatim>\<open>_drain_finished\<close>\<close>
  w_settled :: bool                   \<comment> \<open>\<^verbatim>\<open>_drain_settled\<close>\<close>
  w_stopped :: bool
  w_deadline :: "rat option"          \<comment> \<open>\<^verbatim>\<open>_exit_deadline\<close>\<close>
  w_join_owed :: bool
  w_join_taken :: bool
  w_in_flight :: nat
  w_taken :: "nat list"
  w_markers :: "marker list"
  w_swaps :: "swap list"
  w_pending :: "event list list"      \<comment> \<open>local to the drain thread, as are the next two\<close>
  w_last_flush :: rat
  w_phase :: phase
  g_accepted :: "event list list"
  g_done :: "(event list \<times> bool) list"   \<comment> \<open>submissions settled, and whether a sink took them\<close>

definition new_worker :: "nat \<Rightarrow> rat \<Rightarrow> wstate" where
  "new_worker sink now =
     \<lparr>w_sink = sink, w_held = [sink], w_queue = [], w_dropped = 0, w_failed = 0, w_stopped_reason = None,
      w_late = 0, w_incomplete = 0, w_retired = False, w_stop = False, w_finished = False,
      w_settled = False, w_stopped = False, w_deadline = None, w_join_owed = False, w_join_taken = False,
      w_in_flight = 0, w_taken = [], w_markers = [], w_swaps = [], w_pending = [], w_last_flush = now,
      w_phase = Head, g_accepted = [], g_done = []\<rparr>"

subsection \<open>Callers\<close>

text \<open>\<^verbatim>\<open>queue.Queue(maxsize)\<close>: a maximum of zero is no maximum.\<close>

definition queue_full :: "wcfg \<Rightarrow> wstate \<Rightarrow> bool" where
  "queue_full C st \<longleftrightarrow> 0 < c_max_queue C \<and> c_max_queue C \<le> length (w_queue st)"

definition count_undeliverable :: "wstate \<Rightarrow> wstate" where
  "count_undeliverable st = st\<lparr>w_late := w_late st + 1\<rparr>"

text \<open>\<open>after\<close> is the retirement test after the put.\<close>

definition submit :: "wcfg \<Rightarrow> event list \<Rightarrow> bool \<Rightarrow> wstate \<Rightarrow> wstate" where
  "submit C evs after st =
     (let retired = w_retired st;
          st = (if retired then count_undeliverable st else st)
      in if queue_full C st then st\<lparr>w_dropped := w_dropped st + 1\<rparr>
         else let st = st\<lparr>w_queue := w_queue st @ [Batch evs], g_accepted := g_accepted st @ [evs]\<rparr>
              in if \<not> retired \<and> after then count_undeliverable st else st)"

definition thread_alive :: "wstate \<Rightarrow> bool" where
  "thread_alive st \<longleftrightarrow> w_phase st \<noteq> Finished"

definition given_up :: "wstate \<Rightarrow> bool" where
  "given_up st \<longleftrightarrow> w_settled st \<and> \<not> w_finished st"

definition drain_settled :: "wstate \<Rightarrow> bool" where
  "drain_settled st \<longleftrightarrow> w_finished st \<or> given_up st \<or> \<not> thread_alive st"

datatype verdict = Ok | Retired | ThreadDied | Abandoned | QueueFull | TimedOut

text \<open>The refusals of \<^verbatim>\<open>flush\<close> before it makes a marker, and the marker it makes.\<close>

definition flush_refusal :: "wstate \<Rightarrow> verdict option" where
  "flush_refusal st =
     (if w_retired st then Some Retired else if \<not> thread_alive st then Some ThreadDied else None)"

definition new_marker :: "wstate \<Rightarrow> nat \<times> wstate" where
  "new_marker st =
     (length (w_markers st),
      st\<lparr>w_markers := w_markers st @
           [\<lparr>mk_event = False, mk_delivered = False, mk_seen = w_failed st,
             g_created = length (g_done st), g_put = None\<rparr>]\<rparr>)"

text \<open>One round of \<^verbatim>\<open>_put_marker\<close>: the marker is queued, the wait for room is given up, or it
  goes on. \<open>late\<close> says whether the deadline has passed.\<close>

definition put_marker :: "wcfg \<Rightarrow> nat \<Rightarrow> bool \<Rightarrow> wstate \<Rightarrow> bool option \<times> wstate" where
  "put_marker C m late st =
     (if \<not> queue_full C st
      then (Some True,
            st\<lparr>w_queue := w_queue st @ [Marker m],
               w_markers := (w_markers st)[m := (w_markers st ! m)\<lparr>g_put := Some (length (g_accepted st))\<rparr>]\<rparr>)
      else if drain_settled st \<or> late then (Some False, st)
      else (None, st))"

definition unqueued_verdict :: "wstate \<Rightarrow> verdict" where
  "unqueued_verdict st =
     (if given_up st then Abandoned
      else if \<not> thread_alive st \<or> w_finished st then ThreadDied
      else QueueFull)"

text \<open>The answer of \<^verbatim>\<open>flush\<close> once the marker is queued: \<open>gave_up\<close> was read before, and
  \<open>timed_out\<close> says that the event did not come within the budget.\<close>

definition flush_answer :: "bool \<Rightarrow> bool \<Rightarrow> wstate \<Rightarrow> nat \<Rightarrow> verdict" where
  "flush_answer gave_up timed_out st m =
     (let mk = w_markers st ! m
      in if drain_settled st then
           (if mk_event mk \<and> mk_delivered mk then Ok
            else if mk_event mk \<or> gave_up then Abandoned
            else ThreadDied)
         else if timed_out \<or> \<not> mk_event mk then TimedOut
         else if \<not> mk_delivered mk then Abandoned
         else Ok)"

definition set_event :: "nat \<Rightarrow> wstate \<Rightarrow> wstate" where
  "set_event m st = st\<lparr>w_markers := (w_markers st)[m := (w_markers st ! m)\<lparr>mk_event := True\<rparr>]\<rparr>"

definition queued_markers :: "item list \<Rightarrow> nat list" where
  "queued_markers q = concat (map (\<lambda>it. case it of Marker m \<Rightarrow> [m] | _ \<Rightarrow> []) q)"

definition release_waiters :: "wstate \<Rightarrow> wstate" where
  "release_waiters st = fold set_event (w_taken st @ queued_markers (w_queue st)) st"

definition queued_submissions :: "wstate \<Rightarrow> nat" where
  "queued_submissions st = length (filter (\<lambda>it. case it of Batch _ \<Rightarrow> True | _ \<Rightarrow> False) (w_queue st))"

definition claim_stop :: "bool \<Rightarrow> rat option \<Rightarrow> wstate \<Rightarrow> bool \<times> wstate" where
  "claim_stop on_drain_thread deadline st =
     (if w_stopped st then
        (if \<not> w_join_owed st \<or> on_drain_thread then (False, st)
         else (True, st\<lparr>w_join_owed := False, w_join_taken := True, w_deadline := deadline\<rparr>))
      else (True, st\<lparr>w_stopped := True, w_deadline := deadline, w_join_owed := on_drain_thread\<rparr>))"

text \<open>\<^verbatim>\<open>stop\<close> up to the join: ask the drain thread to end.\<close>

definition request_stop :: "wcfg \<Rightarrow> bool \<Rightarrow> wstate \<Rightarrow> wstate" where
  "request_stop C on_drain_thread st =
     (let took_over = w_join_taken st \<and> \<not> on_drain_thread;
          st = (if \<not> w_finished st \<and> \<not> took_over \<and> \<not> queue_full C st
                then st\<lparr>w_queue := w_queue st @ [Shutdown]\<rparr> else st)
      in st\<lparr>w_stop := True\<rparr>)"

text \<open>\<^verbatim>\<open>stop\<close> after the join, if the thread has not ended by then; the waiters are released either
  way.\<close>

definition join_expired :: "wstate \<Rightarrow> wstate" where
  "join_expired st =
     st\<lparr>w_stopped_reason :=
          (if w_stopped_reason st = None then Some (str ''ShutdownTimeout'') else w_stopped_reason st),
        w_settled := True\<rparr>"

record health =
  h_queued :: nat
  h_dropped :: nat
  h_failed_batches :: nat
  h_stopped_reason :: "pystr option"
  h_submitted_after_shutdown :: nat
  h_incomplete_swaps :: nat

definition worker_health :: "wstate \<Rightarrow> health" where
  "worker_health st =
     \<lparr>h_queued = length (w_queue st), h_dropped = w_dropped st, h_failed_batches = w_failed st,
      h_stopped_reason = w_stopped_reason st, h_submitted_after_shutdown = w_late st,
      h_incomplete_swaps = w_incomplete st\<rparr>"

subsection \<open>The drain thread\<close>

definition take_marker :: "nat \<Rightarrow> wstate \<Rightarrow> wstate" where
  "take_marker m st =
     (let settled = w_settled st; st = st\<lparr>w_taken := w_taken st @ [m]\<rparr>
      in if settled then set_event m st else st)"

definition release_marker :: "nat \<Rightarrow> wstate \<Rightarrow> wstate" where
  "release_marker m st = st\<lparr>w_taken := filter (\<lambda>x. x \<noteq> m) (w_taken st)\<rparr>"

definition nothing_lost_since :: "nat \<Rightarrow> wstate \<Rightarrow> bool" where
  "nothing_lost_since m st \<longleftrightarrow> w_failed st = mk_seen (w_markers st ! m)"

definition answer :: "nat \<Rightarrow> wstate \<Rightarrow> wstate" where
  "answer m st =
     st\<lparr>w_markers := (w_markers st)[m := (w_markers st ! m)\<lparr>mk_delivered := nothing_lost_since m st\<rparr>]\<rparr>"

definition let_go :: "nat \<Rightarrow> wstate \<Rightarrow> wstate" where
  "let_go m st = release_marker m (set_event m st)"

text \<open>What follows an emit that returned: the code after \<^verbatim>\<open>_emit_pending\<close> at its three call
  sites. \<open>now\<close> is the clock.\<close>

fun emit_returned :: "rat \<Rightarrow> why \<Rightarrow> wstate \<Rightarrow> wstate" where
  "emit_returned now (ForMarker m) st = let_go m ((answer m st)\<lparr>w_last_flush := now, w_phase := Head\<rparr>)"
| "emit_returned now (ForBatch began) st = st\<lparr>w_last_flush := began, w_phase := Head\<rparr>"
| "emit_returned now (ForFinal ms) st = (fold let_go ms (fold answer ms st))\<lparr>w_phase := Ending None\<rparr>"

text \<open>What follows an exception that is no \<^verbatim>\<open>Exception\<close> and escapes the emit: the \<^verbatim>\<open>finally\<close>
  clauses, then \<^verbatim>\<open>_terminal_failure\<close>.\<close>

fun emit_killed :: "pystr \<Rightarrow> why \<Rightarrow> wstate \<Rightarrow> wstate" where
  "emit_killed x (ForMarker m) st = (let_go m st)\<lparr>w_phase := Ending (Some x)\<rparr>"
| "emit_killed x (ForBatch began) st = st\<lparr>w_phase := Ending (Some x)\<rparr>"
| "emit_killed x (ForFinal ms) st = (fold let_go ms st)\<lparr>w_phase := Ending (Some x)\<rparr>"

text \<open>The pending submissions are settled, with this outcome, and cleared.\<close>

definition settle :: "bool \<Rightarrow> wstate \<Rightarrow> wstate" where
  "settle ok st =
     st\<lparr>w_pending := [], w_in_flight := 0, g_done := g_done st @ map (\<lambda>evs. (evs, ok)) (w_pending st)\<rparr>"

definition start_emit :: "rat \<Rightarrow> why \<Rightarrow> wstate \<Rightarrow> wstate" where
  "start_emit now w st =
     (if concat (w_pending st) = [] then emit_returned now w (settle True st)
      else st\<lparr>w_in_flight := length (concat (w_pending st)), w_phase := Emitting w 0 0\<rparr>)"

definition JOIN_MARGIN :: rat where "JOIN_MARGIN = 1 / 10"

definition lose_batch :: "rat \<Rightarrow> why \<Rightarrow> wstate \<Rightarrow> wstate" where
  "lose_batch now w st = emit_returned now w (settle False (st\<lparr>w_failed := w_failed st + 1\<rparr>))"

datatype outcome = Returned | Raised | Killed pystr

text \<open>One step of the drain thread, at a clock reading and with what the sink does.\<close>

fun drain_step :: "wcfg \<Rightarrow> rat \<Rightarrow> outcome \<Rightarrow> wstate \<Rightarrow> wstate" where
  "drain_step C now oc st =
     (case w_phase st of
        Head \<Rightarrow> st\<lparr>w_phase := (if w_stop st then Collecting [] else Getting)\<rparr>
      | Getting \<Rightarrow>
          (case w_queue st of
             [] \<Rightarrow> st\<lparr>w_phase := Filling\<rparr>
           | Marker m # q \<Rightarrow> start_emit now (ForMarker m) (take_marker m (st\<lparr>w_queue := q\<rparr>))
           | Shutdown # q \<Rightarrow> st\<lparr>w_queue := q, w_phase := Collecting []\<rparr>
           | Batch evs # q \<Rightarrow> st\<lparr>w_queue := q, w_pending := w_pending st @ [evs], w_phase := Filling\<rparr>)
      | Filling \<Rightarrow>
          if c_batch_size C \<le> length (w_pending st) \<or> c_flush_interval C \<le> now - w_last_flush st
          then start_emit now (ForBatch now) st
          else st\<lparr>w_phase := Head\<rparr>
      | Emitting w k longest \<Rightarrow> st\<lparr>w_phase := InSink (w_sink st) w k now longest\<rparr>
      | InSink s w k started longest \<Rightarrow>
          (case oc of
             Returned \<Rightarrow> emit_returned now w (settle True st)
           | Raised \<Rightarrow>
               if c_max_retries C \<le> k then lose_batch now w st
               else st\<lparr>w_phase := Waiting w k (max longest (now - started))\<rparr>
           | Killed x \<Rightarrow> emit_killed x w (st\<lparr>w_in_flight := 0\<rparr>))
      | Waiting w k longest \<Rightarrow>
          (case w_deadline st of
             Some d \<Rightarrow> if now + longest + JOIN_MARGIN > d then lose_batch now w st
                       else st\<lparr>w_phase := Emitting w (k + 1) longest\<rparr>
           | None \<Rightarrow> st\<lparr>w_phase := Emitting w (k + 1) longest\<rparr>)
      | Collecting ms \<Rightarrow>
          (case w_queue st of
             [] \<Rightarrow> start_emit now (ForFinal ms) st
           | Marker m # q \<Rightarrow> (take_marker m (st\<lparr>w_queue := q\<rparr>))\<lparr>w_phase := Collecting (ms @ [m])\<rparr>
           | Shutdown # q \<Rightarrow> st\<lparr>w_queue := q\<rparr>
           | Batch evs # q \<Rightarrow> st\<lparr>w_queue := q, w_pending := w_pending st @ [evs]\<rparr>)
      | Ending died \<Rightarrow>
          st\<lparr>w_finished := True, w_settled := True, w_phase := Releasing,
             w_stopped_reason := (if died = None then w_stopped_reason st else died)\<rparr>
      | Releasing \<Rightarrow> (release_waiters st)\<lparr>w_phase := Finished\<rparr>
      | Finished \<Rightarrow> st)"

subsection \<open>Swapping the sink\<close>

text \<open>The reassignment of \<^verbatim>\<open>retarget\<close>, after its first flush, and its verdict after the second.\<close>

definition retarget_assign :: "nat \<Rightarrow> bool \<Rightarrow> wstate \<Rightarrow> wstate" where
  "retarget_assign new drained st =
     (if w_retired st \<or> w_sink st = new then st
      else st\<lparr>w_sink := new, w_held := filter (\<lambda>h. h \<noteq> new) (w_held st) @ [new],
              w_swaps := w_swaps st @ [\<lparr>sw_old = w_sink st, sw_drained = drained, sw_marker = None\<rparr>]\<rparr>)"

definition retarget_unfenced :: "nat \<Rightarrow> wstate \<Rightarrow> wstate" where
  "retarget_unfenced i st =
     st\<lparr>w_incomplete := w_incomplete st + 1, w_swaps := take i (w_swaps st) @ drop (Suc i) (w_swaps st)\<rparr>"

definition retarget_fenced :: "nat \<Rightarrow> wstate \<Rightarrow> wstate" where
  "retarget_fenced i st =
     st\<lparr>w_held := filter (\<lambda>h. h \<noteq> sw_old (w_swaps st ! i)) (w_held st),
        w_swaps := take i (w_swaps st) @ drop (Suc i) (w_swaps st)\<rparr>"

definition may_be_inside :: "wstate \<Rightarrow> nat \<Rightarrow> bool" where
  "may_be_inside st s \<longleftrightarrow> thread_alive st \<and> s \<in> set (w_held st)"

definition holds_unfenced :: "wstate \<Rightarrow> nat \<Rightarrow> bool" where
  "holds_unfenced st s \<longleftrightarrow> s \<noteq> w_sink st \<and> s \<in> set (w_held st)"

subsection \<open>After a fork\<close>

text \<open>In a forked child only the forking thread exists: the drain thread and the callers in flight
  are gone with their markers. \<open>failure\<close> is the exception \<^verbatim>\<open>thread.start()\<close> raises, if it does.\<close>

definition child_of :: "wstate \<Rightarrow> wstate" where
  "child_of st =
     st\<lparr>w_markers := [], w_swaps := [], w_pending := [], w_phase := Finished, g_accepted := [], g_done := []\<rparr>"

definition reinit_after_fork :: "bool \<Rightarrow> pystr option \<Rightarrow> rat \<Rightarrow> wstate \<Rightarrow> wstate" where
  "reinit_after_fork resume failure now st =
     (let st = (child_of st)\<lparr>w_queue := [], w_dropped := 0, w_failed := 0, w_late := 0, w_incomplete := 0,
                 w_stopped_reason := None, w_in_flight := 0, w_taken := [], w_held := [w_sink st]\<rparr>
      in if \<not> resume then st\<lparr>w_finished := True, w_settled := True\<rparr>
         else let st = st\<lparr>w_deadline := None, w_stopped := False, w_join_owed := False, w_join_taken := False,
                         w_stop := False, w_finished := False, w_settled := False\<rparr>
              in case failure of
                   Some x \<Rightarrow> st\<lparr>w_stopped_reason := Some x, w_finished := True, w_settled := True\<rparr>
                 | None \<Rightarrow> st\<lparr>w_last_flush := now, w_phase := Head\<rparr>)"

subsection \<open>All interleavings\<close>

text \<open>One atomic action of any thread; the stop signal belongs to the process, so others set it too.
  \<open>solo\<close> restricts to runs in which a swap begins only when
  no other is under way.\<close>

inductive wstep :: "wcfg \<Rightarrow> bool \<Rightarrow> wstate \<Rightarrow> wstate \<Rightarrow> bool" for C solo where
  submit: "(w_retired st \<Longrightarrow> after) \<Longrightarrow> wstep C solo st (submit C evs after st)"
| new_marker: "wstep C solo st (snd (new_marker st))"
| put_marker: "m < length (w_markers st) \<Longrightarrow> g_put (w_markers st ! m) = None \<Longrightarrow>
    wstep C solo st (snd (put_marker C m late st))"
| drain: "wstep C solo st (drain_step C now oc st)"
| retire: "wstep C solo st (st\<lparr>w_retired := True\<rparr>)"
| signal: "wstep C solo st (st\<lparr>w_stop := True\<rparr>)"
| claim_stop: "wstep C solo st (snd (claim_stop on_drain deadline st))"
| request_stop: "wstep C solo st (request_stop C on_drain st)"
| join_expired: "thread_alive st \<Longrightarrow> wstep C solo st (join_expired st)"
| release: "wstep C solo st (release_waiters st)"
| assign: "(solo \<Longrightarrow> w_swaps st = []) \<Longrightarrow> wstep C solo st (retarget_assign new drained st)"
| second_flush: "i < length (w_swaps st) \<Longrightarrow> sw_drained (w_swaps st ! i) \<Longrightarrow>
    sw_marker (w_swaps st ! i) = None \<Longrightarrow> new_marker st = (m, st') \<Longrightarrow>
    wstep C solo st (st'\<lparr>w_swaps := (w_swaps st)[i := (w_swaps st ! i)\<lparr>sw_marker := Some m\<rparr>]\<rparr>)"
| unfenced: "i < length (w_swaps st) \<Longrightarrow> wstep C solo st (retarget_unfenced i st)"
| fenced: "i < length (w_swaps st) \<Longrightarrow> sw_marker (w_swaps st ! i) = Some m \<Longrightarrow>
    flush_answer gave_up timed_out st m = Ok \<Longrightarrow> wstep C solo st (retarget_fenced i st)"

inductive reachable :: "wcfg \<Rightarrow> bool \<Rightarrow> wstate \<Rightarrow> bool" for C solo where
  init: "reachable C solo (new_worker sink now)"
| step: "reachable C solo st \<Longrightarrow> wstep C solo st st' \<Longrightarrow> reachable C solo st'"

text \<open>A child that resumes has a worker like a new one, so every law below holds of it.\<close>

lemma reinit_fresh: "\<not> w_retired st \<Longrightarrow> reinit_after_fork True None now st = new_worker (w_sink st) now"
  by (simp add: reinit_after_fork_def child_of_def new_worker_def Let_def)

lemma reinit_reachable: "\<not> w_retired st \<Longrightarrow> reachable C solo (reinit_after_fork True None now st)"
  by (simp add: reinit_fresh reachable.init)

lemma reinit_refuses:
  "\<not> resume \<or> failure \<noteq> None \<Longrightarrow> flush_refusal (reinit_after_fork resume failure now st) \<noteq> None"
  by (auto simp: reinit_after_fork_def child_of_def flush_refusal_def thread_alive_def Let_def split: option.splits)

subsection \<open>The invariant\<close>

definition batches :: "item list \<Rightarrow> event list list" where
  "batches q = concat (map (\<lambda>it. case it of Batch evs \<Rightarrow> [evs] | _ \<Rightarrow> []) q)"

lemma batches_simps [simp]:
  "batches [] = []" "batches (Batch evs # q) = evs # batches q" "batches (Marker m # q) = batches q"
  "batches (Shutdown # q) = batches q" "batches (q @ q') = batches q @ batches q'"
  by (simp_all add: batches_def)

text \<open>What is known of a marker: nothing settled after its creation was lost unless the failure
  count has moved since; and if it reports delivery, everything queued before it was taken.\<close>

definition mk_ok :: "(event list \<times> bool) list \<Rightarrow> nat \<Rightarrow> marker \<Rightarrow> bool" where
  "mk_ok dn failed mk \<longleftrightarrow> g_created mk \<le> length dn \<and> mk_seen mk \<le> failed \<and>
     (failed = mk_seen mk \<longrightarrow> list_all snd (drop (g_created mk) dn)) \<and>
     (mk_delivered mk \<longrightarrow>
        (\<exists>a. g_put mk = Some a \<and> a \<le> length dn \<and> list_all snd (drop (g_created mk) (take a dn))))"

definition put_by :: "marker list \<Rightarrow> nat \<Rightarrow> nat \<Rightarrow> bool" where
  "put_by ms n m \<longleftrightarrow> m < length ms \<and> (\<exists>a. g_put (ms ! m) = Some a \<and> a \<le> n)"

fun qpos :: "marker list \<Rightarrow> nat \<Rightarrow> item list \<Rightarrow> bool" where
  "qpos ms n [] = True"
| "qpos ms n (Marker m # q) = (put_by ms n m \<and> qpos ms n q)"
| "qpos ms n (Batch evs # q) = qpos ms (Suc n) q"
| "qpos ms n (Shutdown # q) = qpos ms n q"

definition settling :: "wstate \<Rightarrow> nat" where
  "settling st = length (g_done st) + length (w_pending st)"

definition base :: "wstate \<Rightarrow> bool" where
  "base st \<longleftrightarrow> g_accepted st = map fst (g_done st) @ w_pending st @ batches (w_queue st) \<and>
     (\<forall>mk \<in> set (w_markers st). mk_ok (g_done st) (w_failed st) mk) \<and>
     qpos (w_markers st) (settling st) (w_queue st)"

definition due :: "wstate \<Rightarrow> nat list \<Rightarrow> bool" where
  "due st ms \<longleftrightarrow> (\<forall>m \<in> set ms. put_by (w_markers st) (settling st) m)"

fun why_markers :: "why \<Rightarrow> nat list" where
  "why_markers (ForMarker m) = [m]"
| "why_markers (ForBatch began) = []"
| "why_markers (ForFinal ms) = ms"

fun phase_markers :: "phase \<Rightarrow> nat list" where
  "phase_markers (Emitting w k l) = why_markers w"
| "phase_markers (InSink s w k t l) = why_markers w"
| "phase_markers (Waiting w k l) = why_markers w"
| "phase_markers (Collecting ms) = ms"
| "phase_markers _ = []"

text \<open>The attempts of an emit are numbered from 0 to \<^verbatim>\<open>max_retries\<close>.\<close>

fun attempt_ok :: "nat \<Rightarrow> phase \<Rightarrow> bool" where
  "attempt_ok r (Emitting w k l) = (k \<le> r)"
| "attempt_ok r (InSink s w k t l) = (k \<le> r)"
| "attempt_ok r (Waiting w k l) = (k < r)"
| "attempt_ok r _ = True"

definition winv :: "wcfg \<Rightarrow> wstate \<Rightarrow> bool" where
  "winv C st \<longleftrightarrow> base st \<and> due st (phase_markers (w_phase st)) \<and> attempt_ok (c_max_retries C) (w_phase st) \<and>
     (0 < c_max_queue C \<longrightarrow> length (w_queue st) \<le> c_max_queue C)"

text \<open>Updates of the marker table that keep where each marker was put.\<close>

definition same_puts :: "marker list \<Rightarrow> marker list \<Rightarrow> bool" where
  "same_puts ms ms' \<longleftrightarrow> length ms \<le> length ms' \<and>
     (\<forall>m < length ms. \<forall>a. g_put (ms ! m) = Some a \<longrightarrow> g_put (ms' ! m) = Some a)"

lemma put_by_mono: "put_by ms n m \<Longrightarrow> same_puts ms ms' \<Longrightarrow> n \<le> n' \<Longrightarrow> put_by ms' n' m"
  unfolding put_by_def same_puts_def by (meson le_trans less_le_trans)

lemma qpos_mono: "qpos ms n q \<Longrightarrow> same_puts ms ms' \<Longrightarrow> n \<le> n' \<Longrightarrow> qpos ms' n' q"
  by (induction ms n q arbitrary: n' rule: qpos.induct) (auto intro: put_by_mono)

lemma qpos_append: "qpos ms n (q @ q') \<longleftrightarrow> qpos ms n q \<and> qpos ms (n + length (batches q)) q'"
  by (induction ms n q rule: qpos.induct) auto

lemma same_puts_refl [simp]: "same_puts ms ms"
  by (simp add: same_puts_def)

lemma same_puts_update: "(\<And>a. g_put (ms ! m) = Some a \<Longrightarrow> g_put mk = Some a) \<Longrightarrow> same_puts ms (ms[m := mk])"
  by (cases "m < length ms") (auto simp: same_puts_def nth_list_update)

lemma same_puts_snoc: "same_puts ms (ms @ [mk])"
  by (auto simp: same_puts_def nth_append)

lemma due_mono: "due st ms \<Longrightarrow> same_puts (w_markers st) (w_markers st') \<Longrightarrow> settling st \<le> settling st' \<Longrightarrow> due st' ms"
  by (auto simp: due_def intro: put_by_mono)

lemma mks_update:
  "\<forall>mk \<in> set ms. P mk \<Longrightarrow> P mk' \<Longrightarrow> \<forall>mk \<in> set (ms[m := mk']). P mk"
  by (auto dest!: subsetD [OF set_update_subset_insert])

text \<open>A change that leaves the ghosts, the queue and the pending submissions alone, and changes
  the markers only in their event.\<close>

lemma base_markers:
  assumes "base st" and "g_accepted st' = g_accepted st" and "g_done st' = g_done st" and "w_pending st' = w_pending st"
    and "w_queue st' = w_queue st" and "w_failed st' = w_failed st"
    and "same_puts (w_markers st) (w_markers st')" and "\<forall>mk \<in> set (w_markers st'). mk_ok (g_done st) (w_failed st) mk"
  shows "base st'"
  using assms qpos_mono [OF _ assms(7) order_refl] by (simp add: base_def settling_def)

lemma mk_ok_event [simp]: "mk_ok dn f (mk\<lparr>mk_event := b\<rparr>) = mk_ok dn f mk"
  by (simp add: mk_ok_def)

lemma marker_at: "\<forall>mk \<in> set ms. P mk \<Longrightarrow> m < length ms \<Longrightarrow> P (ms ! m)"
  by simp

lemma set_event_frame [simp]:
  "g_accepted (set_event m st) = g_accepted st" "g_done (set_event m st) = g_done st"
  "w_pending (set_event m st) = w_pending st" "w_queue (set_event m st) = w_queue st"
  "w_failed (set_event m st) = w_failed st" "w_phase (set_event m st) = w_phase st"
  "settling (set_event m st) = settling st" "w_held (set_event m st) = w_held st"
  "w_sink (set_event m st) = w_sink st" "w_swaps (set_event m st) = w_swaps st"
  "w_stop (set_event m st) = w_stop st" "w_taken (set_event m st) = w_taken st"
  by (simp_all add: set_event_def settling_def)

lemma set_event_puts [simp]: "same_puts (w_markers st) (w_markers (set_event m st))"
  by (auto simp: set_event_def intro: same_puts_update)

lemma winv_base: "winv C st \<Longrightarrow> base st"
  and winv_due: "winv C st \<Longrightarrow> due st (phase_markers (w_phase st))"
  by (simp_all add: winv_def)

lemma base_mks: "base st \<Longrightarrow> \<forall>mk \<in> set (w_markers st). mk_ok (g_done st) (w_failed st) mk"
  by (simp add: base_def)

lemma set_event_base:
  assumes b: "base st"
  shows "base (set_event m st)"
proof (rule base_markers [OF b])
  note all = base_mks [OF b]
  show "\<forall>mk \<in> set (w_markers (set_event m st)). mk_ok (g_done st) (w_failed st) mk"
  proof (cases "m < length (w_markers st)")
    case True
    then have "mk_ok (g_done st) (w_failed st) ((w_markers st ! m)\<lparr>mk_event := True\<rparr>)" using all by simp
    from mks_update [OF all this, of m] show ?thesis by (simp add: set_event_def)
  next
    case False
    with all show ?thesis by (simp add: set_event_def list_update_beyond)
  qed
qed simp_all

lemma fold_event_base:
  "base st \<Longrightarrow> base (fold set_event ms st) \<and> same_puts (w_markers st) (w_markers (fold set_event ms st)) \<and>
     w_phase (fold set_event ms st) = w_phase st \<and> w_queue (fold set_event ms st) = w_queue st \<and>
     settling (fold set_event ms st) = settling st"
proof (induction ms arbitrary: st)
  case (Cons m ms)
  from Cons.IH [OF set_event_base [OF Cons.prems], of m] set_event_puts [of st m] show ?case
    by (auto simp: same_puts_def)
qed simp

text \<open>Steps that change nothing the invariant speaks of, or only the events of markers.\<close>

lemma winv_same:
  assumes "winv C st" and "base st'" and "same_puts (w_markers st) (w_markers st')"
    and "settling st \<le> settling st'" and "w_phase st' = w_phase st" and "w_queue st' = w_queue st"
  shows "winv C st'"
  using assms due_mono [OF _ assms(3,4)] by (auto simp: winv_def)

lemma winv_frame:
  assumes "winv C st" and "g_accepted st' = g_accepted st" and "g_done st' = g_done st" and "w_pending st' = w_pending st"
    and "w_queue st' = w_queue st" and "w_failed st' = w_failed st" and "w_markers st' = w_markers st" and "w_phase st' = w_phase st"
  shows "winv C st'"
  using assms by (simp add: winv_def base_def due_def settling_def)

lemma winv_release:
  assumes "winv C st"
  shows "winv C (release_waiters st)"
proof -
  let ?ms = "w_taken st @ queued_markers (w_queue st)"
  note f = fold_event_base [OF winv_base [OF assms], of ?ms]
  show ?thesis unfolding release_waiters_def
    by (rule winv_same [OF assms]) (use f in \<open>blast, blast, simp only: order_refl, blast, blast\<close>)
qed

lemma winv_enqueue:
  assumes "winv C st" and "\<not> queue_full C st" and "qpos (w_markers st') (settling st + length (batches (w_queue st))) [it]"
    and "g_accepted st' = g_accepted st @ batches [it]" and "w_queue st' = w_queue st @ [it]"
    and "g_done st' = g_done st" "w_pending st' = w_pending st" "w_failed st' = w_failed st" "w_phase st' = w_phase st"
    and "same_puts (w_markers st) (w_markers st')" and "\<forall>mk \<in> set (w_markers st'). mk_ok (g_done st) (w_failed st) mk"
  shows "winv C st'"
proof -
  have b: "base st" and d: "due st (phase_markers (w_phase st))" using assms(1) by (auto simp: winv_def)
  have "qpos (w_markers st') (settling st) (w_queue st)"
    using b assms(10) qpos_mono by (auto simp: base_def)
  then have "base st'" using b assms by (auto simp: base_def settling_def qpos_append)
  moreover have "due st' (phase_markers (w_phase st))"
    using due_mono [OF d assms(10)] assms by (simp add: settling_def)
  ultimately show ?thesis using assms by (auto simp: winv_def queue_full_def)
qed

lemma winv_counted: "winv C st \<Longrightarrow> winv C (count_undeliverable st)"
  by (rule winv_frame) (simp_all add: count_undeliverable_def)

lemma winv_submit:
  assumes w: "winv C st"
  shows "winv C (submit C evs after st)"
proof -
  define st1 where "st1 = (if w_retired st then count_undeliverable st else st)"
  define st2 where "st2 = st1\<lparr>w_queue := w_queue st1 @ [Batch evs], g_accepted := g_accepted st1 @ [evs]\<rparr>"
  have sub: "submit C evs after st =
      (if queue_full C st1 then st1\<lparr>w_dropped := w_dropped st1 + 1\<rparr>
       else if \<not> w_retired st \<and> after then count_undeliverable st2 else st2)"
    unfolding submit_def Let_def st2_def st1_def ..
  have w1: "winv C st1" using w winv_counted by (simp add: st1_def)
  have "winv C (st1\<lparr>w_dropped := w_dropped st1 + 1\<rparr>)" by (rule winv_frame [OF w1]) simp_all
  moreover have "winv C st2" if "\<not> queue_full C st1"
    unfolding st2_def by (rule winv_enqueue [OF w1 that, where it = "Batch evs"])
      (simp_all add: base_mks [OF winv_base [OF w1]])
  ultimately show ?thesis unfolding sub using winv_counted by simp
qed

lemma winv_new_marker:
  assumes w: "winv C st"
  shows "winv C (snd (new_marker st))"
proof -
  let ?st = "snd (new_marker st)"
  let ?mk = "\<lparr>mk_event = False, mk_delivered = False, mk_seen = w_failed st, g_created = length (g_done st), g_put = None\<rparr>"
  have m: "w_markers ?st = w_markers st @ [?mk]" by (simp add: new_marker_def)
  have "mk_ok (g_done st) (w_failed st) ?mk" by (simp add: mk_ok_def)
  then have ok: "\<forall>mk \<in> set (w_markers ?st). mk_ok (g_done st) (w_failed st) mk"
    using base_mks [OF winv_base [OF w]] unfolding m by simp
  have p: "same_puts (w_markers st) (w_markers ?st)" unfolding m by (rule same_puts_snoc)
  have "base ?st" by (rule base_markers [OF winv_base [OF w] _ _ _ _ _ p ok]) (simp_all add: new_marker_def)
  then show ?thesis by (rule winv_same [OF w _ p]) (simp_all add: new_marker_def settling_def)
qed

lemma winv_put_marker:
  assumes w: "winv C st" and m: "m < length (w_markers st)" and n: "g_put (w_markers st ! m) = None"
  shows "winv C (snd (put_marker C m late st))"
proof (cases "queue_full C st")
  case False
  let ?mk = "(w_markers st ! m)\<lparr>g_put := Some (length (g_accepted st))\<rparr>"
  let ?st = "st\<lparr>w_queue := w_queue st @ [Marker m], w_markers := (w_markers st)[m := ?mk]\<rparr>"
  have b: "base st" using w by (simp add: winv_def)
  then have "length (g_accepted st) = settling st + length (batches (w_queue st))"
    by (simp add: base_def settling_def)
  moreover have "mk_ok (g_done st) (w_failed st) (w_markers st ! m)" using b m by (simp add: base_def)
  then have "mk_ok (g_done st) (w_failed st) ?mk" using n by (simp add: mk_ok_def)
  then have "\<forall>mk \<in> set ((w_markers st)[m := ?mk]). mk_ok (g_done st) (w_failed st) mk"
    using b by (intro mks_update) (simp_all add: base_def)
  ultimately have "winv C ?st"
    using m n by (intro winv_enqueue [OF w False, where it = "Marker m"])
      (auto simp: put_by_def intro: same_puts_update)
  then show ?thesis using False by (simp add: put_marker_def)
qed (use w in \<open>simp add: put_marker_def\<close>)

lemma winv_request_stop: "winv C st \<Longrightarrow> winv C (request_stop C on_drain st)"
proof -
  assume w: "winv C st"
  let ?st = "if \<not> w_finished st \<and> \<not> (w_join_taken st \<and> \<not> on_drain) \<and> \<not> queue_full C st
    then st\<lparr>w_queue := w_queue st @ [Shutdown]\<rparr> else st"
  have "winv C (st\<lparr>w_queue := w_queue st @ [Shutdown]\<rparr>)" if "\<not> queue_full C st"
    using w that by (intro winv_enqueue [OF w that, where it = Shutdown]) (simp_all add: winv_def base_def)
  then have "winv C ?st" using w by simp
  then have "winv C (?st\<lparr>w_stop := True\<rparr>)" by (rule winv_frame) simp_all
  then show ?thesis by (simp add: request_stop_def Let_def)
qed

subsection \<open>The drain thread keeps the invariant\<close>

lemma settle_simps [simp]:
  "w_pending (settle ok st) = []" "w_markers (settle ok st) = w_markers st" "w_queue (settle ok st) = w_queue st"
  "w_failed (settle ok st) = w_failed st" "settling (settle ok st) = settling st"
  "g_done (settle ok st) = g_done st @ map (\<lambda>evs. (evs, ok)) (w_pending st)"
  "w_sink (settle ok st) = w_sink st" "w_held (settle ok st) = w_held st" "w_swaps (settle ok st) = w_swaps st"
  by (simp_all add: settle_def settling_def)

lemma due_settle [simp]: "due (settle ok st) ms = due st ms"
  by (simp add: due_def)

lemma mk_ok_settle_ok: "mk_ok dn f mk \<Longrightarrow> mk_ok (dn @ map (\<lambda>evs. (evs, True)) p) f mk"
  by (auto simp: mk_ok_def list_all_iff)

lemma mk_ok_settle_lost: "mk_ok dn f mk \<Longrightarrow> mk_ok (dn @ l) (Suc f) mk"
  by (auto simp: mk_ok_def)

lemma settle_accepted:
  "g_accepted st = map fst (g_done st) @ w_pending st @ batches (w_queue st) \<Longrightarrow> g_accepted (settle ok st) = map fst (g_done (settle ok st)) @ w_pending (settle ok st) @ batches (w_queue (settle ok st))"
  by (simp add: settle_def comp_def)

lemma settle_base: "base st \<Longrightarrow> base (settle True st)"
  using settle_accepted [of st True] mk_ok_settle_ok by (simp add: base_def)

lemma lose_base: "base st \<Longrightarrow> base (settle False (st\<lparr>w_failed := w_failed st + 1\<rparr>))"
  using settle_accepted [of "st\<lparr>w_failed := w_failed st + 1\<rparr>" False] mk_ok_settle_lost [of "g_done st" "w_failed st"]
  by (simp add: base_def settling_def)

lemma answer_frame [simp]:
  "g_accepted (answer m st) = g_accepted st" "g_done (answer m st) = g_done st"
  "w_pending (answer m st) = w_pending st" "w_queue (answer m st) = w_queue st"
  "w_failed (answer m st) = w_failed st" "settling (answer m st) = settling st"
  "w_sink (answer m st) = w_sink st" "w_held (answer m st) = w_held st" "w_swaps (answer m st) = w_swaps st"
  by (simp_all add: answer_def settling_def)

lemma answer_puts [simp]: "same_puts (w_markers st) (w_markers (answer m st))"
  by (auto simp: answer_def intro: same_puts_update)

lemma answer_base:
  assumes b: "base st" and p: "w_pending st = []" and d: "due st [m]"
  shows "base (answer m st)"
proof (rule base_markers [OF b])
  let ?mk = "w_markers st ! m"
  from d p obtain a where a: "m < length (w_markers st)" "g_put ?mk = Some a" "a \<le> length (g_done st)"
    by (auto simp: due_def put_by_def settling_def)
  have mk: "mk_ok (g_done st) (w_failed st) ?mk" using base_mks [OF b] a(1) by simp
  have "list_all snd (drop (g_created ?mk) (take a (g_done st)))" if "nothing_lost_since m st"
  proof -
    have "list_all snd (drop (g_created ?mk) (g_done st))"
      using mk that by (simp add: mk_ok_def nothing_lost_since_def)
    then have "list_all snd (take (a - g_created ?mk) (drop (g_created ?mk) (g_done st)))"
      by (auto simp: list_all_iff dest: in_set_takeD)
    then show ?thesis by (simp add: drop_take)
  qed
  then have "mk_ok (g_done st) (w_failed st) (?mk\<lparr>mk_delivered := nothing_lost_since m st\<rparr>)"
    using mk a by (simp add: mk_ok_def)
  from mks_update [OF base_mks [OF b] this, of m]
  show "\<forall>mk \<in> set (w_markers (answer m st)). mk_ok (g_done st) (w_failed st) mk" by (simp add: answer_def)
qed simp_all

lemma let_go_frame [simp]:
  "w_pending (let_go m st) = w_pending st" "w_queue (let_go m st) = w_queue st" "settling (let_go m st) = settling st"
  "w_markers (let_go m st) = w_markers (set_event m st)" "w_sink (let_go m st) = w_sink st"
  "w_held (let_go m st) = w_held st" "w_swaps (let_go m st) = w_swaps st"
  by (simp_all add: let_go_def release_marker_def settling_def set_event_def)

lemma base_cong:
  assumes "g_accepted st' = g_accepted st" "g_done st' = g_done st" "w_pending st' = w_pending st" "w_queue st' = w_queue st"
    "w_failed st' = w_failed st" "w_markers st' = w_markers st"
  shows "base st' = base st"
  using assms by (simp add: base_def settling_def)

lemma let_go_base: "base st \<Longrightarrow> base (let_go m st)"
  using set_event_base [of st m] base_cong [of "let_go m st" "set_event m st"]
  by (simp add: let_go_def release_marker_def)

text \<open>Folding over the markers of the final drain.\<close>

lemma fold_answer:
  assumes "base st" and "w_pending st = []" and "due st ms"
  shows "base (fold answer ms st) \<and> w_pending (fold answer ms st) = [] \<and> w_queue (fold answer ms st) = w_queue st \<and>
    w_sink (fold answer ms st) = w_sink st \<and> w_held (fold answer ms st) = w_held st \<and> w_swaps (fold answer ms st) = w_swaps st"
  using assms
proof (induction ms arbitrary: st)
  case (Cons m ms)
  have "base (answer m st)" using Cons.prems by (intro answer_base) (simp_all add: due_def)
  moreover have "due (answer m st) ms"
    using Cons.prems(3) due_mono [of st ms "answer m st"] by (simp add: due_def)
  ultimately show ?case using Cons.IH [of "answer m st"] Cons.prems(2) by simp
qed simp

lemma fold_let_go:
  "base st \<Longrightarrow> base (fold let_go ms st) \<and> w_pending (fold let_go ms st) = w_pending st \<and>
     w_queue (fold let_go ms st) = w_queue st \<and> w_sink (fold let_go ms st) = w_sink st \<and>
     w_held (fold let_go ms st) = w_held st \<and> w_swaps (fold let_go ms st) = w_swaps st"
proof (induction ms arbitrary: st)
  case (Cons m ms)
  then show ?case using Cons.IH [OF let_go_base [OF Cons.prems], of m] by simp
qed simp

lemma winv_idle:
  assumes "base st" and "0 < c_max_queue C \<longrightarrow> length (w_queue st) \<le> c_max_queue C"
    and "phase_markers ph = []" and "attempt_ok (c_max_retries C) ph"
  shows "winv C (st\<lparr>w_phase := ph\<rparr>)"
  using assms base_cong [of "st\<lparr>w_phase := ph\<rparr>" st] by (simp add: winv_def due_def)

lemma winv_returned:
  assumes b: "base st" and p: "w_pending st = []" and d: "due st (why_markers w)"
    and q: "0 < c_max_queue C \<longrightarrow> length (w_queue st) \<le> c_max_queue C"
  shows "winv C (emit_returned now w st)"
proof (cases w)
  case (ForMarker m)
  have "base (answer m st)" using b p d by (intro answer_base) (simp_all add: ForMarker)
  then have "base ((answer m st)\<lparr>w_last_flush := now, w_phase := Head\<rparr>)"
    using base_cong [of "(answer m st)\<lparr>w_last_flush := now, w_phase := Head\<rparr>" "answer m st"] by simp
  then have "base (let_go m ((answer m st)\<lparr>w_last_flush := now, w_phase := Head\<rparr>))" (is "base ?st") by (rule let_go_base)
  moreover have "w_phase ?st = Head" by (simp add: let_go_def release_marker_def)
  ultimately show ?thesis using q by (simp add: ForMarker winv_def due_def)
next
  case (ForBatch t)
  have "base (st\<lparr>w_last_flush := t\<rparr>)" using b base_cong [of "st\<lparr>w_last_flush := t\<rparr>" st] by simp
  from winv_idle [OF this, of C Head] show ?thesis using q by (simp add: ForBatch)
next
  case (ForFinal ms)
  note fa = fold_answer [OF b p d [unfolded ForFinal why_markers.simps]]
  note fl = fold_let_go [OF conjunct1 [OF fa], of ms]
  show ?thesis using winv_idle [OF conjunct1 [OF fl], of C "Ending None"] fa fl q by (simp add: ForFinal)
qed

lemma winv_killed:
  assumes b: "base st" and q: "0 < c_max_queue C \<longrightarrow> length (w_queue st) \<le> c_max_queue C"
  shows "winv C (emit_killed x w st)"
  using winv_idle [OF let_go_base [OF b], where C = C and ph = "Ending (Some x)"]
    winv_idle [OF b, where C = C and ph = "Ending (Some x)"]
    winv_idle [OF conjunct1 [OF fold_let_go [OF b]], where C = C and ph = "Ending (Some x)"] fold_let_go [OF b] q
  by (cases w) simp_all

lemma winv_start_emit:
  assumes b: "base st" and d: "due st (why_markers w)"
    and q: "0 < c_max_queue C \<longrightarrow> length (w_queue st) \<le> c_max_queue C"
  shows "winv C (start_emit now w st)"
proof (cases "concat (w_pending st) = []")
  case True
  have "winv C (emit_returned now w (settle True st))"
    using settle_base [OF b] d q by (intro winv_returned) simp_all
  with True show ?thesis by (simp add: start_emit_def)
next
  case False
  let ?st = "st\<lparr>w_in_flight := length (concat (w_pending st)), w_phase := Emitting w 0 0\<rparr>"
  have "base ?st" using b base_cong [of ?st st] by simp
  moreover have "due ?st (why_markers w)" using d by (simp add: due_def settling_def)
  ultimately have "winv C ?st" using q by (simp add: winv_def)
  then show ?thesis unfolding start_emit_def if_not_P [OF False] .
qed

lemma winv_lose:
  assumes b: "base st" and d: "due st (why_markers w)"
    and q: "0 < c_max_queue C \<longrightarrow> length (w_queue st) \<le> c_max_queue C"
  shows "winv C (lose_batch now w st)"
proof -
  have "due (st\<lparr>w_failed := w_failed st + 1\<rparr>) (why_markers w)" using d by (simp add: due_def settling_def)
  then show ?thesis unfolding lose_batch_def using lose_base [OF b] q by (intro winv_returned) simp_all
qed

lemma take_marker_frame [simp]:
  "w_queue (take_marker m st) = w_queue st" "w_pending (take_marker m st) = w_pending st"
  "settling (take_marker m st) = settling st" "w_sink (take_marker m st) = w_sink st"
  "w_held (take_marker m st) = w_held st" "w_swaps (take_marker m st) = w_swaps st"
  by (simp_all add: take_marker_def Let_def settling_def set_event_def)

lemma take_marker_base:
  assumes "base st"
  shows "base (take_marker m st) \<and> same_puts (w_markers st) (w_markers (take_marker m st))"
proof -
  let ?st = "st\<lparr>w_taken := w_taken st @ [m]\<rparr>"
  have "base ?st" using assms base_cong [of ?st st] by simp
  then show ?thesis using set_event_base [of ?st m] set_event_puts [of ?st m] by (simp add: take_marker_def Let_def)
qed

text \<open>Taking the head of the queue.\<close>

lemma base_take_batch:
  "base st \<Longrightarrow> w_queue st = Batch evs # q \<Longrightarrow>
     base (st\<lparr>w_queue := q, w_pending := w_pending st @ [evs]\<rparr>) \<and> settling (st\<lparr>w_queue := q, w_pending := w_pending st @ [evs]\<rparr>) = Suc (settling st)"
  by (simp add: base_def settling_def)

lemma base_take_shutdown: "base st \<Longrightarrow> w_queue st = Shutdown # q \<Longrightarrow> base (st\<lparr>w_queue := q\<rparr>)"
  by (simp add: base_def settling_def)

lemma base_take_marker:
  assumes "base st" and "w_queue st = Marker m # q"
  shows "base (take_marker m (st\<lparr>w_queue := q\<rparr>)) \<and> due (take_marker m (st\<lparr>w_queue := q\<rparr>)) [m] \<and>
    (\<forall>ms. due st ms \<longrightarrow> due (take_marker m (st\<lparr>w_queue := q\<rparr>)) ms)"
proof -
  let ?st = "st\<lparr>w_queue := q\<rparr>"
  have b: "base ?st" and d: "due ?st [m]" using assms by (simp_all add: base_def settling_def due_def)
  have "due ?st ms" if "due st ms" for ms using that by (simp add: due_def settling_def)
  moreover have "due (take_marker m ?st) ms" if "due ?st ms" for ms
    using that due_mono [OF that, of "take_marker m ?st"] take_marker_base [OF b, of m] by simp
  ultimately show ?thesis using take_marker_base [OF b, of m] d by blast
qed

lemma winv_phase:
  assumes "winv C st" and "phase_markers ph = phase_markers (w_phase st) \<or> phase_markers ph = []"
    and "attempt_ok (c_max_retries C) ph"
  shows "winv C (st\<lparr>w_phase := ph\<rparr>)"
  using assms base_cong [of "st\<lparr>w_phase := ph\<rparr>" st] by (auto simp: winv_def due_def settling_def)

lemma winv_drain:
  assumes w: "winv C st"
  shows "winv C (drain_step C now oc st)"
proof -
  have b: "base st" and q: "0 < c_max_queue C \<longrightarrow> length (w_queue st) \<le> c_max_queue C"
    and d: "due st (phase_markers (w_phase st))" and a: "attempt_ok (c_max_retries C) (w_phase st)"
    using w by (simp_all add: winv_def)
  show ?thesis
  proof (cases "w_phase st")
    case Head
    then show ?thesis using winv_phase [OF w] by simp
  next
    case Getting
    show ?thesis
    proof (cases "w_queue st")
      case Nil
      then show ?thesis using Getting winv_phase [OF w] by simp
    next
      case (Cons it r)
      show ?thesis
      proof (cases it)
        case (Batch evs)
        then show ?thesis using Getting Cons q
            winv_idle [OF conjunct1 [OF base_take_batch [OF b Cons [unfolded Batch]]], where C = C and ph = Filling] by auto
      next
        case (Marker m)
        note t = base_take_marker [OF b Cons [unfolded Marker]]
        show ?thesis using Getting Cons Marker q t by (auto intro: winv_start_emit)
      next
        case Shutdown
        then show ?thesis using Getting Cons q
            winv_idle [OF base_take_shutdown [OF b Cons [unfolded Shutdown]], where C = C and ph = "Collecting []"] by auto
      qed
    qed
  next
    case Filling
    then show ?thesis using winv_phase [OF w] winv_start_emit [OF b, of "ForBatch now" C now] q by (simp add: due_def)
  next
    case (Emitting x k l)
    then show ?thesis using winv_phase [OF w, of "InSink (w_sink st) x k now l"] a by simp
  next
    case (InSink s x k t l)
    have r: "winv C (emit_returned now x (settle True st))"
      using settle_base [OF b] d q InSink by (intro winv_returned) simp_all
    have "base (st\<lparr>w_in_flight := 0\<rparr>)" using b base_cong [of "st\<lparr>w_in_flight := 0\<rparr>" st] by simp
    then have kd: "winv C (emit_killed y x (st\<lparr>w_in_flight := 0\<rparr>))" for y using q by (intro winv_killed) simp_all
    have l: "winv C (lose_batch now x st)" using d q InSink by (intro winv_lose b) simp_all
    show ?thesis using InSink r kd l winv_phase [OF w, of "Waiting x k (max l (now - t))"]
      by (cases oc) simp_all
  next
    case (Waiting x k l)
    have l: "winv C (lose_batch now x st)" using d q Waiting by (intro winv_lose b) simp_all
    have "winv C (st\<lparr>w_phase := Emitting x (Suc k) l\<rparr>)" using winv_phase [OF w, of "Emitting x (Suc k) l"] Waiting a by simp
    then show ?thesis using Waiting l by (cases "w_deadline st") simp_all
  next
    case (Collecting ms)
    show ?thesis
    proof (cases "w_queue st")
      case Nil
      then show ?thesis using Collecting d q winv_start_emit [OF b, of "ForFinal ms" C now] by simp
    next
      case (Cons it r)
      have q': "0 < c_max_queue C \<longrightarrow> length r \<le> c_max_queue C" using q Cons by auto
      show ?thesis
      proof (cases it)
        case (Batch evs)
        note t = base_take_batch [OF b Cons [unfolded Batch]]
        then show ?thesis using Collecting Cons Batch q' due_mono [OF d] by (auto simp: winv_def)
      next
        case (Marker m)
        let ?st = "take_marker m (st\<lparr>w_queue := r\<rparr>)"
        note t = base_take_marker [OF b Cons [unfolded Marker]]
        have "due ?st (ms @ [m])" using t d Collecting by (auto simp: due_def)
        then have "winv C (?st\<lparr>w_phase := Collecting (ms @ [m])\<rparr>)"
          using t q' base_cong [of "?st\<lparr>w_phase := Collecting (ms @ [m])\<rparr>" ?st] by (simp add: winv_def due_def settling_def)
        then show ?thesis using Collecting Cons Marker by simp
      next
        case Shutdown
        have "due (st\<lparr>w_queue := r\<rparr>) ms" using d Collecting by (simp add: due_def settling_def)
        then show ?thesis using Collecting Cons Shutdown q' base_take_shutdown [OF b Cons [unfolded Shutdown]]
          by (simp add: winv_def)
      qed
    qed
  next
    case (Ending died)
    let ?st = "st\<lparr>w_finished := True, w_settled := True, w_phase := Releasing,
        w_stopped_reason := (if died = None then w_stopped_reason st else died)\<rparr>"
    have "base ?st" using b base_cong [of ?st st] by simp
    then show ?thesis using Ending q by (simp add: winv_def due_def)
  next
    case Releasing
    have "winv C ((release_waiters st)\<lparr>w_phase := Finished\<rparr>)"
      using winv_phase [OF winv_release [OF w], of Finished] by simp
    then show ?thesis using Releasing by simp
  next
    case Finished
    then show ?thesis using w by simp
  qed
qed

lemma winv_step:
  assumes "wstep C solo st st'" and w: "winv C st"
  shows "winv C st'"
  using assms(1)
proof cases
  case (second_flush i m st1)
  have "winv C st1" using winv_new_marker [OF w] second_flush by simp
  then show ?thesis unfolding second_flush(1) by (rule winv_frame) simp_all
next
  case (claim_stop on_drain deadline)
  show ?thesis unfolding claim_stop by (rule winv_frame [OF w]) (simp_all add: claim_stop_def)
next
  case (assign new drained)
  show ?thesis unfolding assign(1) by (rule winv_frame [OF w]) (simp_all add: retarget_assign_def)
next
  case retire
  show ?thesis unfolding retire by (rule winv_frame [OF w]) simp_all
next
  case signal
  show ?thesis unfolding signal by (rule winv_frame [OF w]) simp_all
next
  case join_expired
  show ?thesis unfolding join_expired(1) by (rule winv_frame [OF w]) (simp_all add: join_expired_def)
next
  case (unfenced i)
  show ?thesis unfolding unfenced(1) by (rule winv_frame [OF w]) (simp_all add: retarget_unfenced_def)
next
  case (fenced i m gave_up timed_out)
  show ?thesis unfolding fenced(1) by (rule winv_frame [OF w]) (simp_all add: retarget_fenced_def)
qed (use w in \<open>simp_all add: winv_submit winv_new_marker winv_put_marker winv_drain winv_request_stop winv_release del: drain_step.simps\<close>)

lemma winv_reachable: "reachable C solo st \<Longrightarrow> winv C st"
proof (induction rule: reachable.induct)
  case (init sink now)
  show ?case by (simp add: winv_def base_def due_def settling_def new_worker_def)
qed (use winv_step in blast)

text \<open>C11. Every submission the queue accepted is accounted for, in order, at every moment of every
  interleaving: it was offered to a sink and taken, or abandoned and counted, or it is among the
  pending submissions or still in the queue. Nothing is lost silently, duplicated or reordered.\<close>

theorem worker_conserves_submissions:
  assumes "reachable C solo st"
  shows "g_accepted st = map fst (g_done st) @ w_pending st @ batches (w_queue st)"
  using winv_reachable [OF assms] by (simp add: winv_def base_def)

text \<open>C12. A flush that reports success is true: every submission that was queued before its marker,
  and was not already settled when the flush began, has been taken by a sink.\<close>

theorem flush_ok_is_delivered:
  assumes "reachable C solo st" and "m < length (w_markers st)" and "flush_answer gave_up timed_out st m = Ok"
  shows "\<exists>a. g_put (w_markers st ! m) = Some a \<and> a \<le> length (g_done st) \<and>
    list_all snd (drop (g_created (w_markers st ! m)) (take a (g_done st)))"
proof -
  have "mk_ok (g_done st) (w_failed st) (w_markers st ! m)"
    using base_mks [OF winv_base [OF winv_reachable [OF assms(1)]]] assms(2) by simp
  moreover have "mk_delivered (w_markers st ! m)"
    using assms(3) by (auto simp: flush_answer_def Let_def split: if_splits)
  ultimately show ?thesis by (simp add: mk_ok_def)
qed

text \<open>The queue never exceeds its bound, and a batch is offered to the sink at most
  \<^verbatim>\<open>max_retries + 1\<close> times: the attempt under way is never beyond the last allowed one.\<close>

theorem worker_bounds:
  assumes "reachable C solo st"
  shows "(0 < c_max_queue C \<longrightarrow> length (w_queue st) \<le> c_max_queue C) \<and> attempt_ok (c_max_retries C) (w_phase st)"
  using winv_reachable [OF assms] by (simp add: winv_def)

text \<open>A submission, and a flush whose marker waits for it.\<close>

definition tiny_cfg :: wcfg where
  "tiny_cfg = \<lparr>c_batch_size = 10, c_flush_interval = 1, c_max_queue = 0, c_max_retries = 0\<rparr>"

definition tiny_run :: wstate where
  "tiny_run = fold (\<lambda>_. drain_step tiny_cfg 0 Returned) [1, 2, 3, 4, 5, 6, 7 :: nat]
     (snd (put_marker tiny_cfg 0 False (snd (new_marker (submit tiny_cfg [[]] False (new_worker 0 0))))))"

lemma tiny_reachable: "reachable tiny_cfg True tiny_run"
  unfolding tiny_run_def fold.simps comp_def id_def
  by (intro reachable.step [OF _ wstep.drain] reachable.step [OF _ wstep.put_marker] reachable.step [OF _ wstep.new_marker]
      reachable.step [OF _ wstep.submit] reachable.init)
    (simp_all add: new_worker_def new_marker_def submit_def count_undeliverable_def tiny_cfg_def queue_full_def Let_def)

lemmas tiny_evals = tiny_run_def tiny_cfg_def new_worker_def new_marker_def submit_def put_marker_def queue_full_def
  count_undeliverable_def start_emit_def take_marker_def settle_def answer_def let_go_def release_marker_def set_event_def
  nothing_lost_since_def Let_def

lemma tiny_answer: "flush_answer False False tiny_run 0 = Ok" "0 < length (w_markers tiny_run)"
  by (simp_all add: tiny_evals flush_answer_def drain_settled_def given_up_def thread_alive_def)

theorem worker_conserves_submissions_witness:
  "g_accepted tiny_run = map fst (g_done tiny_run) @ w_pending tiny_run @ batches (w_queue tiny_run)"
  by (rule worker_conserves_submissions [OF tiny_reachable])

theorem flush_ok_is_delivered_witness:
  "\<exists>a. g_put (w_markers tiny_run ! 0) = Some a \<and> a \<le> length (g_done tiny_run) \<and>
    list_all snd (drop (g_created (w_markers tiny_run ! 0)) (take a (g_done tiny_run)))"
  by (rule flush_ok_is_delivered [OF tiny_reachable tiny_answer(2,1)])

text \<open>Two submissions to a queue with room for one.\<close>

definition full_run :: wstate where
  "full_run = submit (tiny_cfg\<lparr>c_max_queue := 1\<rparr>) [[]] False (submit (tiny_cfg\<lparr>c_max_queue := 1\<rparr>) [[]] False (new_worker 0 0))"

lemma full_reachable: "reachable (tiny_cfg\<lparr>c_max_queue := 1\<rparr>) True full_run"
  unfolding full_run_def by (intro reachable.step [OF _ wstep.submit] reachable.init)
    (simp_all add: tiny_evals)

theorem worker_bounds_witness:
  "w_dropped full_run = 1 \<and> length (w_queue full_run) \<le> 1 \<and> attempt_ok 0 (w_phase full_run)"
  using worker_bounds [OF full_reachable] by (simp add: full_run_def tiny_evals)

end
