(* ===== verification/Worker_Stop.thy ===== *)
theory Worker_Stop
  imports Worker
begin

text \<open>
  Shutdown of the worker: once the stop signal is set the drain thread ends, within a number of
  its own steps that is computed here, whatever the sink does; and unless an exception other than
  an \<^verbatim>\<open>Exception\<close> kills it, everything the queue accepted has been settled by then.
\<close>

subsection \<open>A measure of the work left\<close>

definition emit_work :: "nat \<Rightarrow> phase \<Rightarrow> nat" where
  "emit_work r ph =
     (case ph of
        Emitting w k l \<Rightarrow> 3 * (r - k) + 3
      | InSink s w k t l \<Rightarrow> 3 * (r - k) + 2
      | Waiting w k l \<Rightarrow> 3 * (r - k) + 1
      | _ \<Rightarrow> 0)"

definition emit_max :: "wcfg \<Rightarrow> nat" where
  "emit_max C = 3 * c_max_retries C + 3"

definition collect_work :: "wcfg \<Rightarrow> wstate \<Rightarrow> nat" where
  "collect_work C st = emit_max C + 3 + length (w_queue st)"

fun why_final :: "why \<Rightarrow> bool" where
  "why_final (ForFinal ms) = True"
| "why_final _ = False"

text \<open>Steps the drain thread still takes, given that the stop signal is set.\<close>

definition work :: "wcfg \<Rightarrow> wstate \<Rightarrow> nat" where
  "work C st =
     (let r = c_max_retries C; head = collect_work C st + 1
      in case w_phase st of
           Head \<Rightarrow> head
         | Filling \<Rightarrow> head + emit_max C + 1
         | Getting \<Rightarrow> head + emit_max C + 2
         | Collecting ms \<Rightarrow> collect_work C st
         | Ending x \<Rightarrow> 2
         | Releasing \<Rightarrow> 1
         | Finished \<Rightarrow> 0
         | Emitting w k l \<Rightarrow> (if why_final w then 2 else head) + emit_work r (w_phase st)
         | InSink s w k t l \<Rightarrow> (if why_final w then 2 else head) + emit_work r (w_phase st)
         | Waiting w k l \<Rightarrow> (if why_final w then 2 else head) + emit_work r (w_phase st))"

lemma fold_marker_frame:
  "w_queue (fold let_go ms st) = w_queue st" "w_queue (fold answer ms st) = w_queue st"
  "w_stop (fold let_go ms st) = w_stop st" "w_stop (fold answer ms st) = w_stop st"
  "w_pending (fold let_go ms st) = w_pending st" "w_pending (fold answer ms st) = w_pending st"
proof -
  show "w_queue (fold let_go ms st) = w_queue st" "w_stop (fold let_go ms st) = w_stop st"
    "w_pending (fold let_go ms st) = w_pending st"
    by (induction ms arbitrary: st) (simp_all add: let_go_def release_marker_def)
  show "w_queue (fold answer ms st) = w_queue st" "w_stop (fold answer ms st) = w_stop st"
    "w_pending (fold answer ms st) = w_pending st"
    by (induction ms arbitrary: st) (simp_all add: answer_def)
qed

lemma emit_returned_frame [simp]:
  "w_queue (emit_returned now w st) = w_queue st" "w_stop (emit_returned now w st) = w_stop st"
  "w_pending (emit_returned now w st) = w_pending st"
  by (cases w; simp add: fold_marker_frame let_go_def release_marker_def answer_def set_event_def)+

lemma emit_returned_phase: "w_phase (emit_returned now w st) = (if why_final w then Ending None else Head)"
  by (cases w) (simp_all add: let_go_def release_marker_def)

lemma emit_killed_frame [simp]:
  "w_queue (emit_killed x w st) = w_queue st" "w_stop (emit_killed x w st) = w_stop st"
  "w_phase (emit_killed x w st) = Ending (Some x)"
  by (cases w; simp add: fold_marker_frame let_go_def release_marker_def set_event_def)+

lemma settle_stop [simp]: "w_stop (settle ok st) = w_stop st"
  by (simp add: settle_def)

lemma take_marker_stop [simp]: "w_stop (take_marker m st) = w_stop st"
  by (simp add: take_marker_def Let_def)

lemma start_emit_frame:
  "w_queue (start_emit now w st) = w_queue st" "w_stop (start_emit now w st) = w_stop st"
  "w_phase (start_emit now w st) = Emitting w 0 0 \<or>
     (w_phase (start_emit now w st) = (if why_final w then Ending None else Head) \<and> w_pending (start_emit now w st) = [])"
  by (auto simp: start_emit_def emit_returned_phase)

lemma release_frame [simp]:
  "w_stop (release_waiters st) = w_stop st" "w_queue (release_waiters st) = w_queue st"
  "w_pending (release_waiters st) = w_pending st"
proof -
  have "w_stop (fold set_event ms st) = w_stop st \<and> w_queue (fold set_event ms st) = w_queue st \<and>
      w_pending (fold set_event ms st) = w_pending st" for ms and st :: wstate
    by (induction ms arbitrary: st) simp_all
  then show "w_stop (release_waiters st) = w_stop st" "w_queue (release_waiters st) = w_queue st"
    "w_pending (release_waiters st) = w_pending st" by (simp_all add: release_waiters_def)
qed

lemma lose_frame:
  "w_queue (lose_batch now w st) = w_queue st" "w_stop (lose_batch now w st) = w_stop st"
  "w_pending (lose_batch now w st) = []"
  "w_phase (lose_batch now w st) = (if why_final w then Ending None else Head)"
  by (simp_all add: lose_batch_def emit_returned_phase)

lemma work_start_emit:
  "work C (start_emit now w st) \<le> (if why_final w then 2 else collect_work C st + 1) + emit_max C"
  using start_emit_frame [of now w st]
  by (auto simp: work_def collect_work_def emit_work_def emit_max_def Let_def)

lemma work_phases:
  "w_phase st = Getting \<Longrightarrow> work C st = collect_work C st + emit_max C + 3"
  "w_phase st = Filling \<Longrightarrow> work C st = collect_work C st + emit_max C + 2"
  "w_phase st = Collecting ms \<Longrightarrow> work C st = collect_work C st"
  by (simp_all add: work_def Let_def)

lemma drain_stop [simp]: "w_stop (drain_step C now oc st) = w_stop st"
  by (auto simp: start_emit_frame lose_frame split: phase.splits list.splits item.splits outcome.splits option.splits)

lemma drain_progress:
  assumes "w_stop st" and "attempt_ok (c_max_retries C) (w_phase st)" and "w_phase st \<noteq> Finished"
  shows "work C (drain_step C now oc st) < work C st"
proof (cases "w_phase st")
  case Getting
  show ?thesis
  proof (cases "w_queue st")
    case (Cons it q)
    show ?thesis
    proof (cases it)
      case (Marker m)
      have "drain_step C now oc st = start_emit now (ForMarker m) (take_marker m (st\<lparr>w_queue := q\<rparr>))"
        using Getting Cons Marker by simp
      then show ?thesis using work_start_emit [of C now "ForMarker m" "take_marker m (st\<lparr>w_queue := q\<rparr>)"]
          work_phases(1) [OF Getting, of C] Cons by (simp add: collect_work_def)
    qed (use Getting Cons in \<open>simp_all add: work_def collect_work_def Let_def\<close>)
  qed (use Getting in \<open>simp add: work_def collect_work_def Let_def\<close>)
next
  case Filling
  have "work C (start_emit now (ForBatch now) st) < work C st"
    using work_start_emit [of C now "ForBatch now" st] work_phases(2) [OF Filling, of C] by simp
  then show ?thesis using Filling by (simp add: work_def collect_work_def Let_def)
next
  case (InSink s w k t l)
  then show ?thesis using assms(2)
    by (cases oc) (auto simp: work_def collect_work_def emit_work_def Let_def emit_returned_phase lose_frame)
next
  case (Waiting w k l)
  then show ?thesis using assms(2)
    by (cases "w_deadline st") (auto simp: work_def collect_work_def emit_work_def Let_def lose_frame)
next
  case (Collecting ms)
  show ?thesis
  proof (cases "w_queue st")
    case Nil
    then have "drain_step C now oc st = start_emit now (ForFinal ms) st" using Collecting by simp
    then show ?thesis using work_start_emit [of C now "ForFinal ms" st] work_phases(3) [OF Collecting, of C]
      by (simp add: collect_work_def)
  next
    case (Cons it q)
    then show ?thesis using Collecting by (cases it) (simp_all add: work_def collect_work_def Let_def)
  qed
qed (use assms in \<open>simp_all add: work_def collect_work_def emit_work_def Let_def emit_max_def\<close>)

subsection \<open>Running the drain thread alone\<close>

definition drain_run :: "wcfg \<Rightarrow> (rat \<times> outcome) list \<Rightarrow> wstate \<Rightarrow> wstate" where
  "drain_run C ins st = fold (\<lambda>(now, oc). drain_step C now oc) ins st"

lemma drain_run_simps [simp]:
  "drain_run C [] st = st" "drain_run C ((now, oc) # ins) st = drain_run C ins (drain_step C now oc st)"
  by (simp_all add: drain_run_def del: drain_step.simps)

lemma finished_stays: "w_phase st = Finished \<Longrightarrow> drain_run C ins st = st"
  by (induction ins) (auto simp: drain_run_def)

lemma drain_run_ends:
  assumes "winv C st" and "w_stop st" and "work C st \<le> length ins"
  shows "w_phase (drain_run C ins st) = Finished"
  using assms
proof (induction ins arbitrary: st)
  case Nil
  then show ?case by (simp add: work_def collect_work_def Let_def split: phase.splits if_splits)
next
  case (Cons i ins)
  obtain now oc where i: "i = (now, oc)" by (cases i)
  show ?case
  proof (cases "w_phase st = Finished")
    case True
    then show ?thesis using finished_stays by simp
  next
    case False
    have "work C (drain_step C now oc st) < work C st"
      using Cons.prems False by (intro drain_progress) (simp_all add: winv_def)
    then show ?thesis using Cons.IH [OF winv_drain [OF Cons.prems(1)], of now oc] Cons.prems
      by (simp add: i del: drain_step.simps)
  qed
qed

text \<open>From the final drain on the queue is empty, and once the emit is over so is the list of
  pending submissions, as long as nothing kills the thread.\<close>

definition tail_ok :: "wstate \<Rightarrow> bool" where
  "tail_ok st \<longleftrightarrow>
     (case w_phase st of
        Emitting w k l \<Rightarrow> why_final w \<longrightarrow> w_queue st = []
      | InSink s w k t l \<Rightarrow> why_final w \<longrightarrow> w_queue st = []
      | Waiting w k l \<Rightarrow> why_final w \<longrightarrow> w_queue st = []
      | Ending x \<Rightarrow> w_queue st = [] \<and> w_pending st = []
      | Releasing \<Rightarrow> w_queue st = [] \<and> w_pending st = []
      | Finished \<Rightarrow> w_queue st = [] \<and> w_pending st = []
      | _ \<Rightarrow> True)"

definition harmless :: "outcome \<Rightarrow> bool" where
  "harmless oc \<longleftrightarrow> (case oc of Killed x \<Rightarrow> False | _ \<Rightarrow> True)"

lemma tail_start_emit:
  "why_final w \<longrightarrow> w_queue st = [] \<Longrightarrow> tail_ok (start_emit now w st)"
  using start_emit_frame [of now w st] by (auto simp: tail_ok_def)

lemma tail_drain:
  assumes "tail_ok st" and "harmless oc"
  shows "tail_ok (drain_step C now oc st)"
proof (cases "w_phase st")
  case Getting
  show ?thesis
  proof (cases "w_queue st")
    case (Cons it q)
    then show ?thesis using Getting tail_start_emit [of "ForMarker m" "take_marker m (st\<lparr>w_queue := q\<rparr>)" now for m]
      by (cases it) (simp_all add: tail_ok_def)
  qed (use Getting in \<open>simp add: tail_ok_def\<close>)
next
  case Filling
  then show ?thesis using tail_start_emit [of "ForBatch now" st now] by (simp add: tail_ok_def)
next
  case (InSink s w k t l)
  then show ?thesis using assms
    by (cases oc) (auto simp: tail_ok_def harmless_def emit_returned_phase lose_frame)
next
  case (Waiting w k l)
  then show ?thesis using assms by (cases "w_deadline st") (auto simp: tail_ok_def lose_frame)
next
  case (Collecting ms)
  show ?thesis
  proof (cases "w_queue st")
    case Nil
    then show ?thesis using Collecting tail_start_emit [of "ForFinal ms" st now] by simp
  next
    case (Cons it q)
    then show ?thesis using Collecting by (cases it) (simp_all add: tail_ok_def)
  qed
qed (use assms in \<open>simp_all add: tail_ok_def\<close>)

lemma tail_run:
  "tail_ok st \<Longrightarrow> list_all (\<lambda>(now, oc). harmless oc) ins \<Longrightarrow> tail_ok (drain_run C ins st)"
  by (induction ins arbitrary: st) (auto simp: tail_drain simp del: drain_step.simps)


definition small_cfg :: wcfg where
  "small_cfg = \<lparr>c_batch_size = 10, c_flush_interval = 1, c_max_queue = 2, c_max_retries = 3\<rparr>"

text \<open>A worker with one submission in its queue that has been asked to stop.\<close>

definition stopping :: wstate where
  "stopping = request_stop small_cfg False (submit small_cfg [[]] False (new_worker 0 0))"

lemma stopping_reachable: "reachable small_cfg True stopping"
  unfolding stopping_def
  by (intro reachable.step [OF _ wstep.request_stop] reachable.step [OF _ wstep.submit] reachable.init)
    (simp_all add: new_worker_def)

lemma stopping_fields: "w_stop stopping" "w_phase stopping = Head" "work small_cfg stopping \<le> 40"
  by (simp_all add: stopping_def request_stop_def submit_def count_undeliverable_def new_worker_def
      work_def collect_work_def emit_max_def small_cfg_def queue_full_def Let_def)


end
