(* ===== verification/Objects.thy ===== *)
theory Objects
  imports Prelude
begin

text \<open>
  The object graph the library walks after a fork and when it records which sinks a process owns
  (\<^verbatim>\<open>src/log_foundry/_fork.py\<close> and the walks of \<^verbatim>\<open>src/log_foundry/_lifecycle.py\<close>). An object is
  an index into a list of records that hold what the walks observe of it; the three loops with a
  stack and a set of visited identities share one combinator, \<open>walk\<close>, whose result is
  characterised once, in a locale, as the set reachable from the roots.
\<close>

subsection \<open>Objects\<close>

datatype slots = Slot pystr | Slots "pystr list"

record pyclass =
  cl_module :: pystr
  cl_slots :: slots                     \<comment> \<open>its own \<^verbatim>\<open>__slots__\<close>, no names if it declares none\<close>

datatype kind = Module pystr | Type | Instance

text \<open>What reading a container, or the attributes of an object, gives.\<close>

datatype contents = DictOf "nat list" "nat list" | SeqOf "nat list" | Unreadable

datatype namespace = Vars "(pystr \<times> nat) list" | NoVars | VarsRaise

datatype primitive = Event bool | Lock | RLock

record gobject =
  ob_kind :: kind
  ob_plain :: bool                      \<comment> \<open>\<^verbatim>\<open>type(value) in _PLAIN_TYPES\<close>\<close>
  ob_sink :: "bool option"              \<comment> \<open>\<^verbatim>\<open>isinstance(value, Sink)\<close>; \<open>None\<close> if the test raises\<close>
  ob_mro :: "pyclass list"              \<comment> \<open>of the object if it is a class, else of its type\<close>
  ob_contents :: "contents option"      \<comment> \<open>if it is of a container type\<close>
  ob_vars :: namespace
  ob_slots :: "(pystr \<times> nat) list"      \<comment> \<open>slots that hold something other than \<^verbatim>\<open>None\<close>\<close>
  ob_primitive :: "primitive option"
  ob_skip :: "pystr list"               \<comment> \<open>\<^verbatim>\<open>_FORK_SKIP\<close>\<close>
  ob_rigid :: bool                      \<comment> \<open>assigning its attributes raises\<close>
  ob_reacquire :: "bool option"         \<comment> \<open>the hook, if it has one, and whether calling it succeeds\<close>

type_synonym ograph = "gobject list"

definition PACKAGE :: pystr where
  "PACKAGE = str ''log_foundry''"

definition in_package :: "pystr \<Rightarrow> bool" where
  "in_package m \<longleftrightarrow> m = PACKAGE \<or> take (length PACKAGE + 1) m = PACKAGE @ [46]"

definition defined_here :: "pyclass \<Rightarrow> bool" where
  "defined_here c \<longleftrightarrow> in_package (cl_module c)"

definition is_owned :: "ograph \<Rightarrow> nat \<Rightarrow> bool" where
  "is_owned G v \<longleftrightarrow> list_ex defined_here (ob_mro (G ! v))"

definition is_container :: "ograph \<Rightarrow> nat \<Rightarrow> bool" where
  "is_container G v \<longleftrightarrow> ob_contents (G ! v) \<noteq> None"

definition is_module :: "ograph \<Rightarrow> nat \<Rightarrow> bool" where
  "is_module G v \<longleftrightarrow> (case ob_kind (G ! v) of Module m \<Rightarrow> True | _ \<Rightarrow> False)"

definition is_traversable :: "ograph \<Rightarrow> nat \<Rightarrow> bool" where
  "is_traversable G v \<longleftrightarrow>
     (case ob_kind (G ! v) of Module m \<Rightarrow> in_package m | _ \<Rightarrow> is_container G v \<or> is_owned G v)"

definition container_children :: "ograph \<Rightarrow> nat \<Rightarrow> nat list" where
  "container_children G c =
     (case ob_contents (G ! c) of
        Some (DictOf ks vs) \<Rightarrow> ks @ vs
      | Some (SeqOf xs) \<Rightarrow> xs
      | _ \<Rightarrow> [])"

fun slot_names :: "pyclass list \<Rightarrow> pystr list" where
  "slot_names [] = []"
| "slot_names (c # cs) = (case cl_slots c of Slot n \<Rightarrow> [n] | Slots ns \<Rightarrow> ns) @ slot_names cs"

definition slot_value :: "ograph \<Rightarrow> nat \<Rightarrow> pystr \<Rightarrow> nat option" where
  "slot_value G h n = map_of (ob_slots (G ! h)) n"

definition namespace_items :: "ograph \<Rightarrow> nat \<Rightarrow> (pystr \<times> nat) list" where
  "namespace_items G h =
     (case ob_vars (G ! h) of
        VarsRaise \<Rightarrow> []
      | ns \<Rightarrow>
          (let own = (case ns of Vars items \<Rightarrow> items | _ \<Rightarrow> [])
           in own @
              (case ob_kind (G ! h) of
                 Instance \<Rightarrow>
                   concat (map (\<lambda>n. if n \<in> fst ` set own then []
                                    else (case slot_value G h n of None \<Rightarrow> [] | Some v \<Rightarrow> [(n, v)]))
                          (slot_names (ob_mro (G ! h))))
               | _ \<Rightarrow> [])))"

text \<open>A graph without dangling references.\<close>

definition refs_of :: "gobject \<Rightarrow> nat list" where
  "refs_of ob =
     (case ob_contents ob of Some (DictOf ks vs) \<Rightarrow> ks @ vs | Some (SeqOf xs) \<Rightarrow> xs | _ \<Rightarrow> []) @
     (case ob_vars ob of Vars items \<Rightarrow> map snd items | _ \<Rightarrow> []) @ map snd (ob_slots ob)"

definition wf_graph :: "ograph \<Rightarrow> bool" where
  "wf_graph G \<longleftrightarrow> (\<forall>ob \<in> set G. \<forall>v \<in> set (refs_of ob). v < length G)"

lemma container_children_refs: "set (container_children G c) \<subseteq> set (refs_of (G ! c))"
  by (auto simp: container_children_def refs_of_def split: option.splits contents.splits)

lemma refs_bound: "wf_graph G \<Longrightarrow> h < length G \<Longrightarrow> v \<in> set (refs_of (G ! h)) \<Longrightarrow> v < length G"
  by (auto simp: wf_graph_def)

lemmas container_children_bound = refs_bound [OF _ _ subsetD [OF container_children_refs]]

lemma slot_value_in: "slot_value G h n = Some v \<Longrightarrow> v \<in> set (map snd (ob_slots (G ! h)))"
  by (force simp: slot_value_def dest: map_of_SomeD)

lemma namespace_items_bound:
  assumes "wf_graph G" and "h < length G" and "(n, v) \<in> set (namespace_items G h)"
  shows "v < length G"
proof -
  have "v \<in> set (refs_of (G ! h))"
    using assms(3) slot_value_in [of G h n v, OF sym]
    by (auto simp: namespace_items_def refs_of_def image_iff split: namespace.splits kind.splits if_splits option.splits)
       force+
  then show ?thesis by (rule refs_bound [OF assms(1,2)])
qed

subsection \<open>Walks\<close>

text \<open>A loop over a stack, its top at the head: an object already seen, or skipped, is dropped;
  otherwise it is visited, which may raise (\<open>None\<close>), and what it pushes goes on top. The loop stops
  when \<open>limit\<close> objects have been seen and something is left.\<close>

datatype 's walked = Walked "nat list" 's | Stopped "nat list" nat 's | WalkRaised

function walk ::
  "nat \<Rightarrow> nat option \<Rightarrow> (nat \<Rightarrow> bool) \<Rightarrow> (nat \<Rightarrow> 's \<Rightarrow> ('s \<times> nat list) option) \<Rightarrow> nat list \<Rightarrow> nat list \<Rightarrow> 's \<Rightarrow> 's walked" where
  "walk bound limit skip visit [] seen s = Walked seen s"
| "walk bound limit skip visit (x # stack) seen s =
     (if limit \<noteq> None \<and> the limit \<le> length seen then Stopped seen (Suc (length stack)) s
      else if x \<ge> bound \<or> x \<in> set seen \<or> skip x then walk bound limit skip visit stack seen s
      else case visit x s of
             None \<Rightarrow> WalkRaised
           | Some (s', pushed) \<Rightarrow> walk bound limit skip visit (rev pushed @ stack) (x # seen) s')"
  by pat_completeness auto
termination
proof (relation "measures [\<lambda>(bound, limit, skip, visit, stack, seen, s). card ({..<bound} - set seen),
      \<lambda>(bound, limit, skip, visit, stack, seen, s). length stack]", goal_cases)
  case (3 bound limit skip visit x stack seen s p s' pushed)
  have "x \<in> {..<bound} - set seen" using 3(2) by simp
  then have "card ({..<bound} - set seen - {x}) < card ({..<bound} - set seen)" by (intro card_Diff1_less) simp_all
  moreover have "{..<bound} - set (x # seen) = {..<bound} - set seen - {x}" by auto
  ultimately show ?case by (simp only: measures_less in_measures prod.case simp_thms)
qed simp_all

text \<open>The rule of the loop: what holds before, and is kept by dropping and by visiting the top of
  the stack, holds when it ends.\<close>

lemma walk_rule:
  assumes run: "walk bound limit skip visit stack seen s = Walked seen' s'" and start: "P stack seen s"
    and drop: "\<And>x stack seen s. P (x # stack) seen s \<Longrightarrow> x \<ge> bound \<or> x \<in> set seen \<or> skip x \<Longrightarrow> P stack seen s"
    and enter: "\<And>x stack seen s s' pushed. P (x # stack) seen s \<Longrightarrow> x < bound \<Longrightarrow> x \<notin> set seen \<Longrightarrow> \<not> skip x \<Longrightarrow>
      visit x s = Some (s', pushed) \<Longrightarrow> P (rev pushed @ stack) (x # seen) s'"
  shows "P [] seen' s'"
proof -
  have "walk b l sk v stack seen s = Walked seen' s' \<Longrightarrow> b = bound \<Longrightarrow> l = limit \<Longrightarrow> sk = skip \<Longrightarrow> v = visit \<Longrightarrow> P stack seen s \<Longrightarrow> P [] seen' s'"
    for b l sk v
  proof (induction b l sk v stack seen s rule: walk.induct)
    case (2 b l sk v x stack seen s)
    show ?case
    proof (cases "x \<ge> b \<or> x \<in> set seen \<or> sk x")
      case True
      then show ?thesis using 2 drop [of x stack seen s] by (simp split: if_splits)
    next
      case False
      then obtain s2 pushed where v: "v x s = Some (s2, pushed)" using 2 by (auto split: if_splits option.splits)
      then have "P (rev pushed @ stack) (x # seen) s2" using False 2 enter [of x stack seen s s2 pushed] by simp
      then show ?thesis using 2 False v by (simp split: if_splits)
    qed
  qed simp
  then show ?thesis using run start by blast
qed

text \<open>The set a walk visits, when what a visit pushes is a function of the object.\<close>

locale graph_walk =
  fixes bound :: nat and limit :: "nat option" and skip :: "nat \<Rightarrow> bool"
    and visit :: "nat \<Rightarrow> 's \<Rightarrow> ('s \<times> nat list) option" and succs :: "nat \<Rightarrow> nat list"
    and inv :: "nat list \<Rightarrow> 's \<Rightarrow> bool"
  assumes visited: "inv seen s \<Longrightarrow> x < bound \<Longrightarrow> x \<notin> set seen \<Longrightarrow> \<not> skip x \<Longrightarrow> visit x s = Some (s', pushed) \<Longrightarrow>
    pushed = succs x \<and> inv (x # seen) s'"
begin

definition live :: "nat \<Rightarrow> bool" where
  "live x \<longleftrightarrow> x < bound \<and> \<not> skip x"

inductive_set reach :: "nat list \<Rightarrow> nat set" for roots where
  root: "r \<in> set roots \<Longrightarrow> live r \<Longrightarrow> r \<in> reach roots"
| edge: "x \<in> reach roots \<Longrightarrow> y \<in> set (succs x) \<Longrightarrow> live y \<Longrightarrow> y \<in> reach roots"

lemma reach_live: "x \<in> reach roots \<Longrightarrow> live x"
  by (induction rule: reach.induct)

lemma walk_sound:
  assumes "walk bound limit skip visit roots [] s = Walked seen s'" and "inv [] s"
  shows "set seen \<subseteq> reach roots \<and> distinct seen \<and> inv seen s'"
proof -
  let ?P = "\<lambda>stack seen s. set seen \<subseteq> reach roots \<and> distinct seen \<and> inv seen s \<and> (\<forall>x \<in> set stack. live x \<longrightarrow> x \<in> reach roots)"
  have "?P [] seen s'"
    using assms(1)
  proof (rule walk_rule [where P = ?P])
    fix x stack seen s s' pushed
    assume P: "?P (x # stack) seen s" and x: "x < bound" "x \<notin> set seen" "\<not> skip x" and v: "visit x s = Some (s', pushed)"
    then have "x \<in> reach roots" by (simp add: live_def)
    moreover have "pushed = succs x \<and> inv (x # seen) s'" using P visited [OF _ x v] by simp
    ultimately show "?P (rev pushed @ stack) (x # seen) s'" using P x by (auto intro: reach.edge)
  qed (auto intro: reach.root assms(2))
  then show ?thesis by simp
qed

lemma walk_complete:
  assumes "walk bound limit skip visit roots [] s = Walked seen s'" and "inv [] s"
  shows "reach roots \<subseteq> set seen"
proof -
  let ?P = "\<lambda>stack seen s. inv seen s \<and> (\<forall>r \<in> set roots. live r \<longrightarrow> r \<in> set seen \<union> set stack) \<and>
    (\<forall>x \<in> set seen. \<forall>y \<in> set (succs x). live y \<longrightarrow> y \<in> set seen \<union> set stack)"
  have P: "?P [] seen s'"
    using assms(1)
  proof (rule walk_rule [where P = ?P])
    fix x stack seen s s' pushed
    assume P: "?P (x # stack) seen s" and x: "x < bound" "x \<notin> set seen" "\<not> skip x" and v: "visit x s = Some (s', pushed)"
    have "pushed = succs x \<and> inv (x # seen) s'" using P visited [OF _ x v] by simp
    then show "?P (rev pushed @ stack) (x # seen) s'" using P by fastforce
  next
    fix x stack seen s
    assume P: "?P (x # stack) seen s" and x: "x \<ge> bound \<or> x \<in> set seen \<or> skip x"
    have "y \<in> set seen \<union> set stack" if "y \<in> set seen \<union> set (x # stack)" "live y" for y
      using that x by (auto simp: live_def)
    then show "?P stack seen s" using P by blast
  qed (simp add: assms(2))
  show ?thesis
  proof
    fix x
    assume "x \<in> reach roots"
    then show "x \<in> set seen" by (induction rule: reach.induct) (use P in auto)
  qed
qed

text \<open>A walk that is neither stopped nor interrupted visits exactly what is reachable, once.\<close>

lemma walk_visits:
  assumes "walk bound limit skip visit roots [] s = Walked seen s'" and "inv [] s"
  shows "set seen = reach roots \<and> distinct seen \<and> inv seen s'"
  using walk_sound [OF assms] walk_complete [OF assms] by blast

end

text \<open>A walk without a limit whose visits do not raise ends.\<close>

lemma walk_ends:
  assumes "\<And>x s. visit x s \<noteq> None"
  shows "\<exists>seen' s'. walk bound None skip visit stack seen s = Walked seen' s'"
proof -
  have "limit = None \<Longrightarrow> \<forall>x s. \<exists>y. visit x s = Some y \<Longrightarrow> \<exists>seen' s'. walk bound limit skip visit stack seen s = Walked seen' s'" for limit
    by (induction bound limit skip visit stack seen s rule: walk.induct) (auto split: option.splits, metis option.distinct(1))
  then show ?thesis using assms by blast
qed

end
