(* ===== verification/Fork.thy ===== *)
theory Fork
  imports Objects
begin

text \<open>
  The repair of a forked child (\<^verbatim>\<open>src/log_foundry/_fork.py\<close>): every lock and event that an object
  of the package holds is replaced by a fresh one, since the thread that held it does not exist in
  the child; one that several attributes share stays shared. Then the transports that can be
  re-acquired are, and the registered handlers run.
\<close>

subsection \<open>Replacing primitives\<close>

record repair =
  rp_graph :: ograph
  rp_memo :: "(nat, nat) dict"
  rp_buffered :: "nat list"

definition primitive_object :: "primitive \<Rightarrow> gobject" where
  "primitive_object p =
     \<lparr>ob_kind = Instance, ob_plain = False, ob_sink = Some False, ob_mro = [], ob_contents = None, ob_vars = NoVars,
      ob_slots = [], ob_primitive = Some p, ob_skip = [], ob_rigid = False, ob_reacquire = None\<rparr>"

definition fresh_primitive :: "nat \<Rightarrow> repair \<Rightarrow> nat option \<times> repair" where
  "fresh_primitive v st =
     (case dict_get (rp_memo st) v of
        Some f \<Rightarrow> (Some f, st)
      | None \<Rightarrow>
          (case ob_primitive (rp_graph st ! v) of
             None \<Rightarrow> (None, st)
           | Some p \<Rightarrow>
               (Some (length (rp_graph st)),
                st\<lparr>rp_graph := rp_graph st @ [primitive_object p],
                   rp_memo := dict_set v (length (rp_graph st)) (rp_memo st)\<rparr>)))"

text \<open>An attribute of an instance lives in its dictionary if it is there, else in a slot.\<close>

definition set_attr :: "pystr \<Rightarrow> nat \<Rightarrow> gobject \<Rightarrow> gobject" where
  "set_attr n v ob =
     (case ob_vars ob of
        Vars items \<Rightarrow>
          if n \<in> fst ` set items then ob\<lparr>ob_vars := Vars (dict_set n v items)\<rparr>
          else ob\<lparr>ob_slots := dict_set n v (ob_slots ob)\<rparr>
      | _ \<Rightarrow> ob\<lparr>ob_slots := dict_set n v (ob_slots ob)\<rparr>)"

definition assign_attr :: "nat \<Rightarrow> pystr \<Rightarrow> nat \<Rightarrow> repair \<Rightarrow> repair" where
  "assign_attr h n v st =
     (if ob_rigid (rp_graph st ! h) then st
      else st\<lparr>rp_graph := (rp_graph st)[h := set_attr n v (rp_graph st ! h)]\<rparr>)"

fun repair_items :: "nat \<Rightarrow> pystr list \<Rightarrow> (pystr \<times> nat) list \<Rightarrow> repair \<Rightarrow> repair \<times> nat list" where
  "repair_items h skip [] st = (st, [])"
| "repair_items h skip ((n, v) # items) st =
     (if n \<in> set skip then repair_items h skip items st
      else case fresh_primitive v st of
             (Some f, st) \<Rightarrow> repair_items h skip items (assign_attr h n f st)
           | (None, st) \<Rightarrow>
               (let (st', pushed) = repair_items h skip items st
                in (st', if is_traversable (rp_graph st) v then v # pushed else pushed)))"

definition offers_reacquire :: "ograph \<Rightarrow> nat \<Rightarrow> bool" where
  "offers_reacquire G h \<longleftrightarrow> ob_reacquire (G ! h) \<noteq> None"

definition traversed_children :: "ograph \<Rightarrow> nat \<Rightarrow> nat list" where
  "traversed_children G x =
     (if is_container G x then filter (is_traversable G) (container_children G x) else [])"

definition repair_visit :: "nat \<Rightarrow> repair \<Rightarrow> (repair \<times> nat list) option" where
  "repair_visit x st =
     (let G = rp_graph st; children = traversed_children G x; object = (ob_kind (G ! x) = Instance)
      in if object \<and> \<not> is_owned G x then Some (st, children)
         else let st = (if object \<and> offers_reacquire G x then st\<lparr>rp_buffered := rp_buffered st @ [x]\<rparr> else st);
                  (st, pushed) = repair_items x (ob_skip (G ! x)) (namespace_items G x) st
              in Some (st, children @ pushed))"

text \<open>The roots are the loaded modules of the package. \<open>None\<close> would be an exception, which no visit
  raises.\<close>

definition reinit_primitives :: "ograph \<Rightarrow> nat list \<Rightarrow> repair option" where
  "reinit_primitives G modules =
     (case walk (length G) None (\<lambda>x. False) repair_visit (rev modules) [] \<lparr>rp_graph = G, rp_memo = [], rp_buffered = []\<rparr> of
        Walked seen st \<Rightarrow> Some st
      | _ \<Rightarrow> None)"

definition reacquire_transports :: "ograph \<Rightarrow> nat list \<Rightarrow> nat list" where
  "reacquire_transports G holders = filter (\<lambda>h. ob_reacquire (G ! h) = Some True) holders"

text \<open>The handler in the child: the repair, the re-acquisition, and then each registered handler,
  whose exception is absorbed. A handler maps the state to its new state, or raises.\<close>

definition run_handlers :: "('s \<Rightarrow> 's result) list \<Rightarrow> 's \<Rightarrow> 's" where
  "run_handlers hs s = fold (\<lambda>h s. case h s of Inr s' \<Rightarrow> s' | Inl e \<Rightarrow> s) hs s"

definition register_child_handler :: "'h \<Rightarrow> 'h list \<Rightarrow> 'h list" where
  "register_child_handler f hs = (if f \<in> set hs then hs else hs @ [f])"

definition reinit_child :: "ograph \<Rightarrow> nat list \<Rightarrow> ograph \<times> nat list" where
  "reinit_child G modules =
     (case reinit_primitives G modules of
        None \<Rightarrow> (G, [])
      | Some st \<Rightarrow> (rp_graph st, reacquire_transports (rp_graph st) (rp_buffered st)))"

subsection \<open>Attributes\<close>

definition attr :: "ograph \<Rightarrow> nat \<Rightarrow> pystr \<Rightarrow> nat option" where
  "attr G h n = map_of (namespace_items G h) n"

definition own_vars :: "gobject \<Rightarrow> (pystr \<times> nat) list" where
  "own_vars ob = (case ob_vars ob of Vars items \<Rightarrow> items | _ \<Rightarrow> [])"

definition slot_pairs :: "gobject \<Rightarrow> pystr list \<Rightarrow> (pystr \<times> nat) list" where
  "slot_pairs ob ns =
     concat (map (\<lambda>n. if n \<in> fst ` set (own_vars ob) then []
                      else (case map_of (ob_slots ob) n of None \<Rightarrow> [] | Some v \<Rightarrow> [(n, v)])) ns)"

lemma namespace_items_alt:
  "namespace_items G h =
     (if ob_vars (G ! h) = VarsRaise then []
      else own_vars (G ! h) @ (if ob_kind (G ! h) = Instance then slot_pairs (G ! h) (slot_names (ob_mro (G ! h))) else []))"
  unfolding namespace_items_def own_vars_def slot_pairs_def slot_value_def by (simp split: namespace.splits kind.splits)

lemma map_of_slot_pairs:
  "map_of (slot_pairs ob ns) n =
     (if n \<in> set ns \<and> map_of (own_vars ob) n = None then map_of (ob_slots ob) n else None)"
  unfolding map_of_eq_None_iff by (induction ns) (auto simp: slot_pairs_def split: option.splits)

definition obj_attr :: "gobject \<Rightarrow> pystr \<Rightarrow> nat option" where
  "obj_attr ob n =
     (if ob_vars ob = VarsRaise then None
      else case map_of (own_vars ob) n of
             Some v \<Rightarrow> Some v
           | None \<Rightarrow> if ob_kind ob = Instance \<and> n \<in> set (slot_names (ob_mro ob)) then map_of (ob_slots ob) n else None)"

lemma attr_alt: "attr G h n = obj_attr (G ! h) n"
  by (cases "map_of (own_vars (G ! h)) n")
    (auto simp: attr_def obj_attr_def namespace_items_alt map_add_def map_of_slot_pairs split: option.splits)

lemma map_of_dict_set: "map_of (dict_set k v d) k' = (if k' = k then Some v else map_of d k')"
  using dict_get_set [of k v d k'] by (simp add: dict_get_def)

text \<open>Setting an attribute that exists changes that attribute and nothing else of the object.\<close>

lemma set_attr_frame [simp]:
  "ob_kind (set_attr n v ob) = ob_kind ob" "ob_plain (set_attr n v ob) = ob_plain ob" "ob_sink (set_attr n v ob) = ob_sink ob"
  "ob_mro (set_attr n v ob) = ob_mro ob" "ob_contents (set_attr n v ob) = ob_contents ob"
  "ob_primitive (set_attr n v ob) = ob_primitive ob" "ob_skip (set_attr n v ob) = ob_skip ob"
  "ob_rigid (set_attr n v ob) = ob_rigid ob" "ob_reacquire (set_attr n v ob) = ob_reacquire ob"
  by (simp_all add: set_attr_def split: namespace.splits)

lemma set_attr_vars:
  "ob_vars (set_attr n v ob) = VarsRaise \<longleftrightarrow> ob_vars ob = VarsRaise"
  "map_of (own_vars (set_attr n v ob)) m =
     (if m = n \<and> map_of (own_vars ob) n \<noteq> None then Some v else map_of (own_vars ob) m)"
  "map_of (own_vars ob) n = None \<Longrightarrow> map_of (ob_slots (set_attr n v ob)) m = (if m = n then Some v else map_of (ob_slots ob) m)"
  "map_of (own_vars ob) n \<noteq> None \<Longrightarrow> ob_slots (set_attr n v ob) = ob_slots ob"
  by (auto simp: set_attr_def own_vars_def map_of_dict_set map_of_eq_None_iff split: namespace.splits)

lemma obj_attr_set: "obj_attr ob n \<noteq> None \<Longrightarrow> obj_attr (set_attr n v ob) m = (if m = n then Some v else obj_attr ob m)"
  by (cases "map_of (own_vars ob) n") (auto simp: obj_attr_def set_attr_vars split: if_splits option.splits)

lemma attr_set:
  assumes "h < length G" and "attr G h n \<noteq> None"
  shows "attr (G[h := set_attr n v (G ! h)]) h m = (if m = n then Some v else attr G h m)"
  using assms by (simp add: attr_alt obj_attr_set)

lemma attr_other: "h \<noteq> x \<Longrightarrow> attr (G[h := ob]) x n = attr G x n"
  by (simp add: attr_alt)

lemma attr_append: "x < length G \<Longrightarrow> attr (G @ l) x n = attr G x n"
  by (simp add: attr_alt nth_append)

subsection \<open>One object\<close>

text \<open>An attribute dictionary has each name once.\<close>

definition dict_vars :: "ograph \<Rightarrow> bool" where
  "dict_vars G \<longleftrightarrow> list_all (\<lambda>ob. distinct (map fst (own_vars ob))) G"

lemma items_attr:
  assumes "dict_vars G" and "h < length G" and "(n, v) \<in> set (namespace_items G h)"
  shows "attr G h n = Some v"
proof (cases "(n, v) \<in> set (own_vars (G ! h))")
  case True
  then show ?thesis using assms by (auto simp: attr_alt obj_attr_def namespace_items_alt dict_vars_def list_all_length split: if_splits)
next
  case False
  then have "(n, v) \<in> set (slot_pairs (G ! h) (slot_names (ob_mro (G ! h))))" "ob_kind (G ! h) = Instance" "ob_vars (G ! h) \<noteq> VarsRaise"
    using assms(3) by (auto simp: namespace_items_alt split: if_splits)
  then show ?thesis
    using map_of_eq_None_iff [of "own_vars (G ! h)" n]
    by (auto simp: attr_alt obj_attr_def slot_pairs_def simp del: map_of_eq_None_iff split: if_splits option.splits)
qed

text \<open>The repair changes attributes only, adds primitives, and remembers for what.\<close>

definition same_shape :: "gobject \<Rightarrow> gobject \<Rightarrow> bool" where
  "same_shape ob ob' \<longleftrightarrow> ob_kind ob' = ob_kind ob \<and> ob_mro ob' = ob_mro ob \<and> ob_contents ob' = ob_contents ob \<and>
     ob_primitive ob' = ob_primitive ob \<and> ob_rigid ob' = ob_rigid ob"

definition memo_ok :: "ograph \<Rightarrow> repair \<Rightarrow> bool" where
  "memo_ok G st \<longleftrightarrow> length G \<le> length (rp_graph st) \<and> (\<forall>x < length G. same_shape (G ! x) (rp_graph st ! x)) \<and>
     (\<forall>v f. dict_get (rp_memo st) v = Some f \<longrightarrow> v < length G \<and> length G \<le> f \<and> f < length (rp_graph st) \<and>
        ob_primitive (G ! v) \<noteq> None \<and> ob_primitive (rp_graph st ! f) = ob_primitive (G ! v)) \<and>
     (\<forall>v w f. dict_get (rp_memo st) v = Some f \<longrightarrow> dict_get (rp_memo st) w = Some f \<longrightarrow> v = w)"

definition memo_le :: "repair \<Rightarrow> repair \<Rightarrow> bool" where
  "memo_le st st' \<longleftrightarrow> (\<forall>v f. dict_get (rp_memo st) v = Some f \<longrightarrow> dict_get (rp_memo st') v = Some f)"

lemma memo_le_refl [simp]: "memo_le st st"
  and memo_le_trans: "memo_le a b \<Longrightarrow> memo_le b c \<Longrightarrow> memo_le a c"
  by (simp_all add: memo_le_def)

lemma memo_shape: "memo_ok G st \<Longrightarrow> x < length G \<Longrightarrow> same_shape (G ! x) (rp_graph st ! x)"
  and memo_entry: "memo_ok G st \<Longrightarrow> dict_get (rp_memo st) v = Some f \<Longrightarrow> v < length G \<and> length G \<le> f \<and> f < length (rp_graph st) \<and>
    ob_primitive (G ! v) \<noteq> None \<and> ob_primitive (rp_graph st ! f) = ob_primitive (G ! v)"
  and memo_inj: "memo_ok G st \<Longrightarrow> dict_get (rp_memo st) v = Some f \<Longrightarrow> dict_get (rp_memo st) w = Some f \<Longrightarrow> v = w"
  and memo_length: "memo_ok G st \<Longrightarrow> length G \<le> length (rp_graph st)"
  unfolding memo_ok_def by blast+

lemma fresh_none:
  assumes "memo_ok G st" and "v < length G" and "ob_primitive (G ! v) = None"
  shows "fresh_primitive v st = (None, st)"
  using memo_shape [OF assms(1,2)] memo_entry [OF assms(1), of v] assms(3)
  by (cases "dict_get (rp_memo st) v") (simp_all add: fresh_primitive_def same_shape_def)

lemma memo_extend:
  assumes ok: "memo_ok G st" and v: "v < length G" and p: "ob_primitive (G ! v) = Some p" and n: "dict_get (rp_memo st) v = None"
  shows "memo_ok G (st\<lparr>rp_graph := rp_graph st @ [primitive_object p], rp_memo := dict_set v (length (rp_graph st)) (rp_memo st)\<rparr>)"
    (is "memo_ok G ?st")
  unfolding memo_ok_def
proof (intro conjI allI impI)
  fix x
  assume "x < length G"
  then show "same_shape (G ! x) (rp_graph ?st ! x)" using memo_shape [OF ok, of x] memo_length [OF ok] by (simp add: nth_append)
next
  fix w f
  assume "dict_get (rp_memo ?st) w = Some f"
  then have "(w = v \<and> f = length (rp_graph st)) \<or> dict_get (rp_memo st) w = Some f" by (simp split: if_splits)
  then have "w < length G \<and> length G \<le> f \<and> f < length (rp_graph ?st) \<and> ob_primitive (G ! w) \<noteq> None \<and>
      ob_primitive (rp_graph ?st ! f) = ob_primitive (G ! w)"
    using memo_entry [OF ok, of w f] memo_length [OF ok] v p by (auto simp: nth_append primitive_object_def)
  then show "w < length G" "length G \<le> f" "f < length (rp_graph ?st)" "ob_primitive (G ! w) \<noteq> None"
    "ob_primitive (rp_graph ?st ! f) = ob_primitive (G ! w)" by blast+
next
  fix w u f
  assume "dict_get (rp_memo ?st) w = Some f" "dict_get (rp_memo ?st) u = Some f"
  then show "w = u" using memo_inj [OF ok, of w f u] memo_entry [OF ok, of w f] memo_entry [OF ok, of u f] by (auto split: if_splits)
next
  show "length G \<le> length (rp_graph ?st)" using memo_length [OF ok] by simp
qed

lemma fresh_some:
  assumes ok: "memo_ok G st" and v: "v < length G" and p: "ob_primitive (G ! v) = Some p"
  obtains f st' l where "fresh_primitive v st = (Some f, st')" "memo_ok G st'" "dict_get (rp_memo st') v = Some f" "memo_le st st'"
    "rp_graph st' = rp_graph st @ l" "rp_buffered st' = rp_buffered st"
proof (cases "dict_get (rp_memo st) v")
  case (Some f)
  then show ?thesis using ok that [of f st "[]"] by (simp add: fresh_primitive_def)
next
  case None
  let ?f = "length (rp_graph st)"
  let ?st = "st\<lparr>rp_graph := rp_graph st @ [primitive_object p], rp_memo := dict_set v ?f (rp_memo st)\<rparr>"
  have "ob_primitive (rp_graph st ! v) = Some p" using memo_shape [OF ok v] p by (simp add: same_shape_def)
  then have "fresh_primitive v st = (Some ?f, ?st)" using None by (simp add: fresh_primitive_def)
  then show ?thesis using None memo_extend [OF ok v p None] that [of ?f ?st "[primitive_object p]"] by (simp add: memo_le_def)
qed

lemma assign_ok:
  assumes "memo_ok G st" and "h < length G"
  shows "memo_ok G (assign_attr h n f st)"
proof -
  let ?G = "(rp_graph st)[h := set_attr n f (rp_graph st ! h)]"
  have "ob_primitive (?G ! x) = ob_primitive (rp_graph st ! x)" "same_shape (rp_graph st ! x) (?G ! x)" for x
    using assms(2) memo_length [OF assms(1)] by (cases "x = h"; simp add: same_shape_def)+
  then have "memo_ok G (st\<lparr>rp_graph := ?G\<rparr>)" using assms(1) by (simp add: memo_ok_def same_shape_def)
  then show ?thesis using assms(1) by (simp add: assign_attr_def)
qed

lemma assign_frame [simp]:
  "rp_memo (assign_attr h n f st) = rp_memo st" "rp_buffered (assign_attr h n f st) = rp_buffered st"
  "x \<noteq> h \<Longrightarrow> rp_graph (assign_attr h n f st) ! x = rp_graph st ! x"
  by (simp_all add: assign_attr_def)

text \<open>What an attribute becomes.\<close>

definition is_primitive :: "ograph \<Rightarrow> nat \<Rightarrow> bool" where
  "is_primitive G v \<longleftrightarrow> ob_primitive (G ! v) \<noteq> None"

definition pushed_values :: "ograph \<Rightarrow> pystr list \<Rightarrow> (pystr \<times> nat) list \<Rightarrow> nat list" where
  "pushed_values G skip items =
     map snd (filter (\<lambda>(n, v). n \<notin> set skip \<and> \<not> is_primitive G v \<and> is_traversable G v) items)"

lemma traversable_shape:
  assumes "memo_ok G st" and "v < length G"
  shows "is_traversable (rp_graph st) v = is_traversable G v" "is_owned (rp_graph st) v = is_owned G v"
    "is_container (rp_graph st) v = is_container G v" "container_children (rp_graph st) v = container_children G v"
  using memo_shape [OF assms]
  by (simp_all add: is_traversable_def is_container_def is_owned_def container_children_def same_shape_def split: kind.splits)

text \<open>The attributes of \<open>h\<close> named in \<open>R\<close> are replaced, and nothing else.\<close>

definition replaced :: "ograph \<Rightarrow> nat \<Rightarrow> pystr set \<Rightarrow> repair \<Rightarrow> repair \<Rightarrow> bool" where
  "replaced G h R st st' \<longleftrightarrow> memo_ok G st' \<and> memo_le st st' \<and> rp_buffered st' = rp_buffered st \<and>
     (\<forall>x < length G. x \<noteq> h \<longrightarrow> rp_graph st' ! x = rp_graph st ! x) \<and>
     (\<forall>n. attr (rp_graph st') h n =
        (if \<not> ob_rigid (G ! h) \<and> n \<in> R then dict_get (rp_memo st') (the (attr G h n)) else attr (rp_graph st) h n)) \<and>
     (\<forall>n \<in> R. dict_get (rp_memo st') (the (attr G h n)) \<noteq> None)"

lemma replaced_none: "memo_ok G st \<Longrightarrow> replaced G h {} st st"
  by (simp add: replaced_def)

lemma replaced_trans:
  assumes a: "replaced G h R a b" and b: "replaced G h S b c"
  shows "replaced G h (R \<union> S) a c"
proof -
  have le: "dict_get (rp_memo c) v = Some f" if "dict_get (rp_memo b) v = Some f" for v f
    using b that by (simp add: replaced_def memo_le_def)
  have keep: "dict_get (rp_memo c) (the (attr G h n)) = dict_get (rp_memo b) (the (attr G h n))" if "n \<in> R" for n
    using a that le by (force simp: replaced_def)
  show ?thesis
    unfolding replaced_def
  proof (intro conjI)
    show "memo_le a c" using a b memo_le_trans by (auto simp: replaced_def)
    show "\<forall>n. attr (rp_graph c) h n =
        (if \<not> ob_rigid (G ! h) \<and> n \<in> R \<union> S then dict_get (rp_memo c) (the (attr G h n)) else attr (rp_graph a) h n)"
      using a b keep by (simp add: replaced_def)
    show "\<forall>n \<in> R \<union> S. dict_get (rp_memo c) (the (attr G h n)) \<noteq> None"
      using a b keep by (auto simp: replaced_def)
  qed (use a b in \<open>simp_all add: replaced_def\<close>)
qed

lemma replaced_one:
  assumes ok: "memo_ok G st" and h: "h < length G" and n: "attr G h n = Some v" "attr (rp_graph st) h n \<noteq> None"
    and v: "v < length G" and p: "ob_primitive (G ! v) = Some p"
  obtains f st1 where "fresh_primitive v st = (Some f, st1)" "replaced G h {n} st (assign_attr h n f st1)"
proof -
  obtain f st1 l where f: "fresh_primitive v st = (Some f, st1)" "memo_ok G st1" "dict_get (rp_memo st1) v = Some f"
    "memo_le st st1" "rp_graph st1 = rp_graph st @ l" "rp_buffered st1 = rp_buffered st"
    by (rule fresh_some [OF ok v p])
  have len: "h < length (rp_graph st)" using h memo_length [OF ok] by simp
  then have old: "attr (rp_graph st1) h m = attr (rp_graph st) h m" for m using f(5) by (simp add: attr_append)
  have len1: "h < length (rp_graph st1)" using len f(5) by simp
  have rigid: "ob_rigid (rp_graph st1 ! h) = ob_rigid (G ! h)" using memo_shape [OF f(2) h] by (simp add: same_shape_def)
  have "attr (rp_graph (assign_attr h n f st1)) h m =
      (if \<not> ob_rigid (G ! h) \<and> m = n then Some f else attr (rp_graph st) h m)" for m
    using attr_set [of h "rp_graph st1" n f m] len1 old n(2) rigid by (cases "m = n") (simp_all add: assign_attr_def)
  moreover have "rp_graph (assign_attr h n f st1) ! x = rp_graph st ! x" if "x < length G" "x \<noteq> h" for x
    using that memo_length [OF ok] f(5) by (simp add: nth_append)
  ultimately have "replaced G h {n} st (assign_attr h n f st1)"
    using assign_ok [OF f(2) h, of n f] f(3,4,6) n(1) by (simp add: replaced_def memo_le_def)
  then show ?thesis using f(1) that by blast
qed

definition replaced_names :: "ograph \<Rightarrow> pystr list \<Rightarrow> (pystr \<times> nat) list \<Rightarrow> pystr set" where
  "replaced_names G skip items = {n. \<exists>v. (n, v) \<in> set items \<and> n \<notin> set skip \<and> is_primitive G v}"

lemma replaced_names_Cons:
  "replaced_names G skip ((n, v) # items) =
     (if n \<notin> set skip \<and> is_primitive G v then {n} else {}) \<union> replaced_names G skip items"
  by (auto simp: replaced_names_def)

lemma replaced_attr_kept:
  "replaced G h R st st' \<Longrightarrow> attr (rp_graph st) h m \<noteq> None \<Longrightarrow> attr (rp_graph st') h m \<noteq> None"
  by (auto simp: replaced_def)

lemma repair_items_ok:
  assumes "memo_ok G st" and "h < length G"
    and "\<forall>(n, v) \<in> set items. v < length G \<and> attr G h n = Some v \<and> attr (rp_graph st) h n \<noteq> None"
    and "repair_items h skip items st = (st', pushed)"
  shows "replaced G h (replaced_names G skip items) st st' \<and> pushed = pushed_values G skip items"
  using assms
proof (induction items arbitrary: st st' pushed)
  case Nil
  then show ?case using replaced_none [OF Nil.prems(1)] by (simp add: replaced_names_def pushed_values_def)
next
  case (Cons i items)
  obtain n v where i: "i = (n, v)" by (cases i)
  have v: "v < length G" "attr G h n = Some v" "attr (rp_graph st) h n \<noteq> None" using Cons.prems(3) by (simp_all add: i)
  have rest: "\<forall>(n, v) \<in> set items. v < length G \<and> attr G h n = Some v \<and> attr (rp_graph st) h n \<noteq> None"
    using Cons.prems(3) by simp
  consider "n \<in> set skip" | "n \<notin> set skip" "ob_primitive (G ! v) = None" | p where "n \<notin> set skip" "ob_primitive (G ! v) = Some p"
    by blast
  then show ?case
  proof cases
    case 1
    then show ?thesis using Cons.IH [OF Cons.prems(1,2) rest] Cons.prems(4)
      by (simp add: i replaced_names_Cons) (simp add: pushed_values_def)
  next
    case 2
    obtain pushed' where "repair_items h skip items st = (st', pushed')"
      "pushed = (if is_traversable (rp_graph st) v then v # pushed' else pushed')"
      using Cons.prems(4) 2 fresh_none [OF Cons.prems(1) v(1)] by (auto simp: i split: prod.splits)
    then show ?thesis using Cons.IH [OF Cons.prems(1,2) rest] 2 traversable_shape(1) [OF Cons.prems(1) v(1)]
      by (simp add: i replaced_names_Cons is_primitive_def pushed_values_def)
  next
    case 3
    obtain f st1 where f: "fresh_primitive v st = (Some f, st1)" and r: "replaced G h {n} st (assign_attr h n f st1)"
      by (rule replaced_one [OF Cons.prems(1,2) v(2,3,1) 3(2)])
    let ?st = "assign_attr h n f st1"
    have "\<forall>(n, v) \<in> set items. v < length G \<and> attr G h n = Some v \<and> attr (rp_graph ?st) h n \<noteq> None"
      using rest replaced_attr_kept [OF r] by blast
    moreover have "memo_ok G ?st" using r by (simp add: replaced_def)
    moreover have "repair_items h skip items ?st = (st', pushed)" using Cons.prems(4) 3 f by (simp add: i)
    ultimately have "replaced G h (replaced_names G skip items) ?st st' \<and> pushed = pushed_values G skip items"
      using Cons.IH Cons.prems(2) by blast
    then show ?thesis using replaced_trans [OF r] 3 by (simp add: i replaced_names_Cons is_primitive_def pushed_values_def)
  qed
qed

subsection \<open>The whole repair\<close>

definition repaired_kind :: "ograph \<Rightarrow> nat \<Rightarrow> bool" where
  "repaired_kind G x \<longleftrightarrow> ob_kind (G ! x) \<noteq> Instance \<or> is_owned G x"

definition repair_succs :: "ograph \<Rightarrow> nat \<Rightarrow> nat list" where
  "repair_succs G x =
     traversed_children G x @ (if repaired_kind G x then pushed_values G (ob_skip (G ! x)) (namespace_items G x) else [])"

text \<open>Objects not visited are untouched; in those visited each lock is replaced by its image.\<close>

definition repaired :: "ograph \<Rightarrow> nat list \<Rightarrow> repair \<Rightarrow> bool" where
  "repaired G seen st \<longleftrightarrow> memo_ok G st \<and> (\<forall>x \<in> set seen. x < length G) \<and> (\<forall>x < length G. x \<notin> set seen \<longrightarrow> rp_graph st ! x = G ! x) \<and>
     (\<forall>x \<in> set seen. \<forall>n. attr (rp_graph st) x n =
        (if repaired_kind G x \<and> \<not> ob_rigid (G ! x) \<and> n \<in> replaced_names G (ob_skip (G ! x)) (namespace_items G x)
         then dict_get (rp_memo st) (the (attr G x n)) else attr G x n)) \<and>
     (\<forall>x \<in> set seen. \<forall>n \<in> replaced_names G (ob_skip (G ! x)) (namespace_items G x).
        repaired_kind G x \<longrightarrow> dict_get (rp_memo st) (the (attr G x n)) \<noteq> None)"

lemma repaired_untouched:
  assumes "repaired G seen st" and "x < length G" and "x \<notin> set seen" and "\<not> repaired_kind G x"
  shows "repaired G (x # seen) st"
  using assms by (simp add: repaired_def attr_alt)

lemma repaired_replaced:
  assumes r: "repaired G seen st" and x: "x < length G" "x \<notin> set seen" "repaired_kind G x"
    and s: "replaced G x (replaced_names G (ob_skip (G ! x)) (namespace_items G x)) st st'"
  shows "repaired G (x # seen) st'"
proof -
  have seen: "\<forall>y \<in> set seen. y < length G" using r by (simp add: repaired_def)
  have le: "dict_get (rp_memo st') v = dict_get (rp_memo st) v" if "dict_get (rp_memo st) v \<noteq> None" for v
    using s that by (auto simp: replaced_def memo_le_def)
  have other: "rp_graph st' ! y = rp_graph st ! y" if "y < length G" "y \<noteq> x" for y using s that by (simp add: replaced_def)
  have mine: "attr (rp_graph st) x n = attr G x n" for n using r x by (simp add: repaired_def attr_alt)
  have old: "attr (rp_graph st') y n = attr (rp_graph st) y n" if "y \<in> set seen" for y n
    using other [of y] that seen x(2) by (metis attr_alt)
  show ?thesis
    unfolding repaired_def
  proof (intro conjI)
    show "memo_ok G st'" using s by (simp add: replaced_def)
    show "\<forall>y \<in> set (x # seen). y < length G" using seen x(1) by simp
    show "\<forall>y < length G. y \<notin> set (x # seen) \<longrightarrow> rp_graph st' ! y = G ! y" using r other by (simp add: repaired_def)
    show "\<forall>y \<in> set (x # seen). \<forall>n \<in> replaced_names G (ob_skip (G ! y)) (namespace_items G y).
        repaired_kind G y \<longrightarrow> dict_get (rp_memo st') (the (attr G y n)) \<noteq> None"
      using r s le by (auto simp: repaired_def replaced_def)
    show "\<forall>y \<in> set (x # seen). \<forall>n. attr (rp_graph st') y n =
        (if repaired_kind G y \<and> \<not> ob_rigid (G ! y) \<and> n \<in> replaced_names G (ob_skip (G ! y)) (namespace_items G y)
         then dict_get (rp_memo st') (the (attr G y n)) else attr G y n)"
    proof (intro ballI allI)
      fix y n
      assume y: "y \<in> set (x # seen)"
      show "attr (rp_graph st') y n =
        (if repaired_kind G y \<and> \<not> ob_rigid (G ! y) \<and> n \<in> replaced_names G (ob_skip (G ! y)) (namespace_items G y)
         then dict_get (rp_memo st') (the (attr G y n)) else attr G y n)"
      proof (cases "y = x")
        case True
        then show ?thesis using s x(3) mine by (simp add: replaced_def)
      next
        case False
        then have y: "y \<in> set seen" using y by simp
        then show ?thesis using r le old [OF y] by (simp add: repaired_def)
      qed
    qed
  qed
qed

lemma visit_repairs:
  assumes wf: "wf_graph G" "dict_vars G" and r: "repaired G seen st" and x: "x < length G" "x \<notin> set seen"
    and v: "repair_visit x st = Some (st', pushed)"
  shows "pushed = repair_succs G x \<and> repaired G (x # seen) st'"
proof -
  have ok: "memo_ok G st" and gx: "rp_graph st ! x = G ! x" using r x by (simp_all add: repaired_def)
  have kids: "traversed_children (rp_graph st) x = traversed_children G x"
    using traversable_shape [OF ok] container_children_bound [OF wf(1) x(1)] x(1)
    by (auto simp: traversed_children_def intro!: filter_cong)
  have items: "namespace_items (rp_graph st) x = namespace_items G x" by (simp add: namespace_items_alt gx)
  have kind: "repaired_kind G x \<longleftrightarrow> \<not> (ob_kind (rp_graph st ! x) = Instance \<and> \<not> is_owned (rp_graph st) x)"
    using traversable_shape(2) [OF ok x(1)] by (auto simp: repaired_kind_def gx)
  show ?thesis
  proof (cases "repaired_kind G x")
    case False
    then show ?thesis using v kind kids repaired_untouched [OF r x False] by (simp add: repair_visit_def Let_def repair_succs_def)
  next
    case True
    define st1 where "st1 = (if ob_kind (G ! x) = Instance \<and> offers_reacquire (rp_graph st) x
      then st\<lparr>rp_buffered := rp_buffered st @ [x]\<rparr> else st)"
    have g1: "rp_graph st1 = rp_graph st" and m1: "rp_memo st1 = rp_memo st" by (simp_all add: st1_def)
    have r1: "repaired G seen st1" using r by (simp add: repaired_def memo_ok_def g1 m1)
    obtain pushed' where p: "repair_items x (ob_skip (G ! x)) (namespace_items G x) st1 = (st', pushed')"
      "pushed = traversed_children G x @ pushed'"
      using v True kind kids items gx by (auto simp: repair_visit_def Let_def st1_def split: prod.splits if_splits)
    have "\<forall>(n, v) \<in> set (namespace_items G x). v < length G \<and> attr G x n = Some v \<and> attr (rp_graph st1) x n \<noteq> None"
      using namespace_items_bound [OF wf(1) x(1)] items_attr [OF wf(2) x(1)] by (auto simp: attr_alt g1 gx)
    then have "replaced G x (replaced_names G (ob_skip (G ! x)) (namespace_items G x)) st1 st' \<and>
        pushed' = pushed_values G (ob_skip (G ! x)) (namespace_items G x)"
      using repair_items_ok [OF _ x(1) _ p(1)] r1 by (simp add: repaired_def)
    then show ?thesis using repaired_replaced [OF r1 x True] p(2) True by (simp add: repair_succs_def)
  qed
qed

interpretation fork_walk: graph_walk "length G" None "\<lambda>x. False" repair_visit "repair_succs G"
  "\<lambda>seen st. wf_graph G \<and> dict_vars G \<and> repaired G seen st" for G
  by unfold_locales (use visit_repairs in blast)

lemma visit_total: "repair_visit x st \<noteq> None"
  by (auto simp: repair_visit_def Let_def split: prod.splits)

text \<open>The objects the repair must reach: from the package's modules, through containers, and through
  the attributes of modules, classes and the package's own objects, except those declared skipped.\<close>

inductive_set traversed :: "ograph \<Rightarrow> nat list \<Rightarrow> nat set" for G modules where
  module: "m \<in> set modules \<Longrightarrow> m < length G \<Longrightarrow> m \<in> traversed G modules"
| member: "c \<in> traversed G modules \<Longrightarrow> v \<in> set (container_children G c) \<Longrightarrow> is_traversable G v \<Longrightarrow> v \<in> traversed G modules"
| attribute: "h \<in> traversed G modules \<Longrightarrow> repaired_kind G h \<Longrightarrow> (n, v) \<in> set (namespace_items G h) \<Longrightarrow> n \<notin> set (ob_skip (G ! h)) \<Longrightarrow>
    is_traversable G v \<Longrightarrow> \<not> is_primitive G v \<Longrightarrow> v \<in> traversed G modules"

lemma traversed_bound:
  assumes "wf_graph G" and "x \<in> traversed G modules"
  shows "x < length G"
  using assms(2)
  by (induction rule: traversed.induct) (auto intro: container_children_bound [OF assms(1)] namespace_items_bound [OF assms(1)])

lemma traversed_walked:
  assumes wf: "wf_graph G" and "x \<in> traversed G modules"
  shows "x \<in> fork_walk.reach G (rev modules)"
  using assms(2)
proof (induction rule: traversed.induct)
  case (module m)
  then show ?case by (simp add: fork_walk.reach.root fork_walk.live_def)
next
  case (member c v)
  have "c < length G" by (rule traversed_bound [OF wf member.hyps(1)])
  then have "fork_walk.live G v" using container_children_bound [OF wf _ member.hyps(2)] by (simp add: fork_walk.live_def)
  moreover have "is_container G c" using member.hyps(2) by (cases "ob_contents (G ! c)") (simp_all add: container_children_def is_container_def)
  moreover from this have "v \<in> set (repair_succs G c)"
    using member.hyps by (simp add: repair_succs_def traversed_children_def)
  ultimately show ?case using member.IH by (blast intro: fork_walk.reach.edge)
next
  case (attribute h n v)
  have "h < length G" by (rule traversed_bound [OF wf attribute.hyps(1)])
  then have "fork_walk.live G v" using namespace_items_bound [OF wf _ attribute.hyps(3)] by (simp add: fork_walk.live_def)
  moreover have "v \<in> set (repair_succs G h)" using attribute.hyps by (force simp: repair_succs_def pushed_values_def)
  ultimately show ?case using attribute.IH by (blast intro: fork_walk.reach.edge)
qed


text \<open>A module and an object of the package that share a lock.\<close>

definition fork_graph :: ograph where
  "fork_graph =
     [(primitive_object Lock)\<lparr>ob_kind := Module PACKAGE, ob_primitive := None, ob_vars := Vars [(str ''lock'', 1), (str ''state'', 2)]\<rparr>,
      primitive_object Lock,
      (primitive_object Lock)\<lparr>ob_primitive := None, ob_mro := [\<lparr>cl_module = PACKAGE, cl_slots = Slot (str ''lock'')\<rparr>],
         ob_slots := [(str ''lock'', 1)]\<rparr>]"

lemmas fork_evals = fork_graph_def primitive_object_def own_vars_def namespace_items_def slot_value_def PACKAGE_def text_simps

lemma fork_graph_traversed: "2 \<in> traversed fork_graph [0]"
proof -
  have 0: "0 \<in> traversed fork_graph [0]" by (rule traversed.module) (simp_all add: fork_evals)
  show ?thesis
    by (rule traversed.attribute [OF 0, where n = "str ''state''"])
      (simp_all add: fork_evals repaired_kind_def is_traversable_def is_container_def is_owned_def defined_here_def in_package_def is_primitive_def)
qed


end
