(* ===== verification/Worker_Swap.thy ===== *)
theory Worker_Swap
  imports Worker_Stop
begin

text \<open>
  Swapping the worker's sink. The closer may close a sink only when the drain thread cannot be
  inside it, and asks \<^verbatim>\<open>may_be_inside\<close>. As long as swaps do not overlap the answer is right in
  every interleaving: a swap that reports a fence has fenced. Two overlapping swaps, the second
  back to the sink the first displaces, break it.
\<close>

subsection \<open>Markers are in one place\<close>

lemma queued_markers_simps [simp]:
  "queued_markers [] = []" "queued_markers (Marker m # q) = m # queued_markers q"
  "queued_markers (Batch evs # q) = queued_markers q" "queued_markers (Shutdown # q) = queued_markers q"
  "queued_markers (q @ q') = queued_markers q @ queued_markers q'"
  by (simp_all add: queued_markers_def)

definition put_at :: "marker list \<Rightarrow> nat \<Rightarrow> bool" where
  "put_at ms m \<longleftrightarrow> m < length ms \<and> g_put (ms ! m) \<noteq> None"

definition delivered_at :: "marker list \<Rightarrow> nat \<Rightarrow> bool" where
  "delivered_at ms m \<longleftrightarrow> m < length ms \<and> mk_delivered (ms ! m)"

text \<open>A marker is queued or being answered once, and a marker that was answered is not queued any
  more.\<close>

definition places :: "marker list \<Rightarrow> nat list \<Rightarrow> nat list \<Rightarrow> bool" where
  "places ms queued answering \<longleftrightarrow> distinct (queued @ answering) \<and>
     (\<forall>m \<in> set (queued @ answering). put_at ms m) \<and> (\<forall>m \<in> set queued. \<not> delivered_at ms m)"

text \<open>The marker table changes, if at all, in the events, and in the verdicts of the markers in \<open>A\<close>.\<close>

definition touch :: "nat set \<Rightarrow> marker list \<Rightarrow> marker list \<Rightarrow> bool" where
  "touch A ms ms' \<longleftrightarrow> length ms \<le> length ms' \<and> (\<forall>m. put_at ms' m = put_at ms m) \<and>
     (\<forall>m. m \<notin> A \<longrightarrow> delivered_at ms' m = delivered_at ms m)"

lemma touch_refl [simp]: "touch A ms ms"
  by (simp add: touch_def)

lemma touch_trans: "touch A a b \<Longrightarrow> touch B b c \<Longrightarrow> touch (A \<union> B) a c"
  by (simp add: touch_def)

lemma touch_comp: "touch A a b \<Longrightarrow> touch A b c \<Longrightarrow> touch A a c"
  using touch_trans [of A a b A c] by simp

lemma touch_mono: "touch A a b \<Longrightarrow> A \<subseteq> B \<Longrightarrow> touch B a b"
  by (auto simp: touch_def)

lemma touch_update:
  "g_put mk = g_put (ms ! m) \<Longrightarrow> m \<in> A \<or> mk_delivered mk = mk_delivered (ms ! m) \<Longrightarrow> touch A ms (ms[m := mk])"
  by (cases "m < length ms") (auto simp: touch_def put_at_def delivered_at_def nth_list_update)

lemma set_event_touch [simp]: "touch A (w_markers st) (w_markers (set_event m st))"
  by (simp add: set_event_def touch_update)

lemma answer_touch: "m \<in> A \<Longrightarrow> touch A (w_markers st) (w_markers (answer m st))"
  by (simp add: answer_def touch_update)

lemma let_go_touch [simp]: "touch A (w_markers st) (w_markers (let_go m st))"
  by simp

lemma take_marker_touch [simp]: "touch A (w_markers st) (w_markers (take_marker m st))"
  using set_event_touch [of A "st\<lparr>w_taken := w_taken st @ [m]\<rparr>" m] by (simp add: take_marker_def Let_def)

lemma fold_touch:
  assumes "\<And>m st. m \<in> set ms \<Longrightarrow> touch A (w_markers st) (w_markers (f m st))"
  shows "touch A (w_markers st) (w_markers (fold f ms st))"
  using assms
proof (induction ms arbitrary: st)
  case (Cons m ms)
  have "touch A (w_markers st) (w_markers (f m st))" by (rule Cons.prems) simp
  then show ?case using Cons.IH [of "f m st"] Cons.prems touch_comp by (metis fold_simps(2) list.set_intros(2))
qed simp

lemma emit_returned_touch: "touch (set (why_markers w)) (w_markers st) (w_markers (emit_returned now w st))"
proof (cases w)
  case (ForMarker m)
  let ?st = "(answer m st)\<lparr>w_last_flush := now, w_phase := Head\<rparr>"
  have "touch {m} (w_markers st) (w_markers ?st)" using answer_touch [of m "{m}" st] by simp
  then have "touch {m} (w_markers st) (w_markers (let_go m ?st))" by (rule touch_comp) (rule let_go_touch)
  then show ?thesis by (simp only: ForMarker emit_returned.simps why_markers.simps list.set)
next
  case (ForFinal ms)
  have "touch (set ms) (w_markers st) (w_markers (fold answer ms st))" by (rule fold_touch) (simp add: answer_touch)
  moreover have "touch (set ms) (w_markers s) (w_markers (fold let_go ms s))" for s by (rule fold_touch) (rule let_go_touch)
  ultimately show ?thesis using touch_comp by (simp add: ForFinal)
qed simp

lemma emit_killed_touch: "touch A (w_markers st) (w_markers (emit_killed x w st))"
proof (cases w)
  case (ForFinal ms)
  have "touch A (w_markers st) (w_markers (fold let_go ms st))" by (rule fold_touch) (rule let_go_touch)
  then show ?thesis by (simp add: ForFinal)
qed simp_all

lemma start_emit_touch: "touch (set (why_markers w)) (w_markers st) (w_markers (start_emit now w st))"
  using emit_returned_touch [of w "settle True st" now] by (simp add: start_emit_def)

lemma lose_touch: "touch (set (why_markers w)) (w_markers st) (w_markers (lose_batch now w st))"
  using emit_returned_touch [of w "settle False (st\<lparr>w_failed := w_failed st + 1\<rparr>)" now] by (simp add: lose_batch_def)

lemma release_touch: "touch A (w_markers st) (w_markers (release_waiters st))"
  unfolding release_waiters_def by (rule fold_touch) (rule set_event_touch)

text \<open>What a step of the drain thread may do to the places of the markers.\<close>

lemma places_answered:
  assumes "places ms queued answering" and "touch A ms ms'" and "A \<subseteq> set answering"
    and "answering' = answering \<or> answering' = []"
  shows "places ms' queued answering'"
  using assms unfolding places_def touch_def by (auto; blast)

lemma places_taken:
  assumes "places ms (m # queued) answering" and "touch A ms ms'" and "A \<subseteq> {m}"
    and "answering' \<in> {[], [m], answering @ [m]}"
  shows "places ms' queued answering'"
  using assms by (auto simp: places_def touch_def)

abbreviation placed :: "wstate \<Rightarrow> bool" where
  "placed st \<equiv> places (w_markers st) (queued_markers (w_queue st)) (phase_markers (w_phase st))"

lemma placed_start_emit:
  assumes "places (w_markers st) (queued_markers (w_queue st)) (why_markers w)"
  shows "placed (start_emit now w st)"
  using places_answered [OF assms start_emit_touch [of w st now], of "phase_markers (w_phase (start_emit now w st))"]
    start_emit_frame [of now w st] by auto

lemma placed_drain:
  assumes p: "placed st"
  shows "placed (drain_step C now oc st)"
proof (cases "w_phase st")
  case Getting
  show ?thesis
  proof (cases "w_queue st")
    case (Cons it q)
    show ?thesis
    proof (cases it)
      case (Marker m)
      let ?st = "take_marker m (st\<lparr>w_queue := q\<rparr>)"
      have t: "touch {} (w_markers st) (w_markers ?st)" using take_marker_touch [of "{}" "st\<lparr>w_queue := q\<rparr>" m] by simp
      have "placed (start_emit now (ForMarker m) ?st)"
        by (rule placed_start_emit) (use places_taken [OF _ t, of m "queued_markers q" "[]" "[m]"] p Getting Cons Marker in simp)
      then show ?thesis using Getting Cons Marker by simp
    qed (use p Getting Cons in \<open>simp_all\<close>)
  qed (use p Getting in simp)
next
  case Filling
  then show ?thesis using p placed_start_emit [of st "ForBatch now" now] by simp
next
  case (InSink s w k t l)
  have "placed (emit_returned now w (settle True st))"
    using places_answered [OF p [unfolded InSink phase_markers.simps] emit_returned_touch [of w "settle True st" now, simplified settle_simps], of "[]"]
    by (simp add: emit_returned_phase)
  moreover have "placed (emit_killed x w (st\<lparr>w_in_flight := 0\<rparr>))" for x
    using places_answered [OF p emit_killed_touch [of "{}" "st\<lparr>w_in_flight := 0\<rparr>" x w, simplified], of "[]"] by simp
  moreover have "placed (lose_batch now w st)"
    using places_answered [OF p [unfolded InSink phase_markers.simps] lose_touch [of w st now], of "[]"] by (simp add: lose_frame)
  ultimately show ?thesis using p InSink by (cases oc) simp_all
next
  case (Waiting w k l)
  have "placed (lose_batch now w st)"
    using places_answered [OF p [unfolded Waiting phase_markers.simps] lose_touch [of w st now], of "[]"] by (simp add: lose_frame)
  then show ?thesis using p Waiting by (cases "w_deadline st") simp_all
next
  case (Collecting ms)
  show ?thesis
  proof (cases "w_queue st")
    case Nil
    then show ?thesis using p Collecting placed_start_emit [of st "ForFinal ms" now] by simp
  next
    case (Cons it q)
    show ?thesis
    proof (cases it)
      case (Marker m)
      let ?st = "take_marker m (st\<lparr>w_queue := q\<rparr>)"
      have t: "touch {} (w_markers st) (w_markers ?st)" using take_marker_touch [of "{}" "st\<lparr>w_queue := q\<rparr>" m] by simp
      show ?thesis using places_taken [OF _ t, of m "queued_markers q" ms "ms @ [m]"] p Collecting Cons Marker by simp
    qed (use p Collecting Cons in simp_all)
  qed
next
  case (Ending x)
  then show ?thesis using places_answered [OF p touch_refl [of "{}"], of "[]"] by simp
next
  case Releasing
  then show ?thesis using places_answered [OF p release_touch [of "{}"], of "[]"] by simp
qed (use p in simp_all)

subsection \<open>What the drain thread holds\<close>

text \<open>Where the drain thread is.\<close>

definition inside :: "wstate \<Rightarrow> nat option" where
  "inside st = (case w_phase st of InSink s w k t l \<Rightarrow> Some s | _ \<Rightarrow> None)"

lemma marker_ops_swap_frame:
  "w_sink (fold answer ms st) = w_sink st \<and> w_held (fold answer ms st) = w_held st \<and> w_swaps (fold answer ms st) = w_swaps st"
  "w_sink (fold let_go ms st) = w_sink st \<and> w_held (fold let_go ms st) = w_held st \<and> w_swaps (fold let_go ms st) = w_swaps st"
  "w_sink (fold set_event ms st) = w_sink st \<and> w_held (fold set_event ms st) = w_held st \<and> w_swaps (fold set_event ms st) = w_swaps st"
  by (induction ms arbitrary: st) simp_all

lemma emit_swap_frame [simp]:
  "w_sink (emit_returned now w st) = w_sink st" "w_held (emit_returned now w st) = w_held st"
  "w_swaps (emit_returned now w st) = w_swaps st" "w_sink (emit_killed x w st) = w_sink st"
  "w_held (emit_killed x w st) = w_held st" "w_swaps (emit_killed x w st) = w_swaps st"
  by (cases w; simp add: marker_ops_swap_frame)+

lemma start_emit_swap_frame [simp]:
  "w_sink (start_emit now w st) = w_sink st" "w_held (start_emit now w st) = w_held st" "w_swaps (start_emit now w st) = w_swaps st"
  "w_sink (lose_batch now w st) = w_sink st" "w_held (lose_batch now w st) = w_held st" "w_swaps (lose_batch now w st) = w_swaps st"
  "w_sink (release_waiters st) = w_sink st" "w_held (release_waiters st) = w_held st" "w_swaps (release_waiters st) = w_swaps st"
  by (simp_all add: start_emit_def lose_batch_def release_waiters_def marker_ops_swap_frame)

lemma release_phase [simp]: "w_phase (release_waiters st) = w_phase st"
proof -
  have "w_phase (fold set_event ms st) = w_phase st" for ms by (induction ms arbitrary: st) simp_all
  then show ?thesis by (simp add: release_waiters_def del: fold_append)
qed

lemma drain_swap_frame:
  "w_sink (drain_step C now oc st) = w_sink st \<and> w_held (drain_step C now oc st) = w_held st \<and>
   w_swaps (drain_step C now oc st) = w_swaps st"
  by (simp split: phase.splits list.splits item.splits outcome.splits option.splits)

text \<open>The drain thread enters the live sink and no other.\<close>

lemma not_inside:
  "w_phase (emit_returned now w st) \<noteq> InSink s w' k t l" "w_phase (start_emit now w st) \<noteq> InSink s w' k t l"
  "w_phase (lose_batch now w st) \<noteq> InSink s w' k t l"
  using start_emit_frame(3) [of now w st] by (auto simp: emit_returned_phase lose_frame split: if_splits)

lemma drain_enters: "inside (drain_step C now oc st) = Some s \<Longrightarrow> s = w_sink st"
  by (auto simp: not_inside inside_def
      split: phase.splits list.splits item.splits outcome.splits option.splits if_splits)

lemma marker_ops_length:
  "length (w_markers (set_event m st)) = length (w_markers st)" "length (w_markers (answer m st)) = length (w_markers st)"
  "length (w_markers (let_go m st)) = length (w_markers st)" "length (w_markers (take_marker m st)) = length (w_markers st)"
  by (simp_all add: set_event_def answer_def take_marker_def Let_def)

lemma fold_ops_length:
  assumes "\<And>m st. length (w_markers (f m st)) = length (w_markers st)"
  shows "length (w_markers (fold f ms st)) = length (w_markers st)"
  by (induction ms arbitrary: st) (simp_all add: assms)

lemmas fold_lengths = fold_ops_length [of set_event, OF marker_ops_length(1)] fold_ops_length [of answer, OF marker_ops_length(2)]
  fold_ops_length [of let_go, OF marker_ops_length(3)]

lemma emit_length:
  "length (w_markers (emit_returned now w st)) = length (w_markers st)"
  "length (w_markers (emit_killed x w st)) = length (w_markers st)"
  by (cases w; simp add: fold_lengths marker_ops_length del: let_go_frame)+

lemma drain_length: "length (w_markers (drain_step C now oc st)) = length (w_markers st)"
  by (simp add: start_emit_def lose_batch_def emit_length marker_ops_length release_waiters_def fold_lengths
      split: phase.splits list.splits item.splits outcome.splits option.splits)

text \<open>The marker of a swap's second flush is not queued yet, or still queued, or the thread is out
  of the displaced sink; and the sinks the thread may be inside are held.\<close>

definition fence_pending :: "wstate \<Rightarrow> swap \<Rightarrow> bool" where
  "fence_pending st sw \<longleftrightarrow> sw_old sw \<noteq> w_sink st \<and>
     (\<forall>m. sw_marker sw = Some m \<longrightarrow> m < length (w_markers st) \<and>
        (put_at (w_markers st) m \<longrightarrow> m \<in> set (queued_markers (w_queue st)) \<or> inside st \<noteq> Some (sw_old sw)))"

definition held_ok :: "wstate \<Rightarrow> bool" where
  "held_ok st \<longleftrightarrow> w_sink st \<in> set (w_held st) \<and> (\<forall>s. inside st = Some s \<longrightarrow> s \<in> set (w_held st))"

definition sinv :: "wstate \<Rightarrow> bool" where
  "sinv st \<longleftrightarrow> placed st \<and> held_ok st \<and> length (w_swaps st) \<le> 1 \<and> list_all (fence_pending st) (w_swaps st)"

lemma sinv_frame:
  assumes "sinv st" and "touch {} (w_markers st) (w_markers st')" and "queued_markers (w_queue st') = queued_markers (w_queue st)"
    and "w_phase st' = w_phase st" and "w_sink st' = w_sink st" "w_held st' = w_held st" "w_swaps st' = w_swaps st"
  shows "sinv st'"
proof -
  have i: "inside st' = inside st" by (simp add: inside_def assms(4))
  have "placed st" using assms(1) by (simp add: sinv_def)
  then have "placed st'" using places_answered [OF _ assms(2) empty_subsetI disjI1 [OF refl]] by (simp add: assms(3,4))
  moreover have "fence_pending st' sw" if "fence_pending st sw" for sw
    using that assms(2) by (auto simp: fence_pending_def i assms(3,5) touch_def)
  ultimately show ?thesis using assms(1) by (auto simp: sinv_def held_ok_def i assms(5-7) list_all_iff)
qed

lemma sinv_drain:
  assumes "sinv st"
  shows "sinv (drain_step C now oc st)"
proof -
  note f = drain_swap_frame [of C now oc st] and e = drain_enters [of C now oc st]
  have "fence_pending (drain_step C now oc st) sw" if "fence_pending st sw" for sw
    using that f e drain_length [of C now oc st] by (auto simp: fence_pending_def simp del: drain_step.simps)
  then show ?thesis using assms f e placed_drain [of st C now oc]
    by (auto simp: sinv_def held_ok_def list_all_iff simp del: drain_step.simps)
qed

lemma touch_snoc: "g_put mk = None \<Longrightarrow> \<not> mk_delivered mk \<Longrightarrow> touch A ms (ms @ [mk])"
  by (auto simp: touch_def put_at_def delivered_at_def nth_append less_Suc_eq)

lemma sinv_new_marker: "sinv st \<Longrightarrow> sinv (snd (new_marker st))"
  by (erule sinv_frame) (simp_all add: new_marker_def touch_snoc)

lemma sinv_put_marker:
  assumes s: "sinv st" and m: "m < length (w_markers st)" and n: "g_put (w_markers st ! m) = None"
    and w: "winv C st"
  shows "sinv (snd (put_marker C m late st))"
proof (cases "queue_full C st")
  case False
  let ?ms = "(w_markers st)[m := (w_markers st ! m)\<lparr>g_put := Some (length (g_accepted st))\<rparr>]"
  have p: "put_at ?ms x \<longleftrightarrow> x = m \<or> put_at (w_markers st) x" and d: "delivered_at ?ms x = delivered_at (w_markers st) x" for x
    using m by (auto simp: put_at_def delivered_at_def nth_list_update)
  have "\<not> put_at (w_markers st) m" using n by (simp add: put_at_def)
  moreover have "\<not> delivered_at (w_markers st) m"
    using base_mks [OF winv_base [OF w]] m n by (auto simp: mk_ok_def delivered_at_def)
  ultimately have "places ?ms (queued_markers (w_queue st) @ [m]) (phase_markers (w_phase st))"
    using s by (auto simp: sinv_def places_def p d)
  moreover have "fence_pending (snd (put_marker C m late st)) sw" if "fence_pending st sw" for sw
    using that False by (auto simp: fence_pending_def put_marker_def inside_def p)
  ultimately show ?thesis using s False by (auto simp: sinv_def held_ok_def put_marker_def inside_def list_all_iff)
qed (use s in \<open>simp add: put_marker_def\<close>)

lemma sinv_submit: "sinv st \<Longrightarrow> sinv (submit C evs after st)"
  by (erule sinv_frame) (simp_all add: submit_def count_undeliverable_def Let_def)

lemma sinv_request_stop: "sinv st \<Longrightarrow> sinv (request_stop C on_drain st)"
  by (erule sinv_frame) (simp_all add: request_stop_def Let_def)

lemma sinv_assign:
  assumes "sinv st" and "w_swaps st = []"
  shows "sinv (retarget_assign new drained st)"
  using assms by (auto simp: sinv_def retarget_assign_def held_ok_def fence_pending_def inside_def)

lemma only_swap:
  assumes "sinv st" and "i < length (w_swaps st)"
  obtains sw where "w_swaps st = [sw]" "i = 0"
  using assms by (cases "w_swaps st") (auto simp: sinv_def)

lemma sinv_unfenced:
  assumes "sinv st" and "i < length (w_swaps st)"
  shows "sinv (retarget_unfenced i st)"
proof -
  obtain sw where "w_swaps st = [sw]" "i = 0" by (rule only_swap [OF assms])
  then show ?thesis using assms(1) by (simp add: sinv_def retarget_unfenced_def held_ok_def inside_def)
qed

lemma sinv_fenced:
  assumes s: "sinv st" and w: "winv C st" and i: "i < length (w_swaps st)" and k: "sw_marker (w_swaps st ! i) = Some m"
    and "flush_answer gave_up timed_out st m = Ok"
  shows "sinv (retarget_fenced i st)"
proof -
  have f: "fence_pending st (w_swaps st ! i)" using s i by (simp add: sinv_def list_all_length)
  then have m: "m < length (w_markers st)" using k by (simp add: fence_pending_def)
  have "delivered_at (w_markers st) m"
    using assms(5) m by (auto simp: flush_answer_def Let_def delivered_at_def split: if_splits)
  moreover from this have "put_at (w_markers st) m"
    using base_mks [OF winv_base [OF w]] m by (force simp: mk_ok_def delivered_at_def put_at_def)
  ultimately have o: "inside st \<noteq> Some (sw_old (w_swaps st ! i))" "sw_old (w_swaps st ! i) \<noteq> w_sink st"
    using f s k by (auto simp: fence_pending_def sinv_def places_def)
  obtain sw where sw: "w_swaps st = [sw]" "i = 0" by (rule only_swap [OF s i])
  have "held_ok (retarget_fenced i st)"
    using s o by (auto simp: sinv_def held_ok_def retarget_fenced_def inside_def)
  then show ?thesis using s sw by (simp add: sinv_def retarget_fenced_def)
qed

lemma sinv_second_flush:
  assumes s: "sinv st" and i: "i < length (w_swaps st)" and n: "new_marker st = (m, st')"
  shows "sinv (st'\<lparr>w_swaps := (w_swaps st)[i := (w_swaps st ! i)\<lparr>sw_marker := Some m\<rparr>]\<rparr>)"
proof -
  have s': "sinv st'" using sinv_new_marker [OF s] n by simp
  have m: "m = length (w_markers st)" "length (w_markers st') = Suc m" "g_put (w_markers st' ! m) = None" "w_swaps st' = w_swaps st"
    using n by (auto simp: new_marker_def)
  let ?st = "st'\<lparr>w_swaps := (w_swaps st)[i := (w_swaps st ! i)\<lparr>sw_marker := Some m\<rparr>]\<rparr>"
  have "fence_pending ?st ((w_swaps st ! i)\<lparr>sw_marker := Some m\<rparr>)"
    using s' i m by (simp add: sinv_def list_all_length fence_pending_def put_at_def)
  moreover obtain sw where "w_swaps st = [sw]" "i = 0" by (rule only_swap [OF s i])
  ultimately have "list_all (fence_pending ?st) (w_swaps ?st)" by simp
  then show ?thesis using s' m(4) by (simp add: sinv_def held_ok_def inside_def)
qed

lemma sinv_step:
  assumes "wstep C True st st'" and s: "sinv st" and w: "winv C st"
  shows "sinv st'"
  using assms(1)
proof cases
  case (claim_stop on_drain deadline)
  show ?thesis unfolding claim_stop by (rule sinv_frame [OF s]) (simp_all add: claim_stop_def)
next
  case retire
  show ?thesis unfolding retire by (rule sinv_frame [OF s]) simp_all
next
  case signal
  show ?thesis unfolding signal by (rule sinv_frame [OF s]) simp_all
next
  case join_expired
  show ?thesis unfolding join_expired(1) by (rule sinv_frame [OF s]) (simp_all add: join_expired_def)
next
  case release
  show ?thesis unfolding release by (rule sinv_frame [OF s release_touch]) simp_all
next
  case (second_flush i m st1)
  show ?thesis unfolding second_flush(1) by (rule sinv_second_flush [OF s second_flush(2,5)])
next
  case (fenced i m gave_up timed_out)
  show ?thesis unfolding fenced(1) by (rule sinv_fenced [OF s w fenced(2-4)])
next
  case (assign new drained)
  then show ?thesis using sinv_assign [OF s] by simp
qed (use s w in \<open>simp_all add: sinv_submit sinv_new_marker sinv_put_marker sinv_drain sinv_request_stop sinv_unfenced del: drain_step.simps\<close>)

lemma sinv_reachable: "reachable C True st \<Longrightarrow> sinv st"
proof (induction rule: reachable.induct)
  case (init sink now)
  show ?case by (simp add: sinv_def held_ok_def places_def inside_def new_worker_def)
next
  case (step st st')
  then show ?case using sinv_step [OF step.hyps(2)] winv_reachable by blast
qed

lemma inside_held: "reachable C True st \<Longrightarrow> inside st = Some s \<Longrightarrow> may_be_inside st s"
  using sinv_reachable [of C st]
  by (auto simp: sinv_def held_ok_def may_be_inside_def thread_alive_def inside_def split: phase.splits)

text \<open>C14. While swaps do not overlap, the question the closer asks before it closes a displaced sink
  has a sound answer in every interleaving: if the drain thread is inside a sink, that sink may be
  inside; and the live sink is always among those the worker holds.\<close>

theorem no_close_while_inside:
  assumes "reachable C True st"
  shows "w_sink st \<in> set (w_held st) \<and> (\<forall>s. inside st = Some s \<longrightarrow> may_be_inside st s)"
  using sinv_reachable [OF assms] inside_held [OF assms] by (simp add: sinv_def held_ok_def)

text \<open>One swap, fenced, with a batch delivered to the new sink.\<close>

definition swapped :: wstate where
  "swapped = fold (\<lambda>_. drain_step tiny_cfg 1 Returned) [1, 2, 3, 4 :: nat] (submit tiny_cfg [[]] False (retarget_assign 1 True (new_worker 0 0)))"

lemma swapped_reachable: "reachable tiny_cfg True swapped"
  unfolding swapped_def fold.simps comp_def id_def
  by (intro reachable.step [OF _ wstep.drain] reachable.step [OF _ wstep.submit] reachable.step [OF _ wstep.assign] reachable.init)
    (simp_all add: new_worker_def retarget_assign_def)

lemma swapped_inside: "inside swapped = Some 1"
  by (simp add: swapped_def tiny_cfg_def submit_def retarget_assign_def new_worker_def queue_full_def start_emit_def inside_def Let_def)

theorem no_close_while_inside_witness:
  "w_sink swapped \<in> set (w_held swapped) \<and> inside swapped = Some 1 \<and> may_be_inside swapped 1"
  using no_close_while_inside [OF swapped_reachable] swapped_inside by simp

subsection \<open>Overlapping swaps\<close>

text \<open>A swap from sink 0 to sink 1 and, before its fence, another one back to sink 0: the fence of
  the first swap takes sink 0, now the live one, out of the held sinks.\<close>

definition back_swapped :: wstate where
  "back_swapped = retarget_assign 0 True (retarget_assign 1 True (new_worker 0 0))"

definition back_flushing :: wstate where
  "back_flushing = (snd (new_marker back_swapped))\<lparr>w_swaps := (w_swaps back_swapped)[0 := (w_swaps back_swapped ! 0)\<lparr>sw_marker := Some 0\<rparr>]\<rparr>"

definition back_answered :: wstate where
  "back_answered = drain_step tiny_cfg 0 Returned (drain_step tiny_cfg 0 Returned (snd (put_marker tiny_cfg 0 False back_flushing)))"

definition back_fenced :: wstate where
  "back_fenced = retarget_fenced 0 back_answered"

definition back_inside :: wstate where
  "back_inside = fold (\<lambda>_. drain_step tiny_cfg 1 Returned) [1, 2, 3, 4 :: nat] (submit tiny_cfg [[]] False back_fenced)"

lemmas back_evals = back_swapped_def back_flushing_def back_answered_def back_fenced_def retarget_assign_def retarget_fenced_def
  new_worker_def new_marker_def put_marker_def queue_full_def tiny_cfg_def start_emit_def take_marker_def
  settle_def answer_def let_go_def release_marker_def set_event_def nothing_lost_since_def Let_def

lemma back_answered_eval:
  "w_swaps back_answered = [\<lparr>sw_old = 0, sw_drained = True, sw_marker = Some 0\<rparr>, \<lparr>sw_old = 1, sw_drained = True, sw_marker = None\<rparr>]"
  "flush_answer False False back_answered 0 = Ok"
  by (simp_all add: back_evals flush_answer_def drain_settled_def given_up_def thread_alive_def)

lemma back_flushing_reachable: "reachable tiny_cfg False back_flushing"
proof -
  have "reachable tiny_cfg False back_swapped" unfolding back_swapped_def
    by (intro reachable.step [OF _ wstep.assign] reachable.init) simp_all
  moreover have "wstep tiny_cfg False back_swapped back_flushing"
    unfolding back_flushing_def by (rule wstep.second_flush) (simp_all add: back_evals)
  ultimately show ?thesis by (rule reachable.step)
qed

lemma back_inside_reachable: "reachable tiny_cfg False back_inside"
proof -
  have "reachable tiny_cfg False back_answered" unfolding back_answered_def
    by (intro reachable.step [OF _ wstep.drain] reachable.step [OF _ wstep.put_marker] back_flushing_reachable)
      (simp_all add: back_flushing_def back_evals)
  moreover have "wstep tiny_cfg False back_answered back_fenced"
    unfolding back_fenced_def by (rule wstep.fenced [OF _ _ back_answered_eval(2)]) (simp_all add: back_answered_eval(1))
  ultimately have "reachable tiny_cfg False back_fenced" by (rule reachable.step)
  then show ?thesis unfolding back_inside_def fold.simps comp_def id_def
    by (intro reachable.step [OF _ wstep.drain] reachable.step [OF _ wstep.submit])
      (simp_all add: back_evals)
qed

text \<open>C15. Overlapping swaps defeat the question: there is a run in which the drain thread is inside
  the live sink, which the worker holds no more, so that the closer would take it.\<close>

theorem overlapping_swaps_lose_live_sink:
  "\<exists>st. reachable tiny_cfg False st \<and> inside st = Some (w_sink st) \<and> \<not> may_be_inside st (w_sink st)"
proof (intro exI conjI)
  show "inside back_inside = Some (w_sink back_inside)" "\<not> may_be_inside back_inside (w_sink back_inside)"
    by (simp_all add: back_inside_def submit_def back_evals inside_def may_be_inside_def)
qed (rule back_inside_reachable)

end
