(* ===== verification/Ownership.thy ===== *)
theory Ownership
  imports Objects
begin

text \<open>
  Which sinks a process may close (\<^verbatim>\<open>src/log_foundry/_lifecycle.py\<close>, lines 553 to 1150). Sinks are
  recorded with the process that acquired them; a forked child lays a mark over every sink it can
  reach from what it inherited, so that it never closes a transport its parent still uses.
\<close>

subsection \<open>Finding sinks\<close>

definition FOREIGN :: int where "FOREIGN = -1"

definition MARKING_CEILING :: nat where "MARKING_CEILING = 100000"

definition may_be_a_sink :: "ograph \<Rightarrow> nat \<Rightarrow> bool" where
  "may_be_a_sink G v \<longleftrightarrow> \<not> ob_plain (G ! v)"

definition bounded_children :: "ograph \<Rightarrow> nat \<Rightarrow> nat list" where
  "bounded_children G c =
     (case ob_contents (G ! c) of
        Some (DictOf ks vs) \<Rightarrow> take MARKING_CEILING ks @ take MARKING_CEILING vs
      | Some (SeqOf xs) \<Rightarrow> take MARKING_CEILING xs
      | _ \<Rightarrow> [])"

text \<open>\<open>None\<close> when the structural test raises.\<close>

definition is_candidate :: "ograph \<Rightarrow> nat \<Rightarrow> bool option" where
  "is_candidate G v =
     (if \<not> may_be_a_sink G v then Some False
      else case ob_sink (G ! v) of None \<Rightarrow> None | Some b \<Rightarrow> Some (b \<or> is_owned G v))"

fun candidates :: "ograph \<Rightarrow> nat list \<Rightarrow> nat list option" where
  "candidates G [] = Some []"
| "candidates G (v # vs) =
     (case is_candidate G v of
        None \<Rightarrow> None
      | Some b \<Rightarrow> (case candidates G vs of None \<Rightarrow> None | Some cs \<Rightarrow> Some (if b then v # cs else cs)))"

fun held_candidates :: "ograph \<Rightarrow> (pystr \<times> nat) list \<Rightarrow> nat list option" where
  "held_candidates G [] = Some []"
| "held_candidates G ((n, v) # items) =
     (case is_candidate G v of
        None \<Rightarrow> None
      | Some b \<Rightarrow>
          (case (if b then Some [v] else if is_container G v then candidates G (bounded_children G v) else Some []) of
             None \<Rightarrow> None
           | Some cs \<Rightarrow> (case held_candidates G items of None \<Rightarrow> None | Some ds \<Rightarrow> Some (cs @ ds))))"

definition reach_visit :: "ograph \<Rightarrow> nat \<Rightarrow> nat list \<Rightarrow> (nat list \<times> nat list) option" where
  "reach_visit G x found =
     (case ob_sink (G ! x) of
        None \<Rightarrow> None
      | Some b \<Rightarrow>
          (let found = (if b then found @ [x] else found)
           in if \<not> is_owned G x then Some (found, [])
              else case held_candidates G (namespace_items G x) of None \<Rightarrow> None | Some cs \<Rightarrow> Some (found, cs)))"

definition reachable_sinks :: "ograph \<Rightarrow> nat \<Rightarrow> nat list option" where
  "reachable_sinks G root =
     (case walk (length G) None (\<lambda>x. \<not> may_be_a_sink G x) (reach_visit G) [root] [] [] of
        Walked seen found \<Rightarrow> Some found
      | _ \<Rightarrow> None)"

subsection \<open>The record\<close>

text \<open>The record is keyed by identity and holds the process and a reference.\<close>

record ownership =
  own_records :: "(nat, int \<times> nat) dict"
  own_failed :: bool                    \<comment> \<open>\<^verbatim>\<open>_marking_failed\<close>\<close>

definition setdefault :: "'k \<Rightarrow> 'v \<Rightarrow> ('k, 'v) dict \<Rightarrow> ('k, 'v) dict" where
  "setdefault k v d = (case dict_get d k of None \<Rightarrow> dict_set k v d | Some _ \<Rightarrow> d)"

definition record_all :: "int \<Rightarrow> nat list \<Rightarrow> ownership \<Rightarrow> ownership" where
  "record_all pid found own = own\<lparr>own_records := fold (\<lambda>s. setdefault s (pid, s)) found (own_records own)\<rparr>"

definition reclaim :: "int \<Rightarrow> nat \<Rightarrow> ownership \<Rightarrow> ownership" where
  "reclaim pid s own = own\<lparr>own_records := dict_set s (pid, s) (own_records own)\<rparr>"

definition stamp :: "ograph \<Rightarrow> int \<Rightarrow> nat \<Rightarrow> ownership \<Rightarrow> ownership" where
  "stamp G pid s own =
     (case reachable_sinks G s of None \<Rightarrow> own | Some found \<Rightarrow> record_all pid found own)"

definition releasable :: "int \<Rightarrow> nat \<Rightarrow> nat option \<Rightarrow> ownership \<Rightarrow> bool" where
  "releasable pid s owner own =
     (case dict_get (own_records own) s of
        Some (p, r) \<Rightarrow> r = s \<and> p = pid
      | None \<Rightarrow> (case owner of None \<Rightarrow> True | Some w \<Rightarrow> dict_get (own_records own) w = None) \<and> \<not> own_failed own)"

subsection \<open>Marking what a child inherited\<close>

definition inheritance_roots :: "nat option \<Rightarrow> nat option \<Rightarrow> nat list \<Rightarrow> ownership \<Rightarrow> nat list" where
  "inheritance_roots configured worker_sink owed own =
     List.map_filter id [configured, worker_sink] @ owed @ map (\<lambda>(k, p, r). r) (own_records own)"

definition mark_succs :: "ograph \<Rightarrow> nat \<Rightarrow> nat list" where
  "mark_succs G x =
     (if is_container G x then bounded_children G x
      else if \<not> may_be_a_sink G x then []
      else filter (\<lambda>v. is_container G v \<or> may_be_a_sink G v) (map snd (namespace_items G x)))"

definition mark_visit :: "ograph \<Rightarrow> nat \<Rightarrow> nat list \<Rightarrow> (nat list \<times> nat list) option" where
  "mark_visit G x found =
     (if may_be_a_sink G x
      then (case ob_sink (G ! x) of
              None \<Rightarrow> None
            | Some b \<Rightarrow> Some (if b then found @ [x] else found, mark_succs G x))
      else Some (found, mark_succs G x))"

definition mark_inherited :: "ograph \<Rightarrow> int \<Rightarrow> nat list \<Rightarrow> nat list \<Rightarrow> ownership \<Rightarrow> ownership" where
  "mark_inherited G pid roots reacquired own =
     fold (reclaim pid) reacquired
       (case walk (length G) (Some MARKING_CEILING) (is_module G) (mark_visit G) (rev roots) [] [] of
          Walked seen found \<Rightarrow> record_all FOREIGN found own
        | Stopped seen left found \<Rightarrow> record_all FOREIGN found (own\<lparr>own_failed := True\<rparr>)
        | WalkRaised \<Rightarrow> own\<lparr>own_failed := True\<rparr>)"

subsection \<open>Laws of the record\<close>

lemma dict_get_setdefault [simp]:
  "dict_get (setdefault k v d) k' = (if k' = k \<and> dict_get d k = None then Some v else dict_get d k')"
  by (auto simp: setdefault_def split: option.splits)

lemma record_all_get:
  "dict_get (own_records (record_all pid found own)) s =
     (case dict_get (own_records own) s of
        Some r \<Rightarrow> Some r
      | None \<Rightarrow> if s \<in> set found then Some (pid, s) else None)"
proof -
  have "dict_get (fold (\<lambda>s. setdefault s (pid, s)) found d) s =
      (case dict_get d s of Some r \<Rightarrow> Some r | None \<Rightarrow> if s \<in> set found then Some (pid, s) else None)" for d
    by (induction found arbitrary: d) (auto split: option.splits)
  then show ?thesis by (simp add: record_all_def)
qed

lemma record_all_failed [simp]: "own_failed (record_all pid found own) = own_failed own"
  by (simp add: record_all_def)

lemma reclaim_all_get:
  "dict_get (own_records (fold (reclaim pid) ss own)) s = (if s \<in> set ss then Some (pid, s) else dict_get (own_records own) s)"
  "own_failed (fold (reclaim pid) ss own) = own_failed own"
  by (induction ss arbitrary: own) (auto simp: reclaim_def)

text \<open>A sink that this process has no claim to: recorded for another one, or not recorded after the
  marking failed.\<close>

definition disowned :: "int \<Rightarrow> nat \<Rightarrow> ownership \<Rightarrow> bool" where
  "disowned pid s own \<longleftrightarrow> (case dict_get (own_records own) s of Some (p, r) \<Rightarrow> p \<noteq> pid | None \<Rightarrow> own_failed own)"

lemma disowned_not_releasable: "disowned pid s own \<Longrightarrow> \<not> releasable pid s owner own"
  by (auto simp: disowned_def releasable_def split: option.splits)

interpretation sink_walk: graph_walk "length G" None "\<lambda>x. \<not> may_be_a_sink G x" "reach_visit G"
  "\<lambda>x. if is_owned G x then the (held_candidates G (namespace_items G x)) else []" "\<lambda>_ _. True" for G
  by unfold_locales (auto simp: reach_visit_def Let_def split: option.splits if_splits)

interpretation mark_walk: graph_walk "length G" "Some MARKING_CEILING" "is_module G" "mark_visit G" "mark_succs G" "\<lambda>_ _. True" for G
  by unfold_locales (auto simp: mark_visit_def split: option.splits if_splits)

lemma mark_found:
  assumes "walk (length G) (Some MARKING_CEILING) (is_module G) (mark_visit G) roots [] [] = Walked seen found"
  shows "set found = {x \<in> set seen. may_be_a_sink G x \<and> ob_sink (G ! x) = Some True}"
proof -
  let ?P = "\<lambda>stack seen found. set found = {x \<in> set seen. may_be_a_sink G x \<and> ob_sink (G ! x) = Some True}"
  have "?P [] seen found"
    using assms
  proof (rule walk_rule [where P = ?P])
    fix x stack seen found found' pushed
    assume P: "?P (x # stack) seen found" and "mark_visit G x found = Some (found', pushed)"
    then have "set found' = (if may_be_a_sink G x \<and> ob_sink (G ! x) = Some True then insert x (set found) else set found)"
      by (simp add: mark_visit_def split: if_splits option.splits) fastforce
    then show "?P (rev pushed @ stack) (x # seen) found'" unfolding P by auto
  qed simp_all
  then show ?thesis .
qed

subsection \<open>A child never closes what it inherited\<close>

text \<open>What a child holds of its parent's objects: the roots, the members of containers, and the
  attributes of objects, modules apart.\<close>

inductive_set inherited :: "ograph \<Rightarrow> nat list \<Rightarrow> nat set" for G roots where
  root: "r \<in> set roots \<Longrightarrow> r < length G \<Longrightarrow> \<not> is_module G r \<Longrightarrow> r \<in> inherited G roots"
| member: "c \<in> inherited G roots \<Longrightarrow> v \<in> set (container_children G c) \<Longrightarrow> \<not> is_module G v \<Longrightarrow> v \<in> inherited G roots"
| attribute: "h \<in> inherited G roots \<Longrightarrow> \<not> is_container G h \<Longrightarrow> may_be_a_sink G h \<Longrightarrow>
    (n, v) \<in> set (namespace_items G h) \<Longrightarrow> \<not> is_module G v \<Longrightarrow> v \<in> inherited G roots"

definition small_containers :: "ograph \<Rightarrow> bool" where
  "small_containers G \<longleftrightarrow>
     list_all (\<lambda>ob. case ob_contents ob of
        Some (DictOf ks vs) \<Rightarrow> length ks \<le> MARKING_CEILING \<and> length vs \<le> MARKING_CEILING
      | Some (SeqOf xs) \<Rightarrow> length xs \<le> MARKING_CEILING
      | _ \<Rightarrow> True) G"

lemma bounded_is_all: "small_containers G \<Longrightarrow> c < length G \<Longrightarrow> bounded_children G c = container_children G c"
  by (auto simp: small_containers_def list_all_length bounded_children_def container_children_def
      split: option.splits contents.splits)

lemma children_container: "v \<in> set (container_children G c) \<Longrightarrow> is_container G c"
  by (cases "ob_contents (G ! c)") (simp_all add: container_children_def is_container_def)

lemma inherited_bound:
  assumes "wf_graph G" and "x \<in> inherited G roots"
  shows "x < length G"
  using assms(2)
  by (induction rule: inherited.induct) (auto intro: container_children_bound [OF assms(1)] namespace_items_bound [OF assms(1)])

lemma inherited_walked:
  assumes wf: "wf_graph G" and small: "small_containers G" and "x \<in> inherited G roots"
  shows "x \<in> mark_walk.reach G (rev roots) \<or> \<not> is_container G x \<and> \<not> may_be_a_sink G x"
  using assms(3)
proof (induction rule: inherited.induct)
  case (member c v)
  have c: "is_container G c" by (rule children_container [OF member.hyps(2)])
  then have "c \<in> mark_walk.reach G (rev roots)" using member.IH by simp
  moreover have "v \<in> set (mark_succs G c)"
    using c member.hyps bounded_is_all [OF small inherited_bound [OF wf member.hyps(1)]] by (simp add: mark_succs_def)
  moreover have "mark_walk.live G v" using member.hyps container_children_bound [OF wf inherited_bound [OF wf]]
    by (simp add: mark_walk.live_def)
  ultimately show ?case by (blast intro: mark_walk.reach.edge)
next
  case (attribute h n v)
  show ?case
  proof (cases "is_container G v \<or> may_be_a_sink G v")
    case True
    then have "v \<in> set (mark_succs G h)" using attribute.hyps by (force simp: mark_succs_def)
    moreover have "mark_walk.live G v"
      using attribute.hyps namespace_items_bound [OF wf inherited_bound [OF wf]] by (simp add: mark_walk.live_def)
    ultimately show ?thesis using attribute by (blast intro: mark_walk.reach.edge)
  qed simp
qed (simp add: mark_walk.reach.root mark_walk.live_def)

lemma marked_disowned:
  assumes "pid \<noteq> FOREIGN" and "\<forall>k p r. dict_get (own_records own) k = Some (p, r) \<longrightarrow> p \<noteq> pid"
    and "own_failed own \<or> s \<in> set found"
  shows "disowned pid s (record_all FOREIGN found own)"
  using assms by (auto simp: disowned_def record_all_get split: option.splits)

lemma mark_inherited_disowns:
  assumes wf: "wf_graph G" and small: "small_containers G" and pid: "pid \<noteq> FOREIGN"
    and others: "\<forall>k p r. dict_get (own_records own) k = Some (p, r) \<longrightarrow> p \<noteq> pid"
    and s: "s \<in> inherited G roots" "may_be_a_sink G s" "ob_sink (G ! s) = Some True" and r: "s \<notin> set reacquired"
  shows "disowned pid s (mark_inherited G pid roots reacquired own)"
proof -
  let ?walk = "walk (length G) (Some MARKING_CEILING) (is_module G) (mark_visit G) (rev roots) [] []"
  have "s \<in> set found" if "?walk = Walked seen found" for seen found
    using inherited_walked [OF wf small s(1)] s(2,3) mark_walk.walk_visits [OF that TrueI] mark_found [OF that] by simp
  then have "disowned pid s (case ?walk of
      Walked seen found \<Rightarrow> record_all FOREIGN found own
    | Stopped seen left found \<Rightarrow> record_all FOREIGN found (own\<lparr>own_failed := True\<rparr>)
    | WalkRaised \<Rightarrow> own\<lparr>own_failed := True\<rparr>)" (is "disowned pid s ?own")
    using pid others marked_disowned [of pid own s] marked_disowned [of pid "own\<lparr>own_failed := True\<rparr>" s]
    by (auto simp: disowned_def split: walked.split option.splits)
  then show ?thesis unfolding mark_inherited_def disowned_def reclaim_all_get if_not_P [OF r] .
qed


text \<open>A configured wrapper of the library around a third-party holder that keeps a sink in a list,
  and a forked child of that process.\<close>

definition plain_object :: gobject where
  "plain_object = \<lparr>ob_kind = Instance, ob_plain = False, ob_sink = Some False, ob_mro = [], ob_contents = None,
     ob_vars = NoVars, ob_slots = [], ob_primitive = None, ob_skip = [], ob_rigid = False, ob_reacquire = None\<rparr>"

definition wrapped_graph :: ograph where
  "wrapped_graph =
     [plain_object\<lparr>ob_sink := Some True, ob_vars := Vars [(str ''inner'', 1)]\<rparr>,
      plain_object\<lparr>ob_vars := Vars [(str ''targets'', 2)]\<rparr>,
      plain_object\<lparr>ob_plain := True, ob_contents := Some (SeqOf [3])\<rparr>,
      plain_object\<lparr>ob_sink := Some True\<rparr>]"

definition parent_record :: ownership where
  "parent_record = \<lparr>own_records = [(0, 100, 0)], own_failed = False\<rparr>"

lemmas wrapped_evals = wrapped_graph_def plain_object_def is_module_def is_container_def may_be_a_sink_def
  namespace_items_def container_children_def

lemma wrapped_inherited: "3 \<in> inherited wrapped_graph [0]"
proof -
  have 0: "0 \<in> inherited wrapped_graph [0]" by (rule inherited.root) (simp_all add: wrapped_evals)
  have 1: "1 \<in> inherited wrapped_graph [0]"
    by (rule inherited.attribute [OF 0, where n = "str ''inner''"]) (simp_all add: wrapped_evals)
  have 2: "2 \<in> inherited wrapped_graph [0]"
    by (rule inherited.attribute [OF 1, where n = "str ''targets''"]) (simp_all add: wrapped_evals)
  show ?thesis by (rule inherited.member [OF 2]) (simp_all add: wrapped_evals numeral_eq_Suc)
qed


subsection \<open>A process closes what it acquired\<close>

text \<open>A sink that the stamping walk finds, and that nobody had recorded, becomes this process's.\<close>

lemma stamp_releasable:
  assumes "reachable_sinks G root = Some found" and "s \<in> set found" and "dict_get (own_records own) s = None"
  shows "releasable pid s owner (stamp G pid root own)"
  using assms by (simp add: stamp_def releasable_def record_all_get)

lemma stamp_keeps_records:
  "dict_get (own_records own) s = Some r \<Longrightarrow> dict_get (own_records (stamp G pid root own)) s = Some r"
  by (simp add: stamp_def record_all_get split: option.splits)

text \<open>The refusal of unrecorded sinks after a failed marking does not survive a stamp: the child
  that configures such a sink acquires it.\<close>

lemma failed_marking_stamp_acquires:
  assumes "own_failed own" and "dict_get (own_records own) s = None" and "reachable_sinks G s = Some found" and "s \<in> set found"
  shows "\<not> releasable pid s None own \<and> releasable pid s None (stamp G pid s own)"
  using assms stamp_releasable [OF assms(3,4,2)] by (simp add: releasable_def)

subsection \<open>Members beyond the ceiling\<close>

text \<open>The walk reads at most the ceiling's number of members of a container and does not notice that
  it left some out. If they repeat, the number of visited objects stays small and the walk counts
  as complete.\<close>

definition repeating_graph :: ograph where
  "repeating_graph =
     [plain_object\<lparr>ob_plain := True, ob_contents := Some (SeqOf (replicate MARKING_CEILING 1 @ [2]))\<rparr>,
      plain_object\<lparr>ob_plain := True\<rparr>,
      plain_object\<lparr>ob_sink := Some True\<rparr>]"

lemma walk_seen_again:
  "x \<in> set seen \<Longrightarrow> length seen < l \<Longrightarrow> walk bound (Some l) skip visit (replicate n x) seen s = Walked seen s"
  by (induction n) simp_all

lemma repeating_walk:
  "walk (length repeating_graph) (Some MARKING_CEILING) (is_module repeating_graph) (mark_visit repeating_graph) [0] [] [] =
     Walked [1, 0] []"
proof -
  have v: "mark_visit repeating_graph 0 [] = Some ([], replicate MARKING_CEILING 1)"
    "mark_visit repeating_graph 1 [] = Some ([], [])"
    by (simp_all add: mark_visit_def mark_succs_def repeating_graph_def wrapped_evals bounded_children_def)
  have c: "MARKING_CEILING = Suc 99999" by (simp add: MARKING_CEILING_def)
  have r: "replicate MARKING_CEILING x = x # replicate 99999 x" for x :: nat unfolding c by (rule replicate_Suc)
  have g: "length repeating_graph = 3" "\<not> is_module repeating_graph 0" "\<not> is_module repeating_graph 1"
    by (simp_all add: repeating_graph_def wrapped_evals)
  have l: "0 < MARKING_CEILING" "Suc 0 < MARKING_CEILING" "Suc (Suc 0) < MARKING_CEILING" by (simp_all add: MARKING_CEILING_def)
  show ?thesis using v g l walk_seen_again [of 1 "[1, 0]" MARKING_CEILING] by (simp add: r replicate_append_same)
qed

lemma member_beyond_ceiling_released:
  "2 \<in> inherited repeating_graph [0] \<and> releasable 200 2 None (mark_inherited repeating_graph 200 [0] [] parent_record)"
proof
  have 0: "0 \<in> inherited repeating_graph [0]" by (rule inherited.root) (simp_all add: repeating_graph_def wrapped_evals)
  show "2 \<in> inherited repeating_graph [0]"
    by (rule inherited.member [OF 0]) (simp_all add: repeating_graph_def wrapped_evals)
  show "releasable 200 2 None (mark_inherited repeating_graph 200 [0] [] parent_record)"
    using repeating_walk by (simp add: mark_inherited_def releasable_def record_all_get parent_record_def)
qed

end
