(* ===== verification/Lifecycle.thy ===== *)
theory Lifecycle
  imports Worker_Swap Ownership
begin

text \<open>
  The process lifecycle of \<^verbatim>\<open>src/log_foundry/_lifecycle.py\<close>: one record of the sinks that are owed a
  close, one registry of the closes under way, the worker, the stop signal, and the operations that
  arm, swap, take and close sinks. Each operation is one critical section; what happens to a sink
  between being taken and being closed is a task with its own steps, so that the step relation
  \<open>lstep\<close> covers every interleaving of logging, swapping, closing and shutting down with the
  worker's own machine, which is part of the state.
\<close>

subsection \<open>State\<close>

datatype stage =
    Taken                              \<comment> \<open>registered, still with the thread that took it\<close>
  | Handed                             \<comment> \<open>handed to the thread that closes it\<close>
  | Running                            \<comment> \<open>inside \<^verbatim>\<open>close()\<close>\<close>

record task =
  tk_sink :: nat
  tk_reg :: nat                        \<comment> \<open>the registration it holds\<close>
  tk_detached :: bool
  tk_stage :: stage

text \<open>What became of sinks, for the statements: no operation reads it.\<close>

datatype happening = Armed nat | Closed nat | Refused nat | Unstarted nat

record life =
  l_worker :: "wstate option"
  l_epoch :: nat                       \<comment> \<open>the worker's\<close>
  l_worker_signal :: nat               \<comment> \<open>the stop signal the worker was built with\<close>
  l_atexit :: bool
  l_owed :: "nat list"
  l_signal :: nat
  l_signal_set :: bool
  l_retirements :: nat
  l_running :: nat                     \<comment> \<open>\<^verbatim>\<open>_shutdown_running\<close>\<close>
  l_late :: bool                       \<comment> \<open>\<^verbatim>\<open>_late_worker\<close> is the worker\<close>
  l_closing :: "(nat, nat) dict"       \<comment> \<open>\<^verbatim>\<open>_closing_now\<close>\<close>
  l_next :: nat
  l_offers :: "(nat, nat) dict"        \<comment> \<open>the stop signal each sink was handed\<close>
  l_pid :: int
  l_owned :: ownership
  l_tasks :: "task list"
  g_log :: "happening list"

record lcfg =
  lc_worker :: wcfg
  lc_takes_signal :: "nat \<Rightarrow> bool"      \<comment> \<open>the sink has a \<^verbatim>\<open>log_foundry_stop_signal\<close>\<close>

definition new_life :: "int \<Rightarrow> ownership \<Rightarrow> life" where
  "new_life pid own =
     \<lparr>l_worker = None, l_epoch = 0, l_worker_signal = 0, l_atexit = False, l_owed = [], l_signal = 0,
      l_signal_set = False, l_retirements = 0, l_running = 0, l_late = False, l_closing = [], l_next = 0,
      l_offers = [], l_pid = pid, l_owned = own, l_tasks = [], g_log = []\<rparr>"

definition worker_exists :: "life \<Rightarrow> wstate option" where
  "worker_exists st = l_worker st"

definition live_worker :: "life \<Rightarrow> wstate option" where
  "live_worker st = (if l_retirements st > l_epoch st then None else l_worker st)"

subsection \<open>The registry of closes\<close>

definition closing :: "life \<Rightarrow> nat \<Rightarrow> bool" where
  "closing st s \<longleftrightarrow> dict_get (l_closing st) s \<noteq> None"

definition register_closing :: "nat \<Rightarrow> life \<Rightarrow> nat \<times> life" where
  "register_closing s st =
     (case dict_get (l_closing st) s of
        Some r \<Rightarrow> (r, st)
      | None \<Rightarrow> (l_next st, st\<lparr>l_closing := dict_set s (l_next st) (l_closing st), l_next := l_next st + 1\<rparr>))"

definition finish_closing :: "nat \<Rightarrow> nat \<Rightarrow> life \<Rightarrow> life" where
  "finish_closing s r st =
     (if dict_get (l_closing st) s = Some r
      then st\<lparr>l_closing := filter (\<lambda>(k, v). k \<noteq> s) (l_closing st)\<rparr> else st)"

text \<open>The two questions about the moment: is anything delivering to this sink or closing it, and may
  anything still be inside it.\<close>

definition in_flight :: "life \<Rightarrow> nat \<Rightarrow> bool" where
  "in_flight st s \<longleftrightarrow>
     (case l_worker st of Some w \<Rightarrow> w_sink w = s \<and> \<not> w_settled w | None \<Rightarrow> False) \<or> closing st s"

definition held :: "life \<Rightarrow> nat \<Rightarrow> bool" where
  "held st s \<longleftrightarrow> (case l_worker st of Some w \<Rightarrow> may_be_inside w s | None \<Rightarrow> False) \<or> closing st s"

subsection \<open>Arming\<close>

definition refresh_stop_signal :: "life \<Rightarrow> life" where
  "refresh_stop_signal st =
     (if l_signal_set st then st\<lparr>l_signal := l_signal st + 1, l_signal_set := False\<rparr> else st)"

definition offer_stop_signal :: "lcfg \<Rightarrow> nat \<Rightarrow> life \<Rightarrow> life" where
  "offer_stop_signal L s st =
     (if lc_takes_signal L s then st\<lparr>l_offers := dict_set s (l_signal st) (l_offers st)\<rparr> else st)"

definition offer_orphan_signal :: "lcfg \<Rightarrow> nat \<Rightarrow> life \<Rightarrow> life" where
  "offer_orphan_signal L s st = (if in_flight st s then st else offer_stop_signal L s (refresh_stop_signal st))"

definition register_exit_handler :: "life \<Rightarrow> life" where
  "register_exit_handler st = st\<lparr>l_atexit := True\<rparr>"

definition owe :: "nat \<Rightarrow> life \<Rightarrow> life" where
  "owe s st = st\<lparr>l_owed := (if s \<in> set (l_owed st) then l_owed st else l_owed st @ [s]), g_log := g_log st @ [Armed s]\<rparr>"

text \<open>\<open>sink\<close> is what \<^verbatim>\<open>_ensure_sink()\<close> returns.\<close>

definition get_worker :: "lcfg \<Rightarrow> nat \<Rightarrow> rat \<Rightarrow> life \<Rightarrow> life" where
  "get_worker L sink now st =
     (if l_worker st \<noteq> None then st
      else let st = refresh_stop_signal (register_exit_handler st);
               st = offer_stop_signal L sink
                      (st\<lparr>l_worker := Some (new_worker sink now), l_epoch := l_retirements st, l_worker_signal := l_signal st\<rparr>);
               st = (if l_running st > 0 then st\<lparr>l_late := True\<rparr> else st)
           in owe sink st)"

definition note_orphan_emit :: "lcfg \<Rightarrow> nat \<Rightarrow> life \<Rightarrow> life" where
  "note_orphan_emit L s st =
     (if s \<in> set (l_owed st) \<and> \<not> l_signal_set st then st
      else let st = offer_orphan_signal L s st
           in if s \<in> set (l_owed st) then st else owe s (register_exit_handler st))"

subsection \<open>Taking and closing\<close>

text \<open>A sink leaves the record and is registered in one critical section.\<close>

definition take_sink :: "bool \<Rightarrow> nat \<Rightarrow> life \<Rightarrow> life" where
  "take_sink detached s st =
     (let st = st\<lparr>l_owed := filter (\<lambda>x. x \<noteq> s) (l_owed st)\<rparr>; (r, st) = register_closing s st
      in st\<lparr>l_tasks := l_tasks st @ [\<lparr>tk_sink = s, tk_reg = r, tk_detached = detached, tk_stage = Taken\<rparr>]\<rparr>)"

definition close_owed :: "life \<Rightarrow> life" where
  "close_owed st =
     (let taken = filter (\<lambda>s. \<not> held st s) (l_owed st);
          detach = (\<lambda>s. case l_worker st of Some w \<Rightarrow> holds_unfenced w s | None \<Rightarrow> False)
      in fold (\<lambda>s. take_sink (detach s) s) taken st)"

text \<open>The sink that is closed on the calling thread, after the others were handed to threads.\<close>

definition inline_close_choice :: "nat list \<Rightarrow> nat option \<Rightarrow> nat option \<Rightarrow> nat option" where
  "inline_close_choice owed live configured =
     (if owed = [] then None
      else case find (\<lambda>s. Some s = live) owed of
             Some s \<Rightarrow> Some s
           | None \<Rightarrow> (case find (\<lambda>s. Some s = configured) owed of Some s \<Rightarrow> Some s | None \<Rightarrow> Some (last owed)))"

definition set_stage :: "nat \<Rightarrow> stage \<Rightarrow> life \<Rightarrow> life" where
  "set_stage i g st = st\<lparr>l_tasks := (l_tasks st)[i := (l_tasks st ! i)\<lparr>tk_stage := g\<rparr>]\<rparr>"

definition end_task :: "nat \<Rightarrow> life \<Rightarrow> life" where
  "end_task i st =
     (let t = l_tasks st ! i
      in finish_closing (tk_sink t) (tk_reg t) (st\<lparr>l_tasks := take i (l_tasks st) @ drop (Suc i) (l_tasks st)\<rparr>))"

definition log_that :: "happening \<Rightarrow> life \<Rightarrow> life" where
  "log_that h st = st\<lparr>g_log := g_log st @ [h]\<rparr>"

text \<open>\<^verbatim>\<open>release\<close>: refused, or inside \<^verbatim>\<open>close()\<close>.\<close>

definition begin_close :: "nat \<Rightarrow> life \<Rightarrow> life" where
  "begin_close i st =
     (let s = tk_sink (l_tasks st ! i)
      in if \<not> releasable (l_pid st) s None (l_owned st) then end_task i (log_that (Refused s) st)
         else set_stage i Running (log_that (Closed s) st))"

text \<open>The thread of a detached close does not start: the sink is left open, and announced.\<close>

definition close_unstarted :: "nat \<Rightarrow> life \<Rightarrow> life" where
  "close_unstarted i st = end_task i (log_that (Unstarted (tk_sink (l_tasks st ! i))) st)"

text \<open>The \<^verbatim>\<open>finally\<close> of \<^verbatim>\<open>_close_owed\<close>: what was taken and not handed on is owed again.\<close>

definition abandon_take :: "nat \<Rightarrow> life \<Rightarrow> life" where
  "abandon_take i st =
     (let s = tk_sink (l_tasks st ! i)
      in end_task i (st\<lparr>l_owed := (if s \<in> set (l_owed st) then l_owed st else l_owed st @ [s])\<rparr>))"

subsection \<open>Swapping and shutting down\<close>

text \<open>The two critical sections of \<^verbatim>\<open>_swap_sink\<close>, before and after the worker's \<^verbatim>\<open>retarget\<close>.\<close>

definition swap_stale :: "life \<Rightarrow> nat \<Rightarrow> nat option \<Rightarrow> nat list" where
  "swap_stale st new old = filter (\<lambda>s. s \<noteq> new \<and> Some s \<noteq> old \<and> \<not> held st s) (l_owed st)"

definition swap_head :: "lcfg \<Rightarrow> nat \<Rightarrow> life \<Rightarrow> life" where
  "swap_head L new st =
     (let worker = live_worker st; old = (case worker of None \<Rightarrow> None | Some w \<Rightarrow> Some (w_sink w))
      in if worker = None \<and> l_owed st = [] then st
         else let st = fold (take_sink True) (swap_stale st new old) st
              in if worker = None then offer_orphan_signal L new (owe new (register_exit_handler st)) else st)"

datatype swap_verdict = Declined | Fenced | Unfenced

definition swap_tail :: "nat \<Rightarrow> swap_verdict \<Rightarrow> nat option \<Rightarrow> life \<Rightarrow> life" where
  "swap_tail new verdict previous st =
     (let st = owe new (register_exit_handler st)
      in case previous of
           None \<Rightarrow> st
         | Some p \<Rightarrow> if verdict = Fenced \<and> p \<noteq> new \<and> \<not> held st p then take_sink True p st else st)"

definition shutdown_begin :: "bool \<Rightarrow> rat option \<Rightarrow> life \<Rightarrow> life" where
  "shutdown_begin on_drain_thread deadline st =
     (let st = st\<lparr>l_retirements := l_retirements st + 1\<rparr>;
          st = (case l_worker st of
                  None \<Rightarrow> st\<lparr>l_running := l_running st + 1\<rparr>
                | Some w \<Rightarrow>
                    st\<lparr>l_worker := Some ((snd (claim_stop on_drain_thread deadline (w\<lparr>w_retired := True\<rparr>)))
                         \<lparr>w_stop := w_stop w \<or> l_worker_signal st = l_signal st\<rparr>)\<rparr>)
      in st\<lparr>l_signal_set := True\<rparr>)"

definition shutdown_late :: "life \<Rightarrow> life" where
  "shutdown_late st =
     (let late = l_late st;
          st = st\<lparr>l_late := False, l_running := l_running st - 1\<rparr>
      in if late
         then st\<lparr>l_retirements := l_retirements st + 1, l_worker := map_option (\<lambda>w. w\<lparr>w_retired := True\<rparr>) (l_worker st)\<rparr>
         else st)"

text \<open>A step of the worker's own machine. Its stop signal is the process's while it holds that one.\<close>

definition worker_moves :: "wstate \<Rightarrow> life \<Rightarrow> life" where
  "worker_moves w st =
     st\<lparr>l_worker := Some w, l_signal_set := l_signal_set st \<or> (w_stop w \<and> l_worker_signal st = l_signal st)\<rparr>"

subsection \<open>All interleavings\<close>

inductive lstep :: "lcfg \<Rightarrow> bool \<Rightarrow> life \<Rightarrow> life \<Rightarrow> bool" for L solo where
  get_worker: "lstep L solo st (get_worker L sink now st)"
| orphan: "lstep L solo st (note_orphan_emit L s st)"
| worker: "l_worker st = Some w \<Longrightarrow> wstep (lc_worker L) solo w w' \<Longrightarrow> w_retired w' = w_retired w \<Longrightarrow>
    lstep L solo st (worker_moves w' st)"
| acquire: "lstep L solo st (st\<lparr>l_owned := stamp G (l_pid st) s (l_owned st)\<rparr>)"
| shutdown: "lstep L solo st (shutdown_begin on_drain deadline st)"
| late: "0 < l_running st \<Longrightarrow> lstep L solo st (shutdown_late st)"
| close_owed: "lstep L solo st (close_owed st)"
| hand: "i < length (l_tasks st) \<Longrightarrow> tk_stage (l_tasks st ! i) = Taken \<Longrightarrow> lstep L solo st (set_stage i Handed st)"
| unstarted: "i < length (l_tasks st) \<Longrightarrow> tk_stage (l_tasks st ! i) = Handed \<Longrightarrow> tk_detached (l_tasks st ! i) \<Longrightarrow>
    lstep L solo st (close_unstarted i st)"
| abandon: "i < length (l_tasks st) \<Longrightarrow> tk_stage (l_tasks st ! i) = Taken \<Longrightarrow> lstep L solo st (abandon_take i st)"
| begin_close: "i < length (l_tasks st) \<Longrightarrow> tk_stage (l_tasks st ! i) = Handed \<Longrightarrow> lstep L solo st (begin_close i st)"
| end_close: "i < length (l_tasks st) \<Longrightarrow> tk_stage (l_tasks st ! i) = Running \<Longrightarrow> lstep L solo st (end_task i st)"
| swap_head: "lstep L solo st (swap_head L new st)"
| swap_tail: "l_worker st \<noteq> None \<Longrightarrow> lstep L solo st (swap_tail new verdict previous st)"

inductive lreachable :: "lcfg \<Rightarrow> bool \<Rightarrow> life \<Rightarrow> bool" for L solo where
  init: "lreachable L solo (new_life pid own)"
| step: "lreachable L solo st \<Longrightarrow> lstep L solo st st' \<Longrightarrow> lreachable L solo st'"

subsection \<open>The invariant\<close>

text \<open>A sink is owing if it was armed and not closed, refused or announced as left open since.\<close>

fun owing_step :: "nat \<Rightarrow> happening \<Rightarrow> bool \<Rightarrow> bool" where
  "owing_step s (Armed x) b = (x = s \<or> b)"
| "owing_step s (Closed x) b = (x \<noteq> s \<and> b)"
| "owing_step s (Refused x) b = (x \<noteq> s \<and> b)"
| "owing_step s (Unstarted x) b = (x \<noteq> s \<and> b)"

definition owing :: "happening list \<Rightarrow> nat \<Rightarrow> bool" where
  "owing hs s = fold (owing_step s) hs False"

lemma owing_simps [simp]: "owing [] s = False" "owing (hs @ [h]) s = owing_step s h (owing hs s)"
  by (simp_all add: owing_def)

definition task_sinks :: "life \<Rightarrow> nat list" where
  "task_sinks st = map tk_sink (l_tasks st)"

definition waiting :: "life \<Rightarrow> nat \<Rightarrow> bool" where
  "waiting st s \<longleftrightarrow> (\<exists>t \<in> set (l_tasks st). tk_sink t = s \<and> tk_stage t \<noteq> Running)"

definition linv :: "life \<Rightarrow> bool" where
  "linv st \<longleftrightarrow> distinct (l_owed st) \<and> distinct (task_sinks st) \<and>
     (\<forall>t \<in> set (l_tasks st). dict_get (l_closing st) (tk_sink t) = Some (tk_reg t)) \<and>
     (\<forall>s. closing st s \<longrightarrow> s \<in> set (task_sinks st)) \<and>
     (\<forall>s. owing (g_log st) s \<longrightarrow> s \<in> set (l_owed st) \<or> waiting st s)"

lemma linv_frame:
  assumes "linv st" and "l_owed st' = l_owed st" "l_tasks st' = l_tasks st" "l_closing st' = l_closing st" "g_log st' = g_log st"
  shows "linv st'"
  using assms by (simp add: linv_def task_sinks_def waiting_def closing_def)

lemma task_closing: "linv st \<Longrightarrow> s \<in> set (task_sinks st) \<longleftrightarrow> closing st s"
  by (fastforce simp: linv_def task_sinks_def closing_def)

lemma dict_get_remove: "dict_get (filter (\<lambda>(k, v). k \<noteq> s) d) k = (if k = s then None else dict_get d k)"
  by (induction d) (auto simp: dict_get_def)

lemma closing_simps:
  "closing (finish_closing s r st) x \<longleftrightarrow> closing st x \<and> (x = s \<longrightarrow> dict_get (l_closing st) s \<noteq> Some r)"
  by (auto simp: closing_def finish_closing_def dict_get_remove)

text \<open>Taking a sink that is not being closed.\<close>

lemma take_sink_fields:
  assumes "\<not> closing st s"
  shows "l_owed (take_sink d s st) = filter (\<lambda>x. x \<noteq> s) (l_owed st)"
    "l_tasks (take_sink d s st) = l_tasks st @ [\<lparr>tk_sink = s, tk_reg = l_next st, tk_detached = d, tk_stage = Taken\<rparr>]"
    "l_closing (take_sink d s st) = dict_set s (l_next st) (l_closing st)" "g_log (take_sink d s st) = g_log st"
    "l_worker (take_sink d s st) = l_worker st"
  using assms by (simp_all add: take_sink_def register_closing_def closing_def Let_def)

lemma closing_take: "\<not> closing st s \<Longrightarrow> closing (take_sink d s st) x \<longleftrightarrow> x = s \<or> closing st x"
  by (simp add: closing_def [of "take_sink d s st"] take_sink_fields) (simp add: closing_def)

lemma linv_take:
  assumes l: "linv st" and c: "\<not> closing st s"
  shows "linv (take_sink d s st)"
proof -
  note f = take_sink_fields [OF c, of d]
  have new: "s \<notin> set (task_sinks st)" using task_closing [OF l] c by blast
  have "waiting (take_sink d s st) x \<longleftrightarrow> x = s \<or> waiting st x" for x by (auto simp: waiting_def f(2))
  moreover have "task_sinks (take_sink d s st) = task_sinks st @ [s]" by (simp add: task_sinks_def f(2))
  moreover have "dict_get (l_closing st) (tk_sink t) = Some (tk_reg t)" "tk_sink t \<noteq> s" if "t \<in> set (l_tasks st)" for t
    using l that new by (auto simp: linv_def task_sinks_def)
  ultimately show ?thesis using l new closing_take [OF c, of d] by (auto simp: linv_def f)
qed

lemma linv_take_all:
  assumes "linv st" and "distinct ss" and "\<forall>s \<in> set ss. \<not> closing st s"
  shows "linv (fold (\<lambda>s. take_sink (d s) s) ss st) \<and>
    set (task_sinks (fold (\<lambda>s. take_sink (d s) s) ss st)) = set (task_sinks st) \<union> set ss \<and>
    l_owed (fold (\<lambda>s. take_sink (d s) s) ss st) = filter (\<lambda>x. x \<notin> set ss) (l_owed st) \<and>
    g_log (fold (\<lambda>s. take_sink (d s) s) ss st) = g_log st \<and> l_worker (fold (\<lambda>s. take_sink (d s) s) ss st) = l_worker st"
  using assms
proof (induction ss arbitrary: st)
  case (Cons s ss)
  have c: "\<not> closing st s" using Cons.prems by simp
  have "\<forall>x \<in> set ss. \<not> closing (take_sink (d s) s st) x" using Cons.prems closing_take [OF c] by auto
  from Cons.IH [OF linv_take [OF Cons.prems(1) c] _ this] Cons.prems(2)
  show ?case by (auto simp: take_sink_fields [OF c] task_sinks_def intro: filter_cong)
qed simp

text \<open>Ending a task.\<close>

lemma task_at:
  assumes "i < length (l_tasks st)"
  obtains xs ys where "l_tasks st = xs @ l_tasks st ! i # ys" "take i (l_tasks st) = xs" "drop (Suc i) (l_tasks st) = ys" "i = length xs"
  using id_take_nth_drop [OF assms] assms by (metis add_diff_cancel_left' le_add_diff_inverse length_take less_imp_le min.absorb2)

lemma linv_end:
  assumes l: "linv st" and i: "i < length (l_tasks st)"
    and o: "\<forall>s. owing (g_log st) s \<longrightarrow> s \<in> set (l_owed st) \<or> waiting st s \<and> s \<noteq> tk_sink (l_tasks st ! i)"
  shows "linv (end_task i st)"
proof -
  let ?t = "l_tasks st ! i"
  obtain xs ys where t: "l_tasks st = xs @ ?t # ys" "take i (l_tasks st) = xs" "drop (Suc i) (l_tasks st) = ys" "i = length xs"
    by (rule task_at [OF i])
  let ?st = "end_task i st"
  have r: "dict_get (l_closing st) (tk_sink ?t) = Some (tk_reg ?t)" using l i by (simp add: linv_def)
  have f: "l_tasks ?st = xs @ ys" "l_owed ?st = l_owed st" "g_log ?st = g_log st"
    "l_closing ?st = filter (\<lambda>(k, v). k \<noteq> tk_sink ?t) (l_closing st)"
    using r t(2,3) by (simp_all add: end_task_def finish_closing_def Let_def)
  have set: "set (l_tasks st) = insert ?t (set (xs @ ys))" by (subst t(1)) simp
  have "task_sinks st = map tk_sink xs @ tk_sink ?t # map tk_sink ys" unfolding task_sinks_def by (subst t(1)) simp
  then have d: "distinct (task_sinks ?st)" "tk_sink ?t \<notin> set (task_sinks ?st)"
    and m: "set (task_sinks st) = insert (tk_sink ?t) (set (task_sinks ?st))"
    using l by (auto simp: linv_def task_sinks_def f(1))
  have "tk_sink t' \<noteq> tk_sink ?t" if "t' \<in> set (l_tasks ?st)" for t'
    using that d(2) by (metis image_eqI image_set task_sinks_def)
  then have "dict_get (l_closing ?st) (tk_sink t') = Some (tk_reg t')" if "t' \<in> set (l_tasks ?st)" for t'
    using that l set by (auto simp: f(1,4) dict_get_remove linv_def)
  moreover have "s \<in> set (task_sinks ?st)" if "closing ?st s" for s
    using that l m by (auto simp: closing_def f(4) dict_get_remove linv_def split: if_splits)
  moreover have "s \<in> set (l_owed ?st) \<or> waiting ?st s" if "owing (g_log ?st) s" for s
    using o that set by (auto simp: f(1-3) waiting_def)
  ultimately show ?thesis using d(1) l by (simp add: linv_def f(2))
qed

text \<open>A task moves on.\<close>

lemma linv_stage:
  assumes l: "linv st" and i: "i < length (l_tasks st)" and g: "g = Running \<longrightarrow> \<not> owing (g_log st) (tk_sink (l_tasks st ! i))"
  shows "linv (set_stage i g st)"
proof -
  let ?st = "set_stage i g st"
  let ?t = "l_tasks st ! i"
  have f: "l_tasks ?st = (l_tasks st)[i := ?t\<lparr>tk_stage := g\<rparr>]" "l_owed ?st = l_owed st" "g_log ?st = g_log st" "l_closing ?st = l_closing st"
    by (simp_all add: set_stage_def)
  have k: "tk_sink (l_tasks ?st ! j) = tk_sink (l_tasks st ! j)" "tk_reg (l_tasks ?st ! j) = tk_reg (l_tasks st ! j)"
    "tk_stage (l_tasks ?st ! j) = (if j = i then g else tk_stage (l_tasks st ! j))" if "j < length (l_tasks st)" for j
    using that i by (simp_all add: f(1) nth_list_update)
  have len: "length (l_tasks ?st) = length (l_tasks st)" by (simp add: f(1))
  have "task_sinks ?st = task_sinks st" using k(1) len by (auto simp: task_sinks_def intro: nth_equalityI)
  moreover have "waiting ?st s" if w: "waiting st s" and o: "owing (g_log st) s" for s
  proof -
    obtain j where j: "j < length (l_tasks st)" "tk_sink (l_tasks st ! j) = s" "tk_stage (l_tasks st ! j) \<noteq> Running"
      using w by (auto simp: waiting_def in_set_conv_nth)
    then have "tk_stage (l_tasks ?st ! j) \<noteq> Running" using k(3) [OF j(1)] g o by (cases "j = i") auto
    then show ?thesis using j k(1) [OF j(1)] len by (metis nth_mem waiting_def)
  qed
  moreover have "\<forall>t \<in> set (l_tasks ?st). dict_get (l_closing ?st) (tk_sink t) = Some (tk_reg t)"
    using l k(1,2) len by (simp add: all_set_conv_all_nth linv_def f(4))
  ultimately show ?thesis using l by (auto simp: linv_def f closing_def)
qed

lemma linv_log:
  assumes "linv st" and "\<And>x b. owing_step x h b \<Longrightarrow> b"
  shows "linv (log_that h st)"
proof -
  have "owing (g_log st) s" if "owing (g_log st @ [h]) s" for s using assms(2) that by simp
  then show ?thesis using assms(1) unfolding linv_def by (auto simp: log_that_def task_sinks_def closing_def waiting_def simp del: owing_simps)
qed

lemma linv_owe: "linv st \<Longrightarrow> linv (owe s st)"
  by (auto simp: linv_def owe_def task_sinks_def closing_def waiting_def)

lemma log_frame [simp]: "l_tasks (log_that h st) = l_tasks st" "g_log (log_that h st) = g_log st @ [h]"
  "l_owed (log_that h st) = l_owed st" "l_closing (log_that h st) = l_closing st"
  by (simp_all add: log_that_def)

lemma linv_settled:
  assumes "linv st" and "i < length (l_tasks st)" and "h \<in> {Refused (tk_sink (l_tasks st ! i)), Unstarted (tk_sink (l_tasks st ! i))}"
  shows "linv (end_task i (log_that h st))"
proof (rule linv_end)
  show "linv (log_that h st)" using assms by (intro linv_log) auto
  show "\<forall>s. owing (g_log (log_that h st)) s \<longrightarrow> s \<in> set (l_owed (log_that h st)) \<or>
      waiting (log_that h st) s \<and> s \<noteq> tk_sink (l_tasks (log_that h st) ! i)"
    using assms by (auto simp: linv_def waiting_def)
qed (use assms in simp)

lemma linv_begin_close:
  assumes "linv st" and "i < length (l_tasks st)"
  shows "linv (begin_close i st)"
proof -
  let ?s = "tk_sink (l_tasks st ! i)"
  have "linv (log_that (Closed ?s) st)" using assms(1) by (rule linv_log) auto
  then have "linv (set_stage i Running (log_that (Closed ?s) st))" using assms(2) by (intro linv_stage) simp_all
  then show ?thesis using linv_settled [OF assms, of "Refused ?s"] by (simp add: begin_close_def Let_def)
qed

lemma linv_end_close:
  assumes l: "linv st" and i: "i < length (l_tasks st)" and r: "tk_stage (l_tasks st ! i) = Running"
  shows "linv (end_task i st)"
proof (rule linv_end [OF l i], intro allI impI)
  fix s
  assume "owing (g_log st) s"
  then have "s \<in> set (l_owed st) \<or> waiting st s" using l by (simp add: linv_def)
  moreover have "s \<noteq> tk_sink (l_tasks st ! i)" if w: "waiting st s"
  proof
    assume s: "s = tk_sink (l_tasks st ! i)"
    obtain j where j: "j < length (l_tasks st)" "tk_sink (l_tasks st ! j) = s" "tk_stage (l_tasks st ! j) \<noteq> Running"
      using w by (auto simp: waiting_def in_set_conv_nth)
    then have "j = i" using l i s by (simp add: linv_def task_sinks_def distinct_conv_nth) metis
    then show False using j r by simp
  qed
  ultimately show "s \<in> set (l_owed st) \<or> waiting st s \<and> s \<noteq> tk_sink (l_tasks st ! i)" by blast
qed

lemma linv_abandon:
  assumes l: "linv st" and i: "i < length (l_tasks st)"
  shows "linv (abandon_take i st)"
proof -
  let ?s = "tk_sink (l_tasks st ! i)"
  let ?st = "st\<lparr>l_owed := (if ?s \<in> set (l_owed st) then l_owed st else l_owed st @ [?s])\<rparr>"
  have "linv ?st" using l by (auto simp: linv_def task_sinks_def closing_def waiting_def)
  then have "linv (end_task i ?st)" by (rule linv_end) (use l i in \<open>auto simp: linv_def waiting_def\<close>)
  then show ?thesis by (simp add: abandon_take_def Let_def)
qed

lemma linv_close_owed:
  assumes l: "linv st"
  shows "linv (close_owed st) \<and>
    set (task_sinks (close_owed st)) = set (task_sinks st) \<union> {s \<in> set (l_owed st). \<not> held st s} \<and>
    l_owed (close_owed st) = filter (held st) (l_owed st) \<and> g_log (close_owed st) = g_log st"
proof -
  let ?ss = "filter (\<lambda>s. \<not> held st s) (l_owed st)"
  have "distinct ?ss" "\<forall>s \<in> set ?ss. \<not> closing st s" using l by (auto simp: linv_def held_def)
  from linv_take_all [OF l this] show ?thesis
    by (auto simp: close_owed_def Let_def intro: filter_cong)
qed

lemma offer_frame [simp]:
  "l_owed (offer_stop_signal L s st) = l_owed st" "l_tasks (offer_stop_signal L s st) = l_tasks st"
  "l_closing (offer_stop_signal L s st) = l_closing st" "g_log (offer_stop_signal L s st) = g_log st"
  "l_worker (offer_stop_signal L s st) = l_worker st"
  "l_owed (refresh_stop_signal st) = l_owed st" "l_tasks (refresh_stop_signal st) = l_tasks st"
  "l_closing (refresh_stop_signal st) = l_closing st" "g_log (refresh_stop_signal st) = g_log st"
  "l_worker (refresh_stop_signal st) = l_worker st"
  by (simp_all add: offer_stop_signal_def refresh_stop_signal_def)

lemma offer_orphan_frame [simp]:
  "l_owed (offer_orphan_signal L s st) = l_owed st" "l_tasks (offer_orphan_signal L s st) = l_tasks st"
  "l_closing (offer_orphan_signal L s st) = l_closing st" "g_log (offer_orphan_signal L s st) = g_log st"
  "l_worker (offer_orphan_signal L s st) = l_worker st"
  by (simp_all add: offer_orphan_signal_def)

lemma exit_frame [simp]:
  "l_owed (register_exit_handler st) = l_owed st" "l_tasks (register_exit_handler st) = l_tasks st"
  "l_closing (register_exit_handler st) = l_closing st" "g_log (register_exit_handler st) = g_log st"
  "l_worker (register_exit_handler st) = l_worker st"
  by (simp_all add: register_exit_handler_def)

lemma linv_exit: "linv st \<Longrightarrow> linv (register_exit_handler st)"
  and linv_offer: "linv st \<Longrightarrow> linv (offer_orphan_signal L s st)"
  by (erule linv_frame; simp)+

lemma swap_stale_free:
  assumes "linv st"
  shows "distinct (swap_stale st new old) \<and> (\<forall>s \<in> set (swap_stale st new old). \<not> closing st s)"
  using assms by (auto simp: swap_stale_def linv_def held_def)

lemma linv_swap_head:
  assumes l: "linv st"
  shows "linv (swap_head L new st)"
proof -
  let ?old = "case live_worker st of None \<Rightarrow> None | Some w \<Rightarrow> Some (w_sink w)"
  note f = swap_stale_free [OF l, of new ?old]
  have "linv (fold (take_sink True) (swap_stale st new ?old) st)"
    using linv_take_all [OF l conjunct1 [OF f] conjunct2 [OF f], of "\<lambda>_. True"] by simp
  then show ?thesis using l linv_offer [OF linv_owe [OF linv_exit]] by (cases "live_worker st") (simp_all add: swap_head_def Let_def)
qed

lemma linv_swap_tail:
  assumes "linv st"
  shows "linv (swap_tail new verdict previous st)"
proof -
  let ?st = "owe new (register_exit_handler st)"
  have "linv ?st" using assms linv_owe linv_exit by blast
  moreover from this have "linv (take_sink True p ?st)" if "\<not> held ?st p" for p
    using that by (intro linv_take) (simp_all add: held_def)
  ultimately show ?thesis by (simp add: swap_tail_def Let_def split: option.split)
qed

lemma linv_get_worker:
  assumes "linv st"
  shows "linv (get_worker L sink now st)"
proof -
  have "linv (owe sink st')" if "l_owed st' = l_owed st" "l_tasks st' = l_tasks st" "l_closing st' = l_closing st" "g_log st' = g_log st" for st'
    using linv_frame [OF assms that] by (rule linv_owe)
  then show ?thesis using assms by (simp add: get_worker_def Let_def)
qed

lemma linv_orphan:
  assumes "linv st"
  shows "linv (note_orphan_emit L s st)"
  using assms linv_offer [OF assms] linv_owe [OF linv_exit [OF linv_offer [OF assms]]] by (simp add: note_orphan_emit_def Let_def)

lemma linv_step:
  assumes "lstep L solo st st'" and l: "linv st"
  shows "linv st'"
  using assms(1)
proof cases
  case (shutdown on_drain deadline)
  show ?thesis unfolding shutdown by (rule linv_frame [OF l]) (simp_all add: shutdown_begin_def Let_def split: option.split)
next
  case late
  show ?thesis unfolding late(1) by (rule linv_frame [OF l]) (simp_all add: shutdown_late_def Let_def)
next
  case (worker w w')
  show ?thesis unfolding worker(1) by (rule linv_frame [OF l]) (simp_all add: worker_moves_def)
next
  case (acquire G s)
  show ?thesis unfolding acquire by (rule linv_frame [OF l]) simp_all
qed (use l in \<open>simp_all add: linv_get_worker linv_orphan linv_close_owed linv_stage linv_settled close_unstarted_def linv_abandon
       linv_begin_close linv_end_close linv_swap_head linv_swap_tail\<close>)

lemma linv_reachable: "lreachable L solo st \<Longrightarrow> linv st"
proof (induction rule: lreachable.induct)
  case (init pid own)
  show ?case by (simp add: linv_def new_life_def task_sinks_def closing_def)
qed (use linv_step in blast)

end
