(* ===== verification/Lifecycle_Laws.thy ===== *)
theory Lifecycle_Laws
  imports Lifecycle "HOL-Library.Multiset"
begin

text \<open>
  What the lifecycle guarantees: a sink that was armed is owed a close until it gets one, no sink
  is closed twice at once, none is taken for closing while the worker's thread is inside it, a
  shutdown closes each owed sink exactly once, and a flush reports every failure.
\<close>

subsection \<open>Closes\<close>

text \<open>No sink is closed twice at the same time: in every interleaving of logging, swaps and
  shutdowns, the closes under way are of different sinks, and each holds the registration that
  makes other callers leave its sink alone.\<close>

theorem one_close_at_a_time:
  assumes "lreachable L solo st"
  shows "distinct (map tk_sink (l_tasks st)) \<and> list_all (\<lambda>t. dict_get (l_closing st) (tk_sink t) = Some (tk_reg t)) (l_tasks st)"
  using linv_reachable [OF assms] by (simp add: linv_def task_sinks_def list_all_iff)


subsection \<open>Closes and the worker\<close>

lemma claim_stop_stop: "w_stop (snd (claim_stop on_drain deadline w)) = w_stop w"
  by (simp add: claim_stop_def)

lemma shutdown_worker_reachable:
  assumes "reachable C solo w"
  shows "reachable C solo ((snd (claim_stop on_drain deadline (w\<lparr>w_retired := True\<rparr>)))\<lparr>w_stop := w_stop w \<or> b\<rparr>)"
proof -
  let ?w = "snd (claim_stop on_drain deadline (w\<lparr>w_retired := True\<rparr>))"
  have r: "reachable C solo ?w" by (intro reachable.step [OF _ wstep.claim_stop] reachable.step [OF _ wstep.retire] assms)
  have "reachable C solo (?w\<lparr>w_stop := True\<rparr>)" by (rule reachable.step [OF r wstep.signal])
  moreover have "?w\<lparr>w_stop := w_stop w\<rparr> = ?w" by (rule wstate.equality) (simp_all add: claim_stop_stop)
  ultimately show ?thesis using r by (cases "w_stop w \<or> b") auto
qed

lemma worker_frame:
  "l_worker (owe s st) = l_worker st" "l_worker (set_stage i g st) = l_worker st" "l_worker (log_that h st) = l_worker st"
  "l_worker (end_task i st) = l_worker st" "l_worker (take_sink d s st) = l_worker st"
  by (simp_all add: owe_def set_stage_def log_that_def end_task_def finish_closing_def take_sink_def register_closing_def Let_def
      split: option.split prod.split)

lemma worker_fold_take: "l_worker (fold (\<lambda>s. take_sink (d s) s) ss st) = l_worker st"
  by (induction ss arbitrary: st) (simp_all add: worker_frame)

lemma worker_of_step:
  assumes "lstep L solo st st'" and w: "\<And>w. l_worker st = Some w \<Longrightarrow> reachable (lc_worker L) solo w" and "l_worker st' = Some w'"
  shows "reachable (lc_worker L) solo w'"
  using assms(1)
proof cases
  case (get_worker sink now)
  show ?thesis
  proof (cases "l_worker st")
    case None
    then have "w' = new_worker sink now" using get_worker assms(3) by (auto simp: get_worker_def Let_def worker_frame split: if_splits)
    then show ?thesis by (simp add: reachable.init)
  next
    case (Some u)
    then show ?thesis using get_worker assms(3) w by (simp add: get_worker_def)
  qed
next
  case (worker u u')
  then show ?thesis using assms(3) w reachable.step [OF w [OF worker(2)] worker(3)] by (simp add: worker_moves_def)
next
  case (shutdown on_drain deadline)
  then show ?thesis using assms(3) shutdown_worker_reachable [OF w]
    by (auto simp: shutdown_begin_def Let_def split: option.splits)
next
  case late
  have "reachable (lc_worker L) solo (u\<lparr>w_retired := True\<rparr>)" if "l_worker st = Some u" for u
    by (rule reachable.step [OF w [OF that] wstep.retire])
  then show ?thesis using late assms(3) w by (auto simp: shutdown_late_def Let_def split: if_splits)
qed (use assms(3) w worker_fold_take [where d = "\<lambda>_. True"] in \<open>auto simp: note_orphan_emit_def worker_frame close_owed_def worker_fold_take
       close_unstarted_def abandon_take_def begin_close_def swap_head_def swap_tail_def Let_def split: if_splits option.splits\<close>)

lemma worker_reachable:
  assumes "lreachable L solo st" and "l_worker st = Some w"
  shows "reachable (lc_worker L) solo w"
  using assms
proof (induction arbitrary: w rule: lreachable.induct)
  case (init pid own)
  then show ?case by (simp add: new_life_def)
next
  case (step st st')
  then show ?case using worker_of_step [OF step.hyps(2) step.IH] by blast
qed

text \<open>The steps that take sinks take none that something may be inside.\<close>

lemma end_task_sinks: "set (task_sinks (end_task i st)) \<subseteq> set (task_sinks st)"
  by (auto simp: end_task_def finish_closing_def task_sinks_def Let_def dest: in_set_takeD in_set_dropD)

lemma stage_sinks: "set (task_sinks (set_stage i g st)) \<subseteq> set (task_sinks st)"
proof (cases "i < length (l_tasks st)")
  case True
  then show ?thesis by (auto simp: set_stage_def task_sinks_def dest!: subsetD [OF set_update_subset_insert])
qed (simp add: set_stage_def task_sinks_def list_update_beyond)

lemma same_tasks_sinks: "l_tasks st' = l_tasks st \<Longrightarrow> task_sinks st' = task_sinks st"
  by (simp add: task_sinks_def)

lemma swap_head_sinks:
  assumes l: "linv st"
  shows "set (task_sinks (swap_head L new st)) \<subseteq> set (task_sinks st) \<union> {s. \<not> held st s}"
proof -
  let ?old = "case live_worker st of None \<Rightarrow> None | Some w \<Rightarrow> Some (w_sink w)"
  note f = swap_stale_free [OF l, of new ?old]
  have "set (task_sinks (fold (take_sink True) (swap_stale st new ?old) st)) \<subseteq> set (task_sinks st) \<union> {s. \<not> held st s}"
    using linv_take_all [OF l conjunct1 [OF f] conjunct2 [OF f], of "\<lambda>_. True"] by (auto simp: swap_stale_def)
  then show ?thesis
    by (cases "live_worker st") (auto simp: swap_head_def Let_def task_sinks_def owe_def)
qed

lemma swap_tail_sinks:
  assumes "linv st"
  shows "set (task_sinks (swap_tail new verdict previous st)) \<subseteq> set (task_sinks st) \<union> {s. \<not> held st s}"
proof -
  let ?st = "owe new (register_exit_handler st)"
  have h: "held ?st p = held st p" for p by (simp add: held_def closing_def owe_def)
  have "set (task_sinks (take_sink True p ?st)) \<subseteq> set (task_sinks st) \<union> {s. \<not> held st s}" if "\<not> held st p" for p
  proof -
    have "\<not> closing ?st p" using that h [of p] by (simp add: held_def)
    from take_sink_fields(2) [OF this, of True] that show ?thesis by (simp add: task_sinks_def) (auto simp: owe_def)
  qed
  moreover have "task_sinks ?st = task_sinks st" by (simp add: task_sinks_def owe_def)
  ultimately show ?thesis by (auto simp: swap_tail_def Let_def h split: option.split)
qed

lemma taken_not_held:
  assumes "lstep L solo st st'" and l: "linv st"
  shows "set (task_sinks st') \<subseteq> set (task_sinks st) \<union> {s. \<not> held st s}"
  using assms(1)
proof cases
  case close_owed
  then show ?thesis using linv_close_owed [OF l] by auto
next
  case (swap_head new)
  then show ?thesis using swap_head_sinks [OF l] by simp
next
  case (swap_tail new verdict previous)
  then show ?thesis using swap_tail_sinks [OF l] by simp
next
  case (hand i)
  then show ?thesis using stage_sinks by fast
next
  case (begin_close i)
  then show ?thesis
    using stage_sinks [of i Running "log_that h st" for h] end_task_sinks [of i "log_that h st" for h] same_tasks_sinks [of "log_that h st" st for h]
    by (auto simp: begin_close_def Let_def split: if_splits)
next
  case (unstarted i)
  then show ?thesis using end_task_sinks [of i "log_that h st" for h] same_tasks_sinks [of "log_that h st" st for h]
    by (auto simp: close_unstarted_def)
next
  case (abandon i)
  let ?st = "st\<lparr>l_owed := (if tk_sink (l_tasks st ! i) \<in> set (l_owed st) then l_owed st else l_owed st @ [tk_sink (l_tasks st ! i)])\<rparr>"
  have "task_sinks ?st = task_sinks st" by (simp add: task_sinks_def)
  then show ?thesis using abandon end_task_sinks [of i ?st] by (auto simp: abandon_take_def Let_def)
next
  case (end_close i)
  then show ?thesis using end_task_sinks by fast
qed (auto simp: task_sinks_def get_worker_def note_orphan_emit_def owe_def worker_moves_def shutdown_begin_def shutdown_late_def Let_def
       split: if_splits option.splits)

text \<open>C16. No sink is taken for closing under the worker: as long as swaps do not overlap, a step that
  begins to close a sink does so only while the drain thread is not inside that sink, whatever the
  worker, other swaps and shutdowns did before.\<close>

theorem close_spares_drain_thread:
  assumes "lreachable L True st" and "lstep L True st st'" and "l_worker st = Some w"
    and "s \<in> set (task_sinks st')" and "s \<notin> set (task_sinks st)"
  shows "inside w \<noteq> Some s"
proof
  assume "inside w = Some s"
  then have "may_be_inside w s" by (rule inside_held [OF worker_reachable [OF assms(1,3)]])
  then have "held st s" using assms(3) by (simp add: held_def)
  then show False using taken_not_held [OF assms(2) linv_reachable [OF assms(1)]] assms(4,5) by blast
qed

subsection \<open>A shutdown closes what is owed\<close>

text \<open>\<^verbatim>\<open>_close_owed\<close> with nobody else about: the sinks it took are closed, the one chosen for the
  calling thread last.\<close>

definition task_index :: "nat \<Rightarrow> life \<Rightarrow> nat" where
  "task_index s st = length (takeWhile (\<lambda>t. tk_sink t \<noteq> s) (l_tasks st))"

definition close_now :: "nat \<Rightarrow> life \<Rightarrow> life" where
  "close_now s st =
     (let i = task_index s st; may = releasable (l_pid st) s None (l_owned st); st = begin_close i (set_stage i Handed st)
      in if may then end_task i st else st)"

definition close_order :: "nat list \<Rightarrow> nat option \<Rightarrow> nat option \<Rightarrow> nat list" where
  "close_order taken live configured =
     (let inline = inline_close_choice taken live configured
      in filter (\<lambda>s. Some s \<noteq> inline) taken @ filter (\<lambda>s. Some s = inline) taken)"

definition close_all :: "nat option \<Rightarrow> life \<Rightarrow> life" where
  "close_all configured st =
     fold close_now (close_order (filter (\<lambda>s. \<not> held st s) (l_owed st)) (map_option w_sink (l_worker st)) configured) (close_owed st)"

definition verdict_on :: "life \<Rightarrow> nat \<Rightarrow> happening" where
  "verdict_on st s = (if releasable (l_pid st) s None (l_owned st) then Closed s else Refused s)"

lemma task_index_at:
  assumes "l_tasks st = xs @ t # ys" and "tk_sink t = s" and "\<forall>x \<in> set xs. tk_sink x \<noteq> s"
  shows "task_index s st = length xs"
  using assms by (simp add: task_index_def takeWhile_append2)

lemma end_task_frame:
  "l_tasks (end_task i st) = take i (l_tasks st) @ drop (Suc i) (l_tasks st)" "l_owed (end_task i st) = l_owed st"
  "g_log (end_task i st) = g_log st" "l_pid (end_task i st) = l_pid st" "l_owned (end_task i st) = l_owned st"
  by (simp_all add: end_task_def finish_closing_def Let_def)

lemma close_now_effect:
  assumes l: "linv st" and s: "s \<in> set (task_sinks st)"
  shows "l_tasks (close_now s st) = filter (\<lambda>t. tk_sink t \<noteq> s) (l_tasks st) \<and> linv (close_now s st) \<and>
    l_owed (close_now s st) = l_owed st \<and> g_log (close_now s st) = g_log st @ [verdict_on st s] \<and>
    l_pid (close_now s st) = l_pid st \<and> l_owned (close_now s st) = l_owned st"
proof -
  obtain xs t ys where t: "l_tasks st = xs @ t # ys" "tk_sink t = s" "\<forall>x \<in> set xs. tk_sink x \<noteq> s"
    using s split_list_first_prop [of "l_tasks st" "\<lambda>t. tk_sink t = s"] by (auto simp: task_sinks_def)
  have "s \<notin> tk_sink ` set ys" using l t(1,2) by (simp add: linv_def task_sinks_def)
  then have ys: "\<forall>y \<in> set ys. tk_sink y \<noteq> s" by blast
  have i: "task_index s st = length xs" by (rule task_index_at [OF t])
  have n: "length xs < length (l_tasks st)" "l_tasks st ! length xs = t" by (simp_all add: t(1))
  let ?i = "length xs"
  let ?h = "set_stage ?i Handed st"
  have h: "l_tasks ?h = xs @ t\<lparr>tk_stage := Handed\<rparr> # ys" "g_log ?h = g_log st" "l_owed ?h = l_owed st" "l_pid ?h = l_pid st" "l_owned ?h = l_owned st"
    "l_closing ?h = l_closing st" by (simp_all add: set_stage_def t(1))
  have lh: "linv ?h" using linv_stage [OF l n(1)] by simp
  have lb: "linv (begin_close ?i ?h)" by (rule linv_begin_close [OF lh]) (simp add: h(1))
  have reg: "dict_get (l_closing st) s = Some (tk_reg t)" using l t(1,2) by (auto simp: linv_def)
  have rest: "xs @ ys = filter (\<lambda>t. tk_sink t \<noteq> s) (l_tasks st)" using t ys by (simp add: filter_id_conv)
  show ?thesis
  proof (cases "releasable (l_pid st) s None (l_owned st)")
    case True
    let ?b = "begin_close ?i ?h"
    have b: "l_tasks ?b = xs @ t\<lparr>tk_stage := Running\<rparr> # ys" "g_log ?b = g_log st @ [Closed s]" "l_owed ?b = l_owed st"
      "l_pid ?b = l_pid st" "l_owned ?b = l_owned st" "l_closing ?b = l_closing st"
      using True t(2) by (simp_all add: begin_close_def h Let_def) (simp_all add: set_stage_def log_that_def h t(1))
    have "linv (end_task ?i ?b)" by (rule linv_end_close [OF lb]) (simp_all add: b(1))
    moreover have "close_now s st = end_task ?i ?b" using True i by (simp add: close_now_def Let_def)
    ultimately show ?thesis using rest True by (simp add: end_task_frame b verdict_on_def)
  next
    case False
    then have "close_now s st = end_task ?i (log_that (Refused s) ?h)" "linv (end_task ?i (log_that (Refused s) ?h))"
      using lb i t(2) h by (simp_all add: close_now_def Let_def begin_close_def)
    then show ?thesis using rest False h by (simp add: end_task_frame verdict_on_def) (simp add: log_that_def)
  qed
qed

lemma close_now_all:
  assumes "linv st" and "set ss \<subseteq> set (task_sinks st)" and "distinct ss"
  shows "l_tasks (fold close_now ss st) = filter (\<lambda>t. tk_sink t \<notin> set ss) (l_tasks st) \<and> linv (fold close_now ss st) \<and>
    l_owed (fold close_now ss st) = l_owed st \<and> g_log (fold close_now ss st) = g_log st @ map (verdict_on st) ss"
  using assms
proof (induction ss arbitrary: st)
  case (Cons s ss)
  have e: "l_tasks (close_now s st) = filter (\<lambda>t. tk_sink t \<noteq> s) (l_tasks st)" "linv (close_now s st)"
    "l_owed (close_now s st) = l_owed st" "g_log (close_now s st) = g_log st @ [verdict_on st s]"
    "l_pid (close_now s st) = l_pid st" "l_owned (close_now s st) = l_owned st"
    using close_now_effect [OF Cons.prems(1), of s] Cons.prems(2) by simp_all
  have "set (task_sinks (close_now s st)) = set (task_sinks st) - {s}" by (auto simp: task_sinks_def e(1))
  then have "set ss \<subseteq> set (task_sinks (close_now s st))" using Cons.prems(2,3) by auto
  from Cons.IH [OF e(2) this] Cons.prems(3) show ?case
    by (simp add: e verdict_on_def)
qed simp

lemma fold_take_identity:
  "l_pid (fold (\<lambda>s. take_sink (d s) s) ss st) = l_pid st" "l_owned (fold (\<lambda>s. take_sink (d s) s) ss st) = l_owned st"
proof -
  have "l_pid (take_sink d s st) = l_pid st" "l_owned (take_sink d s st) = l_owned st" for d s st
    by (simp_all add: take_sink_def register_closing_def Let_def split: option.split prod.split)
  then show "l_pid (fold (\<lambda>s. take_sink (d s) s) ss st) = l_pid st" "l_owned (fold (\<lambda>s. take_sink (d s) s) ss st) = l_owned st"
    by (induction ss arbitrary: st) simp_all
qed

lemma dict_empty:
  assumes "\<And>k. dict_get d k = None"
  shows "d = []"
  using assms by (cases d) (auto, metis option.distinct(1))

lemma close_order_perm: "distinct taken \<Longrightarrow> set (close_order taken live configured) = set taken \<and> distinct (close_order taken live configured)"
  by (auto simp: close_order_def Let_def)

text \<open>C17. A shutdown that finds the drain thread ended, or no worker, closes every owed sink exactly
  once: afterwards nothing is owed, no close is under way and none is registered, and what it did
  is one \<^verbatim>\<open>close()\<close> per owed sink that belongs to this process and one refusal per other.\<close>

theorem shutdown_closes_each_once:
  assumes "lreachable L solo st" and "l_tasks st = []" and "\<forall>w. l_worker st = Some w \<longrightarrow> \<not> thread_alive w"
  shows "l_owed (close_all configured st) = [] \<and> l_tasks (close_all configured st) = [] \<and> l_closing (close_all configured st) = [] \<and>
    (\<exists>order. mset order = mset (l_owed st) \<and>
       g_log (close_all configured st) = g_log st @ map (\<lambda>s. if releasable (l_pid st) s None (l_owned st) then Closed s else Refused s) order)"
proof -
  note l = linv_reachable [OF assms(1)]
  have "\<not> closing st s" for s using task_closing [OF l, of s] assms(2) by (simp add: task_sinks_def)
  then have nh: "\<not> held st s" for s using assms(3) by (auto simp: held_def may_be_inside_def split: option.split)
  let ?order = "close_order (l_owed st) (map_option w_sink (l_worker st)) configured"
  have c: "linv (close_owed st)" "set (task_sinks (close_owed st)) = set (l_owed st)" "l_owed (close_owed st) = []" "g_log (close_owed st) = g_log st"
    using linv_close_owed [OF l] nh assms(2) by (simp_all add: task_sinks_def)
  have v: "verdict_on (close_owed st) = verdict_on st"
    by (rule ext) (simp add: verdict_on_def close_owed_def Let_def fold_take_identity)
  have d: "distinct (l_owed st)" using l by (simp add: linv_def)
  note o = close_order_perm [OF d, of "map_option w_sink (l_worker st)" configured]
  have all: "close_all configured st = fold close_now ?order (close_owed st)" using nh by (simp add: close_all_def)
  have f: "l_tasks (close_all configured st) = filter (\<lambda>t. tk_sink t \<notin> set ?order) (l_tasks (close_owed st))"
    "linv (close_all configured st)" "l_owed (close_all configured st) = []"
    "g_log (close_all configured st) = g_log st @ map (verdict_on st) ?order"
    using close_now_all [OF c(1), of ?order] o c v by (simp_all add: all)
  have t: "l_tasks (close_all configured st) = []" unfolding f(1) using o c(2) by (auto simp: filter_empty_conv task_sinks_def)
  then have "dict_get (l_closing (close_all configured st)) s = None" for s
    using f(2) by (auto simp: linv_def closing_def task_sinks_def)
  then have "l_closing (close_all configured st) = []" by (rule dict_empty)
  moreover have "mset ?order = mset (l_owed st)" using o d set_eq_iff_mset_eq_distinct by blast
  ultimately show ?thesis using f(3,4) t unfolding verdict_on_def [abs_def] by blast
qed

subsection \<open>Flushing\<close>

record flush_result =
  fr_ok :: bool
  fr_reason :: "pystr option"

fun result_of :: "verdict \<Rightarrow> flush_result" where
  "result_of Ok = \<lparr>fr_ok = True, fr_reason = None\<rparr>"
| "result_of Retired = \<lparr>fr_ok = False, fr_reason = Some (str ''retired'')\<rparr>"
| "result_of ThreadDied = \<lparr>fr_ok = False, fr_reason = Some (str ''thread-died'')\<rparr>"
| "result_of Abandoned = \<lparr>fr_ok = False, fr_reason = Some (str ''abandoned'')\<rparr>"
| "result_of QueueFull = \<lparr>fr_ok = False, fr_reason = Some (str ''queue-full'')\<rparr>"
| "result_of TimedOut = \<lparr>fr_ok = False, fr_reason = Some (str ''timed-out'')\<rparr>"

text \<open>Every owed sink is asked, also after one failed.\<close>

definition flush_live_sink :: "(nat \<Rightarrow> unit result) \<Rightarrow> life \<Rightarrow> bool" where
  "flush_live_sink flush_sink st =
     fold (\<lambda>s drained. case flush_sink s of Inr u \<Rightarrow> drained | Inl e \<Rightarrow> False) (l_owed st) True"

text \<open>\<open>sweep\<close> and \<open>drain\<close> are what the sweep of open spans and the worker's flush do.\<close>

definition flush_worker :: "unit result \<Rightarrow> verdict result \<Rightarrow> (nat \<Rightarrow> unit result) \<Rightarrow> life \<Rightarrow> flush_result" where
  "flush_worker sweep drain flush_sink st =
     (let swept = (case sweep of Inr u \<Rightarrow> True | Inl e \<Rightarrow> False);
          (drained, thread_died) =
            (case worker_exists st of
               None \<Rightarrow> (result_of Ok, False)
             | Some w \<Rightarrow> (case drain of Inr v \<Rightarrow> (result_of v, False) | Inl e \<Rightarrow> (result_of Ok, True)));
          sink_drained = flush_live_sink flush_sink st
      in if \<not> swept then result_of Abandoned
         else if thread_died then result_of ThreadDied
         else if \<not> sink_drained then \<lparr>fr_ok = False, fr_reason = Some (str ''sink-flush'')\<rparr>
         else drained)"

lemma flush_live_sink_all: "flush_live_sink flush_sink st \<longleftrightarrow> list_all (\<lambda>s. flush_sink s = Inr ()) (l_owed st)"
proof -
  have "fold (\<lambda>s drained. case flush_sink s of Inr u \<Rightarrow> drained | Inl e \<Rightarrow> False) ss b \<longleftrightarrow> b \<and> list_all (\<lambda>s. flush_sink s = Inr ()) ss" for ss b
    by (induction ss arbitrary: b) (auto split: sum.splits)
  then show ?thesis by (simp add: flush_live_sink_def)
qed


subsection \<open>Health\<close>

text \<open>The number of detached closes under way, and the report assembled from the worker's counters,
  the sink's and the process's. \<open>sink_losses\<close> and the two loss counts come from elsewhere.\<close>

definition closing_count :: "life \<Rightarrow> nat" where
  "closing_count st = length (filter (\<lambda>t. tk_detached t \<and> tk_stage t \<noteq> Taken) (l_tasks st))"

definition delivering_to_an_inherited_sink :: "nat option \<Rightarrow> life \<Rightarrow> bool" where
  "delivering_to_an_inherited_sink configured st =
     (case configured of None \<Rightarrow> False | Some s \<Rightarrow> \<not> releasable (l_pid st) s None (l_owned st))"

record 'a full_health = health +
  h_sink :: "'a option"
  h_retired :: bool
  h_closing_sinks :: nat
  h_inherited_sink :: bool
  h_orphan_lost :: nat
  h_in_span_lost :: nat

definition process_health :: "nat option \<Rightarrow> (nat \<Rightarrow> 'a) \<Rightarrow> nat \<times> nat \<Rightarrow> life \<Rightarrow> 'a full_health" where
  "process_health configured sink_losses losses st =
     (let w = map_option worker_health (worker_exists st)
      in \<lparr>h_queued = (case w of None \<Rightarrow> 0 | Some h \<Rightarrow> h_queued h), h_dropped = (case w of None \<Rightarrow> 0 | Some h \<Rightarrow> h_dropped h),
          h_failed_batches = (case w of None \<Rightarrow> 0 | Some h \<Rightarrow> h_failed_batches h),
          h_stopped_reason = (case w of None \<Rightarrow> None | Some h \<Rightarrow> h_stopped_reason h),
          h_submitted_after_shutdown = (case w of None \<Rightarrow> 0 | Some h \<Rightarrow> h_submitted_after_shutdown h),
          h_incomplete_swaps = (case w of None \<Rightarrow> 0 | Some h \<Rightarrow> h_incomplete_swaps h),
          h_sink = map_option sink_losses configured, h_retired = (l_retirements st > 0), h_closing_sinks = closing_count st,
          h_inherited_sink = delivering_to_an_inherited_sink configured st, h_orphan_lost = fst losses, h_in_span_lost = snd losses\<rparr>)"

subsection \<open>Witnesses\<close>

definition demo_cfg :: lcfg where
  "demo_cfg = \<lparr>lc_worker = tiny_cfg, lc_takes_signal = (\<lambda>s. True)\<rparr>"

text \<open>A process that owns sinks 7 and 8 and logged to sink 8 outside a span; then also built a
  worker for sink 7.\<close>

definition orphan_life :: life where
  "orphan_life = note_orphan_emit demo_cfg 8 (new_life 100 \<lparr>own_records = [(7, 100, 7), (8, 100, 8)], own_failed = False\<rparr>)"

definition both_life :: life where
  "both_life = get_worker demo_cfg 7 0 orphan_life"

lemma demo_reachable: "lreachable demo_cfg solo orphan_life" "lreachable demo_cfg solo both_life" "lreachable demo_cfg solo (close_owed both_life)"
  unfolding both_life_def orphan_life_def
  by (intro lreachable.step [OF _ lstep.orphan] lreachable.step [OF _ lstep.get_worker] lreachable.step [OF _ lstep.close_owed] lreachable.init)+

lemmas demo_evals = both_life_def orphan_life_def new_life_def demo_cfg_def note_orphan_emit_def get_worker_def offer_orphan_signal_def
  offer_stop_signal_def refresh_stop_signal_def register_exit_handler_def owe_def in_flight_def closing_def held_def close_owed_def
  take_sink_def register_closing_def may_be_inside_def holds_unfenced_def thread_alive_def new_worker_def Let_def

lemma demo_tasks: "l_tasks (close_owed both_life) = [\<lparr>tk_sink = 8, tk_reg = 0, tk_detached = False, tk_stage = Taken\<rparr>]"
  "l_tasks both_life = []" "l_tasks orphan_life = []" "l_worker orphan_life = None" "l_worker both_life = Some (new_worker 7 0)"
  "g_log orphan_life = [Armed 8]" "l_owed orphan_life = [8]"
  by (simp_all add: demo_evals)

theorem one_close_at_a_time_witness:
  "l_tasks (close_owed both_life) \<noteq> [] \<and> distinct (map tk_sink (l_tasks (close_owed both_life))) \<and>
   dict_get (l_closing (close_owed both_life)) 8 = Some 0"
  using one_close_at_a_time [OF demo_reachable(3) [of True]] demo_tasks(1) by simp


theorem close_spares_drain_thread_witness:
  "8 \<in> set (task_sinks (close_owed both_life)) \<and> inside (new_worker 7 0) \<noteq> Some 8"
  using close_spares_drain_thread [OF demo_reachable(2) lstep.close_owed demo_tasks(5), of 8] demo_tasks(1,2)
  by (simp add: task_sinks_def)

theorem shutdown_closes_each_once_witness:
  "l_owed (close_all None orphan_life) = [] \<and> Closed 8 \<in> set (g_log (close_all None orphan_life))"
proof -
  have "releasable (l_pid orphan_life) 8 None (l_owned orphan_life)"
    by (simp add: releasable_def demo_evals)
  moreover obtain order where "mset order = mset (l_owed orphan_life)" "l_owed (close_all None orphan_life) = []"
    "g_log (close_all None orphan_life) =
       g_log orphan_life @ map (\<lambda>s. if releasable (l_pid orphan_life) s None (l_owned orphan_life) then Closed s else Refused s) order"
    using shutdown_closes_each_once [OF demo_reachable(1) [of True] demo_tasks(3), of None] demo_tasks(4) by auto
  ultimately show ?thesis using demo_tasks(7) by auto
qed

end
