(* ===== verification/Sink_Kit.thy ===== *)
theory Sink_Kit
  imports Coercer
begin

text \<open>
  What the sinks share: loss counters that are committed only when an emit succeeds
  (\<^verbatim>\<open>sinks/_deferral.py\<close>), per-event encoding that drops what it cannot encode, the repairs
  for stores that refuse some values (\<^verbatim>\<open>sinks/_encode.py\<close>), the partition of a batch into
  requests (\<^verbatim>\<open>sinks/_chunk.py\<close>) and the reading of positional responses (\<^verbatim>\<open>sinks/_batch.py\<close>).
\<close>

subsection \<open>Losses and deferred counts\<close>

record sink_losses =
  sl_dropped :: nat
  sl_failed :: nat

text \<open>The counters of a sink by attribute name. An announcement is a loss of a number of events.\<close>

type_synonym counters = "pystr \<Rightarrow> nat"

record deferral =
  df_counts :: "(pystr, nat) dict"
  df_lines :: "nat list"

definition new_deferral :: deferral where
  "new_deferral = \<lparr>df_counts = [], df_lines = []\<rparr>"

definition defer_count :: "pystr \<Rightarrow> nat \<Rightarrow> deferral \<Rightarrow> deferral" where
  "defer_count counter n d =
     (if n = 0 then d
      else d\<lparr>df_counts := dict_set counter ((case dict_get (df_counts d) counter of None \<Rightarrow> 0 | Some k \<Rightarrow> k) + n) (df_counts d)\<rparr>)"

definition defer_announce :: "nat \<Rightarrow> deferral \<Rightarrow> deferral" where
  "defer_announce line d = d\<lparr>df_lines := df_lines d @ [line]\<rparr>"

text \<open>Leaving the \<^verbatim>\<open>with\<close> block, normally or by an exception: the counters and the lines written.\<close>

definition deferral_exit :: "bool \<Rightarrow> deferral \<Rightarrow> counters \<Rightarrow> counters \<times> nat list" where
  "deferral_exit raised d owner =
     (if raised then (owner, [])
      else (fold (\<lambda>(name, n) c. c(name := c name + n)) (df_counts d) owner, df_lines d))"

definition wrapped_losses :: "sink_losses option \<Rightarrow> nat \<Rightarrow> sink_losses option" where
  "wrapped_losses inner own =
     (if own = 0 then inner
      else case inner of
             None \<Rightarrow> Some \<lparr>sl_dropped = own, sl_failed = 0\<rparr>
           | Some l \<Rightarrow> Some \<lparr>sl_dropped = sl_dropped l + own, sl_failed = sl_failed l\<rparr>)"

text \<open>A sink may have no \<^verbatim>\<open>losses\<close>, one that raises, or one that returns something else.\<close>

definition read_losses :: "sink_losses option result option \<Rightarrow> sink_losses option" where
  "read_losses accessor = (case accessor of Some (Inr l) \<Rightarrow> l | _ \<Rightarrow> None)"

definition flush_sink :: "unit result option \<Rightarrow> bool result" where
  "flush_sink accessor = (case accessor of None \<Rightarrow> Inr False | Some r \<Rightarrow> map_sum id (\<lambda>_. True) r)"

text \<open>What a deferral will add to a counter.\<close>

definition pending_of :: "deferral \<Rightarrow> pystr \<Rightarrow> nat" where
  "pending_of d name = (case dict_get (df_counts d) name of None \<Rightarrow> 0 | Some n \<Rightarrow> n)"

lemma pending_simps [simp]:
  "pending_of new_deferral name = 0"
  "pending_of (defer_count counter n d) name = pending_of d name + (if name = counter then n else 0)"
  "pending_of (defer_announce line d) name = pending_of d name"
  by (auto simp: pending_of_def new_deferral_def defer_count_def defer_announce_def)

definition deferral_wf :: "deferral \<Rightarrow> bool" where
  "deferral_wf d \<longleftrightarrow> dict_wf (df_counts d)"

lemma deferral_wf_simps [simp]:
  "deferral_wf new_deferral" "deferral_wf d \<Longrightarrow> deferral_wf (defer_count counter n d)"
  "deferral_wf (defer_announce line d) = deferral_wf d"
  by (auto simp: deferral_wf_def new_deferral_def defer_count_def defer_announce_def)

lemma fold_counts:
  fixes c :: counters
  shows "distinct (map fst kvs) \<Longrightarrow> fold (\<lambda>(name, n) c. c(name := c name + n)) kvs c name = c name + (case map_of kvs name of None \<Rightarrow> 0 | Some n \<Rightarrow> n)"
proof (induction kvs arbitrary: c)
  case (Cons kv kvs)
  obtain k n where kv: "kv = (k, n)" by (cases kv)
  have "map_of kvs k = None" using Cons.prems by (auto simp: kv map_of_eq_None_iff)
  then show ?case using Cons by (auto simp: kv)
qed simp

lemma deferral_exit_counts:
  "deferral_wf d \<Longrightarrow> fst (deferral_exit raised d c) name = (if raised then c name else c name + pending_of d name)"
  using fold_counts [of "df_counts d" c name]
  by (simp add: deferral_exit_def deferral_wf_def dict_wf_def pending_of_def dict_get_def)

subsection \<open>Encoding a batch\<close>

fun encode_loop :: "(event \<Rightarrow> 'w result) \<Rightarrow> event list \<Rightarrow> (event \<times> 'w) list \<times> nat" where
  "encode_loop encode [] = ([], 0)"
| "encode_loop encode (ev # evs) =
     (let (encoded, failures) = encode_loop encode evs
      in case encode ev of Inl e \<Rightarrow> (encoded, Suc failures) | Inr wire \<Rightarrow> ((ev, wire) # encoded, failures))"

definition encode_events :: "(event \<Rightarrow> 'w result) \<Rightarrow> pystr \<Rightarrow> event list \<Rightarrow> deferral \<Rightarrow> (event \<times> 'w) list \<times> deferral" where
  "encode_events encode counter batch pending =
     (let (encoded, failures) = encode_loop encode batch
      in (encoded, if failures > 0 then defer_announce failures (defer_count counter failures pending) else pending))"

lemma encode_loop_accounts: "length (fst (encode_loop encode batch)) + snd (encode_loop encode batch) = length batch"
  by (induction batch) (auto split: sum.splits prod.splits)

lemma encode_events_accounts:
  assumes "encode_events encode counter batch pending = (encoded, pending')"
  shows "length encoded + pending_of pending' counter = length batch + pending_of pending counter"
    "name \<noteq> counter \<Longrightarrow> pending_of pending' name = pending_of pending name" "deferral_wf pending \<Longrightarrow> deferral_wf pending'"
  using assms encode_loop_accounts [of encode batch]
  by (auto simp: encode_events_def Let_def split: prod.splits if_splits)

subsection \<open>Requests of bounded size\<close>

fun chunk_loop :: "nat \<Rightarrow> nat \<Rightarrow> ('a \<Rightarrow> nat) \<Rightarrow> 'a list \<Rightarrow> nat \<Rightarrow> 'a list \<Rightarrow> 'a list list" where
  "chunk_loop count_limit byte_limit size_of current current_bytes [] = (if current = [] then [] else [current])"
| "chunk_loop count_limit byte_limit size_of current current_bytes (item # items) =
     (if current \<noteq> [] \<and> (count_limit \<le> length current \<or> byte_limit < current_bytes + size_of item)
      then current # chunk_loop count_limit byte_limit size_of [item] (size_of item) items
      else chunk_loop count_limit byte_limit size_of (current @ [item]) (current_bytes + size_of item) items)"

definition chunk_items :: "nat \<Rightarrow> nat \<Rightarrow> ('a \<Rightarrow> nat) \<Rightarrow> 'a list \<Rightarrow> 'a list list" where
  "chunk_items count_limit byte_limit size_of items = chunk_loop count_limit byte_limit size_of [] 0 items"

text \<open>Slices of a list. The size is an argument from outside.\<close>

fun chunks_of :: "nat \<Rightarrow> 'a list \<Rightarrow> nat \<Rightarrow> 'a list list" where
  "chunks_of n items 0 = []"
| "chunks_of n items (Suc fuel) =
     (if items = [] then [] else take n items # chunks_of n (drop n items) fuel)"

definition chunk_list :: "'a list \<Rightarrow> numarg \<Rightarrow> 'a list list result" where
  "chunk_list items arg =
     (case require_positive arg of Inl e \<Rightarrow> Inl e | Inr n \<Rightarrow> Inr (chunks_of (nat n) items (length items)))"

lemma chunks_of_spec:
  "0 < n \<Longrightarrow> length items \<le> fuel \<Longrightarrow>
     concat (chunks_of n items fuel) = items \<and> list_all (\<lambda>c. c \<noteq> [] \<and> length c \<le> n) (chunks_of n items fuel)"
  by (induction n items fuel rule: chunks_of.induct) auto

lemma chunk_list_spec:
  "chunk_list items arg = Inr cs \<Longrightarrow> concat cs = items \<and> [] \<notin> set cs"
  using chunks_of_spec [of "nat n" items "length items" for n]
  by (cases arg) (fastforce simp: chunk_list_def list_all_iff split: if_splits)+

definition total_size :: "('a \<Rightarrow> nat) \<Rightarrow> 'a list \<Rightarrow> nat" where
  "total_size size_of items = sum_list (map size_of items)"

text \<open>A request is allowed if it keeps both limits, or is a single item; and two requests in a row
  could not have been one.\<close>

definition request_ok :: "nat \<Rightarrow> nat \<Rightarrow> ('a \<Rightarrow> nat) \<Rightarrow> 'a list \<Rightarrow> bool" where
  "request_ok count_limit byte_limit size_of r \<longleftrightarrow>
     r \<noteq> [] \<and> (length r = 1 \<or> length r \<le> count_limit \<and> total_size size_of r \<le> byte_limit)"

fun greedy :: "nat \<Rightarrow> nat \<Rightarrow> ('a \<Rightarrow> nat) \<Rightarrow> 'a list list \<Rightarrow> bool" where
  "greedy count_limit byte_limit size_of (r # r' # rs) =
     ((count_limit \<le> length r \<or> byte_limit < total_size size_of r + size_of (r' ! 0)) \<and> greedy count_limit byte_limit size_of (r' # rs))"
| "greedy count_limit byte_limit size_of _ = True"

lemma chunk_loop_concat: "concat (chunk_loop mc mb sz cur b items) = cur @ items"
  by (induction mc mb sz cur b items rule: chunk_loop.induct) auto

lemma chunk_loop_ok:
  assumes "b = total_size sz cur" and "cur \<noteq> [] \<longrightarrow> request_ok mc mb sz cur"
  shows "list_all (request_ok mc mb sz) (chunk_loop mc mb sz cur b items)"
  using assms
proof (induction items arbitrary: cur b)
  case (Cons item items)
  have one: "request_ok mc mb sz [item]" "sz item = total_size sz [item]" by (simp_all add: request_ok_def total_size_def)
  show ?case
  proof (cases "cur \<noteq> [] \<and> (mc \<le> length cur \<or> mb < b + sz item)")
    case True
    then show ?thesis using Cons.prems Cons.IH [OF one(2)] one(1) by simp
  next
    case False
    have "request_ok mc mb sz (cur @ [item])" using False Cons.prems by (cases cur) (auto simp: request_ok_def total_size_def)
    moreover have "b + sz item = total_size sz (cur @ [item])" using Cons.prems(1) by (simp add: total_size_def)
    ultimately have "list_all (request_ok mc mb sz) (chunk_loop mc mb sz (cur @ [item]) (b + sz item) items)" using Cons.IH by blast
    then show ?thesis unfolding chunk_loop.simps if_not_P [OF False] .
  qed
qed (simp add: total_size_def)

lemma chunk_loop_first:
  "cur \<noteq> [] \<Longrightarrow> \<exists>r rs. chunk_loop mc mb sz cur b items = r # rs \<and> r ! 0 = cur ! 0"
proof (induction items arbitrary: cur b)
  case (Cons item items)
  have "\<exists>r rs. chunk_loop mc mb sz (cur @ [item]) (b + sz item) items = r # rs \<and> r ! 0 = (cur @ [item]) ! 0"
    by (rule Cons.IH) simp
  then show ?case using Cons.prems by (simp add: nth_append)
qed simp

lemma chunk_loop_greedy:
  assumes "b = total_size sz cur"
  shows "greedy mc mb sz (chunk_loop mc mb sz cur b items)"
  using assms
proof (induction items arbitrary: cur b)
  case (Cons item items)
  obtain r rs where r: "chunk_loop mc mb sz [item] (sz item) items = r # rs" "r ! 0 = item"
    using chunk_loop_first [of "[item]" mc mb sz "sz item" items] by auto
  have "greedy mc mb sz (chunk_loop mc mb sz [item] (sz item) items)"
    "greedy mc mb sz (chunk_loop mc mb sz (cur @ [item]) (b + sz item) items)"
    using Cons.prems by (simp_all add: Cons.IH total_size_def)
  then show ?case using r Cons.prems by simp
qed simp

text \<open>A batch is partitioned into requests without loss or reordering; every request keeps the
  count and byte limits or is a single item; and no two requests in a row could have been sent as
  one.\<close>

theorem chunk_items_spec:
  "concat (chunk_items count_limit byte_limit size_of items) = items \<and>
   list_all (request_ok count_limit byte_limit size_of) (chunk_items count_limit byte_limit size_of items) \<and>
   greedy count_limit byte_limit size_of (chunk_items count_limit byte_limit size_of items)"
  by (simp add: chunk_items_def chunk_loop_concat chunk_loop_ok chunk_loop_greedy total_size_def)

subsection \<open>Positional responses\<close>

text \<open>The list of results in a response, if it is a list of dictionaries; and the records whose
  result carries an error code, or the number that a response of another length leaves open.\<close>

datatype 'a adjudication = Adjudication "'a list" nat

definition usable_results :: "bool list option \<Rightarrow> bool list" where
  "usable_results results = (case results of Some rs \<Rightarrow> rs | None \<Rightarrow> [])"

definition adjudicate_positional :: "'a list \<Rightarrow> bool list \<Rightarrow> 'a adjudication" where
  "adjudicate_positional records results =
     (if length results \<noteq> length records then Adjudication [] (length records)
      else Adjudication (map fst (filter snd (zip records results))) 0)"

lemma adjudicate_length:
  "adjudicate_positional records results = Adjudication retry unknown \<Longrightarrow>
     length retry \<le> length records \<and> (unknown = 0 \<or> unknown = length records)"
  by (auto simp: adjudicate_positional_def le_trans [OF length_filter_le] split: if_splits)

subsection \<open>Repairs\<close>

definition NUL_REPLACEMENT :: nat where "NUL_REPLACEMENT = 65533"

definition replace_nul :: "pystr \<Rightarrow> pystr" where
  "replace_nul t = map (\<lambda>c. if c = 0 then NUL_REPLACEMENT else c) t"

definition INT64_MIN :: int where "INT64_MIN = - (2 ^ 63)"

definition INT64_MAX :: int where "INT64_MAX = 2 ^ 63 - 1"

fun repair_walk :: "bool \<Rightarrow> bool \<Rightarrow> jval \<Rightarrow> jval \<times> bool" where
  "repair_walk vals ints (JStr t) = (if vals \<and> 0 \<in> set t then (JStr (replace_nul t), True) else (JStr t, False))"
| "repair_walk vals ints (JInt i) =
     (if ints \<and> (i < INT64_MIN \<or> INT64_MAX < i) then (JStr (int_placeholder i), True) else (JInt i, False))"
| "repair_walk vals ints (JDict kvs) =
     (let pairs = map (\<lambda>(k, v). (if 0 \<in> set k then replace_nul k else k, 0 \<in> set k, repair_walk vals ints v)) kvs
      in (JDict (fold (\<lambda>(k, _, v, _) d. dict_set k v d) pairs []), list_ex (\<lambda>(_, kc, _, vc). kc \<or> vc) pairs))"
| "repair_walk vals ints (JList js) =
     (let pairs = map (repair_walk vals ints) js in (JList (map fst pairs), list_ex snd pairs))"
| "repair_walk vals ints j = (j, False)"

text \<open>The repaired copy is marked; \<open>None\<close> when there was nothing to repair.\<close>

definition repair_marked :: "jval \<Rightarrow> event" where
  "repair_marked j = (case j of JDict d \<Rightarrow> dict_set (str ''truncated'') (JBool True) d | _ \<Rightarrow> [])"

definition repair_nul :: "event \<Rightarrow> event option" where
  "repair_nul ev =
     (let (repaired, changed) = repair_walk True False (JDict ev) in if changed then Some (repair_marked repaired) else None)"

definition repair_bson :: "event \<Rightarrow> event option" where
  "repair_bson ev =
     (let (repaired, changed) = repair_walk False True (JDict ev) in if changed then Some (repair_marked repaired) else None)"

text \<open>What the two stores accept.\<close>

fun clean :: "bool \<Rightarrow> bool \<Rightarrow> jval \<Rightarrow> bool" where
  "clean vals ints (JStr t) = (vals \<longrightarrow> 0 \<notin> set t)"
| "clean vals ints (JInt i) = (ints \<longrightarrow> INT64_MIN \<le> i \<and> i \<le> INT64_MAX)"
| "clean vals ints (JDict kvs) = list_all (\<lambda>(k, v). 0 \<notin> set k \<and> clean vals ints v) kvs"
| "clean vals ints (JList js) = list_all (clean vals ints) js"
| "clean vals ints j = True"

lemma replace_nul_clean: "0 \<notin> set (replace_nul t)"
  by (auto simp: replace_nul_def NUL_REPLACEMENT_def)

lemma placeholder_clean: "0 \<notin> set (int_placeholder i)"
proof -
  have "0 \<notin> set (decimal n)" for n by (induction n rule: decimal.induct) (subst decimal.simps, auto)
  then show ?thesis by (simp add: int_placeholder_def str_def)
qed

lemma clean_dict_set: "clean vals ints (JDict d) \<Longrightarrow> 0 \<notin> set k \<Longrightarrow> clean vals ints v \<Longrightarrow> clean vals ints (JDict (dict_set k v d))"
  using set_dict_set [of k v d] by (auto simp: list_all_iff)

lemma clean_fold:
  "clean vals ints (JDict d) \<Longrightarrow> list_all (\<lambda>(k, _, v, _). 0 \<notin> set k \<and> clean vals ints v) pairs \<Longrightarrow>
     clean vals ints (JDict (fold (\<lambda>(k, _, v, _) d. dict_set k v d) pairs d))"
proof (induction pairs arbitrary: d)
  case (Cons p pairs)
  obtain k a v b where p: "p = (k, a, v, b)" by (cases p)
  show ?case using Cons clean_dict_set [of vals ints d k v] by (simp add: p del: clean.simps)
qed simp

lemma repair_walk_clean: "clean vals ints (fst (repair_walk vals ints j))"
proof (induction j)
  case (JDict kvs)
  then have "list_all (\<lambda>(k, _, v, _). 0 \<notin> set k \<and> clean vals ints v)
      (map (\<lambda>(k, v). (if 0 \<in> set k then replace_nul k else k, 0 \<in> set k, repair_walk vals ints v)) kvs)"
    using replace_nul_clean by (fastforce simp: list_all_iff split: prod.splits)
  from clean_fold [OF _ this, of "[]"] show ?case by (simp add: Let_def)
next
  case (JList js)
  then show ?case by (auto simp: Let_def list_all_iff)
qed (auto simp: replace_nul_clean placeholder_clean not_less)

lemma repair_walk_unchanged: "snd (repair_walk vals ints j) \<longleftrightarrow> \<not> clean vals ints j"
proof (induction j)
  case (JDict kvs)
  then have "snd (repair_walk vals ints (snd kv)) \<longleftrightarrow> \<not> clean vals ints (snd kv)" if "kv \<in> set kvs" for kv
    using that by (cases kv) auto
  then show ?case by (auto simp: Let_def list_ex_iff list_all_iff case_prod_beta)
next
  case (JList js)
  then show ?case by (auto simp: Let_def list_ex_iff list_all_iff)
qed (auto simp: not_less not_le)

lemma repaired_clean:
  assumes "repair_walk vals ints (JDict ev) = (repaired, changed)"
  shows "clean vals ints (JDict (repair_marked repaired)) \<and> dict_get (repair_marked repaired) (str ''truncated'') = Some (JBool True)"
proof -
  obtain d where d: "repaired = JDict d" using assms by (auto simp: Let_def)
  have "clean vals ints (JDict d)" using repair_walk_clean [of vals ints "JDict ev"] assms d by simp
  then show ?thesis using clean_dict_set [of vals ints d "str ''truncated''" "JBool True"] d
    by (simp add: repair_marked_def str_def del: clean.simps(3))
qed

text \<open>The repairs for PostgreSQL and MongoDB leave an acceptable event alone and turn any other
  one into a marked event that the store accepts at every depth.\<close>

theorem repairs_accepted:
  "(repair_nul ev = None \<longleftrightarrow> clean True False (JDict ev)) \<and> (repair_bson ev = None \<longleftrightarrow> clean False True (JDict ev)) \<and>
   list_all (\<lambda>e. clean True False (JDict e) \<and> dict_get e (str ''truncated'') = Some (JBool True)) (case repair_nul ev of None \<Rightarrow> [] | Some e \<Rightarrow> [e]) \<and>
   list_all (\<lambda>e. clean False True (JDict e) \<and> dict_get e (str ''truncated'') = Some (JBool True)) (case repair_bson ev of None \<Rightarrow> [] | Some e \<Rightarrow> [e])"
proof -
  obtain r c where rc: "repair_walk True False (JDict ev) = (r, c)" by (rule prod.exhaust)
  obtain r' c' where rc': "repair_walk False True (JDict ev) = (r', c')" by (rule prod.exhaust)
  have "c \<longleftrightarrow> \<not> clean True False (JDict ev)" "c' \<longleftrightarrow> \<not> clean False True (JDict ev)"
    using repair_walk_unchanged [of True False "JDict ev"] repair_walk_unchanged [of False True "JDict ev"] rc rc' by simp_all
  then show ?thesis using repaired_clean [OF rc] repaired_clean [OF rc'] rc rc'
    by (simp add: repair_nul_def repair_bson_def del: clean.simps repair_walk.simps)
qed

end
