(* ===== verification/Batch_Sinks.thy ===== *)
theory Batch_Sinks
  imports Sink_Kit
begin

text \<open>
  The sinks that send batches to a cloud service: \<^verbatim>\<open>sinks/sqs.py\<close>, \<^verbatim>\<open>sinks/sns.py\<close>,
  \<^verbatim>\<open>sinks/kinesis.py\<close> and \<^verbatim>\<open>sinks/firehose.py\<close>. The service's client is an argument: what it
  answers to its n-th request. The accounting law they share, that every record of a request is
  accepted or counted as lost, is the interface \<open>sender\<close>; the law of a whole emit is proved over it
  once and interpreted for each of them.
\<close>

subsection \<open>The accounting of requests\<close>

text \<open>What became of a request: the records the service accepted, the records counted as lost, and
  whether the sink knows how many were accepted, and whether a retry could deliver what was lost.\<close>

record sent =
  sn_accepted :: nat
  sn_lost :: nat
  sn_known :: bool
  sn_recoverable :: bool

locale sender =
  fixes send :: "'c \<Rightarrow> 'r list \<Rightarrow> sent \<times> 'c" and good :: "'c \<Rightarrow> bool"
  assumes conserves: "good c \<Longrightarrow> send c rs = (o', c') \<Longrightarrow> sn_accepted o' + sn_lost o' = length rs \<and> good c'"
begin

lemma sends_conserve:
  assumes "good c" and "fold (\<lambda>chunk (os, c). let (o', c') = send c chunk in (os @ [o'], c')) chunks (os0, c) = (os, c')"
  shows "sum_list (map sn_accepted os) + sum_list (map sn_lost os) =
    sum_list (map sn_accepted os0) + sum_list (map sn_lost os0) + length (concat chunks) \<and> good c'"
  using assms
proof (induction chunks arbitrary: os0 c)
  case (Cons chunk chunks)
  obtain o' c2 where o: "send c chunk = (o', c2)" by (rule prod.exhaust)
  have "sn_accepted o' + sn_lost o' = length chunk \<and> good c2" by (rule conserves [OF Cons.prems(1) o])
  moreover have "fold (\<lambda>chunk (os, c). let (o', c') = send c chunk in (os @ [o'], c')) chunks (os0 @ [o'], c2) = (os, c')"
    using Cons.prems(2) o by simp
  ultimately show ?case using Cons.IH [of c2 "os0 @ [o']"] by auto
qed simp

end

definition send_chunks :: "('c \<Rightarrow> 'r list \<Rightarrow> sent \<times> 'c) \<Rightarrow> 'r list list \<Rightarrow> 'c \<Rightarrow> sent list \<times> 'c" where
  "send_chunks send chunks c = fold (\<lambda>chunk (os, c). let (o', c') = send c chunk in (os @ [o'], c')) chunks ([], c)"

text \<open>A client and the number of requests it has answered.\<close>

type_synonym ('q, 'p) service = "(nat \<Rightarrow> 'q list \<Rightarrow> 'p result) \<times> nat"

subsection \<open>SQS and SNS: failures by identifier\<close>

text \<open>An entry is its position in the request, which is its identifier, and its content; a failure
  names an entry and says whether the sender is at fault.\<close>

type_synonym 'p entry = "nat \<times> 'p"

record failure =
  fl_id :: nat
  fl_sender_fault :: bool

text \<open>Documented behaviour of the services: failures are of entries of the request, one each.\<close>

definition honest :: "('p entry, failure list) service \<Rightarrow> bool" where
  "honest svc \<longleftrightarrow>
     (\<forall>n es fs. fst svc n es = Inr fs \<longrightarrow> distinct (map fl_id fs) \<and> set (map fl_id fs) \<subseteq> set (map fst es))"

fun sqs_attempts :: "('p entry, failure list) service \<Rightarrow> 'p entry list \<Rightarrow> nat \<Rightarrow> nat \<Rightarrow> nat \<Rightarrow> sent \<times> ('p entry, failure list) service" where
  "sqs_attempts svc entries accepted failed 0 =
     (\<lparr>sn_accepted = accepted, sn_lost = failed, sn_known = True, sn_recoverable = False\<rparr>, svc)"
| "sqs_attempts (client, n) entries accepted failed (Suc left) =
     (case client n entries of
        Inl e \<Rightarrow>
          if 0 < left then sqs_attempts (client, Suc n) entries accepted failed left
          else (\<lparr>sn_accepted = accepted, sn_lost = failed + length entries, sn_known = True, sn_recoverable = True\<rparr>, (client, Suc n))
      | Inr fs \<Rightarrow>
          (let failed_ids = set (map fl_id fs);
               accepted = accepted + length (filter (\<lambda>en. fst en \<notin> failed_ids) entries);
               failed = failed + length (filter fl_sender_fault fs);
               retryable = set (map fl_id (filter (\<lambda>f. \<not> fl_sender_fault f) fs));
               entries' = filter (\<lambda>en. fst en \<in> retryable) entries
           in if fs = [] \<or> retryable = {}
              then (\<lparr>sn_accepted = accepted, sn_lost = failed, sn_known = True, sn_recoverable = False\<rparr>, (client, Suc n))
              else if 0 < left then sqs_attempts (client, Suc n) entries' accepted failed left
              else (\<lparr>sn_accepted = accepted, sn_lost = failed + length entries', sn_known = True, sn_recoverable = True\<rparr>, (client, Suc n))))"

definition sqs_send :: "nat \<Rightarrow> ('p entry, failure list) service \<Rightarrow> 'p list \<Rightarrow> sent \<times> ('p entry, failure list) service" where
  "sqs_send max_retries svc prepared = sqs_attempts svc (zip [0..<length prepared] prepared) 0 0 (max_retries + 1)"

text \<open>SNS does not look at whose fault a failure is, and reports what is left at the end as lost.\<close>

fun sns_attempts :: "('p entry, failure list) service \<Rightarrow> nat \<Rightarrow> 'p entry list \<Rightarrow> nat \<Rightarrow> sent \<times> ('p entry, failure list) service" where
  "sns_attempts svc sent_count entries 0 = (\<lparr>sn_accepted = 0, sn_lost = 0, sn_known = True, sn_recoverable = True\<rparr>, svc)"
| "sns_attempts (client, n) sent_count entries (Suc left) =
     (case client n entries of
        Inl e \<Rightarrow>
          if 0 < left then sns_attempts (client, Suc n) sent_count entries left
          else (\<lparr>sn_accepted = sent_count - length entries, sn_lost = length entries, sn_known = True, sn_recoverable = True\<rparr>, (client, Suc n))
      | Inr fs \<Rightarrow>
          if fs = [] then (\<lparr>sn_accepted = sent_count, sn_lost = 0, sn_known = True, sn_recoverable = True\<rparr>, (client, Suc n))
          else let entries = filter (\<lambda>en. fst en \<in> set (map fl_id fs)) entries
               in if 0 < left then sns_attempts (client, Suc n) sent_count entries left
                  else (\<lparr>sn_accepted = sent_count - length entries, sn_lost = length entries, sn_known = True, sn_recoverable = True\<rparr>, (client, Suc n)))"

definition sns_send :: "nat \<Rightarrow> ('p entry, failure list) service \<Rightarrow> 'p list \<Rightarrow> sent \<times> ('p entry, failure list) service" where
  "sns_send max_retries svc bodies = sns_attempts svc (length bodies) (zip [0..<length bodies] bodies) (max_retries + 1)"

subsection \<open>Kinesis and Firehose: results by position\<close>

text \<open>A response: the count of failed records, and for each record whether its result carries an
  error code, if the results are usable.\<close>

record response =
  rs_failed_count :: nat
  rs_results :: "bool list option"

fun put_attempts :: "('r, response) service \<Rightarrow> nat \<Rightarrow> 'r list \<Rightarrow> nat \<Rightarrow> sent \<times> ('r, response) service" where
  "put_attempts svc sent_count records 0 = (\<lparr>sn_accepted = 0, sn_lost = 0, sn_known = True, sn_recoverable = True\<rparr>, svc)"
| "put_attempts (client, n) sent_count records (Suc left) =
     (case client n records of
        Inl e \<Rightarrow>
          if 0 < left then put_attempts (client, Suc n) sent_count records left
          else (\<lparr>sn_accepted = sent_count - length records, sn_lost = length records, sn_known = True, sn_recoverable = True\<rparr>, (client, Suc n))
      | Inr r \<Rightarrow>
          if rs_failed_count r = 0
          then (\<lparr>sn_accepted = sent_count, sn_lost = 0, sn_known = True, sn_recoverable = True\<rparr>, (client, Suc n))
          else (case adjudicate_positional records (usable_results (rs_results r)) of
                  Adjudication retry unadjudicated \<Rightarrow>
                    if unadjudicated > 0
                    then (\<lparr>sn_accepted = sent_count - length records, sn_lost = unadjudicated, sn_known = False, sn_recoverable = True\<rparr>, (client, Suc n))
                    else if retry = []
                    then (\<lparr>sn_accepted = sent_count, sn_lost = 0, sn_known = True, sn_recoverable = True\<rparr>, (client, Suc n))
                    else if 0 < left then put_attempts (client, Suc n) sent_count retry left
                    else (\<lparr>sn_accepted = sent_count - length retry, sn_lost = length retry, sn_known = True, sn_recoverable = True\<rparr>, (client, Suc n))))"

definition put_send :: "nat \<Rightarrow> ('r, response) service \<Rightarrow> 'r list \<Rightarrow> sent \<times> ('r, response) service" where
  "put_send max_retries svc records = put_attempts svc (length records) records (max_retries + 1)"

subsection \<open>Conservation\<close>

lemma filter_ids_length:
  assumes "distinct (map fst es)" and "ids \<subseteq> set (map fst es)"
  shows "length (filter (\<lambda>en. fst en \<in> ids) es) = card ids"
proof -
  have d: "distinct (map fst (filter (\<lambda>en. fst en \<in> ids) es))" using assms(1) by (rule distinct_map_filter)
  have "set (map fst (filter (\<lambda>en. fst en \<in> ids) es)) = ids" using assms(2) by force
  then show ?thesis using distinct_card [OF d] by simp
qed

lemma distinct_map_split:
  "distinct (map f xs) \<Longrightarrow>
     card (set (map f (filter P xs))) + length (filter (\<lambda>x. \<not> P x) xs) = length xs"
  using distinct_card [OF distinct_map_filter, of f xs P] length_filter_partition [of P xs] by simp

text \<open>The failures of an honest response: as many entries as failures, those to retry among them.\<close>

lemma honest_split:
  assumes "honest svc" and "fst svc n es = Inr fs" and "distinct (map fst es)"
  shows "length (filter (\<lambda>en. fst en \<notin> set (map fl_id fs)) es) + length fs = length es"
    and "length (filter (\<lambda>en. fst en \<in> set (map fl_id (filter P fs))) es) + length (filter (\<lambda>f. \<not> P f) fs) = length fs"
proof -
  have f: "distinct (map fl_id fs)" "set (map fl_id fs) \<subseteq> set (map fst es)" using assms(1,2) by (auto simp: honest_def)
  have "length (filter (\<lambda>en. fst en \<in> set (map fl_id fs)) es) = length fs"
    using filter_ids_length [OF assms(3) f(2)] distinct_card [OF f(1)] by simp
  then show "length (filter (\<lambda>en. fst en \<notin> set (map fl_id fs)) es) + length fs = length es"
    using length_filter_partition [of "\<lambda>en. fst en \<in> set (map fl_id fs)" es] by simp
  have "set (map fl_id (filter P fs)) \<subseteq> set (map fst es)" using f(2) by auto
  then show "length (filter (\<lambda>en. fst en \<in> set (map fl_id (filter P fs))) es) + length (filter (\<lambda>f. \<not> P f) fs) = length fs"
    using filter_ids_length [OF assms(3)] distinct_map_split [OF f(1), of P] by simp
qed

lemma honest_next [simp]: "honest (client, Suc n) \<longleftrightarrow> honest (client, n)"
  by (simp add: honest_def)

lemma sqs_attempts_conserves:
  assumes "honest svc" and "distinct (map fst es)" and "sqs_attempts svc es acc failed (Suc left) = (o', svc')"
  shows "sn_accepted o' + sn_lost o' = acc + failed + length es \<and> honest svc'"
  using assms
proof (induction left arbitrary: svc es acc failed)
  case (0 svc)
  obtain client n where svc: "svc = (client, n)" by (cases svc)
  show ?case
  proof (cases "client n es")
    case (Inr fs)
    note sp = honest_split [OF "0.prems"(1) _ "0.prems"(2), of n fs, unfolded svc fst_conv, OF Inr]
    show ?thesis using "0.prems" sp(1) sp(2) [of "\<lambda>f. \<not> fl_sender_fault f"]
      by (auto simp: svc Inr Let_def split: if_splits simp del: set_map)
  qed (use 0 in \<open>auto simp: svc\<close>)
next
  case (Suc left svc)
  obtain client n where svc: "svc = (client, n)" by (cases svc)
  have h: "honest (client, Suc n)" using Suc.prems(1) by (simp add: svc)
  show ?case
  proof (cases "client n es")
    case (Inl e)
    then show ?thesis using Suc.IH [OF h Suc.prems(2)] Suc.prems(3) by (simp add: svc)
  next
    case (Inr fs)
    note sp = honest_split [OF Suc.prems(1) _ Suc.prems(2), of n fs, unfolded svc fst_conv, OF Inr]
    define es' where "es' = filter (\<lambda>en. fst en \<in> set (map fl_id (filter (\<lambda>f. \<not> fl_sender_fault f) fs))) es"
    have es': "distinct (map fst es')" unfolding es'_def using Suc.prems(2) by (rule distinct_map_filter)
    have "sn_accepted o' + sn_lost o' =
        acc + length (filter (\<lambda>en. fst en \<notin> set (map fl_id fs)) es) + (failed + length (filter fl_sender_fault fs)) + length es' \<and> honest svc'"
    proof (cases "fs = [] \<or> set (map fl_id (filter (\<lambda>f. \<not> fl_sender_fault f) fs)) = {}")
      case True
      then have "es' = []" by (auto simp: es'_def filter_empty_conv)
      then show ?thesis using Suc.prems(3) True h by (auto simp: svc Inr Let_def es'_def split: if_splits)
    next
      case False
      then have "sqs_attempts (client, Suc n) es' (acc + length (filter (\<lambda>en. fst en \<notin> set (map fl_id fs)) es))
          (failed + length (filter fl_sender_fault fs)) (Suc left) = (o', svc')"
        using Suc.prems(3) by (simp add: svc Inr Let_def es'_def del: sqs_attempts.simps(2) set_map add: sqs_attempts.simps(2) [of client n])
      from Suc.IH [OF h es' this] show ?thesis .
    qed
    then show ?thesis using sp(1) sp(2) [of "\<lambda>f. \<not> fl_sender_fault f"] by (simp add: es'_def del: set_map)
  qed
qed

lemma sns_attempts_conserves:
  assumes "honest svc" and "distinct (map fst es)" and "length es \<le> sent_count"
    and "sns_attempts svc sent_count es (Suc left) = (o', svc')"
  shows "sn_accepted o' + sn_lost o' = sent_count \<and> honest svc'"
  using assms
proof (induction left arbitrary: svc es)
  case (0 svc)
  obtain client n where svc: "svc = (client, n)" by (cases svc)
  have "length (filter P es) \<le> sent_count" for P using length_filter_le "0.prems"(3) by (rule le_trans)
  then show ?case using "0.prems" by (auto simp: svc Let_def split: sum.splits if_splits)
next
  case (Suc left svc)
  obtain client n where svc: "svc = (client, n)" by (cases svc)
  have h: "honest (client, Suc n)" using Suc.prems(1) by (simp add: svc)
  have d: "distinct (map fst (filter P es))" "length (filter P es) \<le> sent_count" for P
    using Suc.prems(2) le_trans [OF length_filter_le Suc.prems(3)] by (simp_all add: distinct_map_filter)
  show ?case
  proof (cases "client n es")
    case (Inl e)
    then show ?thesis using Suc.IH [OF h Suc.prems(2,3)] Suc.prems(4) by (simp add: svc)
  next
    case (Inr fs)
    show ?thesis
    proof (cases "fs = []")
      case False
      then have "sns_attempts (client, Suc n) sent_count (filter (\<lambda>en. fst en \<in> set (map fl_id fs)) es) (Suc left) = (o', svc')"
        using Suc.prems(4) Inr by (simp add: svc Let_def del: set_map)
      then show ?thesis by (rule Suc.IH [OF h d])
    qed (use Suc.prems(4) Inr h in \<open>auto simp: svc\<close>)
  qed
qed

lemma put_attempts_conserves:
  assumes "length rs \<le> sent_count" and "put_attempts svc sent_count rs (Suc left) = (o', svc')"
  shows "sn_accepted o' + sn_lost o' = sent_count"
  using assms
proof (induction left arbitrary: svc rs)
  case (0 svc)
  obtain client n where svc: "svc = (client, n)" by (cases svc)
  show ?case using "0.prems" adjudicate_length [of rs]
    by (fastforce simp: svc split: sum.splits if_splits adjudication.splits)
next
  case (Suc left svc)
  obtain client n where svc: "svc = (client, n)" by (cases svc)
  show ?case
  proof (cases "client n rs")
    case (Inl e)
    then show ?thesis using Suc.IH [OF Suc.prems(1), of "(client, Suc n)"] Suc.prems(2) by (simp add: svc)
  next
    case (Inr r)
    obtain retry unknown where a: "adjudicate_positional rs (usable_results (rs_results r)) = Adjudication retry unknown"
      by (rule adjudication.exhaust)
    note len = adjudicate_length [OF a]
    show ?thesis
    proof (cases "rs_failed_count r = 0 \<or> unknown > 0 \<or> retry = []")
      case False
      then have "put_attempts (client, Suc n) sent_count retry (Suc left) = (o', svc')"
        using Suc.prems(2) by (simp add: svc Inr a)
      then show ?thesis using Suc.IH [of retry] len Suc.prems(1) by auto
    qed (use Suc.prems len in \<open>auto simp: svc Inr a split: if_splits\<close>)
  qed
qed

lemma zip_positions_distinct: "distinct (map fst (zip [0..<length xs] xs))"
  by simp

interpretation sqs: sender "sqs_send max_retries" honest
proof
  show "sn_accepted o' + sn_lost o' = length rs \<and> honest c'" if "honest c" and "sqs_send max_retries c rs = (o', c')" for c rs o' c'
    using sqs_attempts_conserves [OF that(1) zip_positions_distinct] that(2) by (fastforce simp: sqs_send_def simp del: sqs_attempts.simps)
qed

interpretation sns: sender "sns_send max_retries" honest
proof
  show "sn_accepted o' + sn_lost o' = length rs \<and> honest c'" if "honest c" and "sns_send max_retries c rs = (o', c')" for c rs o' c'
    using sns_attempts_conserves [OF that(1) zip_positions_distinct, of rs "length rs"] that(2) by (fastforce simp: sns_send_def simp del: sns_attempts.simps)
qed

interpretation put: sender "put_send max_retries" "\<lambda>_. True"
proof
  show "sn_accepted o' + sn_lost o' = length rs \<and> True" if "put_send max_retries c rs = (o', c')" for c rs o' c'
    using put_attempts_conserves [of rs "length rs"] that by (simp add: put_send_def del: put_attempts.simps)
qed

end
