(* ===== verification/Batch_Emit.thy ===== *)
theory Batch_Emit
  imports Batch_Sinks Context
begin

text \<open>
  The \<^verbatim>\<open>emit\<close> of the batch sinks: \<^verbatim>\<open>SQSSink\<close>, \<^verbatim>\<open>SNSSink\<close>, \<^verbatim>\<open>KinesisSink\<close> and
  \<^verbatim>\<open>FirehoseSink\<close>, over the requests of \<open>Batch_Sinks\<close> and the deferred counts of \<open>Sink_Kit\<close>.
  Arguments stand for \<^verbatim>\<open>json.dumps\<close> of an event (\<open>dumps\<close>, which may raise), \<^verbatim>\<open>str()\<close> of a
  value that is no text (\<open>render\<close>), the identifiers \<^verbatim>\<open>new_log_id\<close> draws (\<open>fresh\<close>, one for each
  position of the batch) and the service. The lines written to the diagnostics are not modelled.
\<close>

text \<open>What an emit leaves behind: how it ended, the counters, the requests it sent first (before
  the retries), what became of each, and the service.\<close>

record ('r, 'c) emitted =
  em_result :: "unit result"
  em_counters :: counters
  em_requests :: "'r list list"
  em_outcomes :: "sent list"
  em_service :: 'c

abbreviation C_FAILED :: pystr where "C_FAILED \<equiv> str ''failed''"
abbreviation C_OVERSIZED :: pystr where "C_OVERSIZED \<equiv> str ''dropped_oversized''"
abbreviation C_UNENCODABLE :: pystr where "C_UNENCODABLE \<equiv> str ''_unencodable''"
abbreviation C_ID_FAILED :: pystr where "C_ID_FAILED \<equiv> str ''_id_failed''"
abbreviation C_UNADJUDICATED :: pystr where "C_UNADJUDICATED \<equiv> str ''dropped_unadjudicated''"

definition bump :: "pystr \<Rightarrow> nat \<Rightarrow> counters \<Rightarrow> counters" where
  "bump name n c = c(name := c name + n)"

definition accepted_total :: "sent list \<Rightarrow> nat" where
  "accepted_total os = sum_list (map sn_accepted os)"

definition lost_total :: "sent list \<Rightarrow> nat" where
  "lost_total os = sum_list (map sn_lost os)"

subsection \<open>SQS\<close>

datatype group_source = GroupText pystr | GroupCall "event \<Rightarrow> pystr result" | GroupTrace

record sqs_cfg =
  sqs_retries :: nat
  sqs_fifo :: bool
  sqs_group :: group_source
  sqs_dedup :: "(event \<Rightarrow> pystr result) option"

definition DEFAULT_GROUP_ID :: pystr where "DEFAULT_GROUP_ID = str ''log-foundry''"
definition MAX_ID_LEN :: nat where "MAX_ID_LEN = 128"
definition SQS_MAX_BATCH :: nat where "SQS_MAX_BATCH = 10"
definition SQS_MAX_BYTES :: nat where "SQS_MAX_BYTES = 256 * 1024"

definition ends_with :: "pystr \<Rightarrow> pystr \<Rightarrow> bool" where
  "ends_with t ending \<longleftrightarrow> length ending \<le> length t \<and> drop (length t - length ending) t = ending"

definition sqs_new :: "pystr \<Rightarrow> numarg \<Rightarrow> bool option \<Rightarrow> group_source \<Rightarrow> (event \<Rightarrow> pystr result) option \<Rightarrow> sqs_cfg result" where
  "sqs_new queue_url max_retries fifo source dedup =
     (case floor_count max_retries 0 of
        Inl e \<Rightarrow> Inl e
      | Inr retries \<Rightarrow>
          if (case source of GroupText t \<Rightarrow> strip t = [] | _ \<Rightarrow> False) then Inl ValueError
          else Inr \<lparr>sqs_retries = nat retries,
                    sqs_fifo = (case fifo of None \<Rightarrow> ends_with queue_url (str ''.fifo'') | Some b \<Rightarrow> b),
                    sqs_group = source, sqs_dedup = dedup\<rparr>)"

definition bounded_id :: "pystr \<Rightarrow> pystr \<Rightarrow> pystr" where
  "bounded_id raw fallback = (let cleaned = strip raw in if cleaned = [] then fallback else take MAX_ID_LEN cleaned)"

definition event_text :: "(jval \<Rightarrow> pystr result) \<Rightarrow> event \<Rightarrow> pystr \<Rightarrow> pystr result" where
  "event_text render ev name = (case dict_get ev name of None \<Rightarrow> Inr [] | Some v \<Rightarrow> value_text render v)"

definition sqs_group_id :: "sqs_cfg \<Rightarrow> (jval \<Rightarrow> pystr result) \<Rightarrow> event \<Rightarrow> pystr result" where
  "sqs_group_id cfg render ev =
     (case (case sqs_group cfg of
              GroupText t \<Rightarrow> Inr t
            | GroupCall f \<Rightarrow> f ev
            | GroupTrace \<Rightarrow> event_text render ev (str ''trace_id'')) of
        Inl e \<Rightarrow> Inl e
      | Inr raw \<Rightarrow> Inr (bounded_id raw DEFAULT_GROUP_ID))"

definition sqs_dedup_id :: "sqs_cfg \<Rightarrow> (jval \<Rightarrow> pystr result) \<Rightarrow> pystr \<Rightarrow> event \<Rightarrow> pystr result" where
  "sqs_dedup_id cfg render fresh_id ev =
     (case (case sqs_dedup cfg of Some f \<Rightarrow> f ev | None \<Rightarrow> event_text render ev (str ''log_id'')) of
        Inl e \<Rightarrow> Inl e
      | Inr raw \<Rightarrow> Inr (if strip raw \<noteq> [] then bounded_id raw [] else fresh_id))"

record prepared =
  pr_body :: pystr
  pr_group :: "pystr option"
  pr_dedup :: "pystr option"

definition sqs_ids :: "sqs_cfg \<Rightarrow> (jval \<Rightarrow> pystr result) \<Rightarrow> pystr \<Rightarrow> event \<Rightarrow> (pystr option \<times> pystr option) result" where
  "sqs_ids cfg render fresh_id ev =
     (if sqs_fifo cfg
      then case sqs_group_id cfg render ev of
             Inl e \<Rightarrow> Inl e
           | Inr g \<Rightarrow> (case sqs_dedup_id cfg render fresh_id ev of Inl e \<Rightarrow> Inl e | Inr d \<Rightarrow> Inr (Some g, Some d))
      else Inr (None, None))"

text \<open>The bytes of a text that may be absent; \<^verbatim>\<open>encode\<close> raises on a lone surrogate.\<close>

definition opt_bytes :: "pystr option \<Rightarrow> nat result" where
  "opt_bytes t = (case t of None \<Rightarrow> Inr 0 | Some s \<Rightarrow> map_sum id length (encode_utf8 s))"

definition prepared_bytes :: "prepared \<Rightarrow> nat result" where
  "prepared_bytes p =
     (case opt_bytes (Some (pr_body p)) of
        Inl e \<Rightarrow> Inl e
      | Inr b \<Rightarrow>
          (case opt_bytes (pr_group p) of
             Inl e \<Rightarrow> Inl e
           | Inr g \<Rightarrow> (case opt_bytes (pr_dedup p) of Inl e \<Rightarrow> Inl e | Inr d \<Rightarrow> Inr (b + g + d))))"

record sqs_acc =
  sq_chunks :: "prepared list list"
  sq_current :: "prepared list"
  sq_bytes :: nat
  sq_oversized :: "nat list"
  sq_failures :: nat
  sq_first :: "pyexn option"

definition sqs_place :: "prepared \<Rightarrow> nat \<Rightarrow> sqs_acc \<Rightarrow> sqs_acc" where
  "sqs_place p n acc =
     (if SQS_MAX_BYTES < n then acc\<lparr>sq_oversized := sq_oversized acc @ [n]\<rparr>
      else if sq_current acc \<noteq> [] \<and> (SQS_MAX_BATCH \<le> length (sq_current acc) \<or> SQS_MAX_BYTES < sq_bytes acc + n)
      then acc\<lparr>sq_chunks := sq_chunks acc @ [sq_current acc], sq_current := [p], sq_bytes := n\<rparr>
      else acc\<lparr>sq_current := sq_current acc @ [p], sq_bytes := sq_bytes acc + n\<rparr>)"

definition sqs_fail :: "pyexn \<Rightarrow> sqs_acc \<Rightarrow> sqs_acc" where
  "sqs_fail e acc = acc\<lparr>sq_failures := Suc (sq_failures acc),
     sq_first := (case sq_first acc of None \<Rightarrow> Some e | Some e' \<Rightarrow> Some e')\<rparr>"

fun sqs_loop :: "sqs_cfg \<Rightarrow> (jval \<Rightarrow> pystr result) \<Rightarrow> (nat \<Rightarrow> pystr) \<Rightarrow> nat \<Rightarrow> (event \<times> pystr) list \<Rightarrow> sqs_acc \<Rightarrow> sqs_acc result" where
  "sqs_loop cfg render fresh i [] acc = Inr acc"
| "sqs_loop cfg render fresh i ((ev, body) # rest) acc =
     (case encode_utf8 body of
        Inl e \<Rightarrow> Inl e
      | Inr _ \<Rightarrow>
          (case sqs_ids cfg render (fresh i) ev of
             Inl e \<Rightarrow> sqs_loop cfg render fresh (Suc i) rest (sqs_fail e acc)
           | Inr (g, d) \<Rightarrow>
               let p = \<lparr>pr_body = body, pr_group = g, pr_dedup = d\<rparr>
               in case prepared_bytes p of
                    Inl e \<Rightarrow> Inl e
                  | Inr n \<Rightarrow> sqs_loop cfg render fresh (Suc i) rest (sqs_place p n acc)))"

definition sqs_finish :: "nat \<Rightarrow> sqs_acc \<Rightarrow> deferral \<Rightarrow> (prepared list list \<times> deferral) result" where
  "sqs_finish unencodable acc pending =
     (let chunks = sq_chunks acc @ (if sq_current acc = [] then [] else [sq_current acc]);
          count_oversized = (\<lambda>pending. if sq_oversized acc = [] then pending
            else fold (\<lambda>_. defer_announce 1) (sq_oversized acc) (defer_count C_OVERSIZED (length (sq_oversized acc)) pending))
      in case sq_first acc of
           Some e \<Rightarrow>
             if chunks = [] \<and> sq_oversized acc = [] \<and> unencodable = 0 then Inl e
             else Inr (chunks, count_oversized (defer_announce (sq_failures acc) (defer_count C_ID_FAILED (sq_failures acc) pending)))
         | None \<Rightarrow> Inr (chunks, count_oversized pending))"

definition sqs_chunks :: "sqs_cfg \<Rightarrow> (jval \<Rightarrow> pystr result) \<Rightarrow> (nat \<Rightarrow> pystr) \<Rightarrow> (event \<times> pystr) list \<Rightarrow> nat \<Rightarrow> deferral \<Rightarrow>
    (prepared list list \<times> deferral) result" where
  "sqs_chunks cfg render fresh encoded unencodable pending =
     (case sqs_loop cfg render fresh 0 encoded
             \<lparr>sq_chunks = [], sq_current = [], sq_bytes = 0, sq_oversized = [], sq_failures = 0, sq_first = None\<rparr> of
        Inl e \<Rightarrow> Inl e
      | Inr acc \<Rightarrow> sqs_finish unencodable acc pending)"

text \<open>Sending counts into \<^verbatim>\<open>failed\<close> at once; the other counts wait for the end of the block.\<close>

definition sqs_emit :: "sqs_cfg \<Rightarrow> (event \<Rightarrow> pystr result) \<Rightarrow> (jval \<Rightarrow> pystr result) \<Rightarrow> (nat \<Rightarrow> pystr) \<Rightarrow>
    (prepared entry, failure list) service \<Rightarrow> event list \<Rightarrow> counters \<Rightarrow> (prepared, (prepared entry, failure list) service) emitted" where
  "sqs_emit cfg dumps render fresh svc batch c =
     (let (encoded, pending) = encode_events dumps C_UNENCODABLE batch new_deferral
      in case sqs_chunks cfg render fresh encoded (length batch - length encoded) pending of
           Inl e \<Rightarrow> \<lparr>em_result = Inl e, em_counters = fst (deferral_exit True pending c), em_requests = [], em_outcomes = [], em_service = svc\<rparr>
         | Inr (chunks, pending) \<Rightarrow>
             let (os, svc) = send_chunks (sqs_send (sqs_retries cfg)) chunks svc;
                 raised = (chunks \<noteq> [] \<and> accepted_total os = 0 \<and> list_ex sn_recoverable os)
             in \<lparr>em_result = (if raised then Inl SinkDeliveryError else Inr ()),
                 em_counters = fst (deferral_exit raised pending (bump C_FAILED (lost_total os) c)),
                 em_requests = chunks, em_outcomes = os, em_service = svc\<rparr>)"

definition sqs_losses :: "counters \<Rightarrow> sink_losses" where
  "sqs_losses c = \<lparr>sl_dropped = c C_OVERSIZED + c C_ID_FAILED + c C_UNENCODABLE, sl_failed = c C_FAILED\<rparr>"

subsection \<open>SNS\<close>

definition SNS_MAX_BATCH :: nat where "SNS_MAX_BATCH = 10"
definition SNS_MAX_BYTES :: nat where "SNS_MAX_BYTES = 256 * 1024"

fun sns_bodies :: "(event \<times> pystr) list \<Rightarrow> deferral \<Rightarrow> (pystr list \<times> deferral) result" where
  "sns_bodies [] pending = Inr ([], pending)"
| "sns_bodies ((ev, body) # rest) pending =
     (case encode_utf8 body of
        Inl e \<Rightarrow> Inl e
      | Inr raw \<Rightarrow>
          if SNS_MAX_BYTES < length raw then sns_bodies rest (defer_announce 1 (defer_count C_OVERSIZED 1 pending))
          else map_sum id (map_prod ((#) body) id) (sns_bodies rest pending))"

definition sns_emit :: "nat \<Rightarrow> (event \<Rightarrow> pystr result) \<Rightarrow> (pystr entry, failure list) service \<Rightarrow> event list \<Rightarrow> counters \<Rightarrow>
    (pystr, (pystr entry, failure list) service) emitted" where
  "sns_emit max_retries dumps svc batch c =
     (let (encoded, pending) = encode_events dumps C_UNENCODABLE batch new_deferral
      in case sns_bodies encoded pending of
           Inl e \<Rightarrow> \<lparr>em_result = Inl e, em_counters = fst (deferral_exit True pending c), em_requests = [], em_outcomes = [], em_service = svc\<rparr>
         | Inr (bodies, pending) \<Rightarrow>
             let chunks = chunk_items SNS_MAX_BATCH SNS_MAX_BYTES length bodies;
                 (os, svc) = send_chunks (sns_send max_retries) chunks svc;
                 raised = (chunks \<noteq> [] \<and> accepted_total os = 0)
             in \<lparr>em_result = (if raised then Inl SinkDeliveryError else Inr ()),
                 em_counters = fst (deferral_exit raised pending (bump C_FAILED (lost_total os) c)),
                 em_requests = chunks, em_outcomes = os, em_service = svc\<rparr>)"

definition sns_losses :: "counters \<Rightarrow> sink_losses" where
  "sns_losses c = \<lparr>sl_dropped = c C_OVERSIZED + c C_UNENCODABLE, sl_failed = c C_FAILED\<rparr>"

subsection \<open>Kinesis and Firehose\<close>

record put_limits =
  pl_records :: nat
  pl_request_bytes :: nat
  pl_record_bytes :: nat

definition KINESIS :: put_limits where
  "KINESIS = \<lparr>pl_records = 500, pl_request_bytes = 5 * 1024 * 1024, pl_record_bytes = 1024 * 1024\<rparr>"

definition FIREHOSE :: put_limits where
  "FIREHOSE = \<lparr>pl_records = 500, pl_request_bytes = 4 * 1024 * 1024, pl_record_bytes = 1024000\<rparr>"

definition MAX_PARTITION_KEY_BYTES :: nat where "MAX_PARTITION_KEY_BYTES = 256"

text \<open>\<^verbatim>\<open>encode("utf-8", errors="replace")\<close>: a lone surrogate becomes a question mark.\<close>

definition partition_key :: "pystr \<Rightarrow> pystr" where
  "partition_key raw =
     (let encoded = utf8 (map (\<lambda>ch. if is_surrogate ch then 63 else ch) raw)
      in if length encoded \<le> MAX_PARTITION_KEY_BYTES then decode_ignore encoded
         else decode_ignore (take MAX_PARTITION_KEY_BYTES encoded))"

text \<open>Truth of a JSON value.\<close>

fun truthy :: "jval \<Rightarrow> bool" where
  "truthy JNull = False"
| "truthy (JBool b) = b"
| "truthy (JInt i) = (i \<noteq> 0)"
| "truthy (JFloat f) = (f \<noteq> Fin 0)"
| "truthy (JStr t) = (t \<noteq> [])"
| "truthy (JList js) = (js \<noteq> [])"
| "truthy (JDict d) = (d \<noteq> [])"

definition kinesis_encode :: "(event \<Rightarrow> pystr result) \<Rightarrow> (jval \<Rightarrow> pystr result) \<Rightarrow> pystr \<Rightarrow> event \<Rightarrow> (bytes \<times> pystr) result" where
  "kinesis_encode dumps render field ev =
     (case dumps ev of
        Inl e \<Rightarrow> Inl e
      | Inr body \<Rightarrow>
          (case encode_utf8 body of
             Inl e \<Rightarrow> Inl e
           | Inr raw \<Rightarrow>
               (case (case dict_get ev field of
                        Some v \<Rightarrow> if truthy v then value_text render v else Inr DEFAULT_GROUP_ID
                      | None \<Rightarrow> Inr DEFAULT_GROUP_ID) of
                  Inl e \<Rightarrow> Inl e
                | Inr key \<Rightarrow> Inr (raw, partition_key key))))"

definition record_size :: "bytes \<times> pystr \<Rightarrow> nat" where
  "record_size r = length (fst r) + utf8_size (snd r)"

definition firehose_encode :: "(event \<Rightarrow> pystr result) \<Rightarrow> event \<Rightarrow> bytes result" where
  "firehose_encode dumps ev =
     (case dumps ev of Inl e \<Rightarrow> Inl e | Inr body \<Rightarrow> map_sum id (\<lambda>raw. raw @ [10]) (encode_utf8 body))"

definition put_records :: "put_limits \<Rightarrow> ('w \<Rightarrow> nat) \<Rightarrow> (event \<times> 'w) list \<Rightarrow> deferral \<Rightarrow> 'w list \<times> deferral" where
  "put_records L charge encoded pending =
     (let oversized = filter (\<lambda>w. pl_record_bytes L < charge w) (map snd encoded)
      in (filter (\<lambda>w. \<not> pl_record_bytes L < charge w) (map snd encoded),
          if oversized = [] then pending
          else fold (\<lambda>_. defer_announce 1) oversized (defer_count C_OVERSIZED (length oversized) pending)))"

text \<open>The two sinks' \<^verbatim>\<open>emit\<close> differ in the limits, the encoding and what a record is charged.\<close>

definition put_emit :: "put_limits \<Rightarrow> (event \<Rightarrow> 'w result) \<Rightarrow> ('w \<Rightarrow> nat) \<Rightarrow> nat \<Rightarrow> ('w, response) service \<Rightarrow> event list \<Rightarrow> counters \<Rightarrow>
    ('w, ('w, response) service) emitted" where
  "put_emit L encode charge max_retries svc batch c =
     (let (encoded, pending) = encode_events encode C_UNENCODABLE batch new_deferral;
          (records, pending) = put_records L charge encoded pending;
          chunks = chunk_items (pl_records L) (pl_request_bytes L) charge records;
          (os, svc) = send_chunks (put_send max_retries) chunks svc;
          known = filter sn_known os;
          unknown = filter (\<lambda>o'. \<not> sn_known o') os;
          raised = (chunks \<noteq> [] \<and> accepted_total known = 0 \<and> unknown = [])
      in \<lparr>em_result = (if raised then Inl SinkDeliveryError else Inr ()),
          em_counters = fst (deferral_exit raised pending (bump C_UNADJUDICATED (lost_total unknown) (bump C_FAILED (lost_total known) c))),
          em_requests = chunks, em_outcomes = os, em_service = svc\<rparr>)"

definition kinesis_emit :: "(event \<Rightarrow> pystr result) \<Rightarrow> (jval \<Rightarrow> pystr result) \<Rightarrow> pystr \<Rightarrow> nat \<Rightarrow>
    (bytes \<times> pystr, response) service \<Rightarrow> event list \<Rightarrow> counters \<Rightarrow> (bytes \<times> pystr, (bytes \<times> pystr, response) service) emitted" where
  "kinesis_emit dumps render field = put_emit KINESIS (kinesis_encode dumps render field) record_size"

definition firehose_emit :: "(event \<Rightarrow> pystr result) \<Rightarrow> nat \<Rightarrow>
    (bytes, response) service \<Rightarrow> event list \<Rightarrow> counters \<Rightarrow> (bytes, (bytes, response) service) emitted" where
  "firehose_emit dumps = put_emit FIREHOSE (firehose_encode dumps) length"

definition put_losses :: "counters \<Rightarrow> sink_losses" where
  "put_losses c = \<lparr>sl_dropped = c C_OVERSIZED + c C_UNENCODABLE, sl_failed = c C_FAILED + c C_UNADJUDICATED\<rparr>"

subsection \<open>Every event is accepted or counted\<close>

lemma counter_names [simp]:
  "C_FAILED \<noteq> C_OVERSIZED" "C_FAILED \<noteq> C_UNENCODABLE" "C_FAILED \<noteq> C_ID_FAILED" "C_FAILED \<noteq> C_UNADJUDICATED"
  "C_OVERSIZED \<noteq> C_FAILED" "C_OVERSIZED \<noteq> C_UNENCODABLE" "C_OVERSIZED \<noteq> C_ID_FAILED" "C_OVERSIZED \<noteq> C_UNADJUDICATED"
  "C_UNENCODABLE \<noteq> C_FAILED" "C_UNENCODABLE \<noteq> C_OVERSIZED" "C_UNENCODABLE \<noteq> C_ID_FAILED" "C_UNENCODABLE \<noteq> C_UNADJUDICATED"
  "C_ID_FAILED \<noteq> C_FAILED" "C_ID_FAILED \<noteq> C_OVERSIZED" "C_ID_FAILED \<noteq> C_UNENCODABLE" "C_ID_FAILED \<noteq> C_UNADJUDICATED"
  "C_UNADJUDICATED \<noteq> C_FAILED" "C_UNADJUDICATED \<noteq> C_OVERSIZED" "C_UNADJUDICATED \<noteq> C_UNENCODABLE" "C_UNADJUDICATED \<noteq> C_ID_FAILED"
  by (simp_all add: str_def)

text \<open>How an emit of a number of events is accounted for: if it returns, every event was accepted or
  is in the losses; if it raises, nothing was accepted and nothing was counted as dropped.\<close>

definition accounted :: "(counters \<Rightarrow> sink_losses) \<Rightarrow> counters \<Rightarrow> nat \<Rightarrow> ('r, 'c) emitted \<Rightarrow> bool" where
  "accounted losses c n em \<longleftrightarrow>
     (case em_result em of
        Inr _ \<Rightarrow> accepted_total (em_outcomes em) + sl_dropped (losses (em_counters em)) + sl_failed (losses (em_counters em)) =
                 n + sl_dropped (losses c) + sl_failed (losses c)
      | Inl _ \<Rightarrow> accepted_total (em_outcomes em) = 0 \<and> sl_dropped (losses (em_counters em)) = sl_dropped (losses c))"

text \<open>A deferral that holds \<open>n\<close> events, all of them under the counters of events the sink dropped.\<close>

definition drops :: "deferral \<Rightarrow> nat \<Rightarrow> bool" where
  "drops d n \<longleftrightarrow> deferral_wf d \<and> pending_of d C_FAILED = 0 \<and> pending_of d C_UNADJUDICATED = 0 \<and>
     pending_of d C_OVERSIZED + pending_of d C_ID_FAILED + pending_of d C_UNENCODABLE = n"

lemma drops_simps [simp]:
  "drops new_deferral 0" "drops (defer_announce line d) n = drops d n"
  "drops d n \<Longrightarrow> drops (defer_count C_OVERSIZED k d) (n + k)"
  "drops d n \<Longrightarrow> drops (defer_count C_ID_FAILED k d) (n + k)"
  by (auto simp: drops_def)

lemma drops_announces [simp]: "drops (fold (\<lambda>_. defer_announce line) xs d) n = drops d n"
  by (induction xs arbitrary: d) auto

lemma encode_drops:
  assumes "encode_events encode C_UNENCODABLE batch new_deferral = (encoded, pending)"
  shows "drops pending (length batch - length encoded) \<and> length encoded \<le> length batch \<and> pending_of pending C_ID_FAILED = 0"
  using encode_events_accounts(1,3) [OF assms] encode_events_accounts(2) [OF assms, of C_FAILED]
    encode_events_accounts(2) [OF assms, of C_UNADJUDICATED] encode_events_accounts(2) [OF assms, of C_OVERSIZED]
    encode_events_accounts(2) [OF assms, of C_ID_FAILED]
  by (simp add: drops_def)

lemma send_chunks_eq:
  "send_chunks send chunks c = (os, c') \<Longrightarrow>
     fold (\<lambda>chunk (os, c). let (o', c') = send c chunk in (os @ [o'], c')) chunks ([], c) = (os, c')"
  by (simp add: send_chunks_def)

lemmas sends_account = sqs.sends_conserve [OF _ send_chunks_eq] sns.sends_conserve [OF _ send_chunks_eq]
  put.sends_conserve [OF TrueI send_chunks_eq]

subsubsection \<open>SQS\<close>

definition placed :: "sqs_acc \<Rightarrow> nat" where
  "placed acc = length (concat (sq_chunks acc)) + length (sq_current acc) + length (sq_oversized acc) + sq_failures acc"

definition first_ok :: "sqs_acc \<Rightarrow> bool" where
  "first_ok acc \<longleftrightarrow> (sq_first acc = None \<longleftrightarrow> sq_failures acc = 0)"

lemma placed_simps [simp]:
  "placed (sqs_place p n acc) = Suc (placed acc)" "placed (sqs_fail e acc) = Suc (placed acc)"
  "first_ok acc \<Longrightarrow> first_ok (sqs_place p n acc)" "first_ok (sqs_fail e acc)"
  by (auto simp: placed_def sqs_place_def sqs_fail_def first_ok_def split: option.splits)

lemma sqs_loop_accounts:
  "sqs_loop cfg render fresh i encoded acc = Inr acc' \<Longrightarrow> first_ok acc \<Longrightarrow>
     placed acc' = placed acc + length encoded \<and> first_ok acc'"
  by (induction cfg render fresh i encoded acc rule: sqs_loop.induct) (auto simp: Let_def split: sum.splits prod.splits)

lemma sqs_finish_accounts:
  assumes fin: "sqs_finish unencodable acc pending = Inr (chunks, pending')" and first: "first_ok acc" and pend: "drops pending n"
  shows "\<exists>k. drops pending' k \<and> length (concat chunks) + k = placed acc + n"
proof -
  define over where "over pending = (if sq_oversized acc = [] then pending
    else fold (\<lambda>_. defer_announce 1) (sq_oversized acc) (defer_count C_OVERSIZED (length (sq_oversized acc)) pending))" for pending
  have over: "drops (over d) (m + length (sq_oversized acc))" if "drops d m" for d m
    using that by (simp add: over_def)
  have chunks: "length (concat chunks) = length (concat (sq_chunks acc)) + length (sq_current acc)"
    using fin by (auto simp: sqs_finish_def Let_def split: option.splits if_splits)
  show ?thesis
  proof (cases "sq_first acc")
    case None
    then have "drops pending' (n + length (sq_oversized acc))"
      using fin over [OF pend] by (simp add: sqs_finish_def Let_def over_def)
    then show ?thesis using chunks None first
      by (intro exI [of _ "n + length (sq_oversized acc)"]) (simp add: placed_def first_ok_def)
  next
    case (Some e)
    have "drops (defer_announce (sq_failures acc) (defer_count C_ID_FAILED (sq_failures acc) pending)) (n + sq_failures acc)"
      using pend by simp
    from over [OF this] have "drops pending' (n + sq_failures acc + length (sq_oversized acc))"
      using fin Some unfolding sqs_finish_def Let_def over_def by (auto split: if_splits)
    then show ?thesis using chunks
      by (intro exI [of _ "n + sq_failures acc + length (sq_oversized acc)"]) (simp add: placed_def)
  qed
qed

lemma exit_drops:
  assumes "drops d n"
  shows "fst (deferral_exit raised d c) name = (if raised then c name else c name + pending_of d name)"
  using assms deferral_exit_counts by (auto simp: drops_def)

lemma sqs_chunks_accounts:
  assumes "sqs_chunks cfg render fresh encoded unencodable pending = Inr (chunks, pending')" and "drops pending n"
  shows "\<exists>k. drops pending' k \<and> length (concat chunks) + k = length encoded + n"
proof -
  obtain acc where acc: "sqs_loop cfg render fresh 0 encoded
      \<lparr>sq_chunks = [], sq_current = [], sq_bytes = 0, sq_oversized = [], sq_failures = 0, sq_first = None\<rparr> = Inr acc"
    "sqs_finish unencodable acc pending = Inr (chunks, pending')"
    using assms(1) by (auto simp: sqs_chunks_def split: sum.splits)
  have "placed acc = length encoded \<and> first_ok acc"
    using sqs_loop_accounts [OF acc(1)] by (simp add: placed_def first_ok_def)
  then show ?thesis using sqs_finish_accounts [OF acc(2) _ assms(2)] by simp
qed

text \<open>C21. An SQS emit that returns has put every event of its batch on the queue or into the
  sink's losses, whatever the queue refused and however often it was retried; one that raises
  delivered nothing and dropped nothing, so that the worker can send the batch again.\<close>

theorem sqs_emit_accounts:
  assumes "honest svc"
  shows "accounted sqs_losses c (length batch) (sqs_emit cfg dumps render fresh svc batch c)"
proof -
  obtain encoded pending where enc: "encode_events dumps C_UNENCODABLE batch new_deferral = (encoded, pending)" by (rule prod.exhaust)
  note d = encode_drops [OF enc]
  show ?thesis
  proof (cases "sqs_chunks cfg render fresh encoded (length batch - length encoded) pending")
    case (Inl e)
    then show ?thesis by (simp add: sqs_emit_def enc accounted_def accepted_total_def deferral_exit_def)
  next
    case (Inr r)
    obtain chunks pending' where r: "r = (chunks, pending')" by (rule prod.exhaust)
    obtain k where k: "drops pending' k" "length (concat chunks) + k = length encoded + (length batch - length encoded)"
      using sqs_chunks_accounts [of cfg render fresh encoded _ pending chunks pending'] Inr r d by blast
    obtain os svc' where os: "send_chunks (sqs_send (sqs_retries cfg)) chunks svc = (os, svc')" by (rule prod.exhaust)
    have "accepted_total os + lost_total os = length (concat chunks)"
      using sends_account(1) [OF assms os] by (simp add: accepted_total_def lost_total_def)
    then have "accepted_total os + lost_total os + k = length batch" using k(2) d by simp
    then show ?thesis using k(1) exit_drops [OF k(1)]
      by (simp add: sqs_emit_def enc Inr r os Let_def accounted_def sqs_losses_def bump_def drops_def)
  qed
qed

text \<open>A queue that refuses the first entry of every request as invalid.\<close>

definition fussy_queue :: "(prepared entry, failure list) service" where
  "fussy_queue = (\<lambda>n es. Inr (map (\<lambda>en. \<lparr>fl_id = fst en, fl_sender_fault = True\<rparr>) (take 1 es)), 0)"

definition plain_queue :: sqs_cfg where
  "plain_queue = \<lparr>sqs_retries = 0, sqs_fifo = True, sqs_group = GroupTrace, sqs_dedup = None\<rparr>"

lemma fussy_queue_honest: "honest fussy_queue"
  unfolding honest_def fussy_queue_def
proof (intro allI impI conjI)
  fix n fs and es :: "prepared entry list"
  assume "fst (\<lambda>n es. Inr (map (\<lambda>en. \<lparr>fl_id = fst en, fl_sender_fault = True\<rparr>) (take 1 es)), 0) n es = Inr fs"
  then show "distinct (map fl_id fs)" "set (map fl_id fs) \<subseteq> set (map fst es)" by (cases es; auto)+
qed

theorem sqs_emit_accounts_witness:
  "honest fussy_queue \<and>
   accounted sqs_losses (\<lambda>_. 0) (length ([[], []] :: event list))
     (sqs_emit plain_queue (\<lambda>_. Inr (str ''{}'')) (\<lambda>_. Inr []) (\<lambda>_. str ''id'') fussy_queue [[], []] (\<lambda>_. 0)) \<and>
   em_counters (sqs_emit plain_queue (\<lambda>_. Inr (str ''{}'')) (\<lambda>_. Inr []) (\<lambda>_. str ''id'') fussy_queue [[], []] (\<lambda>_. 0)) C_FAILED = 1"
proof (intro conjI)
  show "honest fussy_queue" by (rule fussy_queue_honest)
  show "accounted sqs_losses (\<lambda>_. 0) (length ([[], []] :: event list))
     (sqs_emit plain_queue (\<lambda>_. Inr (str ''{}'')) (\<lambda>_. Inr []) (\<lambda>_. str ''id'') fussy_queue [[], []] (\<lambda>_. 0))"
    by (rule sqs_emit_accounts [OF fussy_queue_honest])
  show "em_counters (sqs_emit plain_queue (\<lambda>_. Inr (str ''{}'')) (\<lambda>_. Inr []) (\<lambda>_. str ''id'') fussy_queue [[], []] (\<lambda>_. 0)) C_FAILED = 1"
    by (simp add: sqs_emit_def encode_events_def sqs_chunks_def sqs_finish_def sqs_place_def sqs_ids_def sqs_group_id_def
        sqs_dedup_id_def event_text_def plain_queue_def fussy_queue_def prepared_bytes_def opt_bytes_def encode_utf8_def utf8_def
        is_surrogate_def str_def SQS_MAX_BYTES_def SQS_MAX_BATCH_def bounded_id_def strip_def DEFAULT_GROUP_ID_def send_chunks_def
        sqs_send_def accepted_total_def lost_total_def deferral_exit_def new_deferral_def bump_def utf8_char_def)
qed

subsubsection \<open>SNS\<close>

lemma sns_bodies_accounts:
  "sns_bodies encoded pending = Inr (bodies, pending') \<Longrightarrow> drops pending n \<Longrightarrow>
     \<exists>k. drops pending' k \<and> length bodies + k = length encoded + n \<and> pending_of pending' C_ID_FAILED = pending_of pending C_ID_FAILED"
proof (induction encoded pending arbitrary: bodies n rule: sns_bodies.induct)
  case (2 ev body rest pending)
  obtain raw where raw: "encode_utf8 body = Inr raw" using 2 by (auto split: sum.splits)
  show ?case
  proof (cases "SNS_MAX_BYTES < length raw")
    case True
    have d: "drops (defer_announce 1 (defer_count C_OVERSIZED 1 pending)) (n + 1)"
      using drops_simps(3) [OF "2.prems"(2), of 1] by (simp only: drops_simps)
    have "sns_bodies rest (defer_announce 1 (defer_count C_OVERSIZED 1 pending)) = Inr (bodies, pending')"
      using "2.prems"(1) raw True by simp
    from "2.IH"(1) [OF raw True this d] show ?thesis by simp
  next
    case False
    obtain bs where "sns_bodies rest pending = Inr (bs, pending')" "bodies = body # bs"
      using "2.prems"(1) raw False by (cases "sns_bodies rest pending") auto
    then show ?thesis using "2.IH"(2) [OF raw False _ "2.prems"(2)] by auto
  qed
qed auto

lemma sns_emit_accounts:
  assumes "honest svc"
  shows "accounted sns_losses c (length batch) (sns_emit max_retries dumps svc batch c)"
proof -
  obtain encoded pending where enc: "encode_events dumps C_UNENCODABLE batch new_deferral = (encoded, pending)" by (rule prod.exhaust)
  note d = encode_drops [OF enc]
  show ?thesis
  proof (cases "sns_bodies encoded pending")
    case (Inl e)
    then show ?thesis by (simp add: sns_emit_def enc accounted_def accepted_total_def deferral_exit_def)
  next
    case (Inr r)
    obtain bodies pending' where r: "r = (bodies, pending')" by (rule prod.exhaust)
    define chunks where "chunks = chunk_items SNS_MAX_BATCH SNS_MAX_BYTES length bodies"
    have bodies: "concat chunks = bodies" by (simp add: chunks_def chunk_items_def chunk_loop_concat)
    obtain k where k: "drops pending' k" "length bodies + k = length encoded + (length batch - length encoded)" "pending_of pending' C_ID_FAILED = 0"
      using sns_bodies_accounts [of encoded pending bodies pending'] Inr r d by fastforce
    obtain os svc' where os: "send_chunks (sns_send max_retries) chunks svc = (os, svc')" by (rule prod.exhaust)
    have "accepted_total os + lost_total os = length (concat chunks)"
      using sends_account(2) [OF assms os] by (simp add: accepted_total_def lost_total_def)
    then have "accepted_total os + lost_total os + k = length batch" using k(2) d bodies by simp
    then show ?thesis using k(1,3) exit_drops [OF k(1)]
      by (simp add: sns_emit_def enc Inr r os accounted_def sns_losses_def bump_def drops_def Let_def flip: chunks_def)
  qed
qed

subsubsection \<open>Kinesis and Firehose\<close>

lemma put_records_accounts:
  assumes "put_records L charge encoded pending = (records, pending')" and "drops pending n"
  shows "\<exists>k. drops pending' k \<and> length records + k = length encoded + n \<and> pending_of pending' C_ID_FAILED = pending_of pending C_ID_FAILED"
proof -
  define over where "over = filter (\<lambda>w. pl_record_bytes L < charge w) (map snd encoded)"
  have "length records + length over = length encoded"
    using length_filter_partition [of "\<lambda>w. pl_record_bytes L < charge w" "map snd encoded"] assms(1)
    by (auto simp: put_records_def Let_def over_def)
  moreover have "drops pending' (n + length over)"
    using assms unfolding put_records_def Let_def over_def [symmetric] by (auto split: if_splits)
  moreover have "pending_of (fold (\<lambda>_. defer_announce 1) xs d) name = pending_of d name" for xs :: "'a list" and d name
    by (induction xs arbitrary: d) auto
  ultimately show ?thesis using assms(1) by (intro exI [of _ "n + length over"]) (auto simp: put_records_def Let_def)
qed

lemma totals_split:
  "accepted_total (filter P os) + accepted_total (filter (\<lambda>x. \<not> P x) os) = accepted_total os"
  "lost_total (filter P os) + lost_total (filter (\<lambda>x. \<not> P x) os) = lost_total os"
  by (induction os) (auto simp: accepted_total_def lost_total_def)

lemma put_emit_accounted: "accounted put_losses c (length batch) (put_emit L encode charge max_retries svc batch c)"
proof -
  obtain encoded pending where enc: "encode_events encode C_UNENCODABLE batch new_deferral = (encoded, pending)" by (rule prod.exhaust)
  note d = encode_drops [OF enc]
  obtain records pending' where r: "put_records L charge encoded pending = (records, pending')" by (rule prod.exhaust)
  define chunks where "chunks = chunk_items (pl_records L) (pl_request_bytes L) charge records"
  have records: "concat chunks = records" by (simp add: chunks_def chunk_items_def chunk_loop_concat)
  obtain k where k: "drops pending' k" "length records + k = length encoded + (length batch - length encoded)" "pending_of pending' C_ID_FAILED = 0"
    using put_records_accounts [OF r] d by fastforce
  obtain os svc' where os: "send_chunks (put_send max_retries) chunks svc = (os, svc')" by (rule prod.exhaust)
  have "accepted_total os + lost_total os = length (concat chunks)"
    using sends_account(3) [OF os] by (simp add: accepted_total_def lost_total_def)
  then have n: "accepted_total os + lost_total os + k = length batch" using k(2) d records by simp
  have all_known: "filter (\<lambda>x. \<not> sn_known x) os = [] \<Longrightarrow> accepted_total (filter sn_known os) = accepted_total os"
    using totals_split(1) [of sn_known os] by (simp add: accepted_total_def)
  show ?thesis using n k(1,3) exit_drops [OF k(1)] totals_split(2) [of sn_known os] all_known
    by (auto simp: put_emit_def enc r os accounted_def put_losses_def bump_def drops_def Let_def simp flip: chunks_def)
qed

text \<open>The same holds of Kinesis and Firehose, whatever the service answers: a response that
  cannot be matched with the records it is about costs its records, which are counted, and the
  batch is then never reported as undelivered.\<close>

theorem put_emits_account:
  "accounted put_losses c (length batch) (kinesis_emit dumps render field max_retries ksvc batch c) \<and>
   accounted put_losses c (length batch) (firehose_emit dumps max_retries fsvc batch c)"
  by (simp add: kinesis_emit_def firehose_emit_def put_emit_accounted)

subsection \<open>Requests within the limits of the service\<close>

definition fits :: "nat \<Rightarrow> nat \<Rightarrow> ('a \<Rightarrow> nat) \<Rightarrow> 'a list \<Rightarrow> bool" where
  "fits count_limit byte_limit size_of r \<longleftrightarrow> r \<noteq> [] \<and> length r \<le> count_limit \<and> total_size size_of r \<le> byte_limit"

lemma chunk_items_within:
  assumes "\<forall>x \<in> set items. size_of x \<le> byte_limit" and "0 < count_limit"
  shows "list_all (fits count_limit byte_limit size_of) (chunk_items count_limit byte_limit size_of items)"
proof -
  have ok: "list_all (request_ok count_limit byte_limit size_of) (chunk_items count_limit byte_limit size_of items)"
    by (simp add: chunk_items_def chunk_loop_ok total_size_def)
  have all: "set (concat (chunk_items count_limit byte_limit size_of items)) = set items"
    by (simp only: chunk_items_def chunk_loop_concat append_Nil)
  have "fits count_limit byte_limit size_of r" if r: "r \<in> set (chunk_items count_limit byte_limit size_of items)" for r
  proof (cases "length r = 1")
    case True
    then obtain x where x: "r = [x]" by (auto simp: length_Suc_conv)
    then have "x \<in> set (concat (chunk_items count_limit byte_limit size_of items))" using r unfolding set_concat by (intro UN_I [of r]) auto
    then have "size_of x \<le> byte_limit" using assms(1) unfolding all by blast
    then show ?thesis using x assms(2) by (simp add: fits_def total_size_def)
  next
    case False
    then show ?thesis using ok r by (auto simp: list_all_iff request_ok_def fits_def)
  qed
  then show ?thesis by (simp add: list_all_iff)
qed

definition prepared_size :: "prepared \<Rightarrow> nat" where
  "prepared_size p = utf8_size (pr_body p) + (case pr_group p of None \<Rightarrow> 0 | Some g \<Rightarrow> utf8_size g) +
     (case pr_dedup p of None \<Rightarrow> 0 | Some d \<Rightarrow> utf8_size d)"

lemma prepared_bytes_size: "prepared_bytes p = Inr n \<Longrightarrow> n = prepared_size p"
  by (auto simp: prepared_bytes_def prepared_size_def opt_bytes_def encode_utf8_def utf8_size_def split: option.splits sum.splits if_splits)

definition acc_within :: "sqs_acc \<Rightarrow> bool" where
  "acc_within acc \<longleftrightarrow> list_all (fits SQS_MAX_BATCH SQS_MAX_BYTES prepared_size) (sq_chunks acc) \<and>
     sq_bytes acc = total_size prepared_size (sq_current acc) \<and>
     (sq_current acc = [] \<or> fits SQS_MAX_BATCH SQS_MAX_BYTES prepared_size (sq_current acc))"

lemma sqs_place_within: "acc_within acc \<Longrightarrow> acc_within (sqs_place p (prepared_size p) acc)"
  by (auto simp: acc_within_def sqs_place_def fits_def total_size_def SQS_MAX_BATCH_def)

lemma sqs_loop_within:
  "sqs_loop cfg render fresh i encoded acc = Inr acc' \<Longrightarrow> acc_within acc \<Longrightarrow> acc_within acc'"
proof (induction cfg render fresh i encoded acc rule: sqs_loop.induct)
  case (2 cfg render fresh i ev body rest acc)
  have fail: "acc_within (sqs_fail e acc)" for e using "2.prems"(2) by (simp add: acc_within_def sqs_fail_def)
  show ?case using 2 fail sqs_place_within prepared_bytes_size
    by (fastforce simp: Let_def split: sum.splits prod.splits)
qed simp

lemma sqs_chunks_within:
  assumes "sqs_chunks cfg render fresh encoded unencodable pending = Inr (chunks, pending')"
  shows "list_all (fits SQS_MAX_BATCH SQS_MAX_BYTES prepared_size) chunks"
proof -
  obtain acc where acc: "sqs_loop cfg render fresh 0 encoded
      \<lparr>sq_chunks = [], sq_current = [], sq_bytes = 0, sq_oversized = [], sq_failures = 0, sq_first = None\<rparr> = Inr acc"
    "sqs_finish unencodable acc pending = Inr (chunks, pending')"
    using assms by (auto simp: sqs_chunks_def split: sum.splits)
  have "acc_within acc" using sqs_loop_within [OF acc(1)] by (simp add: acc_within_def total_size_def)
  moreover have "chunks = sq_chunks acc @ (if sq_current acc = [] then [] else [sq_current acc])"
    using acc(2) by (auto simp: sqs_finish_def Let_def split: option.splits if_splits)
  ultimately show ?thesis by (auto simp: acc_within_def)
qed

lemma partition_key_bounded:
  assumes "wf_text raw" and "raw \<noteq> []"
  shows "utf8_size (partition_key raw) \<le> MAX_PARTITION_KEY_BYTES \<and> partition_key raw \<noteq> []"
proof -
  define t where "t = map (\<lambda>ch. if is_surrogate ch then 63 else ch) raw"
  have t: "\<forall>c \<in> set t. scalar c" using assms(1) by (auto simp: t_def wf_text_def scalar_def is_surrogate_def)
  have key: "partition_key raw = fit_prefix MAX_PARTITION_KEY_BYTES t"
    using decode_ignore_take [OF t, of MAX_PARTITION_KEY_BYTES] decode_ignore_take [OF t, of "length (utf8 t)"]
    by (auto simp: partition_key_def t_def [symmetric] Let_def utf8_size_def [symmetric] fit_prefix_all)
  obtain c u where "t = c # u" using assms(2) by (cases t) (auto simp: t_def)
  then show ?thesis using key utf8_char_length [of c] fit_prefix_size [of MAX_PARTITION_KEY_BYTES t]
    by (auto simp: MAX_PARTITION_KEY_BYTES_def)
qed

end
