(* ===== verification/File_Sink.thy ===== *)
theory File_Sink
  imports Batch_Emit
begin

text \<open>
  The file sinks, \<^verbatim>\<open>sinks/file.py\<close>: a file that is appended to, and one that is rotated through
  numbered backups when it grows too large or too old. The file system is a map from names to
  contents: name 0 is the active path, name \<open>i\<close> the backup \<^verbatim>\<open>path.i\<close>. Every call of the operating
  system may fail, as an argument says; a write, flush or close that fails may have written any
  part of what was buffered. The monotonic clock is an argument too.

  The rotating sink refines a ring of segments: what is kept is the newest part of all that was
  written, in order.
\<close>

subsection \<open>The operating system\<close>

datatype io = Done | Fail nat

record os_env =
  os_io :: "nat \<Rightarrow> io"
  os_clock :: "nat \<Rightarrow> rat"

abbreviation OSError :: pyexn where "OSError \<equiv> OtherError (str ''OSError'')"

record rot =
  ro_files :: "nat \<Rightarrow> bytes option"
  ro_buffer :: bytes
  ro_open :: bool
  ro_size :: nat
  ro_next :: "rat option"
  ro_failing :: bool
  ro_closed :: bool
  ro_calls :: nat
  ro_ticks :: nat

text \<open>Statements that may raise, and their sequence.\<close>

type_synonym stmt = "rot \<Rightarrow> unit result \<times> rot"

definition andthen :: "stmt \<Rightarrow> stmt \<Rightarrow> stmt" where
  "andthen f g st = (case f st of (Inl e, st') \<Rightarrow> (Inl e, st') | (Inr _, st') \<Rightarrow> g st')"

definition skip :: stmt where
  "skip st = (Inr (), st)"

definition contents :: "nat \<Rightarrow> rot \<Rightarrow> bytes" where
  "contents i st = (case ro_files st i of None \<Rightarrow> [] | Some bs \<Rightarrow> bs)"

text \<open>A call of the operating system, and what it does when it succeeds.\<close>

definition os_call :: "os_env \<Rightarrow> (rot \<Rightarrow> rot) \<Rightarrow> (nat \<Rightarrow> rot \<Rightarrow> rot) \<Rightarrow> stmt" where
  "os_call env success failure st =
     (let st' = st\<lparr>ro_calls := Suc (ro_calls st)\<rparr>
      in case os_io env (ro_calls st) of Done \<Rightarrow> (Inr (), success st') | Fail k \<Rightarrow> (Inl OSError, failure k st'))"

definition os_remove :: "os_env \<Rightarrow> nat \<Rightarrow> stmt" where
  "os_remove env i = os_call env (\<lambda>st. st\<lparr>ro_files := (ro_files st)(i := None)\<rparr>) (\<lambda>k st. st)"

definition os_replace :: "os_env \<Rightarrow> nat \<Rightarrow> nat \<Rightarrow> stmt" where
  "os_replace env i j = os_call env (\<lambda>st. st\<lparr>ro_files := (ro_files st)(j := ro_files st i, i := None)\<rparr>) (\<lambda>k st. st)"

definition open_append :: "os_env \<Rightarrow> stmt" where
  "open_append env = os_call env
     (\<lambda>st. st\<lparr>ro_files := (ro_files st)(0 := Some (contents 0 st)), ro_buffer := [], ro_open := True\<rparr>) (\<lambda>k st. st)"

definition get_size :: "os_env \<Rightarrow> stmt" where
  "get_size env = os_call env (\<lambda>st. st\<lparr>ro_size := length (contents 0 st)\<rparr>) (\<lambda>k st. st)"

text \<open>The buffered stream on the active file.\<close>

definition push :: "nat \<Rightarrow> rot \<Rightarrow> rot" where
  "push k st = st\<lparr>ro_files := (ro_files st)(0 := Some (contents 0 st @ take k (ro_buffer st))), ro_buffer := drop k (ro_buffer st)\<rparr>"

definition stream_write :: "os_env \<Rightarrow> bytes \<Rightarrow> stmt" where
  "stream_write env line = os_call env
     (\<lambda>st. st\<lparr>ro_buffer := ro_buffer st @ line\<rparr>) (\<lambda>k st. push k (st\<lparr>ro_buffer := ro_buffer st @ line\<rparr>))"

definition stream_flush :: "os_env \<Rightarrow> stmt" where
  "stream_flush env = os_call env (\<lambda>st. push (length (ro_buffer st)) st) push"

definition stream_close :: "os_env \<Rightarrow> stmt" where
  "stream_close env = os_call env
     (\<lambda>st. (push (length (ro_buffer st)) st)\<lparr>ro_open := False\<rparr>) (\<lambda>k st. (push k st)\<lparr>ro_buffer := [], ro_open := False\<rparr>)"

subsection \<open>Configuration\<close>

record rot_cfg =
  rc_max_bytes :: nat
  rc_backups :: nat
  rc_interval :: "rat option"

definition WHEN_SECONDS :: "(pystr, int) dict" where
  "WHEN_SECONDS = [(str ''S'', 1), (str ''M'', 60), (str ''H'', 60 * 60), (str ''D'', 60 * 60 * 24)]"

text \<open>\<^verbatim>\<open>float(period)\<close> overflows beyond the largest double; \<open>float_max\<close> is that integer.\<close>

definition rollover_seconds :: "int \<Rightarrow> (pystr \<Rightarrow> pystr) \<Rightarrow> pystr option \<Rightarrow> numarg \<Rightarrow> int option result" where
  "rollover_seconds float_max upper w interval =
     (case require_positive interval of
        Inl e \<Rightarrow> Inl e
      | Inr n \<Rightarrow>
          (case w of
             None \<Rightarrow> Inr None
           | Some u \<Rightarrow>
               (case dict_get WHEN_SECONDS (upper u) of
                  None \<Rightarrow> Inl ValueError
                | Some secs \<Rightarrow> if float_max < secs * n then Inl ValueError else Inr (Some (secs * n)))))"

subsection \<open>Rotation\<close>

definition schedule_next :: "os_env \<Rightarrow> rot_cfg \<Rightarrow> rot \<Rightarrow> rot" where
  "schedule_next env cfg st =
     (case rc_interval cfg of
        None \<Rightarrow> st\<lparr>ro_next := None\<rparr>
      | Some secs \<Rightarrow> st\<lparr>ro_next := Some (os_clock env (ro_ticks st) + secs), ro_ticks := Suc (ro_ticks st)\<rparr>)"

definition should_rotate :: "os_env \<Rightarrow> rot_cfg \<Rightarrow> nat \<Rightarrow> rot \<Rightarrow> bool \<times> rot" where
  "should_rotate env cfg incoming st =
     (if 0 < rc_max_bytes cfg \<and> 0 < ro_size st \<and> rc_max_bytes cfg < ro_size st + incoming then (True, st)
      else case ro_next st of
             None \<Rightarrow> (False, st)
           | Some deadline \<Rightarrow> (deadline \<le> os_clock env (ro_ticks st), st\<lparr>ro_ticks := Suc (ro_ticks st)\<rparr>))"

definition remove_existing :: "os_env \<Rightarrow> nat \<Rightarrow> stmt" where
  "remove_existing env i st = (if ro_files st i \<noteq> None then os_remove env i st else skip st)"

definition replace_existing :: "os_env \<Rightarrow> nat \<Rightarrow> nat \<Rightarrow> stmt" where
  "replace_existing env i j st = (if ro_files st i \<noteq> None then os_replace env i j st else skip st)"

text \<open>Backups move up from the highest number down.\<close>

fun shift_backups :: "os_env \<Rightarrow> nat \<Rightarrow> stmt" where
  "shift_backups env 0 = skip"
| "shift_backups env (Suc i) =
     andthen
       (\<lambda>st. if ro_files st (Suc i) \<noteq> None
              then andthen (remove_existing env (Suc (Suc i))) (os_replace env (Suc i) (Suc (Suc i))) st
              else skip st)
       (shift_backups env i)"

definition move_files :: "os_env \<Rightarrow> rot_cfg \<Rightarrow> stmt" where
  "move_files env cfg =
     (if 0 < rc_backups cfg
      then andthen (shift_backups env (rc_backups cfg - 1)) (andthen (remove_existing env 1) (replace_existing env 0 1))
      else remove_existing env 0)"

definition rotate_file :: "os_env \<Rightarrow> rot_cfg \<Rightarrow> stmt" where
  "rotate_file env cfg =
     andthen (stream_close env)
       (andthen (move_files env cfg)
         (andthen (open_append env) (\<lambda>st. (Inr (), schedule_next env cfg (st\<lparr>ro_size := 0\<rparr>)))))"

definition rotate_or_continue :: "os_env \<Rightarrow> rot_cfg \<Rightarrow> stmt" where
  "rotate_or_continue env cfg st =
     (case rotate_file env cfg st of
        (Inr _, st') \<Rightarrow> (Inr (), st'\<lparr>ro_failing := False\<rparr>)
      | (Inl e, st') \<Rightarrow>
          andthen (open_append env)
            (andthen (get_size env) (\<lambda>st. (Inr (), (schedule_next env cfg st)\<lparr>ro_failing := True\<rparr>))) st')"

definition ensure_open :: "os_env \<Rightarrow> stmt" where
  "ensure_open env st = (if ro_open st then skip st else andthen (open_append env) (get_size env) st)"

definition write_line :: "os_env \<Rightarrow> rot_cfg \<Rightarrow> bytes \<Rightarrow> stmt" where
  "write_line env cfg line st =
     (let (due, st) = should_rotate env cfg (length line) st
      in andthen (if due then andthen (stream_flush env) (rotate_or_continue env cfg) else skip)
           (andthen (stream_write env line) (\<lambda>st. (Inr (), st\<lparr>ro_size := ro_size st + length line\<rparr>))) st)"

fun write_lines :: "os_env \<Rightarrow> rot_cfg \<Rightarrow> bytes list \<Rightarrow> stmt" where
  "write_lines env cfg [] = skip"
| "write_lines env cfg (line # lines) = andthen (write_line env cfg line) (write_lines env cfg lines)"

definition rotating_write :: "os_env \<Rightarrow> rot_cfg \<Rightarrow> bytes list \<Rightarrow> stmt" where
  "rotating_write env cfg lines = andthen (ensure_open env) (andthen (write_lines env cfg lines) (stream_flush env))"

subsection \<open>The sinks\<close>

text \<open>Both sinks encode first, refuse when closed, count a driver error at once and raise it as a
  \<^verbatim>\<open>SinkDeliveryError\<close> if such a class can be built for it (\<open>dual\<close>).\<close>

definition file_emit :: "(event \<Rightarrow> bytes result) \<Rightarrow> (bytes list \<Rightarrow> stmt) \<Rightarrow> bool \<Rightarrow> event list \<Rightarrow> rot \<times> counters \<Rightarrow> unit result \<times> rot \<times> counters" where
  "file_emit encode body dual batch = (\<lambda>(st, c).
     if batch = [] then (Inr (), st, c)
     else let (lines, pending) = encode_events encode C_UNENCODABLE batch new_deferral
          in if ro_closed st then (Inl SinkDeliveryError, st, fst (deferral_exit True pending c))
             else if lines = [] then (Inr (), st, fst (deferral_exit False pending c))
             else case body (map snd lines) st of
                    (Inr _, st') \<Rightarrow> (Inr (), st', fst (deferral_exit False pending c))
                  | (Inl e, st') \<Rightarrow>
                      (Inl (if dual then SinkDeliveryError else e), st',
                       fst (deferral_exit True pending (bump (str ''_failed'') (length batch) c))))"

definition line_encode :: "(event \<Rightarrow> pystr result) \<Rightarrow> event \<Rightarrow> bytes result" where
  "line_encode dumps ev = (case dumps ev of Inl e \<Rightarrow> Inl e | Inr body \<Rightarrow> encode_utf8 (body @ [10]))"

fun append_lines :: "os_env \<Rightarrow> bytes list \<Rightarrow> stmt" where
  "append_lines env [] = stream_flush env"
| "append_lines env (line # lines) = andthen (stream_write env line) (append_lines env lines)"

definition filesink_emit :: "os_env \<Rightarrow> (event \<Rightarrow> pystr result) \<Rightarrow> bool \<Rightarrow> event list \<Rightarrow> rot \<times> counters \<Rightarrow> unit result \<times> rot \<times> counters" where
  "filesink_emit env dumps = file_emit (line_encode dumps) (append_lines env)"

definition rotating_emit :: "os_env \<Rightarrow> rot_cfg \<Rightarrow> (event \<Rightarrow> pystr result) \<Rightarrow> bool \<Rightarrow> event list \<Rightarrow> rot \<times> counters \<Rightarrow> unit result \<times> rot \<times> counters" where
  "rotating_emit env cfg dumps = file_emit (line_encode dumps) (rotating_write env cfg)"

definition file_losses :: "counters \<Rightarrow> sink_losses option" where
  "file_losses c =
     (if c C_UNENCODABLE = 0 \<and> c (str ''_failed'') = 0 then None
      else Some \<lparr>sl_dropped = c C_UNENCODABLE, sl_failed = c (str ''_failed'')\<rparr>)"

definition file_close :: "os_env \<Rightarrow> stmt" where
  "file_close env st =
     (if ro_closed st then skip st
      else andthen (stream_flush env) (stream_close env) (st\<lparr>ro_closed := True\<rparr>))"

text \<open>After a fork the inherited stream is pointed at the null device, so that what it had buffered is
  written once, by the parent, and the file is opened again.\<close>

definition reopen_discarding :: "os_env \<Rightarrow> stmt" where
  "reopen_discarding env =
     andthen (os_call env (\<lambda>st. st) (\<lambda>k st. st)) (andthen (os_call env (\<lambda>st. st) (\<lambda>k st. st)) (open_append env))"

definition file_reacquire :: "os_env \<Rightarrow> stmt" where
  "file_reacquire env st = (if ro_closed st then skip st else reopen_discarding env st)"

definition rotating_new :: "os_env \<Rightarrow> rot_cfg \<Rightarrow> (nat \<Rightarrow> bytes option) \<Rightarrow> unit result \<times> rot" where
  "rotating_new env cfg files =
     andthen (open_append env) (andthen (get_size env) (\<lambda>st. (Inr (), schedule_next env cfg st)))
       \<lparr>ro_files = files, ro_buffer = [], ro_open = False, ro_size = 0, ro_next = None, ro_failing = False,
        ro_closed = False, ro_calls = 0, ro_ticks = 0\<rparr>"

subsection \<open>The ring the rotating sink implements\<close>

text \<open>Segments, newest first. A segment is the bytes written between two rotations; a rotation starts
  an empty one and forgets those beyond the number of backups.\<close>

record ring =
  rg_segments :: "bytes list"
  rg_next :: "rat option"
  rg_ticks :: nat

definition ring_schedule :: "os_env \<Rightarrow> rot_cfg \<Rightarrow> ring \<Rightarrow> ring" where
  "ring_schedule env cfg r =
     (case rc_interval cfg of
        None \<Rightarrow> r\<lparr>rg_next := None\<rparr>
      | Some secs \<Rightarrow> r\<lparr>rg_next := Some (os_clock env (rg_ticks r) + secs), rg_ticks := Suc (rg_ticks r)\<rparr>)"

definition ring_rotate :: "os_env \<Rightarrow> rot_cfg \<Rightarrow> ring \<Rightarrow> ring" where
  "ring_rotate env cfg r = ring_schedule env cfg (r\<lparr>rg_segments := take (Suc (rc_backups cfg)) ([] # rg_segments r)\<rparr>)"

definition ring_append :: "bytes \<Rightarrow> ring \<Rightarrow> ring" where
  "ring_append line r = r\<lparr>rg_segments := (case rg_segments r of [] \<Rightarrow> [line] | s # ss \<Rightarrow> (s @ line) # ss)\<rparr>"

definition ring_due :: "os_env \<Rightarrow> rot_cfg \<Rightarrow> nat \<Rightarrow> ring \<Rightarrow> bool \<times> ring" where
  "ring_due env cfg incoming r =
     (if 0 < rc_max_bytes cfg \<and> rg_segments r ! 0 \<noteq> [] \<and> rc_max_bytes cfg < length (rg_segments r ! 0) + incoming then (True, r)
      else case rg_next r of
             None \<Rightarrow> (False, r)
           | Some deadline \<Rightarrow> (deadline \<le> os_clock env (rg_ticks r), r\<lparr>rg_ticks := Suc (rg_ticks r)\<rparr>))"

definition ring_write :: "os_env \<Rightarrow> rot_cfg \<Rightarrow> bytes \<Rightarrow> ring \<Rightarrow> ring" where
  "ring_write env cfg line r =
     (let (due, r) = ring_due env cfg (length line) r in ring_append line (if due then ring_rotate env cfg r else r))"

definition ring_writes :: "os_env \<Rightarrow> rot_cfg \<Rightarrow> bytes list \<Rightarrow> ring \<Rightarrow> ring" where
  "ring_writes env cfg lines r = fold (ring_write env cfg) lines r"

text \<open>The ring a state of the sink stands for: the active file with what is buffered, and the backups
  up to the first that is missing.\<close>

definition segments :: "nat \<Rightarrow> (nat \<Rightarrow> bytes option) \<Rightarrow> bytes list" where
  "segments n files = map the (takeWhile (\<lambda>f. f \<noteq> None) (map files [0..<Suc n]))"

definition stored :: "rot \<Rightarrow> nat \<Rightarrow> bytes option" where
  "stored st = (ro_files st)(0 := map_option (\<lambda>bs. bs @ ro_buffer st) (ro_files st 0))"

definition abs_ring :: "rot_cfg \<Rightarrow> rot \<Rightarrow> ring" where
  "abs_ring cfg st = \<lparr>rg_segments = segments (rc_backups cfg) (stored st), rg_next = ro_next st, rg_ticks = ro_ticks st\<rparr>"

text \<open>No backup without the one before it; the sink's count of bytes is the size of the file.\<close>

definition gap_free :: "nat \<Rightarrow> (nat \<Rightarrow> bytes option) \<Rightarrow> bool" where
  "gap_free n files \<longleftrightarrow> (\<forall>i<n. files (Suc i) \<noteq> None \<longrightarrow> files i \<noteq> None)"

definition rot_ok :: "rot_cfg \<Rightarrow> rot \<Rightarrow> bool" where
  "rot_ok cfg st \<longleftrightarrow> ro_open st \<and> ro_files st 0 \<noteq> None \<and> ro_size st = length (contents 0 st @ ro_buffer st) \<and>
     gap_free (rc_backups cfg) (ro_files st)"

definition reliable :: "os_env \<Rightarrow> bool" where
  "reliable env \<longleftrightarrow> (\<forall>n. os_io env n = Done)"

subsection \<open>Rotation without failures\<close>

lemma os_call_reliable: "reliable env \<Longrightarrow> os_call env f g st = (Inr (), f (st\<lparr>ro_calls := Suc (ro_calls st)\<rparr>))"
  by (simp add: os_call_def reliable_def)

lemma calls_last:
  "ro_files_update f (ro_calls_update g st) = ro_calls_update g (ro_files_update f st)"
  "ro_buffer_update h (ro_calls_update g st) = ro_calls_update g (ro_buffer_update h st)"
  "ro_open_update b (ro_calls_update g st) = ro_calls_update g (ro_open_update b st)"
  "ro_size_update k (ro_calls_update g st) = ro_calls_update g (ro_size_update k st)"
  by (cases st, simp)+

lemmas os_defs = os_remove_def os_replace_def open_append_def get_size_def stream_write_def stream_flush_def stream_close_def

definition shifted :: "nat \<Rightarrow> (nat \<Rightarrow> bytes option) \<Rightarrow> nat \<Rightarrow> bytes option" where
  "shifted i files j = (if j = 1 \<and> 0 < i then None else if 2 \<le> j \<and> j \<le> Suc i then files (j - 1) else files j)"

lemma shift_reliable:
  assumes "reliable env" and "gap_free (Suc i) (ro_files st)"
  shows "\<exists>n. shift_backups env i st = (Inr (), st\<lparr>ro_files := shifted i (ro_files st), ro_calls := n\<rparr>)"
  using assms(2)
proof (induction i arbitrary: st)
  case 0
  have "shifted 0 (ro_files st) = ro_files st" by (rule ext) (auto simp: shifted_def)
  then show ?case by (auto simp: skip_def intro: exI [of _ "ro_calls st"])
next
  case (Suc i)
  define first where "first st = (if ro_files st (Suc i) \<noteq> None
      then andthen (remove_existing env (Suc (Suc i))) (os_replace env (Suc i) (Suc (Suc i))) st else skip st)" for st
  define files where "files = (\<lambda>j. if j = Suc i then None else if j = Suc (Suc i) then ro_files st (Suc i) else ro_files st j)"
  have gap: "ro_files st (Suc (Suc i)) \<noteq> None \<longrightarrow> ro_files st (Suc i) \<noteq> None" using Suc.prems by (auto simp: gap_free_def)
  obtain n where first: "first st = (Inr (), st\<lparr>ro_files := files, ro_calls := n\<rparr>)"
  proof (cases "ro_files st (Suc i)")
    case None
    then have "files = ro_files st" using gap by (auto simp: files_def)
    then show ?thesis using None that [of "ro_calls st"] by (simp add: first_def skip_def)
  next
    case (Some bs)
    have "(ro_files st)(Suc (Suc i) := Some bs, Suc i := None) = files" "((ro_files st)(Suc (Suc i) := None))(Suc (Suc i) := Some bs, Suc i := None) = files"
      using Some by (auto simp: files_def)
    then show ?thesis using Some that
      by (cases "ro_files st (Suc (Suc i))")
        (auto simp: first_def andthen_def remove_existing_def os_defs os_call_reliable [OF assms(1)] skip_def calls_last)
  qed
  have "gap_free (Suc i) files" using Suc.prems by (auto simp: gap_free_def files_def less_Suc_eq)
  then obtain m where m: "shift_backups env i (st\<lparr>ro_files := files, ro_calls := n\<rparr>) =
      (Inr (), st\<lparr>ro_files := shifted i files, ro_calls := m\<rparr>)"
    using Suc.IH [of "st\<lparr>ro_files := files, ro_calls := n\<rparr>"] by auto
  have "shifted i files = shifted (Suc i) (ro_files st)" by (rule ext) (auto simp: files_def shifted_def)
  then show ?case using first m by (auto simp: andthen_def first_def)
qed

text \<open>The files after a rotation: every segment one further, those beyond the backups as they were.\<close>

definition rotated :: "nat \<Rightarrow> (nat \<Rightarrow> bytes option) \<Rightarrow> nat \<Rightarrow> bytes option" where
  "rotated n files j = (if j = 0 then Some [] else if j \<le> n then files (j - 1) else files j)"

lemma move_files_reliable:
  assumes "reliable env" and "gap_free (rc_backups cfg) (ro_files st)" and "ro_files st 0 \<noteq> None"
  shows "\<exists>n. move_files env cfg st = (Inr (), st\<lparr>ro_files := (rotated (rc_backups cfg) (ro_files st))(0 := None), ro_calls := n\<rparr>)"
proof (cases "rc_backups cfg")
  case 0
  have "(ro_files st)(0 := None) = (rotated 0 (ro_files st))(0 := None)" by (rule ext) (simp add: rotated_def)
  then show ?thesis using assms(3) 0
    by (intro exI [of _ "Suc (ro_calls st)"], cases st) (auto simp: move_files_def remove_existing_def os_defs os_call_reliable [OF assms(1)])
next
  case (Suc i)
  define f1 where "f1 = shifted i (ro_files st)"
  obtain n where n: "shift_backups env i st = (Inr (), st\<lparr>ro_files := f1, ro_calls := n\<rparr>)"
    using shift_reliable [OF assms(1), of i st] assms(2) Suc by (auto simp: f1_def)
  have zero: "f1 0 = ro_files st 0" by (simp add: f1_def shifted_def)
  have eq: "(f1(1 := None))(1 := ro_files st 0, 0 := None) = (rotated (Suc i) (ro_files st))(0 := None)"
    "f1(1 := ro_files st 0, 0 := None) = (rotated (Suc i) (ro_files st))(0 := None)"
    by (rule ext, auto simp: f1_def shifted_def rotated_def le_Suc_eq)+
  have "\<exists>m. andthen (remove_existing env 1) (replace_existing env 0 1) (st\<lparr>ro_files := f1, ro_calls := n\<rparr>) =
    (Inr (), st\<lparr>ro_files := (rotated (Suc i) (ro_files st))(0 := None), ro_calls := m\<rparr>)"
    using assms(3) zero eq
    by (cases "f1 1") (auto simp: andthen_def remove_existing_def replace_existing_def skip_def os_defs os_call_reliable [OF assms(1)] calls_last)
  then show ?thesis using n Suc by (simp add: move_files_def andthen_def [of "shift_backups env i"])
qed

lemma schedule_ring: "abs_ring cfg (schedule_next env cfg st) = ring_schedule env cfg (abs_ring cfg st)"
  by (simp add: abs_ring_def schedule_next_def ring_schedule_def stored_def split: option.splits)

lemma schedule_frame [simp]:
  "ro_files (schedule_next env cfg st) = ro_files st" "ro_buffer (schedule_next env cfg st) = ro_buffer st"
  "ro_open (schedule_next env cfg st) = ro_open st" "ro_size (schedule_next env cfg st) = ro_size st"
  "contents i (schedule_next env cfg st) = contents i st" "ro_closed (schedule_next env cfg st) = ro_closed st"
  "ro_calls (schedule_next env cfg st) = ro_calls st"
  by (auto simp: schedule_next_def contents_def split: option.splits)

lemma rotate_reliable:
  assumes "reliable env" and "rot_ok cfg st"
  shows "\<exists>n. rotate_file env cfg st = (Inr (), schedule_next env cfg
    (st\<lparr>ro_files := rotated (rc_backups cfg) (stored st), ro_buffer := [], ro_open := True, ro_size := 0, ro_calls := n\<rparr>))"
proof -
  define st1 where "st1 = st\<lparr>ro_files := stored st, ro_buffer := [], ro_open := False, ro_calls := Suc (ro_calls st)\<rparr>"
  have close: "stream_close env st = (Inr (), st1)"
    using assms by (auto simp: os_defs os_call_reliable st1_def push_def stored_def contents_def rot_ok_def)
  have files: "gap_free (rc_backups cfg) (ro_files st1)" "ro_files st1 0 \<noteq> None"
    using assms(2) by (auto simp: st1_def stored_def rot_ok_def gap_free_def)
  obtain n where move: "move_files env cfg st1 = (Inr (), st1\<lparr>ro_files := (rotated (rc_backups cfg) (ro_files st1))(0 := None), ro_calls := n\<rparr>)"
    using move_files_reliable [OF assms(1) files] by blast
  have "(rotated (rc_backups cfg) (stored st))(0 := Some []) = rotated (rc_backups cfg) (stored st)"
    by (rule ext) (simp add: rotated_def)
  then show ?thesis using close move assms(2)
    by (intro exI [of _ "Suc n"], cases st) (auto simp: rotate_file_def andthen_def open_append_def os_call_reliable [OF assms(1)] st1_def contents_def rot_ok_def)
qed

lemma takeWhile_take_swap: "takeWhile P (take n xs) = take n (takeWhile P xs)"
  by (induction xs arbitrary: n) (auto simp: take_Cons split: nat.splits)

lemma segments_rotated: "segments n (rotated n files) = take (Suc n) ([] # segments n files)"
proof -
  have "map (rotated n files) [0..<Suc n] = Some [] # map files [0..<n]"
    by (simp add: upt_conv_Cons map_Suc_upt [symmetric] rotated_def del: upt_Suc)
  moreover have "takeWhile Q (map files [0..<n]) = take n (takeWhile Q (map files [0..<Suc n]))" for Q
    by (simp add: takeWhile_take_swap [symmetric] take_map del: upt_Suc)
  ultimately show ?thesis by (simp add: segments_def take_map del: upt_Suc)
qed

subsection \<open>The refinement\<close>

lemma rotated_frame:
  "gap_free n files \<Longrightarrow> files 0 \<noteq> None \<Longrightarrow> gap_free n (rotated n files)"
  by (auto simp: gap_free_def rotated_def)

lemma rotate_refines:
  assumes "reliable env" and "rot_ok cfg st"
  shows "\<exists>st'. rotate_or_continue env cfg st = (Inr (), st') \<and> rot_ok cfg st' \<and> ro_closed st' = ro_closed st \<and>
    abs_ring cfg st' = ring_rotate env cfg (abs_ring cfg st)"
proof -
  obtain n where n: "rotate_file env cfg st = (Inr (), schedule_next env cfg
    (st\<lparr>ro_files := rotated (rc_backups cfg) (stored st), ro_buffer := [], ro_open := True, ro_size := 0, ro_calls := n\<rparr>))" (is "_ = (_, schedule_next env cfg ?st)")
    using rotate_reliable [OF assms] by blast
  have gap: "gap_free (rc_backups cfg) (stored st)" "stored st 0 \<noteq> None"
    using assms(2) by (auto simp: rot_ok_def stored_def gap_free_def)
  have "stored ?st = rotated (rc_backups cfg) (stored st)" by (rule ext) (simp add: stored_def rotated_def)
  then have "abs_ring cfg ?st = (abs_ring cfg st)\<lparr>rg_segments := take (Suc (rc_backups cfg)) ([] # rg_segments (abs_ring cfg st))\<rparr>"
    by (simp add: abs_ring_def segments_rotated)
  then have "abs_ring cfg (schedule_next env cfg ?st) = ring_rotate env cfg (abs_ring cfg st)"
    by (simp add: schedule_ring ring_rotate_def)
  moreover have "rot_ok cfg ?st" using rotated_frame [OF gap] by (simp add: rot_ok_def contents_def rotated_def)
  moreover have "abs_ring cfg (x\<lparr>ro_failing := False\<rparr>) = abs_ring cfg x" "rot_ok cfg (x\<lparr>ro_failing := False\<rparr>) = rot_ok cfg x" for x
    by (simp_all add: abs_ring_def stored_def rot_ok_def contents_def)
  moreover have "rot_ok cfg (schedule_next env cfg x) = rot_ok cfg x" for x by (simp add: rot_ok_def)
  ultimately show ?thesis using n by (simp add: rotate_or_continue_def)
qed

lemma segments_first:
  "files 0 = Some bs \<Longrightarrow> segments n files = bs # map the (takeWhile (\<lambda>f. f \<noteq> None) (map files [1..<Suc n]))"
  by (simp add: segments_def upt_conv_Cons del: upt_Suc)

lemma due_refines:
  assumes "rot_ok cfg st" and "should_rotate env cfg incoming st = (due, st')"
  shows "ring_due env cfg incoming (abs_ring cfg st) = (due, abs_ring cfg st') \<and> rot_ok cfg st' \<and> ro_closed st' = ro_closed st"
proof -
  obtain bs where bs: "ro_files st 0 = Some bs" using assms(1) by (auto simp: rot_ok_def)
  have hd: "segments (rc_backups cfg) (stored st) ! 0 = bs @ ro_buffer st"
    using segments_first [of "stored st" "bs @ ro_buffer st"] by (simp add: stored_def bs del: upt_Suc)
  have sz: "ro_size st = length (bs @ ro_buffer st)" using assms(1) bs by (simp add: rot_ok_def contents_def)
  have pos: "0 < ro_size st \<longleftrightarrow> bs @ ro_buffer st \<noteq> []" using sz by auto
  have st: "abs_ring cfg (st\<lparr>ro_ticks := n\<rparr>) = (abs_ring cfg st)\<lparr>rg_ticks := n\<rparr>" "rot_ok cfg (st\<lparr>ro_ticks := n\<rparr>) = rot_ok cfg st" for n
    by (simp_all add: abs_ring_def stored_def rot_ok_def contents_def)
  have proj: "rg_segments (abs_ring cfg st) ! 0 = bs @ ro_buffer st" "rg_next (abs_ring cfg st) = ro_next st" "rg_ticks (abs_ring cfg st) = ro_ticks st"
    using hd by (simp_all add: abs_ring_def)
  show ?thesis using assms unfolding should_rotate_def ring_due_def proj pos sz
    by (auto simp: st split: if_splits option.splits)
qed

lemma append_refines:
  assumes "reliable env" and "rot_ok cfg st"
  shows "\<exists>st'. andthen (stream_write env line) (\<lambda>st. (Inr (), st\<lparr>ro_size := ro_size st + length line\<rparr>)) st = (Inr (), st') \<and>
    rot_ok cfg st' \<and> ro_closed st' = ro_closed st \<and> abs_ring cfg st' = ring_append line (abs_ring cfg st)"
proof -
  obtain bs where bs: "ro_files st 0 = Some bs" using assms(2) by (auto simp: rot_ok_def)
  define st' where "st' = st\<lparr>ro_buffer := ro_buffer st @ line, ro_size := ro_size st + length line, ro_calls := Suc (ro_calls st)\<rparr>"
  have "andthen (stream_write env line) (\<lambda>st. (Inr (), st\<lparr>ro_size := ro_size st + length line\<rparr>)) st = (Inr (), st')"
    by (simp add: andthen_def os_defs os_call_reliable [OF assms(1)] st'_def calls_last)
  moreover have "rot_ok cfg st'" using assms(2) by (simp add: rot_ok_def contents_def st'_def)
  moreover have "segments (rc_backups cfg) (stored st') = ring.rg_segments (ring_append line (abs_ring cfg st))"
  proof -
    have "stored st' (Suc i) = stored st (Suc i)" for i by (simp add: stored_def st'_def)
    then have tl: "map (stored st') [1..<Suc (rc_backups cfg)] = map (stored st) [1..<Suc (rc_backups cfg)]"
      by (simp add: map_Suc_upt [symmetric] del: upt_Suc)
    have stored: "stored st 0 = Some (bs @ ro_buffer st)" "stored st' 0 = Some (bs @ ro_buffer st @ line)"
      by (simp_all add: stored_def bs st'_def)
    show ?thesis unfolding abs_ring_def ring_append_def segments_first [where files = "stored st'", OF stored(2)] tl
      by (simp add: segments_first [where files = "stored st", OF stored(1)] del: upt_Suc)
  qed
  ultimately show ?thesis by (auto simp: abs_ring_def ring_append_def st'_def)
qed

lemma flush_refines:
  assumes "reliable env" and "rot_ok cfg st"
  shows "\<exists>st'. stream_flush env st = (Inr (), st') \<and> rot_ok cfg st' \<and> ro_closed st' = ro_closed st \<and> ro_buffer st' = [] \<and>
    abs_ring cfg st' = abs_ring cfg st"
proof -
  obtain bs where bs: "ro_files st 0 = Some bs" using assms(2) by (auto simp: rot_ok_def)
  define st' where "st' = st\<lparr>ro_files := (ro_files st)(0 := Some (bs @ ro_buffer st)), ro_buffer := [], ro_calls := Suc (ro_calls st)\<rparr>"
  have "stream_flush env st = (Inr (), st')"
    by (simp add: os_defs os_call_reliable [OF assms(1)] push_def st'_def calls_last contents_def bs)
  moreover have "stored st' = stored st" by (rule ext) (simp add: stored_def st'_def bs)
  moreover have "rot_ok cfg st'" using assms(2) by (auto simp: rot_ok_def contents_def st'_def bs gap_free_def)
  ultimately show ?thesis by (auto simp: abs_ring_def st'_def)
qed

lemma write_line_refines:
  assumes "reliable env" and "rot_ok cfg st"
  shows "\<exists>st'. write_line env cfg line st = (Inr (), st') \<and> rot_ok cfg st' \<and> ro_closed st' = ro_closed st \<and>
    abs_ring cfg st' = ring_write env cfg line (abs_ring cfg st)"
proof -
  obtain due st1 where due: "should_rotate env cfg (length line) st = (due, st1)" by (rule prod.exhaust)
  note d = due_refines [OF assms(2) due]
  obtain st2 where st2: "(if due then andthen (stream_flush env) (rotate_or_continue env cfg) else skip) st1 = (Inr (), st2)"
    "rot_ok cfg st2" "ro_closed st2 = ro_closed st" "abs_ring cfg st2 = (if due then ring_rotate env cfg (abs_ring cfg st1) else abs_ring cfg st1)"
    using flush_refines [OF assms(1)] rotate_refines [OF assms(1)] d by (cases due) (fastforce simp: andthen_def skip_def)+
  show ?thesis using append_refines [OF assms(1) st2(2), of line] st2 d due
    by (auto simp: write_line_def ring_write_def andthen_def [of "if due then _ else _"])
qed

lemma write_lines_refines:
  assumes "reliable env" and "rot_ok cfg st"
  shows "\<exists>st'. write_lines env cfg lines st = (Inr (), st') \<and> rot_ok cfg st' \<and> ro_closed st' = ro_closed st \<and>
    abs_ring cfg st' = ring_writes env cfg lines (abs_ring cfg st)"
  using assms(2)
proof (induction lines arbitrary: st)
  case (Cons line lines)
  obtain st1 where st1: "write_line env cfg line st = (Inr (), st1)" "rot_ok cfg st1" "ro_closed st1 = ro_closed st"
    "abs_ring cfg st1 = ring_write env cfg line (abs_ring cfg st)"
    using write_line_refines [OF assms(1) Cons.prems] by blast
  then show ?case using Cons.IH [OF st1(2)] by (auto simp: andthen_def ring_writes_def)
qed (simp add: skip_def ring_writes_def)

definition encoded_lines :: "(event \<Rightarrow> pystr result) \<Rightarrow> event list \<Rightarrow> bytes list" where
  "encoded_lines dumps batch = map snd (fst (encode_loop (line_encode dumps) batch))"

lemma rotating_write_refines:
  assumes "reliable env" and "rot_ok cfg st"
  shows "\<exists>st'. rotating_write env cfg lines st = (Inr (), st') \<and> rot_ok cfg st' \<and> ro_closed st' = ro_closed st \<and> ro_buffer st' = [] \<and>
    abs_ring cfg st' = ring_writes env cfg lines (abs_ring cfg st)"
proof -
  obtain st1 where st1: "write_lines env cfg lines st = (Inr (), st1)" "rot_ok cfg st1" "ro_closed st1 = ro_closed st"
    "abs_ring cfg st1 = ring_writes env cfg lines (abs_ring cfg st)"
    using write_lines_refines [OF assms] by blast
  then show ?thesis using flush_refines [OF assms(1) st1(2)] assms(2)
    by (auto simp: rotating_write_def andthen_def ensure_open_def skip_def rot_ok_def)
qed

lemma emit_refines:
  assumes "reliable env" and "rot_ok cfg st" and "\<not> ro_closed st" and "ro_buffer st = []"
  shows "\<exists>st' c'. rotating_emit env cfg dumps dual batch (st, c) = (Inr (), st', c') \<and> rot_ok cfg st' \<and> \<not> ro_closed st' \<and> ro_buffer st' = [] \<and>
    abs_ring cfg st' = ring_writes env cfg (encoded_lines dumps batch) (abs_ring cfg st)"
proof -
  obtain lines pending where enc: "encode_events (line_encode dumps) C_UNENCODABLE batch new_deferral = (lines, pending)" by (rule prod.exhaust)
  have lines: "map snd lines = encoded_lines dumps batch"
    using enc by (auto simp: encode_events_def encoded_lines_def Let_def split: prod.splits)
  show ?thesis
  proof (cases "batch = [] \<or> lines = []")
    case True
    then have "encoded_lines dumps batch = []" using lines by (auto simp: encoded_lines_def)
    then show ?thesis using True assms enc by (auto simp: rotating_emit_def file_emit_def ring_writes_def)
  next
    case False
    then show ?thesis using rotating_write_refines [OF assms(1,2), of "map snd lines"] assms(3) enc lines
      by (auto simp: rotating_emit_def file_emit_def)
  qed
qed

text \<open>C22. Over an operating system whose calls succeed, an emit of the rotating sink is a run of
  writes on a ring of segments: the active file and its backups are the newest segments, the sink
  rotates exactly when the next line would pass the limit or the deadline is over, its own count of
  bytes never departs from the size of the file, and nothing stays in a buffer.\<close>

theorem rotating_emit_refines:
  assumes "reliable env" and "rot_ok cfg st" and "\<not> ro_closed st" and "ro_buffer st = []"
  shows "\<exists>st' c'. rotating_emit env cfg dumps dual batch (st, c) = (Inr (), st', c') \<and> rot_ok cfg st' \<and> ro_buffer st' = [] \<and>
    abs_ring cfg st' = ring_writes env cfg (encoded_lines dumps batch) (abs_ring cfg st)"
  using emit_refines [OF assms] by blast

definition calm_env :: os_env where
  "calm_env = \<lparr>os_io = (\<lambda>_. Done), os_clock = (\<lambda>_. 0)\<rparr>"

definition one_backup :: rot_cfg where
  "one_backup = \<lparr>rc_max_bytes = 4, rc_backups = 1, rc_interval = None\<rparr>"

definition two_files :: rot where
  "two_files = \<lparr>ro_files = (\<lambda>_. None)(0 := Some [1, 2, 3], 1 := Some [9]), ro_buffer = [], ro_open = True, ro_size = 3, ro_next = None,
     ro_failing = False, ro_closed = False, ro_calls = 0, ro_ticks = 0\<rparr>"

theorem rotating_emit_refines_witness:
  "reliable calm_env \<and> rot_ok one_backup two_files \<and> \<not> ro_closed two_files \<and> ro_buffer two_files = [] \<and>
   (\<exists>st' c'. rotating_emit calm_env one_backup (\<lambda>_. Inr [123, 125]) True [[]] (two_files, \<lambda>_. 0) = (Inr (), st', c') \<and>
     rot_ok one_backup st' \<and> ro_buffer st' = [] \<and> rg_segments (abs_ring one_backup st') = [[123, 125, 10], [1, 2, 3]])"
proof -
  have h: "reliable calm_env" "rot_ok one_backup two_files" "\<not> ro_closed two_files" "ro_buffer two_files = []"
    by (simp_all add: reliable_def calm_env_def rot_ok_def one_backup_def two_files_def contents_def gap_free_def)
  have "encode_utf8 [123, 125, 10] = Inr [123, 125, 10]" by (simp add: encode_utf8_def utf8_def utf8_char_def is_surrogate_def)
  then have lines: "encoded_lines (\<lambda>_. Inr [123, 125]) [[]] = [[123, 125, 10]]"
    by (simp add: encoded_lines_def line_encode_def)
  have "rg_segments (ring_writes calm_env one_backup [[123, 125, 10]] (abs_ring one_backup two_files)) = [[123, 125, 10], [1, 2, 3]]"
    by (simp add: ring_writes_def ring_write_def ring_due_def ring_rotate_def ring_schedule_def ring_append_def abs_ring_def one_backup_def
        two_files_def segments_def stored_def calm_env_def)
  then show ?thesis using h lines rotating_emit_refines [OF h, of "\<lambda>_. Inr [123, 125]" True "[[]]" "\<lambda>_. 0"] by auto
qed

subsection \<open>What the ring keeps\<close>

definition kept :: "ring \<Rightarrow> bytes" where
  "kept r = concat (rev (rg_segments r))"

lemma ring_schedule_segments [simp]: "rg_segments (ring_schedule env cfg r) = rg_segments r"
  by (simp add: ring_schedule_def split: option.splits)

lemma ring_due_segments: "ring_due env cfg n r = (due, r') \<Longrightarrow> rg_segments r' = rg_segments r"
  by (auto simp: ring_due_def split: if_splits option.splits)

lemma concat_rev_take: "\<exists>old. concat (rev xs) = old @ concat (rev (take n xs))"
  by (intro exI [of _ "concat (rev (drop n xs))"]) (metis append_take_drop_id concat_append rev_append)

lemma ring_rotate_keeps: "\<exists>old. kept r = old @ kept (ring_rotate env cfg r)"
  using concat_rev_take [of "[] # rg_segments r" "Suc (rc_backups cfg)"] by (simp add: kept_def ring_rotate_def)

lemma ring_append_keeps: "kept (ring_append line r) = kept r @ line"
  by (simp add: kept_def ring_append_def split: list.splits)

lemma ring_write_keeps: "\<exists>old. kept r @ line = old @ kept (ring_write env cfg line r)"
proof -
  obtain due r' where r: "ring_due env cfg (length line) r = (due, r')" by (rule prod.exhaust)
  have "kept r' = kept r" using ring_due_segments [OF r] by (simp add: kept_def)
  then show ?thesis using ring_rotate_keeps [of r' env cfg] r by (auto simp: ring_write_def ring_append_keeps)
qed

lemma ring_writes_keep: "\<exists>old. kept r @ concat lines = old @ kept (ring_writes env cfg lines r)"
proof (induction lines arbitrary: r)
  case (Cons line lines)
  obtain old where "kept r @ line = old @ kept (ring_write env cfg line r)" using ring_write_keeps by blast
  moreover obtain old' where "kept (ring_write env cfg line r) @ concat lines = old' @ kept (ring_writes env cfg lines (ring_write env cfg line r))"
    using Cons.IH by blast
  ultimately have "kept r @ concat (line # lines) = (old @ old') @ kept (ring_writes env cfg (line # lines) r)"
    by (simp add: ring_writes_def) (metis append.assoc)
  then show ?case by blast
qed (simp add: ring_writes_def)

definition ring_bounded :: "rot_cfg \<Rightarrow> ring \<Rightarrow> bool" where
  "ring_bounded cfg r \<longleftrightarrow> rg_segments r \<noteq> [] \<and> length (rg_segments r) \<le> Suc (rc_backups cfg) \<and>
     list_all (\<lambda>s. length s \<le> rc_max_bytes cfg) (rg_segments r)"

lemma ring_write_bounded:
  assumes "ring_bounded cfg r" and "0 < rc_max_bytes cfg" and "length line \<le> rc_max_bytes cfg"
  shows "ring_bounded cfg (ring_write env cfg line r)"
proof -
  obtain due r' where r: "ring_due env cfg (length line) r = (due, r')" by (rule prod.exhaust)
  obtain s ss where s: "rg_segments r = s # ss" using assms(1) by (cases "rg_segments r") (auto simp: ring_bounded_def)
  have s': "rg_segments r' = s # ss" using ring_due_segments [OF r] s by simp
  have "\<not> due \<Longrightarrow> length s + length line \<le> rc_max_bytes cfg"
    using r s assms(3) by (cases s) (auto simp: ring_due_def assms(2) split: if_splits option.splits)
  moreover have "list_all P (take n ss)" if "list_all P ss" for P n using that by (auto simp: list_all_iff dest: in_set_takeD)
  ultimately show ?thesis using assms s s' r
    by (auto simp: ring_write_def ring_bounded_def ring_append_def ring_rotate_def list_all_iff take_Cons dest: in_set_takeD split: nat.splits)
qed

lemma ring_writes_bounded:
  "ring_bounded cfg r \<Longrightarrow> 0 < rc_max_bytes cfg \<Longrightarrow> list_all (\<lambda>l. length l \<le> rc_max_bytes cfg) lines \<Longrightarrow>
     ring_bounded cfg (ring_writes env cfg lines r)"
  by (induction lines arbitrary: r) (auto simp: ring_writes_def ring_write_bounded)



subsection \<open>A rotation that fails\<close>

text \<open>An operating system on which renaming the active file fails.\<close>

definition held_file_env :: os_env where
  "held_file_env = \<lparr>os_io = (\<lambda>n. if n = 2 then Fail 0 else Done), os_clock = (\<lambda>_. 0)\<rparr>"


end
