(* ===== verification/Http_Sink.thy ===== *)
theory Http_Sink
  imports Batch_Emit
begin

text \<open>
  \<^verbatim>\<open>sinks/http.py\<close>: batches posted over HTTP in requests of bounded size. Subclasses shape a request
  through hooks, which are the record \<open>hooks\<close> here; the loop that cuts the batch into requests is
  theirs in common. When the destination answers 413 the budget is halved and the rest is cut anew;
  an event that is refused alone is dropped for good. The destination is an argument: how it answers
  its n-th request. The loop ends by a lexicographic measure, with no fuel.
\<close>

subsection \<open>Requests\<close>

definition MAX_BUDGET_REDUCTIONS :: nat where "MAX_BUDGET_REDUCTIONS = 24"
definition DEFAULT_MAX_BATCH_COUNT :: nat where "DEFAULT_MAX_BATCH_COUNT = 1000"
definition DEFAULT_MAX_BATCH_BYTES :: nat where "DEFAULT_MAX_BATCH_BYTES = 5000000"

record http_item =
  hi_event :: event
  hi_rendered :: pystr
  hi_size :: nat

record hooks =
  hk_render :: "event \<Rightarrow> pystr result"
  hk_item_size :: "pystr \<Rightarrow> event \<Rightarrow> nat result"
  hk_body :: "http_item list \<Rightarrow> pystr"
  hk_handle :: "bytes \<Rightarrow> http_item list \<Rightarrow> counters \<Rightarrow> bool \<times> counters"
  hk_retryable :: "nat \<Rightarrow> bool"
  hk_response_limit :: "nat option"
  hk_reserve :: nat
  hk_event_bytes :: "nat option"

record http_cfg =
  hc_retries :: nat
  hc_count :: nat
  hc_bytes :: nat
  hc_gzip :: bool

text \<open>How an attempt ends: a connection error, another exception of the opener, or a status with the
  payload that was read and the delay the server asks for.\<close>

datatype answer = ConnError | OtherRaise pyexn | Answered nat bytes "pynum option"

datatype send_result = Payload bytes | TooLarge nat | Abandoned | NoAttempt | Raised pyexn

text \<open>The request carries the body or its compression; the destination is a function of the body.\<close>

type_synonym destination = "nat \<Rightarrow> bytes \<Rightarrow> answer"

fun http_attempts :: "hooks \<Rightarrow> destination \<Rightarrow> bytes \<Rightarrow> nat \<Rightarrow> nat \<Rightarrow> send_result \<times> nat" where
  "http_attempts hk dest body n 0 = (NoAttempt, n)"
| "http_attempts hk dest body n (Suc left) =
     (case dest n body of
        ConnError \<Rightarrow> if 0 < left then http_attempts hk dest body (Suc n) left else (Abandoned, Suc n)
      | OtherRaise e \<Rightarrow> (Raised e, Suc n)
      | Answered status payload retry_after \<Rightarrow>
          if 200 \<le> status \<and> status < 300 then (Payload payload, Suc n)
          else if (case hk_response_limit hk of None \<Rightarrow> False | Some limit \<Rightarrow> limit < length payload) then (Abandoned, Suc n)
          else if hk_retryable hk status \<and> 0 < left then http_attempts hk dest body (Suc n) left
          else if status = 413 then (TooLarge (length body), Suc n)
          else (Abandoned, Suc n))"

definition http_send :: "hooks \<Rightarrow> http_cfg \<Rightarrow> destination \<Rightarrow> bytes \<Rightarrow> nat \<Rightarrow> send_result \<times> nat" where
  "http_send hk cfg dest body n = http_attempts hk dest body n (hc_retries cfg + 1)"

text \<open>The pause before the next attempt.\<close>

definition sleep_backoff :: "pynum \<Rightarrow> nat \<Rightarrow> pynum option \<Rightarrow> bool \<Rightarrow> pause" where
  "sleep_backoff max_retry_after attempt retry_after stoppable =
     wait (case clamp_server_delay retry_after max_retry_after of
             Some server \<Rightarrow> server | None \<Rightarrow> NF (Fin (1 / 10 * 2 ^ attempt))) stoppable"

subsection \<open>Items\<close>

definition chunk_budget :: "hooks \<Rightarrow> http_cfg \<Rightarrow> nat" where
  "chunk_budget hk cfg = max (hc_bytes cfg - hk_reserve hk) 1"

definition event_ceiling :: "hooks \<Rightarrow> http_cfg \<Rightarrow> nat" where
  "event_ceiling hk cfg = (case hk_event_bytes hk of None \<Rightarrow> chunk_budget hk cfg | Some n \<Rightarrow> min (chunk_budget hk cfg) n)"

record item_acc =
  ia_items :: "http_item list"
  ia_dropped :: nat
  ia_largest :: nat
  ia_failures :: nat

definition render_item :: "hooks \<Rightarrow> event \<Rightarrow> http_item result" where
  "render_item hk ev =
     (case hk_render hk ev of
        Inl e \<Rightarrow> Inl e
      | Inr rendered \<Rightarrow> (case hk_item_size hk rendered ev of Inl e \<Rightarrow> Inl e | Inr n \<Rightarrow> Inr \<lparr>hi_event = ev, hi_rendered = rendered, hi_size = n\<rparr>))"

fun items_loop :: "hooks \<Rightarrow> nat \<Rightarrow> event list \<Rightarrow> item_acc \<Rightarrow> item_acc" where
  "items_loop hk most [] acc = acc"
| "items_loop hk most (ev # evs) acc =
     items_loop hk most evs
       (case render_item hk ev of
          Inl e \<Rightarrow> acc\<lparr>ia_failures := Suc (ia_failures acc)\<rparr>
        | Inr it \<Rightarrow>
            if most < hi_size it then acc\<lparr>ia_dropped := Suc (ia_dropped acc), ia_largest := max (ia_largest acc) (hi_size it)\<rparr>
            else acc\<lparr>ia_items := ia_items acc @ [it]\<rparr>)"

abbreviation C_UNRENDERABLE :: pystr where "C_UNRENDERABLE \<equiv> str ''_unrenderable''"

definition http_items :: "hooks \<Rightarrow> http_cfg \<Rightarrow> event list \<Rightarrow> deferral \<Rightarrow> http_item list \<times> deferral" where
  "http_items hk cfg batch pending =
     (let acc = items_loop hk (event_ceiling hk cfg) batch \<lparr>ia_items = [], ia_dropped = 0, ia_largest = 0, ia_failures = 0\<rparr>;
          pending = (if 0 < ia_dropped acc then defer_announce (ia_dropped acc) (defer_count C_OVERSIZED (ia_dropped acc) pending) else pending);
          pending = (if 0 < ia_failures acc then defer_announce (ia_failures acc) (defer_count C_UNRENDERABLE (ia_failures acc) pending) else pending)
      in (ia_items acc, pending))"

subsection \<open>The loop over requests\<close>

fun take_more :: "nat \<Rightarrow> nat \<Rightarrow> nat \<Rightarrow> http_item list \<Rightarrow> http_item list" where
  "take_more count_left budget so_far [] = []"
| "take_more count_left budget so_far (it # rest) =
     (if 0 < count_left \<and> so_far + hi_size it \<le> budget then it # take_more (count_left - 1) budget (so_far + hi_size it) rest else [])"

definition http_take :: "http_cfg \<Rightarrow> http_item list \<Rightarrow> nat \<Rightarrow> nat \<Rightarrow> http_item list" where
  "http_take cfg items start budget =
     (case drop start items of [] \<Rightarrow> [] | it # rest \<Rightarrow> it # take_more (hc_count cfg - 1) budget (hi_size it) rest)"

definition body_bytes :: "hooks \<Rightarrow> http_item list \<Rightarrow> bytes" where
  "body_bytes hk chunk = utf8 (hk_body hk chunk)"

definition known_refused :: "hooks \<Rightarrow> http_cfg \<Rightarrow> http_item list \<Rightarrow> nat option \<Rightarrow> bool" where
  "known_refused hk cfg chunk refused_at =
     (case refused_at of
        None \<Rightarrow> False
      | Some r \<Rightarrow> \<not> hc_gzip cfg \<and> 0 < r \<and> length chunk = 1 \<and> r \<le> length (body_bytes hk chunk))"

text \<open>What became of a chunk, kept for the statements: delivered, refused for good, abandoned, or
  answered with a verdict that does not settle it.\<close>

datatype fate = Delivered | Refused | Lost | Unsettled

record http_run =
  hr_index :: nat
  hr_budget :: nat
  hr_refused :: "nat option"
  hr_reductions :: nat
  hr_chunks :: nat
  hr_settled :: nat
  hr_pending :: deferral
  hr_counters :: counters
  hr_calls :: nat
  hr_fates :: "(http_item list \<times> fate) list"
  hr_offered :: "http_item list list"

definition drop_refused :: "http_item list \<Rightarrow> http_run \<Rightarrow> http_run" where
  "drop_refused chunk st = st\<lparr>hr_pending := defer_announce (length chunk) (defer_count C_OVERSIZED (length chunk) (hr_pending st))\<rparr>"

definition settle :: "http_item list \<Rightarrow> fate \<Rightarrow> bool \<Rightarrow> http_run \<Rightarrow> http_run" where
  "settle chunk f settled st =
     st\<lparr>hr_chunks := Suc (hr_chunks st), hr_settled := hr_settled st + (if settled then 1 else 0), hr_index := hr_index st + length chunk,
        hr_fates := hr_fates st @ [(chunk, f)]\<rparr>"

definition http_refusal :: "http_item list \<Rightarrow> nat \<Rightarrow> http_run \<Rightarrow> http_run" where
  "http_refusal chunk n st =
     (let st = st\<lparr>hr_refused := Some (case hr_refused st of None \<Rightarrow> n | Some r \<Rightarrow> min r n)\<rparr>
      in if 1 < length chunk \<and> hr_reductions st < MAX_BUDGET_REDUCTIONS
         then st\<lparr>hr_budget := max (min (hr_budget st) n div 2) 1, hr_reductions := Suc (hr_reductions st)\<rparr>
         else if length chunk = 1 then settle chunk Refused True (drop_refused chunk st)
         else settle chunk Lost False (st\<lparr>hr_counters := bump C_FAILED 1 (hr_counters st)\<rparr>))"

definition http_step :: "hooks \<Rightarrow> http_cfg \<Rightarrow> destination \<Rightarrow> http_item list \<Rightarrow> http_run \<Rightarrow> pyexn option \<times> http_run" where
  "http_step hk cfg dest items st =
     (let chunk = http_take cfg items (hr_index st) (hr_budget st)
      in if known_refused hk cfg chunk (hr_refused st) then (None, settle chunk Refused True (drop_refused chunk st))
         else let (r, n) = http_send hk cfg dest (body_bytes hk chunk) (hr_calls st);
                  st = st\<lparr>hr_calls := n, hr_offered := hr_offered st @ [chunk]\<rparr>
              in case r of
                   TooLarge k \<Rightarrow> (None, http_refusal chunk k st)
                 | Payload payload \<Rightarrow>
                     (let (ok, c) = hk_handle hk payload chunk (hr_counters st)
                      in (None, settle chunk (if ok then Delivered else Unsettled) ok (st\<lparr>hr_counters := c\<rparr>)))
                 | Abandoned \<Rightarrow> (None, settle chunk Lost False (st\<lparr>hr_counters := bump C_FAILED 1 (hr_counters st)\<rparr>))
                 | NoAttempt \<Rightarrow> (None, settle chunk Lost False st)
                 | Raised e \<Rightarrow> (Some e, st))"

lemma http_take_nonempty: "start < length items \<Longrightarrow> http_take cfg items start budget \<noteq> []"
  by (simp add: http_take_def Cons_nth_drop_Suc [symmetric])

lemma http_step_progress:
  assumes "hr_index st < length items" and "http_step hk cfg dest items st = (None, st')"
  shows "hr_index st < hr_index st' \<and> hr_reductions st' = hr_reductions st \<or>
    hr_index st' = hr_index st \<and> hr_reductions st < MAX_BUDGET_REDUCTIONS \<and> hr_reductions st' = Suc (hr_reductions st)"
  using assms(2) http_take_nonempty [OF assms(1), of cfg "hr_budget st"]
  by (auto simp: http_step_def Let_def settle_def drop_refused_def http_refusal_def split: if_splits prod.splits send_result.splits)

lemma http_step_decreases:
  assumes "hr_index st < length items" and "(None, st') = http_step hk cfg dest items st"
    and "\<not> length items - hr_index st' < length items - hr_index st"
  shows "hr_index st' = hr_index st \<and> MAX_BUDGET_REDUCTIONS - hr_reductions st' < MAX_BUDGET_REDUCTIONS - hr_reductions st"
  using http_step_progress [OF assms(1) assms(2) [symmetric]] assms(1,3) by auto

function http_loop :: "hooks \<Rightarrow> http_cfg \<Rightarrow> destination \<Rightarrow> http_item list \<Rightarrow> http_run \<Rightarrow> pyexn option \<times> http_run" where
  "http_loop hk cfg dest items st =
     (if hr_index st < length items
      then case http_step hk cfg dest items st of
             (Some e, st') \<Rightarrow> (Some e, st')
           | (None, st') \<Rightarrow> http_loop hk cfg dest items st'
      else (None, st))"
  by pat_completeness auto

termination http_loop
  by (relation "measures [\<lambda>(hk, cfg, dest, items, st). length items - hr_index st, \<lambda>(hk, cfg, dest, items, st). MAX_BUDGET_REDUCTIONS - hr_reductions st]")
    (auto dest: http_step_decreases)

declare http_loop.simps [simp del]

definition http_start :: "hooks \<Rightarrow> http_cfg \<Rightarrow> deferral \<Rightarrow> counters \<Rightarrow> nat \<Rightarrow> http_run" where
  "http_start hk cfg pending c n =
     \<lparr>hr_index = 0, hr_budget = chunk_budget hk cfg, hr_refused = None, hr_reductions = 0, hr_chunks = 0, hr_settled = 0,
      hr_pending = pending, hr_counters = c, hr_calls = n, hr_fates = [], hr_offered = []\<rparr>"

text \<open>The result, the counters, and the last state of the loop.\<close>

definition http_emit :: "hooks \<Rightarrow> http_cfg \<Rightarrow> destination \<Rightarrow> event list \<Rightarrow> counters \<Rightarrow> nat \<Rightarrow> unit result \<times> counters \<times> http_run" where
  "http_emit hk cfg dest batch c n =
     (let (items, pending) = http_items hk cfg batch new_deferral;
          st0 = http_start hk cfg pending c n
      in if batch = [] then (Inr (), c, st0)
         else if items = [] then (Inr (), fst (deferral_exit False pending c), st0)
         else case http_loop hk cfg dest items st0 of
                (Some e, st) \<Rightarrow> (Inl e, fst (deferral_exit True (hr_pending st) (hr_counters st)), st)
              | (None, st) \<Rightarrow>
                  let raised = (0 < hr_chunks st \<and> hr_settled st = 0)
                  in (if raised then Inl SinkDeliveryError else Inr (), fst (deferral_exit raised (hr_pending st) (hr_counters st)), st))"

definition http_losses :: "counters \<Rightarrow> sink_losses" where
  "http_losses c = \<lparr>sl_dropped = c C_OVERSIZED + c C_UNRENDERABLE, sl_failed = c C_FAILED\<rparr>"

subsection \<open>What the hooks promise\<close>

definition faithful_item :: "hooks \<Rightarrow> http_item \<Rightarrow> bool" where
  "faithful_item hk it \<longleftrightarrow> hk_item_size hk (hi_rendered it) (hi_event it) = Inr (hi_size it)"

definition tally :: "fate \<Rightarrow> (http_item list \<times> fate) list \<Rightarrow> nat" where
  "tally f fates = length (concat (map fst (filter (\<lambda>(chunk, f'). f' = f) fates)))"

lemma tally_simps [simp]: "tally f [] = 0" "tally f (fs @ [(chunk, f')]) = tally f fs + (if f' = f then length chunk else 0)"
  by (simp_all add: tally_def)

lemma tally_all: "tally Delivered fs + tally Refused fs + tally Lost fs + tally Unsettled fs = length (concat (map fst fs))"
proof (induction fs rule: rev_induct)
  case (snoc p fs)
  obtain chunk f where "p = (chunk, f)" by (rule prod.exhaust)
  then show ?case using snoc by (cases f) simp_all
qed simp

lemma take_more_fits:
  "total_size hi_size (take_more k budget so_far rest) + so_far \<le> max budget so_far \<and> length (take_more k budget so_far rest) \<le> k \<and>
   (\<exists>n. take_more k budget so_far rest = take n rest)"
proof (induction k budget so_far rest rule: take_more.induct)
  case (2 k budget so_far it rest)
  show ?case
  proof (cases "0 < k \<and> so_far + hi_size it \<le> budget")
    case True
    then obtain n where "take_more (k - 1) budget (so_far + hi_size it) rest = take n rest" using 2 by blast
    then have "take_more k budget so_far (it # rest) = take (Suc n) (it # rest)" using True by simp
    then have "\<exists>n. take_more k budget so_far (it # rest) = take n (it # rest)" by (rule exI)
    moreover have "total_size hi_size (take_more (k - 1) budget (so_far + hi_size it) rest) + (so_far + hi_size it) \<le> max budget (so_far + hi_size it)"
      "length (take_more (k - 1) budget (so_far + hi_size it) rest) \<le> k - 1" using 2 True by blast+
    ultimately show ?thesis using True by (simp add: total_size_def)
  next
    case False
    then have "take_more k budget so_far (it # rest) = take 0 (it # rest)" by auto
    then show ?thesis by (auto simp: total_size_def simp del: take_more.simps)
  qed
qed (simp add: total_size_def)

lemma http_take_fits:
  assumes "start < length items" and "\<forall>it \<in> set items. hi_size it \<le> most" and "budget \<le> most"
  shows "fits (max 1 (hc_count cfg)) most hi_size (http_take cfg items start budget)"
    and "http_take cfg items start budget = take (length (http_take cfg items start budget)) (drop start items)"
proof -
  obtain it rest where it: "drop start items = it # rest" using assms(1) by (metis Cons_nth_drop_Suc)
  then have "it \<in> set items" by (metis in_set_dropD list.set_intros(1))
  then have "hi_size it \<le> most" using assms(2) by blast
  then show "fits (max 1 (hc_count cfg)) most hi_size (http_take cfg items start budget)"
    using take_more_fits [of "hc_count cfg - 1" budget "hi_size it" rest] assms(3) by (auto simp: http_take_def it fits_def total_size_def)
  obtain n where n: "take_more (hc_count cfg - 1) budget (hi_size it) rest = take n rest" using take_more_fits by blast
  then show "http_take cfg items start budget = take (length (http_take cfg items start budget)) (drop start items)"
    by (cases "n \<le> length rest") (simp_all add: http_take_def it)
qed

lemma http_attempts_calls: "http_attempts hk dest body n left = (r, n') \<Longrightarrow> n' \<le> n + left"
proof (induction left arbitrary: n)
  case (Suc left)
  have "n' \<le> Suc n + left" if "http_attempts hk dest body (Suc n) left = (r, n')" by (rule Suc.IH [OF that])
  then show ?case using Suc.prems by (auto split: answer.splits if_splits option.splits)
qed simp

lemma http_attempts_raised: "http_attempts hk dest body n left = (Raised e, n') \<Longrightarrow> \<exists>k. dest k body = OtherRaise e"
proof (induction left arbitrary: n)
  case (Suc left)
  then show ?case by (auto split: answer.splits if_splits option.splits)
qed simp

subsection \<open>The invariant of the loop\<close>

definition offers_ok :: "hooks \<Rightarrow> http_cfg \<Rightarrow> http_item list \<Rightarrow> http_item list list \<Rightarrow> bool" where
  "offers_ok hk cfg items os \<longleftrightarrow>
     (\<forall>chunk \<in> set os. fits (max 1 (hc_count cfg)) (chunk_budget hk cfg) hi_size chunk \<and> set chunk \<subseteq> set items)"

lemma offers_ok_snoc [simp]:
  "offers_ok hk cfg items (os @ [chunk]) \<longleftrightarrow>
     offers_ok hk cfg items os \<and> fits (max 1 (hc_count cfg)) (chunk_budget hk cfg) hi_size chunk \<and> set chunk \<subseteq> set items"
  by (simp only: offers_ok_def set_append ball_Un) simp

definition hinv :: "hooks \<Rightarrow> http_cfg \<Rightarrow> http_item list \<Rightarrow> deferral \<Rightarrow> nat \<Rightarrow> http_run \<Rightarrow> bool" where
  "hinv hk cfg items p0 n0 st \<longleftrightarrow>
     hr_index st \<le> length items \<and> concat (map fst (hr_fates st)) = take (hr_index st) items \<and> length (hr_fates st) \<le> hr_index st \<and>
     deferral_wf (hr_pending st) \<and>
     (\<forall>name. pending_of (hr_pending st) name = pending_of p0 name + (if name = C_OVERSIZED then tally Refused (hr_fates st) else 0)) \<and>
     hr_calls st \<le> n0 + (hc_retries cfg + 1) * (length (hr_fates st) + hr_reductions st) \<and> hr_reductions st \<le> MAX_BUDGET_REDUCTIONS \<and>
     0 < hr_budget st \<and> hr_budget st \<le> chunk_budget hk cfg \<and>
     offers_ok hk cfg items (hr_offered st) \<and>
     hr_chunks st = length (hr_fates st) \<and> hr_settled st = length (filter (\<lambda>(_, f). f = Delivered \<or> f = Refused) (hr_fates st))"

lemma hinv_settle:
  assumes inv: "hinv hk cfg items p0 n0 st" and chunk: "chunk = http_take cfg items (hr_index st) (hr_budget st)" "hr_index st < length items"
    and sizes: "\<forall>it \<in> set items. hi_size it \<le> chunk_budget hk cfg"
    and calls: "n \<le> hr_calls st + (hc_retries cfg + 1)" and offered: "os = hr_offered st \<or> os = hr_offered st @ [chunk]"
    and settled: "settled \<longleftrightarrow> f = Delivered \<or> f = Refused"
    and pending: "pend = (if f = Refused then defer_announce (length chunk) (defer_count C_OVERSIZED (length chunk) (hr_pending st)) else hr_pending st)"
  shows "hinv hk cfg items p0 n0 (settle chunk f settled (st\<lparr>hr_calls := n, hr_offered := os, hr_counters := c, hr_refused := rf, hr_pending := pend\<rparr>))"
proof -
  have budget: "hr_budget st \<le> chunk_budget hk cfg" using inv by (simp add: hinv_def)
  note take = http_take_fits [OF chunk(2) sizes budget, of cfg, folded chunk(1)]
  have ne: "0 < length chunk" using take(1) by (simp add: fits_def)
  have len: "hr_index st + length chunk \<le> length items" using take(2) chunk(2) by (metis length_drop length_take le_diff_conv2 less_imp_le min.bounded_iff order_refl add.commute)
  have all: "take (hr_index st + length chunk) items = take (hr_index st) items @ chunk" using take(2) by (metis take_add)
  have sub: "set chunk \<subseteq> set items" using take(2) by (metis in_set_dropD in_set_takeD subsetI)
  have fates: "Suc (length (hr_fates st)) \<le> hr_index st + length chunk"
  proof -
    have "length (hr_fates st) \<le> hr_index st" using inv by (simp add: hinv_def)
    then show ?thesis using ne by linarith
  qed
  show ?thesis using inv fates len all sub take(1) calls offered settled pending
    by (auto simp: hinv_def settle_def algebra_simps)
qed

lemma hinv_reduce:
  assumes "hinv hk cfg items p0 n0 st" and "n \<le> hr_calls st + (hc_retries cfg + 1)" and "hr_reductions st < MAX_BUDGET_REDUCTIONS"
    and "fits (max 1 (hc_count cfg)) (chunk_budget hk cfg) hi_size chunk" and "set chunk \<subseteq> set items"
  shows "hinv hk cfg items p0 n0 (st\<lparr>hr_calls := n, hr_offered := hr_offered st @ [chunk], hr_refused := rf,
    hr_budget := max (min (hr_budget st) k div 2) 1, hr_reductions := Suc (hr_reductions st)\<rparr>)"
  using assms by (auto simp: hinv_def algebra_simps)

lemma run_update_id:
  "st\<lparr>hr_calls := n, hr_offered := os\<rparr> = st\<lparr>hr_calls := n, hr_offered := os, hr_counters := hr_counters st, hr_refused := hr_refused st, hr_pending := hr_pending st\<rparr>"
  by simp

lemma hinv_step:
  assumes inv: "hinv hk cfg items p0 n0 st" and more: "hr_index st < length items"
    and sizes: "\<forall>it \<in> set items. hi_size it \<le> chunk_budget hk cfg" and step: "http_step hk cfg dest items st = (None, st')"
  shows "hinv hk cfg items p0 n0 st'"
proof -
  define chunk where "chunk = http_take cfg items (hr_index st) (hr_budget st)"
  note settle = hinv_settle [OF inv chunk_def more sizes]
  show ?thesis
  proof (cases "known_refused hk cfg chunk (hr_refused st)")
    case True
    have "st' = settle chunk Refused True (st\<lparr>hr_calls := hr_calls st, hr_offered := hr_offered st, hr_counters := hr_counters st,
        hr_refused := hr_refused st, hr_pending := defer_announce (length chunk) (defer_count C_OVERSIZED (length chunk) (hr_pending st))\<rparr>)"
      using step True by (simp add: http_step_def drop_refused_def flip: chunk_def)
    then show ?thesis using settle [of "hr_calls st" "hr_offered st" True Refused _ "hr_refused st" "hr_counters st"] by simp
  next
    case False
    obtain r n where send: "http_send hk cfg dest (body_bytes hk chunk) (hr_calls st) = (r, n)" by (rule prod.exhaust)
    have calls: "n \<le> hr_calls st + (hc_retries cfg + 1)" using http_attempts_calls [OF send [unfolded http_send_def]] .
    define os where "os = hr_offered st @ [chunk]"
    note settle = settle [OF calls, of os, folded os_def]
    have budget: "hr_budget st \<le> chunk_budget hk cfg" using inv by (simp add: hinv_def)
    note take = http_take_fits [OF more sizes budget, of cfg, folded chunk_def]
    have sub: "set chunk \<subseteq> set items" using take(2) by (metis in_set_dropD in_set_takeD subsetI)
    let ?st = "st\<lparr>hr_calls := n, hr_offered := os\<rparr>"
    show ?thesis
    proof (cases r)
      case (Payload payload)
      obtain ok c where h: "hk_handle hk payload chunk (hr_counters st) = (ok, c)" by (rule prod.exhaust)
      have "st' = settle chunk (if ok then Delivered else Unsettled) ok (?st\<lparr>hr_counters := c, hr_refused := hr_refused st, hr_pending := hr_pending st\<rparr>)"
        using step False send Payload h by (simp add: http_step_def Let_def os_def flip: chunk_def)
      then show ?thesis using settle [of ok "if ok then Delivered else Unsettled" "hr_pending st" "hr_refused st" c] by (simp add: os_def)
    next
      case (TooLarge k)
      define rf where "rf = Some (case hr_refused st of None \<Rightarrow> k | Some r \<Rightarrow> min r k)"
      have st': "st' = http_refusal chunk k ?st" using step False send TooLarge by (simp add: http_step_def Let_def os_def flip: chunk_def)
      show ?thesis
      proof (cases "1 < length chunk \<and> hr_reductions st < MAX_BUDGET_REDUCTIONS")
        case True
        then show ?thesis using hinv_reduce [OF inv calls _ take(1) sub, of k rf] st'
          by (simp add: http_refusal_def Let_def rf_def os_def)
      next
        case stuck: False
        show ?thesis
        proof (cases "length chunk = 1")
          case True
          then have "st' = settle chunk Refused True (?st\<lparr>hr_counters := hr_counters st, hr_refused := rf,
              hr_pending := defer_announce (length chunk) (defer_count C_OVERSIZED (length chunk) (hr_pending st))\<rparr>)"
            using st' stuck by (simp add: http_refusal_def Let_def rf_def drop_refused_def)
          then show ?thesis using settle [of True Refused _ rf "hr_counters st"] by (simp add: os_def)
        next
          case more: False
          then have "st' = settle chunk Lost False (?st\<lparr>hr_counters := bump C_FAILED 1 (hr_counters st), hr_refused := rf, hr_pending := hr_pending st\<rparr>)"
            using st' stuck by (cases st) (auto simp: http_refusal_def Let_def rf_def settle_def)
          then show ?thesis using settle [of False Lost "hr_pending st" rf "bump C_FAILED 1 (hr_counters st)"] by (simp add: os_def)
        qed
      qed
    next
      case Abandoned
      then have "st' = settle chunk Lost False (?st\<lparr>hr_counters := bump C_FAILED 1 (hr_counters st), hr_refused := hr_refused st, hr_pending := hr_pending st\<rparr>)"
        using step False send by (simp add: http_step_def Let_def os_def flip: chunk_def)
      then show ?thesis using settle [of False Lost "hr_pending st" "hr_refused st" "bump C_FAILED 1 (hr_counters st)"] by (simp add: os_def)
    next
      case NoAttempt
      then have "st' = settle chunk Lost False (?st\<lparr>hr_counters := hr_counters st, hr_refused := hr_refused st, hr_pending := hr_pending st\<rparr>)"
        using step False send by (simp add: http_step_def Let_def os_def flip: chunk_def)
      then show ?thesis using settle [of False Lost "hr_pending st" "hr_refused st" "hr_counters st"] by (simp add: os_def)
    next
      case (Raised e)
      then show ?thesis using step False send by (simp add: http_step_def Let_def flip: chunk_def)
    qed
  qed
qed

lemma hinv_raise:
  assumes "hinv hk cfg items p0 n0 st" and "http_step hk cfg dest items st = (Some e, st')"
  shows "\<exists>n chunk. st' = st\<lparr>hr_calls := n, hr_offered := hr_offered st @ [chunk]\<rparr> \<and> n \<le> hr_calls st + (hc_retries cfg + 1) \<and>
    chunk = http_take cfg items (hr_index st) (hr_budget st) \<and> (\<exists>k. dest k (body_bytes hk chunk) = OtherRaise e)"
proof -
  let ?chunk = "http_take cfg items (hr_index st) (hr_budget st)"
  obtain r n where send: "http_send hk cfg dest (body_bytes hk ?chunk) (hr_calls st) = (r, n)" by (rule prod.exhaust)
  have r: "r = Raised e" "st' = st\<lparr>hr_calls := n, hr_offered := hr_offered st @ [?chunk]\<rparr>"
    using assms(2) send by (auto simp: http_step_def Let_def split: if_splits send_result.splits prod.splits)
  show ?thesis using r http_attempts_calls [OF send [unfolded http_send_def]] http_attempts_raised [of hk dest] send
    by (auto simp: http_send_def simp del: http_attempts.simps)
qed

lemma hinv_loop:
  assumes "hinv hk cfg items p0 n0 st" and "\<forall>it \<in> set items. hi_size it \<le> chunk_budget hk cfg"
    and "http_loop hk cfg dest items st = (None, st')"
  shows "hinv hk cfg items p0 n0 st' \<and> hr_index st' = length items"
  using assms
proof (induction hk cfg dest items st rule: http_loop.induct)
  case (1 hk cfg dest items st)
  show ?case
  proof (cases "hr_index st < length items")
    case True
    then obtain st1 where step: "http_step hk cfg dest items st = (None, st1)" "http_loop hk cfg dest items st1 = (None, st')"
      using "1.prems"(3) by (auto simp: http_loop.simps [of hk cfg dest items st] split: prod.splits option.splits)
    show ?thesis by (rule "1.IH" [OF True step(1) [symmetric] refl hinv_step [OF "1.prems"(1) True "1.prems"(2) step(1)] "1.prems"(2) step(2)])
  next
    case False
    then show ?thesis using "1.prems" by (auto simp: http_loop.simps [of hk cfg dest items st] hinv_def)
  qed
qed

lemma hinv_loop_raise:
  assumes "hinv hk cfg items p0 n0 st" and "\<forall>it \<in> set items. hi_size it \<le> chunk_budget hk cfg"
    and "http_loop hk cfg dest items st = (Some e, st')"
  shows "\<exists>st1 n chunk. hinv hk cfg items p0 n0 st1 \<and> hr_index st1 < length items \<and> chunk = http_take cfg items (hr_index st1) (hr_budget st1) \<and>
    st' = st1\<lparr>hr_calls := n, hr_offered := hr_offered st1 @ [chunk]\<rparr> \<and> n \<le> hr_calls st1 + (hc_retries cfg + 1) \<and>
    (\<exists>k. dest k (body_bytes hk chunk) = OtherRaise e)"
  using assms
proof (induction hk cfg dest items st rule: http_loop.induct)
  case (1 hk cfg dest items st)
  have more: "hr_index st < length items" using "1.prems"(3) by (auto simp: http_loop.simps [of hk cfg dest items st] split: if_splits)
  obtain x st1 where step: "http_step hk cfg dest items st = (x, st1)" by (rule prod.exhaust)
  show ?case
  proof (cases x)
    case None
    then have rest: "http_loop hk cfg dest items st1 = (Some e, st')" using "1.prems"(3) more step by (simp add: http_loop.simps [of hk cfg dest items st])
    show ?thesis by (rule "1.IH" [OF more step [unfolded None, symmetric] refl hinv_step [OF "1.prems"(1) more "1.prems"(2) step [unfolded None]] "1.prems"(2) rest])
  next
    case (Some e')
    then have "e' = e" "st1 = st'" using "1.prems"(3) more step by (simp_all add: http_loop.simps [of hk cfg dest items st])
    then have step': "http_step hk cfg dest items st = (Some e, st')" using step Some by simp
    show ?thesis using hinv_raise [OF "1.prems"(1) step'] "1.prems"(1) more by (intro exI [of _ st]) blast
  qed
qed

lemma hinv_start:
  "deferral_wf p0 \<Longrightarrow> hinv hk cfg items p0 n0 (http_start hk cfg p0 c n0)"
  by (simp add: hinv_def http_start_def offers_ok_def chunk_budget_def)

lemma http_loop_invariant:
  assumes "\<forall>st r st'. P st \<longrightarrow> http_step hk cfg dest items st = (r, st') \<longrightarrow> P st'" and "P st" and "http_loop hk cfg dest items st = (r, st')"
  shows "P st'"
  using assms
proof (induction hk cfg dest items st rule: http_loop.induct)
  case (1 hk cfg dest items st)
  obtain x st1 where step: "http_step hk cfg dest items st = (x, st1)" by (rule prod.exhaust)
  have P: "P st1" using "1.prems"(1,2) step by blast
  show ?case
  proof (cases "hr_index st < length items \<and> x = None")
    case True
    then have "http_loop hk cfg dest items st1 = (r, st')" using "1.prems"(3) step by (simp add: http_loop.simps [of hk cfg dest items st])
    then show ?thesis using "1.IH" [OF _ step [symmetric] _ "1.prems"(1) P] True by simp
  next
    case False
    then show ?thesis using "1.prems"(2,3) P step by (auto simp: http_loop.simps [of hk cfg dest items st] split: if_splits option.splits)
  qed
qed

subsection \<open>Rendering a batch\<close>

definition rendered_ok :: "hooks \<Rightarrow> nat \<Rightarrow> http_item list \<Rightarrow> bool" where
  "rendered_ok hk most items \<longleftrightarrow> (\<forall>it \<in> set items. faithful_item hk it \<and> hi_size it \<le> most)"

lemma render_item_faithful: "render_item hk ev = Inr it \<Longrightarrow> faithful_item hk it"
  by (auto simp: render_item_def faithful_item_def split: sum.splits)

lemma items_loop_accounts:
  assumes "rendered_ok hk most (ia_items acc)"
  shows "rendered_ok hk most (ia_items (items_loop hk most evs acc)) \<and>
    length (ia_items (items_loop hk most evs acc)) + ia_dropped (items_loop hk most evs acc) + ia_failures (items_loop hk most evs acc) =
    length evs + length (ia_items acc) + ia_dropped acc + ia_failures acc"
  using assms
proof (induction evs arbitrary: acc)
  case (Cons ev evs)
  show ?case
  proof (cases "render_item hk ev")
    case (Inl e)
    then show ?thesis using Cons.IH [of "acc\<lparr>ia_failures := Suc (ia_failures acc)\<rparr>"] Cons.prems by simp
  next
    case (Inr it)
    show ?thesis
    proof (cases "most < hi_size it")
      case True
      then show ?thesis using Inr Cons.IH [of "acc\<lparr>ia_dropped := Suc (ia_dropped acc), ia_largest := max (ia_largest acc) (hi_size it)\<rparr>"] Cons.prems
        by simp
    next
      case False
      then have "rendered_ok hk most (ia_items acc @ [it])" using Cons.prems render_item_faithful [OF Inr] by (auto simp: rendered_ok_def)
      then show ?thesis using Inr False Cons.IH [of "acc\<lparr>ia_items := ia_items acc @ [it]\<rparr>"] by simp
    qed
  qed
qed simp

lemma C_UNRENDERABLE_names [simp]: "C_UNRENDERABLE \<noteq> C_OVERSIZED" "C_OVERSIZED \<noteq> C_UNRENDERABLE" "C_UNRENDERABLE \<noteq> C_FAILED" "C_FAILED \<noteq> C_UNRENDERABLE"
  by (simp_all add: str_def)

lemma http_items_accounts:
  assumes "http_items hk cfg batch new_deferral = (items, pending)"
  shows "rendered_ok hk (event_ceiling hk cfg) items" and "deferral_wf pending"
    and "length items + pending_of pending C_OVERSIZED + pending_of pending C_UNRENDERABLE = length batch"
    and "name \<noteq> C_OVERSIZED \<Longrightarrow> name \<noteq> C_UNRENDERABLE \<Longrightarrow> pending_of pending name = 0"
proof -
  let ?acc = "items_loop hk (event_ceiling hk cfg) batch \<lparr>ia_items = [], ia_dropped = 0, ia_largest = 0, ia_failures = 0\<rparr>"
  have acc: "rendered_ok hk (event_ceiling hk cfg) (ia_items ?acc)" "length (ia_items ?acc) + ia_dropped ?acc + ia_failures ?acc = length batch"
    using items_loop_accounts [of hk "event_ceiling hk cfg" "\<lparr>ia_items = [], ia_dropped = 0, ia_largest = 0, ia_failures = 0\<rparr>" batch]
    by (simp_all add: rendered_ok_def)
  show "rendered_ok hk (event_ceiling hk cfg) items" using acc(1) assms by (simp add: http_items_def Let_def)
  show "deferral_wf pending" using assms by (auto simp: http_items_def Let_def split: if_splits)
  show "length items + pending_of pending C_OVERSIZED + pending_of pending C_UNRENDERABLE = length batch"
    using acc(2) assms by (auto simp: http_items_def Let_def split: if_splits)
  show "pending_of pending name = 0" if "name \<noteq> C_OVERSIZED" "name \<noteq> C_UNRENDERABLE"
    using assms that by (auto simp: http_items_def Let_def split: if_splits)
qed

lemma ceiling_within: "event_ceiling hk cfg \<le> chunk_budget hk cfg"
  by (simp add: event_ceiling_def split: option.split)

lemma http_attempts_some: "fst (http_attempts hk dest body n (Suc left)) \<noteq> NoAttempt"
  by (induction left arbitrary: n) (auto split: answer.splits option.splits)

subsection \<open>The contract of the hooks\<close>

definition request_failures :: "(http_item list \<times> fate) list \<Rightarrow> nat" where
  "request_failures fates = length (filter (\<lambda>(_, f). f = Lost) fates)"

lemma request_failures_simps [simp]:
  "request_failures [] = 0" "request_failures (fs @ [(chunk, f)]) = request_failures fs + (if f = Lost then 1 else 0)"
  by (simp_all add: request_failures_def)

text \<open>What a step does to the counters, and what it notes about its chunk.\<close>

lemma http_step_effect:
  assumes "http_step hk cfg dest items st = (r, st')"
  obtains (nothing) "hr_fates st' = hr_fates st" "hr_counters st' = hr_counters st"
  | (refused) chunk where "hr_fates st' = hr_fates st @ [(chunk, Refused)]" "hr_counters st' = hr_counters st"
  | (lost) chunk where "hr_fates st' = hr_fates st @ [(chunk, Lost)]" "hr_counters st' = bump C_FAILED 1 (hr_counters st)"
  | (answered) chunk ok payload where "hr_fates st' = hr_fates st @ [(chunk, if ok then Delivered else Unsettled)]"
      "hk_handle hk payload chunk (hr_counters st) = (ok, hr_counters st')"
proof -
  define chunk where "chunk = http_take cfg items (hr_index st) (hr_budget st)"
  obtain s n where send: "http_send hk cfg dest (body_bytes hk chunk) (hr_calls st) = (s, n)" by (rule prod.exhaust)
  have some: "s \<noteq> NoAttempt" using http_attempts_some [of hk dest "body_bytes hk chunk" "hr_calls st" "hc_retries cfg"] send
    by (simp add: http_send_def del: http_attempts.simps)
  let ?st = "st\<lparr>hr_calls := n, hr_offered := hr_offered st @ [chunk]\<rparr>"
  show thesis
  proof (cases "known_refused hk cfg chunk (hr_refused st)")
    case True
    then have "st' = settle chunk Refused True (drop_refused chunk st)" using assms by (simp add: http_step_def flip: chunk_def)
    then show thesis by (intro refused) (simp_all add: settle_def drop_refused_def)
  next
    case False
    show thesis
    proof (cases s)
      case (Payload payload)
      obtain ok c where h: "hk_handle hk payload chunk (hr_counters st) = (ok, c)" by (rule prod.exhaust)
      have "st' = settle chunk (if ok then Delivered else Unsettled) ok (?st\<lparr>hr_counters := c\<rparr>)"
        using assms False send Payload h by (simp add: http_step_def Let_def flip: chunk_def)
      then show thesis using h by (intro answered) (simp_all add: settle_def)
    next
      case (TooLarge k)
      then have st': "st' = http_refusal chunk k ?st" using assms False send by (simp add: http_step_def Let_def flip: chunk_def)
      show thesis
      proof (cases "1 < length chunk \<and> hr_reductions st < MAX_BUDGET_REDUCTIONS")
        case True
        then have "hr_fates st' = hr_fates st" "hr_counters st' = hr_counters st" using st' by (simp_all add: http_refusal_def Let_def)
        then show thesis by (rule nothing)
      next
        case stuck: False
        show thesis
        proof (cases "length chunk = 1")
          case True
          then show thesis using st' by (intro refused) (simp_all add: http_refusal_def Let_def settle_def drop_refused_def)
        next
          case False
          then show thesis using st' stuck by (intro lost) (auto simp: http_refusal_def Let_def settle_def)
        qed
      qed
    next
      case Abandoned
      then have "st' = settle chunk Lost False (?st\<lparr>hr_counters := bump C_FAILED 1 (hr_counters st)\<rparr>)"
        using assms False send by (simp add: http_step_def Let_def flip: chunk_def)
      then show thesis by (intro lost) (simp_all add: settle_def)
    next
      case (Raised e)
      then have "st' = ?st" using assms False send by (simp add: http_step_def Let_def flip: chunk_def)
      then have "hr_fates st' = hr_fates st" "hr_counters st' = hr_counters st" by simp_all
      then show thesis by (rule nothing)
    qed (use some in simp)
  qed
qed

text \<open>A destination's hooks measure an item by at least what it adds to the body, render only what
  can be encoded, and leave the counters of the base sink alone.\<close>

locale http_shape =
  fixes hk :: hooks
  assumes body_encodes: "chunk \<noteq> [] \<Longrightarrow> \<forall>it \<in> set chunk. faithful_item hk it \<Longrightarrow> encode_utf8 (hk_body hk chunk) = Inr (body_bytes hk chunk)"
    and body_measured: "chunk \<noteq> [] \<Longrightarrow> \<forall>it \<in> set chunk. faithful_item hk it \<Longrightarrow> length (body_bytes hk chunk) \<le> total_size hi_size chunk + hk_reserve hk"
    and handle_keeps: "hk_handle hk payload chunk c = (ok, c') \<Longrightarrow> name \<in> {C_OVERSIZED, C_UNRENDERABLE, C_FAILED} \<Longrightarrow> c' name = c name"
begin

definition kept :: "counters \<Rightarrow> http_run \<Rightarrow> bool" where
  "kept c0 st \<longleftrightarrow> hr_counters st C_OVERSIZED = c0 C_OVERSIZED \<and> hr_counters st C_UNRENDERABLE = c0 C_UNRENDERABLE \<and>
     hr_counters st C_FAILED = c0 C_FAILED + request_failures (hr_fates st)"

lemma kept_step:
  assumes "kept c0 st" and "http_step hk cfg dest items st = (r, st')"
  shows "kept c0 st'"
  using assms(2)
proof (cases rule: http_step_effect)
  case (answered chunk ok payload)
  then show ?thesis using assms(1) handle_keeps [OF answered(2)] by (simp add: kept_def)
qed (use assms(1) in \<open>simp_all add: kept_def bump_def\<close>)

lemma kept_loop: "kept c0 st \<Longrightarrow> http_loop hk cfg dest items st = (r, st') \<Longrightarrow> kept c0 st'"
  using http_loop_invariant [of "kept c0" hk cfg dest items st r st'] kept_step by blast

lemma kept_start: "kept c (http_start hk cfg pending c n)"
  by (simp add: kept_def http_start_def)

text \<open>The batch is cut in order: every rendered item is settled exactly once.\<close>

lemma emit_returns:
  assumes "http_emit hk cfg dest batch c n = (Inr (), c', st)" and "batch \<noteq> []"
  shows "tally Delivered (hr_fates st) + tally Unsettled (hr_fates st) + tally Lost (hr_fates st) + c' C_OVERSIZED + c' C_UNRENDERABLE =
      length batch + c C_OVERSIZED + c C_UNRENDERABLE"
    and "c' C_FAILED = c C_FAILED + request_failures (hr_fates st)"
    and "concat (map fst (hr_fates st)) = fst (http_items hk cfg batch new_deferral)"
proof -
  obtain items pending where items: "http_items hk cfg batch new_deferral = (items, pending)" by (rule prod.exhaust)
  note acc = http_items_accounts [OF items]
  have sizes: "\<forall>it \<in> set items. hi_size it \<le> chunk_budget hk cfg"
    using acc(1) ceiling_within [of hk cfg] by (auto simp: rendered_ok_def)
  let ?goal = "tally Delivered (hr_fates st) + tally Unsettled (hr_fates st) + tally Lost (hr_fates st) + c' C_OVERSIZED + c' C_UNRENDERABLE =
      length batch + c C_OVERSIZED + c C_UNRENDERABLE \<and> c' C_FAILED = c C_FAILED + request_failures (hr_fates st) \<and>
      concat (map fst (hr_fates st)) = fst (http_items hk cfg batch new_deferral)"
  have ?goal
  proof (cases "items = []")
    case True
    then have "c' = fst (deferral_exit False pending c)" "hr_fates st = []"
      using assms items by (auto simp: http_emit_def http_start_def Let_def)
    then show ?thesis using deferral_exit_counts [OF acc(2), of False c] acc(3) acc(4) [of C_FAILED] items True by simp
  next
    case False
    then have loop: "http_loop hk cfg dest items (http_start hk cfg pending c n) = (None, st)"
      and c': "c' = fst (deferral_exit False (hr_pending st) (hr_counters st))"
      using assms items by (auto simp: http_emit_def Let_def split: prod.splits option.splits if_splits)
    note inv = hinv_loop [OF hinv_start [OF acc(2)] sizes loop]
    have kept: "kept c st" by (rule kept_loop [OF kept_start loop])
    have "tally Delivered (hr_fates st) + tally Refused (hr_fates st) + tally Lost (hr_fates st) + tally Unsettled (hr_fates st) = length items"
      using tally_all [of "hr_fates st"] inv by (simp add: hinv_def)
    then show ?thesis using inv kept acc(3) acc(4) [of C_FAILED] items c' deferral_exit_counts [of "hr_pending st" False "hr_counters st"]
      by (simp add: hinv_def kept_def)
  qed
  then show "tally Delivered (hr_fates st) + tally Unsettled (hr_fates st) + tally Lost (hr_fates st) + c' C_OVERSIZED + c' C_UNRENDERABLE =
      length batch + c C_OVERSIZED + c C_UNRENDERABLE" "c' C_FAILED = c C_FAILED + request_failures (hr_fates st)"
    "concat (map fst (hr_fates st)) = fst (http_items hk cfg batch new_deferral)" by blast+
qed

text \<open>An emit that raises drops nothing; it delivered nothing either, unless the opener raised.\<close>

lemma emit_raises:
  assumes "http_emit hk cfg dest batch c n = (Inl e, c', st)"
  shows "c' C_OVERSIZED = c C_OVERSIZED \<and> c' C_UNRENDERABLE = c C_UNRENDERABLE \<and> c' C_FAILED = c C_FAILED + request_failures (hr_fates st)"
    and "e = SinkDeliveryError \<and> tally Delivered (hr_fates st) = 0 \<and> tally Refused (hr_fates st) = 0 \<or> (\<exists>k body. dest k body = OtherRaise e)"
proof -
  obtain items pending where items: "http_items hk cfg batch new_deferral = (items, pending)" by (rule prod.exhaust)
  note acc = http_items_accounts [OF items]
  have sizes: "\<forall>it \<in> set items. hi_size it \<le> chunk_budget hk cfg"
    using acc(1) ceiling_within [of hk cfg] by (auto simp: rendered_ok_def)
  obtain r where loop: "http_loop hk cfg dest items (http_start hk cfg pending c n) = (r, st)"
    and c': "c' = fst (deferral_exit True (hr_pending st) (hr_counters st))"
    and r: "r = Some e \<or> r = None \<and> e = SinkDeliveryError \<and> hr_settled st = 0"
    using assms items by (auto simp: http_emit_def Let_def split: prod.splits option.splits if_splits)
  have "kept c st" by (rule kept_loop [OF kept_start loop])
  then show "c' C_OVERSIZED = c C_OVERSIZED \<and> c' C_UNRENDERABLE = c C_UNRENDERABLE \<and> c' C_FAILED = c C_FAILED + request_failures (hr_fates st)"
    using c' by (simp add: kept_def deferral_exit_def)
  show "e = SinkDeliveryError \<and> tally Delivered (hr_fates st) = 0 \<and> tally Refused (hr_fates st) = 0 \<or> (\<exists>k body. dest k body = OtherRaise e)"
  proof (cases r)
    case None
    then have "hinv hk cfg items pending n st" using hinv_loop [OF hinv_start [OF acc(2)] sizes] loop by blast
    then have "filter (\<lambda>(_, f). f = Delivered \<or> f = Refused) (hr_fates st) = []" using r None by (simp add: hinv_def)
    then show ?thesis using r None by (auto simp: tally_def filter_empty_conv)
  next
    case (Some e')
    then show ?thesis using r loop hinv_loop_raise [OF hinv_start [OF acc(2)] sizes] by blast
  qed
qed


text \<open>What is put on the wire: a bounded number of requests, each of bounded size and non-empty.\<close>

lemma offered_within:
  assumes "offers_ok hk cfg items os" and "rendered_ok hk most items" and "chunk \<in> set os"
  shows "chunk \<noteq> [] \<and> length chunk \<le> max 1 (hc_count cfg) \<and> encode_utf8 (hk_body hk chunk) = Inr (body_bytes hk chunk) \<and>
    length (body_bytes hk chunk) \<le> max (hc_bytes cfg) (Suc (hk_reserve hk))"
proof -
  have f: "fits (max 1 (hc_count cfg)) (chunk_budget hk cfg) hi_size chunk" "set chunk \<subseteq> set items"
    using assms(1,3) by (auto simp: offers_ok_def)
  then have faithful: "\<forall>it \<in> set chunk. faithful_item hk it" using assms(2) by (auto simp: rendered_ok_def)
  have chunk: "chunk \<noteq> []" "length chunk \<le> max 1 (hc_count cfg)" "total_size hi_size chunk \<le> max (hc_bytes cfg - hk_reserve hk) 1"
    using f(1) by (auto simp: fits_def chunk_budget_def)
  have "length (body_bytes hk chunk) \<le> max (hc_bytes cfg) (Suc (hk_reserve hk))"
    using body_measured [OF chunk(1) faithful] chunk(3) by linarith
  then show ?thesis using chunk body_encodes [OF chunk(1) faithful] by blast
qed

lemma emit_within:
  assumes "http_emit hk cfg dest batch c n = (r, c', st)"
  shows "hr_calls st \<le> n + (hc_retries cfg + 1) * (length batch + MAX_BUDGET_REDUCTIONS)"
    and "chunk \<in> set (hr_offered st) \<Longrightarrow> chunk \<noteq> [] \<and> length chunk \<le> max 1 (hc_count cfg) \<and>
      encode_utf8 (hk_body hk chunk) = Inr (body_bytes hk chunk) \<and> length (body_bytes hk chunk) \<le> max (hc_bytes cfg) (Suc (hk_reserve hk))"
proof -
  obtain items pending where items: "http_items hk cfg batch new_deferral = (items, pending)" by (rule prod.exhaust)
  note acc = http_items_accounts [OF items]
  have sizes: "\<forall>it \<in> set items. hi_size it \<le> chunk_budget hk cfg"
    using acc(1) ceiling_within [of hk cfg] by (auto simp: rendered_ok_def)
  have len: "length items \<le> length batch" using acc(3) by simp
  have "hr_calls st \<le> n + (hc_retries cfg + 1) * (length batch + MAX_BUDGET_REDUCTIONS) \<and> offers_ok hk cfg items (hr_offered st)"
  proof (cases "batch = [] \<or> items = []")
    case True
    then have "st = http_start hk cfg pending c n" using assms items by (auto simp: http_emit_def Let_def split: if_splits)
    then show ?thesis by (simp add: http_start_def offers_ok_def)
  next
    case False
    then obtain x where loop: "http_loop hk cfg dest items (http_start hk cfg pending c n) = (x, st)"
      using assms items by (auto simp: http_emit_def Let_def split: prod.splits option.splits)
    show ?thesis
    proof (cases x)
      case None
      note inv = hinv_loop [OF hinv_start [OF acc(2)] sizes loop [unfolded None]]
      then have "length (hr_fates st) + hr_reductions st \<le> length batch + MAX_BUDGET_REDUCTIONS"
        using len by (simp add: hinv_def)
      then have "(hc_retries cfg + 1) * (length (hr_fates st) + hr_reductions st) \<le> (hc_retries cfg + 1) * (length batch + MAX_BUDGET_REDUCTIONS)"
        by (rule mult_le_mono2)
      then show ?thesis using inv by (simp add: hinv_def)
    next
      case (Some e)
      obtain st1 k chunk where last: "hinv hk cfg items pending n st1" "hr_index st1 < length items"
        "chunk = http_take cfg items (hr_index st1) (hr_budget st1)"
        "st = st1\<lparr>hr_calls := k, hr_offered := hr_offered st1 @ [chunk]\<rparr>" "k \<le> hr_calls st1 + (hc_retries cfg + 1)"
        using hinv_loop_raise [OF hinv_start [OF acc(2)] sizes loop [unfolded Some]] by blast
      have "Suc (length (hr_fates st1) + hr_reductions st1) \<le> length batch + MAX_BUDGET_REDUCTIONS"
        using last(1,2) len by (simp add: hinv_def)
      then have "(hc_retries cfg + 1) * Suc (length (hr_fates st1) + hr_reductions st1) \<le> (hc_retries cfg + 1) * (length batch + MAX_BUDGET_REDUCTIONS)"
        by (rule mult_le_mono2)
      moreover have "hr_budget st1 \<le> chunk_budget hk cfg" using last(1) by (simp add: hinv_def)
      note take = http_take_fits [OF last(2) sizes this, of cfg, folded last(3)]
      have "set chunk \<subseteq> set items" using take(2) by (metis in_set_dropD in_set_takeD subsetI)
      ultimately show ?thesis using last(1,4,5) take(1) by (simp add: hinv_def algebra_simps)
    qed
  qed
  then show "hr_calls st \<le> n + (hc_retries cfg + 1) * (length batch + MAX_BUDGET_REDUCTIONS)"
    and "chunk \<in> set (hr_offered st) \<Longrightarrow> chunk \<noteq> [] \<and> length chunk \<le> max 1 (hc_count cfg) \<and>
      encode_utf8 (hk_body hk chunk) = Inr (body_bytes hk chunk) \<and> length (body_bytes hk chunk) \<le> max (hc_bytes cfg) (Suc (hk_reserve hk))"
    using offered_within [OF _ acc(1)] by blast+
qed

end

text \<open>A destination that answers event by event: its hooks count what was rejected or could not be
  told, never more than was sent, and call a request unsettled only when all of it was rejected.\<close>

locale http_verdict = http_shape hk for hk +
  fixes verdict :: "counters \<Rightarrow> nat"
  assumes verdict_counts: "hk_handle hk payload chunk c = (ok, c') \<Longrightarrow>
      verdict c \<le> verdict c' \<and> verdict c' \<le> verdict c + length chunk \<and> (\<not> ok \<longrightarrow> verdict c' = verdict c + length chunk)"
    and verdict_only: "(\<And>name. name \<notin> {C_OVERSIZED, C_UNRENDERABLE, C_FAILED} \<Longrightarrow> c' name = c name) \<Longrightarrow> verdict c' = verdict c"
begin

definition judged :: "counters \<Rightarrow> http_run \<Rightarrow> bool" where
  "judged c0 st \<longleftrightarrow> verdict c0 + tally Unsettled (hr_fates st) \<le> verdict (hr_counters st) \<and>
     verdict (hr_counters st) \<le> verdict c0 + tally Delivered (hr_fates st) + tally Unsettled (hr_fates st)"

lemma judged_step:
  assumes "judged c0 st" and "http_step hk cfg dest items st = (r, st')"
  shows "judged c0 st'"
  using assms(2)
proof (cases rule: http_step_effect)
  case (lost chunk)
  have "verdict (hr_counters st') = verdict (hr_counters st)" by (rule verdict_only) (simp add: lost bump_def)
  then show ?thesis using assms(1) lost by (simp add: judged_def)
next
  case (answered chunk ok payload)
  then show ?thesis using assms(1) verdict_counts [OF answered(2)] by (cases ok) (auto simp: judged_def)
qed (use assms(1) in \<open>simp_all add: judged_def\<close>)

lemma judged_loop: "judged c0 st \<Longrightarrow> http_loop hk cfg dest items st = (r, st') \<Longrightarrow> judged c0 st'"
  using http_loop_invariant [of "judged c0" hk cfg dest items st r st'] judged_step by blast

text \<open>The verdicts counted by an emit: all the events of unsettled requests, and at most those of the
  settled ones.\<close>

lemma emit_judged:
  assumes "http_emit hk cfg dest batch c n = (r, c', st)"
  shows "verdict c + tally Unsettled (hr_fates st) \<le> verdict c'"
    and "verdict c' \<le> verdict c + tally Delivered (hr_fates st) + tally Unsettled (hr_fates st)"
proof -
  obtain items pending where items: "http_items hk cfg batch new_deferral = (items, pending)" by (rule prod.exhaust)
  note acc = http_items_accounts [OF items]
  have sizes: "\<forall>it \<in> set items. hi_size it \<le> chunk_budget hk cfg"
    using acc(1) ceiling_within [of hk cfg] by (auto simp: rendered_ok_def)
  let ?st0 = "http_start hk cfg pending c n"
  have "judged c ?st0" by (simp add: judged_def http_start_def)
  have "\<exists>d b. c' = fst (deferral_exit b d (hr_counters st)) \<and> (b \<or> deferral_wf d \<and> (\<forall>name. name \<notin> {C_OVERSIZED, C_UNRENDERABLE} \<longrightarrow> pending_of d name = 0)) \<and> judged c st"
  proof (cases "batch = [] \<or> items = []")
    case True
    then have "st = ?st0 \<and> (c' = c \<or> c' = fst (deferral_exit False pending c))" using assms items by (auto simp: http_emit_def Let_def split: if_splits)
    then have "st = ?st0" "c' = fst (deferral_exit True pending c) \<or> c' = fst (deferral_exit False pending c)" by (auto simp: deferral_exit_def)
    then show ?thesis using \<open>judged c ?st0\<close> acc(2,4) by (auto simp: http_start_def)
  next
    case False
    then obtain x b where loop: "http_loop hk cfg dest items ?st0 = (x, st)" and c': "c' = fst (deferral_exit b (hr_pending st) (hr_counters st))"
      and b: "b \<or> x = None"
      using assms items by (auto simp: http_emit_def Let_def split: prod.splits option.splits)
    have "judged c st" by (rule judged_loop [OF \<open>judged c ?st0\<close> loop])
    moreover have "deferral_wf (hr_pending st) \<and> (\<forall>name. name \<notin> {C_OVERSIZED, C_UNRENDERABLE} \<longrightarrow> pending_of (hr_pending st) name = 0)" if "x = None"
      using hinv_loop [OF hinv_start [OF acc(2)] sizes loop [unfolded that]] acc(4) by (auto simp: hinv_def)
    ultimately show ?thesis using c' b by blast
  qed
  then obtain d b where d: "c' = fst (deferral_exit b d (hr_counters st))" "judged c st"
    "b \<or> deferral_wf d \<and> (\<forall>name. name \<notin> {C_OVERSIZED, C_UNRENDERABLE} \<longrightarrow> pending_of d name = 0)" by blast
  have "verdict c' = verdict (hr_counters st)"
    using d(3) deferral_exit_counts [of d False "hr_counters st"] by (intro verdict_only) (cases b, auto simp: d(1) deferral_exit_def)
  then show "verdict c + tally Unsettled (hr_fates st) \<le> verdict c'"
    "verdict c' \<le> verdict c + tally Delivered (hr_fates st) + tally Unsettled (hr_fates st)" using d(2) by (auto simp: judged_def)
qed

end

end
