(* ===== verification/Digits.thy ===== *)
theory Digits
  imports Json
begin

text \<open>
  The decimal digit estimate of \<^verbatim>\<open>sanitize.py\<close>, \<^verbatim>\<open>bit_length * 30103 // 100000 + 1\<close>, never counts
  too few digits. That rests on \<open>2 ^ 13301 \<le> 10 ^ 4004\<close>, a fraction for the logarithm of two just
  below 30103/100000, which is proved by repeated squaring of a lower bound of 44 bits.
\<close>

lemma square_even:
  assumes "(a::nat) * 2 ^ e \<le> 5 ^ n" and "b * 2 ^ s \<le> a * a" and "e' = 2 * e + s" and "n' = 2 * n"
  shows "b * 2 ^ e' \<le> 5 ^ n'"
proof -
  have "b * 2 ^ (2 * e + s) = b * 2 ^ s * (2 ^ e * 2 ^ e)" by (simp add: power_add mult_2)
  also have "\<dots> \<le> a * a * (2 ^ e * 2 ^ e)" using assms(2) by (rule mult_right_mono) simp
  also have "\<dots> = a * 2 ^ e * (a * 2 ^ e)" by simp
  also have "\<dots> \<le> 5 ^ n * 5 ^ n" using assms(1) by (intro mult_mono) simp_all
  finally show ?thesis by (simp add: assms(3,4) power_add mult_2)
qed

lemma square_odd:
  assumes "(a::nat) * 2 ^ e \<le> 5 ^ n" and "b * 2 ^ s \<le> a * a * 5" and "e' = 2 * e + s" and "n' = 2 * n + 1"
  shows "b * 2 ^ e' \<le> 5 ^ n'"
proof -
  have "b * 2 ^ (2 * e + s) = b * 2 ^ s * (2 ^ e * 2 ^ e)" by (simp add: power_add mult_2)
  also have "\<dots> \<le> a * a * 5 * (2 ^ e * 2 ^ e)" using assms(2) by (rule mult_right_mono) simp
  also have "\<dots> = 5 * (a * 2 ^ e * (a * 2 ^ e))" by simp
  also have "\<dots> \<le> 5 * (5 ^ n * 5 ^ n)" using assms(1) by (intro mult_left_mono mult_mono) simp_all
  finally show ?thesis by (simp add: assms(3,4) power_add mult_2)
qed

lemma log_fraction: "(2::nat) ^ 13301 \<le> 10 ^ 4004"
proof -
  have p1: "(5::nat) * 2 ^ 0 \<le> 5 ^ 1" by simp
  have p3: "(125::nat) * 2 ^ 0 \<le> 5 ^ 3" by (rule square_odd [OF p1, where s = 0]) simp_all
  have p7: "(78125::nat) * 2 ^ 0 \<le> 5 ^ 7" by (rule square_odd [OF p3, where s = 0]) simp_all
  have p15: "(30517578125::nat) * 2 ^ 0 \<le> 5 ^ 15" by (rule square_odd [OF p7, where s = 0]) simp_all
  have p31: "(17347234759768::nat) * 2 ^ 28 \<le> 5 ^ 31" by (rule square_odd [OF p15, where s = 28]) simp_all
  have p62: "(17105694144589::nat) * 2 ^ 100 \<le> 5 ^ 62" by (rule square_even [OF p31, where s = 44]) simp_all
  have p125: "(10395409765643::nat) * 2 ^ 247 \<le> 5 ^ 125" by (rule square_odd [OF p62, where s = 47]) simp_all
  have p250: "(12285516299428::nat) * 2 ^ 537 \<le> 5 ^ 250" by (rule square_even [OF p125, where s = 43]) simp_all
  have p500: "(17159199017386::nat) * 2 ^ 1117 \<le> 5 ^ 500" by (rule square_even [OF p250, where s = 43]) simp_all
  have p1001: "(10460543042194::nat) * 2 ^ 2281 \<le> 5 ^ 1001" by (rule square_odd [OF p500, where s = 47]) simp_all
  have p2002: "(12439950380393::nat) * 2 ^ 4605 \<le> 5 ^ 2002" by (rule square_even [OF p1001, where s = 43]) simp_all
  have p4004: "(8796653529921::nat) * 2 ^ 9254 \<le> 5 ^ 4004" by (rule square_even [OF p2002, where s = 44]) simp_all
  have "(2::nat) ^ 9297 = 2 ^ 43 * 2 ^ 9254" by (simp only: power_add [symmetric]) (simp only: numeral_plus_numeral add_num_simps)
  also have "\<dots> \<le> 8796653529921 * 2 ^ 9254" by (rule mult_right_mono) (simp, simp only: zero_le)
  also have "\<dots> \<le> 5 ^ 4004" by (rule p4004)
  finally have "(2::nat) ^ 9297 * 2 ^ 4004 \<le> 5 ^ 4004 * 2 ^ 4004" by (rule mult_right_mono) (simp only: zero_le)
  moreover have "(9297 + 4004 :: nat) = 13301" "(5 * 2 :: nat) = 10" by simp_all
  ultimately show ?thesis by (simp only: power_mult_distrib [symmetric] power_add [symmetric])
qed

text \<open>The bits and the digits of a number bound it from above and from below.\<close>

lemma less_bits: "n < 2 ^ bits n"
proof (induction n rule: bits.induct)
  case (1 n)
  show ?case
  proof (cases "n = 0")
    case False
    then have "n div 2 < 2 ^ bits (n div 2)" using 1 by simp
    then show ?thesis using False by (subst bits.simps) simp
  qed (simp add: bits.simps)
qed

lemma decimal_pos: "0 < length (decimal n)"
  by (subst decimal.simps) simp

lemma decimal_le: "0 < n \<Longrightarrow> 10 ^ (length (decimal n) - 1) \<le> n"
proof (induction n rule: decimal.induct)
  case (1 n)
  show ?case
  proof (cases "n < 10")
    case False
    then have "10 ^ (length (decimal (n div 10)) - 1) \<le> n div 10" using 1 by simp
    then have "10 * 10 ^ (length (decimal (n div 10)) - 1) \<le> n" using div_times_less_eq_dividend [of n 10] by linarith
    moreover have "10 * 10 ^ (length (decimal (n div 10)) - 1) = (10::nat) ^ length (decimal (n div 10))"
      using decimal_pos [of "n div 10"] by (simp flip: power_Suc)
    ultimately show ?thesis using False by (subst decimal.simps) simp
  qed (use 1 in \<open>simp add: decimal.simps\<close>)
qed

lemma digits_below: "k * 100000 \<le> b * 30103" if "(10::nat) ^ k < 2 ^ b" for k b :: nat
proof -
  have "(10::nat) ^ (k * 13301) \<le> (2 ^ 13301) ^ b"
    using that by (simp only: power_mult power_commutes mult.commute [of 13301] flip: power_mult)
      (simp only: power_mult power_mono less_imp_le zero_le)
  also have "\<dots> \<le> (10 ^ 4004) ^ b" using log_fraction by (rule power_mono) (simp only: zero_le)
  also have "\<dots> = 10 ^ (4004 * b)" by (simp only: power_mult)
  finally have "k * 13301 \<le> 4004 * b" by (simp only: power_increasing_iff one_less_numeral_iff semiring_norm)
  then show ?thesis by simp
qed

lemma decimal_estimate: "length (decimal n) \<le> bits n * 30103 div 100000 + 1"
proof (cases "n = 0")
  case False
  have "(10::nat) ^ (length (decimal n) - 1) < 2 ^ bits n" using decimal_le [of n] less_bits [of n] False by simp
  then have "(length (decimal n) - 1) * 100000 \<le> bits n * 30103" by (rule digits_below)
  then have "length (decimal n) - 1 \<le> bits n * 30103 div 100000" by (simp add: less_eq_div_iff_mult_less_eq)
  then show ?thesis by simp
qed (simp add: decimal.simps)

lemma int_repr_length: "length (int_repr i) \<le> (if i < 0 then int_digits i + 1 else int_digits i)"
  using decimal_estimate [of "nat \<bar>i\<bar>"] by (auto simp: int_repr_def int_digits_def bit_length_def)

text \<open>The digit estimate that decides whether an integer is rendered never counts too few digits:
  a rendered integer is never longer than the ceiling that allowed it, so that neither
  \<^verbatim>\<open>json.dumps\<close> nor the interpreter's own limit on integer texts can refuse what was let through.\<close>

theorem int_text_within_ceiling:
  "length (int_repr i) \<le> (if i < 0 then int_digits i + 1 else int_digits i) \<and>
   (int_text limit dflt i = int_placeholder i \<or>
    int_text limit dflt i = int_repr i \<and> length (int_repr i) \<le> dflt \<and> (limit \<le> 0 \<or> int (length (int_repr i)) \<le> limit))"
  using int_repr_length [of i] by (auto simp: int_text_def Let_def split: if_splits)

end
