(* ===== verification/Otel.thy ===== *)
theory Otel
  imports Digits "HOL-Library.Sublist"
begin

text \<open>
  \<^verbatim>\<open>_otel.py\<close>: the OTLP form of an event. A walker turns a value into an \<^verbatim>\<open>AnyValue\<close> under a budget
  of nodes and a limit on nesting, and marks what it had to change; \<^verbatim>\<open>log_record\<close> puts the record
  together and \<^verbatim>\<open>request_body\<close> groups records by their resource. The lemmas show that a record is
  strict JSON for every event, that its attributes have distinct keys and none of the user's is
  reserved, that nesting and work are bounded, and that the framing charged to each record covers
  what the request adds around it.
\<close>

subsection \<open>Values\<close>

text \<open>An arbitrary object graph, unrolled into a tree: containers carry their identity, so that a
  cycle is a container inside one with the same identity. An instance of a subclass of a builtin is
  read through that builtin and stands for its contents. Objects of other classes carry the name
  of their class, if it can be read. Integers that are no \<^verbatim>\<open>bool\<close> are \<open>OInt\<close>.\<close>

datatype oval =
    ONone
  | OBool bool
  | OInt int
  | OFloat flt
  | OStr pystr
  | ODict nat "(oval \<times> oval) list"
  | OList nat "oval list"
  | OTuple nat "oval list"
  | OForeign "pystr option"

definition MAX_NEST :: nat where "MAX_NEST = 24"
definition MAX_NODES :: nat where "MAX_NODES = 131072"

definition NODE_LIMIT :: pystr where "NODE_LIMIT = str ''<node limit>''"
definition DEPTH_LIMIT :: pystr where "DEPTH_LIMIT = str ''<depth limit>''"
definition CIRCULAR :: pystr where "CIRCULAR = str ''<circular>''"
definition RESERVED_PREFIX :: pystr where "RESERVED_PREFIX = str ''log_foundry.''"

definition otel_repaired :: "pystr \<Rightarrow> pystr \<times> bool" where
  "otel_repaired t = (case encode_utf8 t of Inr _ \<Rightarrow> (t, False) | Inl _ \<Rightarrow> (subst_surrogates t, True))"

fun otel_text :: "oval option \<Rightarrow> (pystr \<times> bool) option" where
  "otel_text (Some (OStr t)) = Some (otel_repaired t)"
| "otel_text _ = None"

fun type_name :: "oval \<Rightarrow> pystr" where
  "type_name ONone = str ''NoneType''"
| "type_name (OBool _) = str ''bool''"
| "type_name (OInt _) = str ''int''"
| "type_name (OFloat _) = str ''float''"
| "type_name (OStr _) = str ''str''"
| "type_name (ODict _ _) = str ''dict''"
| "type_name (OList _ _) = str ''list''"
| "type_name (OTuple _ _) = str ''tuple''"
| "type_name (OForeign None) = str ''?''"
| "type_name (OForeign (Some n)) = fst (otel_repaired n)"

text \<open>The interpreter's limit on the digits of an integer text is an argument; zero is none.\<close>

definition otel_int_digits :: "nat \<Rightarrow> int \<Rightarrow> pystr \<times> bool" where
  "otel_int_digits limit value =
     (let digits = int_digits value;
          rendered = (if value < 0 then digits + 1 else digits)
      in if 0 < limit \<and> limit < rendered then (str ''<int: ~'' @ decimal digits @ str '' digits>'', True)
         else (int_repr value, False))"

subsection \<open>Timestamps\<close>

text \<open>\<^verbatim>\<open>\\d\<close> and \<^verbatim>\<open>int\<close> take any decimal digit of Unicode; \<open>dec\<close> is the value of a character that is
  one.\<close>

definition digits_value :: "(nat \<Rightarrow> nat option) \<Rightarrow> pystr \<Rightarrow> nat option" where
  "digits_value dec t =
     fold (\<lambda>c acc. case (acc, dec c) of (Some n, Some d) \<Rightarrow> Some (10 * n + d) | _ \<Rightarrow> None) t (Some 0)"

definition is_leap :: "nat \<Rightarrow> bool" where
  "is_leap y \<longleftrightarrow> y mod 4 = 0 \<and> (y mod 100 \<noteq> 0 \<or> y mod 400 = 0)"

definition month_days :: "nat \<Rightarrow> nat \<Rightarrow> nat" where
  "month_days y m = (if m = 2 then (if is_leap y then 29 else 28) else if m \<in> {4, 6, 9, 11} then 30 else 31)"

text \<open>The proleptic Gregorian ordinal of a date, as \<^verbatim>\<open>datetime\<close> counts it from year 1.\<close>

definition ordinal :: "nat \<Rightarrow> nat \<Rightarrow> nat \<Rightarrow> nat" where
  "ordinal y m d =
     (let p = y - 1 in p * 365 + p div 4 - p div 100 + p div 400 + sum_list (map (month_days y) [1..<m]) + d)"

definition datetime_ok :: "nat \<Rightarrow> nat \<Rightarrow> nat \<Rightarrow> nat \<Rightarrow> nat \<Rightarrow> nat \<Rightarrow> bool" where
  "datetime_ok y m d h mi s \<longleftrightarrow>
     1 \<le> y \<and> y \<le> 9999 \<and> 1 \<le> m \<and> m \<le> 12 \<and> 1 \<le> d \<and> d \<le> month_days y m \<and> h < 24 \<and> mi < 60 \<and> s < 60"

definition epoch_ordinal :: nat where "epoch_ordinal = ordinal 1970 1 1"

definition UINT64_MAX :: int where "UINT64_MAX = 2 ^ 64 - 1"

definition timestamp_parts :: "(nat \<Rightarrow> nat option) \<Rightarrow> pystr \<Rightarrow> nat list option" where
  "timestamp_parts dec t =
     (if length t = 24 \<and> t ! 4 = 45 \<and> t ! 7 = 45 \<and> t ! 10 = 84 \<and> t ! 13 = 58 \<and> t ! 16 = 58 \<and> t ! 19 = 46 \<and> t ! 23 = 90
      then those (map (\<lambda>(i, n). digits_value dec (take n (drop i t))) [(0, 4), (5, 2), (8, 2), (11, 2), (14, 2), (17, 2), (20, 3)])
      else None)"

definition time_unix_nano :: "(nat \<Rightarrow> nat option) \<Rightarrow> oval option \<Rightarrow> pystr option" where
  "time_unix_nano dec value =
     (case otel_text value of
        None \<Rightarrow> None
      | Some (t, _) \<Rightarrow>
          (case timestamp_parts dec t of
             Some [y, m, d, h, mi, s, ms] \<Rightarrow>
               if \<not> datetime_ok y m d h mi s then None
               else let nanos = ((int (ordinal y m d) - int epoch_ordinal) * 86400 + int (h * 3600 + mi * 60 + s)) * 1000000000 + int ms * 1000000
                    in if nanos \<le> 0 \<or> UINT64_MAX < nanos then None else Some (int_repr nanos)
           | _ \<Rightarrow> None))"

subsection \<open>The walker\<close>

record walker =
  wk_nodes :: nat
  wk_marked :: bool
  wk_dropped :: nat
  wk_stopped :: bool

definition new_walker :: walker where
  "new_walker = \<lparr>wk_nodes = 0, wk_marked = False, wk_dropped = 0, wk_stopped = False\<rparr>"

abbreviation mark :: "walker \<Rightarrow> walker" where "mark w \<equiv> w\<lparr>wk_marked := True\<rparr>"

abbreviation mark_if :: "bool \<Rightarrow> walker \<Rightarrow> walker" where "mark_if b w \<equiv> (if b then mark w else w)"

abbreviation string_value :: "pystr \<Rightarrow> jval" where "string_value t \<equiv> JDict [(str ''stringValue'', JStr t)]"

definition walker_key :: "nat \<Rightarrow> (rat \<Rightarrow> pystr) \<Rightarrow> oval \<Rightarrow> walker \<Rightarrow> pystr option \<times> walker" where
  "walker_key limit fr key w =
     (let (t, w') =
        (case key of
           OStr s \<Rightarrow> (let (t, repaired) = otel_repaired s in (t, mark_if repaired w))
         | OBool b \<Rightarrow> (if b then str ''True'' else str ''False'', w)
         | OInt i \<Rightarrow> (let (t, placeholder) = otel_int_digits limit i in (t, mark_if placeholder w))
         | OFloat (Fin r) \<Rightarrow> (fr r, w)
         | OFloat NaN \<Rightarrow> (str ''<float: nan>'', mark w)
         | OFloat PInf \<Rightarrow> (str ''<float: inf>'', mark w)
         | OFloat NInf \<Rightarrow> (str ''<float: -inf>'', mark w)
         | ONone \<Rightarrow> (str ''None'', w)
         | _ \<Rightarrow> (str ''<unserializable key: '' @ type_name key @ str ''>'', mark w))
      in (if t = [] then None else Some t, w'))"

definition scalar_value :: "nat \<Rightarrow> oval \<Rightarrow> walker \<Rightarrow> jval \<times> walker" where
  "scalar_value limit v w =
     (case v of
        ONone \<Rightarrow> (JDict [], w)
      | OBool b \<Rightarrow> (JDict [(str ''boolValue'', JBool b)], w)
      | OInt i \<Rightarrow>
          (let (t, placeholder) = otel_int_digits limit i
           in if placeholder then (string_value t, mark w)
              else if i < - (2 ^ 63) \<or> 2 ^ 63 - 1 < i then (string_value t, w)
              else (JDict [(str ''intValue'', JStr t)], w))
      | OFloat (Fin r) \<Rightarrow> (JDict [(str ''doubleValue'', JFloat (Fin r))], w)
      | OFloat NaN \<Rightarrow> (JDict [(str ''doubleValue'', JStr (str ''NaN''))], w)
      | OFloat PInf \<Rightarrow> (JDict [(str ''doubleValue'', JStr (str ''Infinity''))], w)
      | OFloat NInf \<Rightarrow> (JDict [(str ''doubleValue'', JStr (str ''-Infinity''))], w)
      | OStr s \<Rightarrow> (let (t, repaired) = otel_repaired s in (string_value t, mark_if repaired w))
      | _ \<Rightarrow> (string_value (str ''<unserializable: '' @ type_name v @ str ''>''), w))"

abbreviation kvlist :: "jval list \<Rightarrow> jval" where
  "kvlist vs \<equiv> JDict [(str ''kvlistValue'', JDict (if vs = [] then [] else [(str ''values'', JList vs)]))]"

abbreviation arrayval :: "jval list \<Rightarrow> jval" where
  "arrayval vs \<equiv> JDict [(str ''arrayValue'', JDict (if vs = [] then [] else [(str ''values'', JList vs)]))]"

abbreviation keyvalue :: "pystr \<Rightarrow> jval \<Rightarrow> jval" where
  "keyvalue k v \<equiv> JDict [(str ''key'', JStr k), (str ''value'', v)]"

text \<open>What keeps a container from being entered.\<close>

definition barred :: "nat \<Rightarrow> nat \<Rightarrow> nat list \<Rightarrow> walker \<Rightarrow> (jval \<times> walker) option" where
  "barred i depth ancestors w =
     (if MAX_NEST < depth then Some (string_value DEPTH_LIMIT, mark w)
      else if i \<in> set ancestors then Some (string_value CIRCULAR, w)
      else None)"

text \<open>\<^verbatim>\<open>value\<close>, \<^verbatim>\<open>_value\<close>, \<^verbatim>\<open>_kvlist\<close> and \<^verbatim>\<open>_array\<close>. The walk stops where the budget runs out.\<close>

function (sequential) walk :: "nat \<Rightarrow> (rat \<Rightarrow> pystr) \<Rightarrow> oval \<Rightarrow> nat \<Rightarrow> nat list \<Rightarrow> walker \<Rightarrow> jval \<times> walker"
  and walk_value :: "nat \<Rightarrow> (rat \<Rightarrow> pystr) \<Rightarrow> oval \<Rightarrow> nat \<Rightarrow> nat list \<Rightarrow> walker \<Rightarrow> jval \<times> walker"
  and walk_items :: "nat \<Rightarrow> (rat \<Rightarrow> pystr) \<Rightarrow> (oval \<times> oval) list \<Rightarrow> nat \<Rightarrow> nat list \<Rightarrow> pystr list \<Rightarrow> walker \<Rightarrow> jval list \<times> walker"
  and walk_list :: "nat \<Rightarrow> (rat \<Rightarrow> pystr) \<Rightarrow> oval list \<Rightarrow> nat \<Rightarrow> nat list \<Rightarrow> walker \<Rightarrow> jval list \<times> walker"
where
  "walk limit fr v depth ancestors w =
     (if MAX_NODES \<le> wk_nodes w then (string_value NODE_LIMIT, w\<lparr>wk_stopped := True, wk_marked := True\<rparr>)
      else walk_value limit fr v depth ancestors (w\<lparr>wk_nodes := Suc (wk_nodes w)\<rparr>))"
| "walk_value limit fr (ODict i kvs) depth ancestors w =
     (case barred i depth ancestors w of
        Some r \<Rightarrow> r
      | None \<Rightarrow> let (vs, w) = walk_items limit fr kvs depth (i # ancestors) [] w in (kvlist vs, w))"
| "walk_value limit fr (OList i xs) depth ancestors w =
     (case barred i depth ancestors w of
        Some r \<Rightarrow> r
      | None \<Rightarrow> let (vs, w) = walk_list limit fr xs depth (i # ancestors) w in (arrayval vs, w))"
| "walk_value limit fr (OTuple i xs) depth ancestors w =
     (case barred i depth ancestors w of
        Some r \<Rightarrow> r
      | None \<Rightarrow> let (vs, w) = walk_list limit fr xs depth (i # ancestors) w in (arrayval vs, w))"
| "walk_value limit fr v depth ancestors w = scalar_value limit v w"
| "walk_items limit fr [] depth ancestors seen w = ([], w)"
| "walk_items limit fr ((k, v) # kvs) depth ancestors seen w =
     (if wk_stopped w then ([], w)
      else let (key, w) = walker_key limit fr k w
           in if key = None \<or> the key \<in> set seen then walk_items limit fr kvs depth ancestors seen (w\<lparr>wk_dropped := Suc (wk_dropped w)\<rparr>)
              else let (jv, w) = walk limit fr v (Suc depth) ancestors w;
                       (rest, w) = walk_items limit fr kvs depth ancestors (the key # seen) w
                   in (keyvalue (the key) jv # rest, w))"
| "walk_list limit fr [] depth ancestors w = ([], w)"
| "walk_list limit fr (v # vs) depth ancestors w =
     (if wk_stopped w then ([], w)
      else let (jv, w) = walk limit fr v (Suc depth) ancestors w;
               (rest, w) = walk_list limit fr vs depth ancestors w
           in (jv # rest, w))"
  by pat_completeness auto

termination walk
  by (relation "measure (case_sum
      (case_sum (\<lambda>(limit, fr, v, depth, ancestors, w). Suc (2 * size v)) (\<lambda>(limit, fr, v, depth, ancestors, w). 2 * size v))
      (case_sum (\<lambda>(limit, fr, kvs, depth, ancestors, seen, w). Suc (2 * size_list (size_prod size size) kvs))
        (\<lambda>(limit, fr, vs, depth, ancestors, w). Suc (2 * size_list size vs))))") auto

declare walk.simps [simp del]

subsection \<open>Records\<close>

text \<open>A mapping is its items; \<^verbatim>\<open>dict.get\<close> with a string.\<close>

definition o_read :: "(oval \<times> oval) list \<Rightarrow> string \<Rightarrow> oval option" where
  "o_read items name = map_of items (OStr (str name))"

definition exception_type :: "(oval \<times> oval) list \<Rightarrow> pystr option" where
  "exception_type error =
     (case otel_text (o_read error ''type'') of
        None \<Rightarrow> None
      | Some (t, _) \<Rightarrow>
          (case otel_text (o_read error ''module'') of
             None \<Rightarrow> Some t
           | Some (m, _) \<Rightarrow> if m = [] \<or> m = str ''builtins'' then Some t else Some (m @ str ''.'' @ t)))"

definition opt_pair :: "string \<Rightarrow> pystr option \<Rightarrow> (pystr \<times> pystr) list" where
  "opt_pair key t = (case t of None \<Rightarrow> [] | Some t \<Rightarrow> [(str key, t)])"

definition exception_reads :: "(oval \<times> oval) list \<Rightarrow> (pystr \<times> pystr) list" where
  "exception_reads error =
     opt_pair ''exception.type'' (exception_type error) @
     opt_pair ''exception.message'' (map_option fst (otel_text (o_read error ''message''))) @
     opt_pair ''exception.stacktrace'' (map_option fst (otel_text (o_read error ''stack'')))"

text \<open>Texts that become attributes, in turn.\<close>

fun walk_pairs :: "nat \<Rightarrow> (rat \<Rightarrow> pystr) \<Rightarrow> (pystr \<times> oval) list \<Rightarrow> walker \<Rightarrow> (pystr \<times> jval) list \<times> walker" where
  "walk_pairs limit fr [] w = ([], w)"
| "walk_pairs limit fr ((key, v) # rest) w =
     (let (jv, w) = walk limit fr v 1 [] w; (pairs, w) = walk_pairs limit fr rest w in ((key, jv) # pairs, w))"

definition text_pair :: "pystr \<Rightarrow> oval option \<Rightarrow> (pystr \<times> oval) list" where
  "text_pair key v = (case otel_text v of None \<Rightarrow> [] | Some (t, _) \<Rightarrow> [(key, OStr t)])"

definition TRUNCATED :: pystr where "TRUNCATED = RESERVED_PREFIX @ str ''truncated''"

definition duration_pair :: "oval option \<Rightarrow> (pystr \<times> oval) list" where
  "duration_pair v =
     (case v of
        Some (OInt i) \<Rightarrow> [(RESERVED_PREFIX @ str ''duration_ms'', OInt i)]
      | Some (OFloat f) \<Rightarrow> [(RESERVED_PREFIX @ str ''duration_ms'', OFloat f)]
      | _ \<Rightarrow> [])"

definition error_pairs :: "oval option \<Rightarrow> (pystr \<times> oval) list" where
  "error_pairs v = (case v of Some (ODict i error) \<Rightarrow> map (\<lambda>(key, t). (key, OStr t)) (exception_reads error) | _ \<Rightarrow> [])"

definition library_attributes :: "nat \<Rightarrow> (rat \<Rightarrow> pystr) \<Rightarrow> (oval \<times> oval) list \<Rightarrow> walker \<Rightarrow> (pystr \<times> jval) list \<times> walker" where
  "library_attributes limit fr event w =
     (let (before, w) = walk_pairs limit fr
            (text_pair (str ''code.function.name'') (o_read event ''function'') @
             text_pair (str ''log.record.uid'') (o_read event ''log_id'') @
             text_pair (RESERVED_PREFIX @ str ''parent_span_id'') (o_read event ''parent_span_id'')) w;
          (after, w) = walk_pairs limit fr
            (duration_pair (o_read event ''duration_ms'') @
             text_pair (RESERVED_PREFIX @ str ''status'') (o_read event ''status'') @
             error_pairs (o_read event ''error'')) w
      in (before @ [(TRUNCATED, JDict [(str ''boolValue'', JBool True)])] @ after, w))"

definition starts_with :: "pystr \<Rightarrow> pystr \<Rightarrow> bool" where
  "starts_with t p \<longleftrightarrow> take (length p) t = p"

fun user_loop :: "nat \<Rightarrow> (rat \<Rightarrow> pystr) \<Rightarrow> (oval \<times> oval) list \<Rightarrow> pystr list \<Rightarrow> pystr list \<Rightarrow> walker \<Rightarrow> (pystr \<times> jval) list \<times> walker" where
  "user_loop limit fr [] library_keys seen w = ([], w)"
| "user_loop limit fr ((k, v) # items) library_keys seen w =
     (if wk_stopped w then ([], w)
      else let (key, w) = walker_key limit fr k w
           in if key = None \<or> starts_with (the key) RESERVED_PREFIX \<or> the key \<in> set library_keys \<or> the key \<in> set seen
              then user_loop limit fr items library_keys seen (w\<lparr>wk_dropped := Suc (wk_dropped w)\<rparr>)
              else let (jv, w) = walk limit fr v 1 [] w;
                       (pairs, w) = user_loop limit fr items library_keys (the key # seen) w
                   in ((the key, jv) # pairs, w))"

definition user_attributes :: "nat \<Rightarrow> (rat \<Rightarrow> pystr) \<Rightarrow> oval option \<Rightarrow> pystr list \<Rightarrow> walker \<Rightarrow> (pystr \<times> jval) list \<times> walker" where
  "user_attributes limit fr given library_keys w =
     (case given of Some (ODict i items) \<Rightarrow> user_loop limit fr items library_keys [] w | _ \<Rightarrow> ([], w))"

text \<open>Both cases of hexadecimal digits, lowered; not all zeros.\<close>

definition lower_hex :: "nat \<Rightarrow> nat option" where
  "lower_hex c = (if 48 \<le> c \<and> c \<le> 57 \<or> 97 \<le> c \<and> c \<le> 102 then Some c else if 65 \<le> c \<and> c \<le> 70 then Some (c + 32) else None)"

definition hex_id :: "nat \<Rightarrow> oval option \<Rightarrow> pystr option" where
  "hex_id n v =
     (case otel_text v of
        None \<Rightarrow> None
      | Some (t, _) \<Rightarrow>
          if length t \<noteq> n then None
          else case those (map lower_hex t) of
                 None \<Rightarrow> None
               | Some lowered \<Rightarrow> if set lowered \<subseteq> {48} then None else Some lowered)"

definition severity :: "pystr \<Rightarrow> int option" where
  "severity level =
     map_of [(str ''DEBUG'', 5), (str ''INFO'', 9), (str ''WARNING'', 13), (str ''ERROR'', 17), (str ''CRITICAL'', 21)] level"

definition opt_field :: "string \<Rightarrow> jval option \<Rightarrow> (pystr \<times> jval) list" where
  "opt_field key v = (case v of None \<Rightarrow> [] | Some v \<Rightarrow> [(str key, v)])"

text \<open>The attributes of a record and the walker's end state, then the record.\<close>

record otel_parts =
  op_body :: "jval option"
  op_attributes :: "(pystr \<times> jval) list"
  op_walker :: walker

definition level_text :: "(oval \<times> oval) list \<Rightarrow> (pystr \<times> bool) option" where
  "level_text event = (case otel_text (o_read event ''level'') of Some (t, r) \<Rightarrow> if t = [] then None else Some (t, r) | None \<Rightarrow> None)"

definition record_parts :: "nat \<Rightarrow> (rat \<Rightarrow> pystr) \<Rightarrow> (oval \<times> oval) list \<Rightarrow> otel_parts" where
  "record_parts limit fr event =
     (let w = mark_if (case level_text event of Some (_, repaired) \<Rightarrow> repaired | None \<Rightarrow> False) new_walker;
          (library, w) = library_attributes limit fr event w;
          library_keys = filter (\<lambda>key. key \<noteq> TRUNCATED) (map fst library);
          (body, w) = (case o_read event ''message'' of
                         None \<Rightarrow> (None, w)
                       | Some message \<Rightarrow> (let (jv, w) = walk limit fr message 1 [] w in (Some jv, w)));
          (user, w) = user_attributes limit fr (o_read event ''fields'') library_keys w
      in \<lparr>op_body = body, op_attributes = library @ user, op_walker = w\<rparr>)"

definition written_attributes :: "(oval \<times> oval) list \<Rightarrow> otel_parts \<Rightarrow> (pystr \<times> jval) list" where
  "written_attributes event parts =
     (let truncated = (o_read event ''truncated'' = Some (OBool True) \<or> wk_marked (op_walker parts))
      in filter (\<lambda>(name, _). name \<noteq> TRUNCATED \<or> truncated) (op_attributes parts))"

definition event_name :: "(oval \<times> oval) list \<Rightarrow> pystr option" where
  "event_name event =
     (case otel_text (o_read event ''message'') of
        Some (t, _) \<Rightarrow> if t \<in> {str ''span.start'', str ''span.end''} then Some t else None
      | None \<Rightarrow> None)"

definition log_record_of :: "nat \<Rightarrow> (rat \<Rightarrow> pystr) \<Rightarrow> (nat \<Rightarrow> nat option) \<Rightarrow> (oval \<times> oval) list \<Rightarrow> jval" where
  "log_record_of limit fr dec event =
     (let nanos = map_option JStr (time_unix_nano dec (o_read event ''timestamp''));
          level = map_option fst (level_text event);
          parts = record_parts limit fr event;
          written = written_attributes event parts;
          trace_id = hex_id 32 (o_read event ''trace_id'')
      in JDict (opt_field ''timeUnixNano'' nanos @ opt_field ''observedTimeUnixNano'' nanos @
           opt_field ''severityNumber'' (map_option JInt (Option.bind level severity)) @
           opt_field ''severityText'' (map_option JStr level) @
           opt_field ''body'' (op_body parts) @
           opt_field ''eventName'' (map_option JStr (event_name event)) @
           opt_field ''attributes'' (if written = [] then None else Some (JList (map (\<lambda>(name, v). keyvalue name v) written))) @
           opt_field ''droppedAttributesCount'' (if wk_dropped (op_walker parts) = 0 then None else Some (JInt (int (wk_dropped (op_walker parts))))) @
           opt_field ''flags'' (map_option (\<lambda>_. JInt 1) trace_id) @
           opt_field ''traceId'' (map_option JStr trace_id) @
           opt_field ''spanId'' (map_option JStr (hex_id 16 (o_read event ''span_id'')))))"

definition log_record :: "nat \<Rightarrow> (rat \<Rightarrow> pystr) \<Rightarrow> (nat \<Rightarrow> nat option) \<Rightarrow> oval \<Rightarrow> jval" where
  "log_record limit fr dec event = (case event of ODict i items \<Rightarrow> log_record_of limit fr dec items | _ \<Rightarrow> JDict [])"

subsection \<open>Requests\<close>

type_synonym resource_key = "pystr option \<times> pystr option \<times> pystr option"

definition resource_key :: "oval \<Rightarrow> resource_key" where
  "resource_key event =
     (case event of
        ODict i items \<Rightarrow>
          (let stamp = (\<lambda>name. map_option fst (otel_text (o_read items name))) in (stamp ''service'', stamp ''version'', stamp ''env''))
      | _ \<Rightarrow> (None, None, None))"

text \<open>\<^verbatim>\<open>json.dumps\<close> without spaces, without escapes beyond ASCII, and refusing a float that is not finite.\<close>

fun compact :: "(rat \<Rightarrow> pystr) \<Rightarrow> jval \<Rightarrow> pystr" where
  "compact fr JNull = str ''null''"
| "compact fr (JBool b) = (if b then str ''true'' else str ''false'')"
| "compact fr (JInt i) = int_repr i"
| "compact fr (JFloat f) = dumps_flt fr f"
| "compact fr (JStr s) = dumps_str False s"
| "compact fr (JList js) = [91] @ join_with 44 (map (compact fr) js) @ [93]"
| "compact fr (JDict kvs) = [123] @ join_with 44 (map (\<lambda>(k, v). dumps_str False k @ [58] @ compact fr v) kvs) @ [125]"

fun all_finite :: "jval \<Rightarrow> bool" where
  "all_finite (JFloat f) = (\<exists>r. f = Fin r)"
| "all_finite (JList js) = (\<forall>j \<in> set js. all_finite j)"
| "all_finite (JDict kvs) = (\<forall>kv \<in> set kvs. all_finite (snd kv))"
| "all_finite _ = True"

definition otel_dumps :: "(rat \<Rightarrow> pystr) \<Rightarrow> jval \<Rightarrow> pystr result" where
  "otel_dumps fr j = (if all_finite j then Inr (compact fr j) else Inl ValueError)"

text \<open>The envelope holds texts only, so it matters not how a float would be written.\<close>

abbreviation texts_json :: "jval \<Rightarrow> pystr" where "texts_json \<equiv> compact (\<lambda>_. [])"

definition otel_group :: "resource_key \<Rightarrow> pystr list \<Rightarrow> pystr \<Rightarrow> pystr \<Rightarrow> pystr" where
  \<open>otel_group key records scope schema_url =
     (let (service, version, env) = key;
          attributes = concat (map (\<lambda>(name, stamp). case stamp of None \<Rightarrow> [] | Some t \<Rightarrow> [keyvalue (str name) (string_value t)])
            [(''service.name'', service), (''service.version'', version), (''deployment.environment.name'', env)]);
          resource = (if attributes = [] then str ''{}'' else texts_json (JDict [(str ''attributes'', JList attributes)]))
      in str ''{"resource":'' @ resource @ str '',"scopeLogs":[{"scope":'' @ scope @ str '',"logRecords":['' @ join_with 44 records @
         str ''],"schemaUrl":'' @ schema_url @ str ''}],"schemaUrl":'' @ schema_url @ str ''}'')\<close>

text \<open>\<^verbatim>\<open>d.setdefault(k, (h, [])) [1].append(v)\<close>.\<close>

definition group_add :: "'k \<Rightarrow> 'h \<Rightarrow> 'v \<Rightarrow> ('k, 'h \<times> 'v list) dict \<Rightarrow> ('k, 'h \<times> 'v list) dict" where
  "group_add k h v d = (case dict_get d k of None \<Rightarrow> dict_set k (h, [v]) d | Some (h0, vs) \<Rightarrow> dict_set k (h0, vs @ [v]) d)"

definition scope_json :: "pystr \<Rightarrow> pystr" where
  "scope_json scope_version =
     texts_json (JDict ((str ''name'', JStr (str ''log_foundry'')) # (if scope_version = [] then [] else [(str ''version'', JStr scope_version)])))"

definition schema_json :: "pystr" where
  "schema_json = texts_json (JStr (str ''https://opentelemetry.io/schemas/1.44.0''))"

definition request_groups :: "(resource_key \<times> pystr) list \<Rightarrow> (resource_key, unit \<times> pystr list) dict" where
  "request_groups records = fold (\<lambda>(key, rendered). group_add key () rendered) records []"

definition request_body :: "(resource_key \<times> pystr) list \<Rightarrow> pystr \<Rightarrow> pystr" where
  \<open>request_body records scope_version =
     str ''{"resourceLogs":['' @
     join_with 44 (map (\<lambda>(key, _, items). otel_group key items (scope_json scope_version) schema_json) (request_groups records)) @
     str '']}''\<close>

definition otel_framing :: "resource_key \<Rightarrow> pystr \<Rightarrow> nat" where
  "otel_framing key scope_version =
     length (utf8 (request_body [(key, [])] scope_version)) - length (utf8 (request_body [] scope_version))"

subsection \<open>Strict JSON\<close>

definition sound :: "pystr \<Rightarrow> bool" where
  "sound t \<longleftrightarrow> (\<forall>c \<in> set t. \<not> is_surrogate c)"

lemma sound_simps [simp]: "sound []" "sound (c # t) \<longleftrightarrow> \<not> is_surrogate c \<and> sound t" "sound (s @ t) \<longleftrightarrow> sound s \<and> sound t"
  by (auto simp: sound_def)

lemma sound_encodes: "sound t \<Longrightarrow> encode_utf8 t = Inr (utf8 t)"
  by (auto simp: sound_def encode_utf8_def)

lemma encodes_sound: "encode_utf8 t = Inr b \<Longrightarrow> sound t \<and> b = utf8 t"
  by (auto simp: sound_def encode_utf8_def split: if_splits)

lemma ascii_sound: "ascii_text t \<Longrightarrow> sound t"
  by (auto simp: sound_def ascii_text_def is_surrogate_def)

lemma sound_str: "\<forall>c \<in> set s. of_char c < (128::nat) \<Longrightarrow> sound (str s)"
  by (rule ascii_sound) (rule ascii_str)

lemma sound_repaired [simp]: "sound (fst (otel_repaired t))"
  by (auto simp: otel_repaired_def encode_utf8_def sound_def subst_surrogates_def is_surrogate_def REPLACEMENT_def split: if_splits)

lemma sound_decimal [simp]: "sound (decimal n)" by (rule ascii_sound) simp

lemma sound_int_repr [simp]: "sound (int_repr n)" by (rule ascii_sound) simp

lemma sound_int_digits [simp]: "sound (fst (otel_int_digits limit i))"
  by (simp add: otel_int_digits_def Let_def sound_str)

lemma sound_text: "otel_text v = Some (t, r) \<Longrightarrow> sound t"
  by (cases v rule: otel_text.cases) (auto, metis fst_conv sound_repaired)

lemma sound_type_name [simp]: "sound (type_name v)"
  by (cases v rule: type_name.cases) (simp_all add: sound_str)

text \<open>Texts that can be encoded and floats that are finite, all through a value.\<close>

fun strict :: "jval \<Rightarrow> bool" where
  "strict (JFloat f) = (\<exists>r. f = Fin r)"
| "strict (JStr t) = sound t"
| "strict (JList js) = (\<forall>j \<in> set js. strict j)"
| "strict (JDict kvs) = (\<forall>kv \<in> set kvs. sound (fst kv) \<and> strict (snd kv))"
| "strict _ = True"

lemma sound_escape: "\<not> is_surrogate c \<Longrightarrow> sound (escape_char False c)"
  by (auto simp: escape_char_def hex4_def hex_digit_def is_surrogate_def)

lemma sound_dumps: "sound t \<Longrightarrow> sound (dumps_str False t)"
proof -
  assume "sound t"
  then have "sound (concat (map (escape_char False) t))" by (induction t) (auto simp: sound_escape)
  then show ?thesis by (simp add: dumps_str_def is_surrogate_def)
qed

lemma sound_join: "sound (join_with c ts) \<longleftrightarrow> (\<forall>t \<in> set ts. sound t) \<and> (\<not> is_surrogate c \<or> length ts \<le> 1)"
  by (induction c ts rule: join_with.induct) auto

lemma sound_compact:
  assumes "\<And>r. sound (fr r)"
  shows "strict j \<Longrightarrow> all_finite j \<and> sound (compact fr j)"
proof (induction j)
  case (JList js)
  then show ?case by (auto simp: sound_join is_surrogate_def)
next
  case (JDict kvs)
  then have "all_finite v \<and> sound (dumps_str False k @ [58] @ compact fr v)" if "(k, v) \<in> set kvs" for k v
    using that sound_dumps [of k] by (fastforce simp: is_surrogate_def)
  then show ?case by (fastforce simp: sound_join is_surrogate_def)
qed (auto simp: assms sound_str sound_dumps)

lemma strict_dumps:
  assumes "\<And>r. sound (fr r)" and "strict j"
  shows "\<exists>t. otel_dumps fr j = Inr t \<and> encode_utf8 t = Inr (utf8 t)"
  using sound_compact [OF assms] sound_encodes by (simp add: otel_dumps_def)

lemma sound_key:
  assumes "\<And>r. sound (fr r)" and "walker_key limit fr k w = (Some key, w')"
  shows "sound key \<and> key \<noteq> []"
proof -
  have "key \<noteq> []" using assms(2) by (auto simp: walker_key_def Let_def split: prod.splits if_splits)
  moreover have "sound key"
  proof (cases k)
    case (OFloat f)
    then show ?thesis using assms by (cases f) (auto simp: walker_key_def Let_def sound_str split: if_splits)
  next
    case (OStr s)
    then show ?thesis using assms(2) sound_repaired [of s] by (auto simp: walker_key_def Let_def split: prod.splits if_splits simp del: sound_repaired)
  next
    case (OInt i)
    then show ?thesis using assms(2) sound_int_digits [of limit i] by (auto simp: walker_key_def Let_def split: prod.splits if_splits simp del: sound_int_digits)
  qed (use assms(2) in \<open>auto simp: walker_key_def Let_def sound_str split: prod.splits if_splits\<close>)
  ultimately show ?thesis by blast
qed

lemma strict_scalar: "strict (fst (scalar_value limit v w))"
proof (cases v)
  case (OFloat f)
  then show ?thesis by (cases f) (simp_all add: scalar_value_def sound_str)
next
  case (OStr s)
  then show ?thesis using sound_repaired [of s] by (auto simp: scalar_value_def sound_str split: prod.splits simp del: sound_repaired)
next
  case (OInt i)
  then show ?thesis using sound_int_digits [of limit i] by (auto simp: scalar_value_def sound_str split: prod.splits simp del: sound_int_digits)
qed (simp_all add: scalar_value_def sound_str)

lemma strict_barred: "barred i depth ancestors w = Some r \<Longrightarrow> strict (fst r)"
  by (auto simp: barred_def sound_str DEPTH_LIMIT_def CIRCULAR_def split: if_splits)

lemma strict_walk:
  assumes "\<And>r. sound (fr r)"
  shows "strict (fst (walk limit fr v depth ancestors w))"
    and "strict (fst (walk_value limit fr v depth ancestors w))"
    and "\<forall>j \<in> set (fst (walk_items limit fr kvs depth ancestors seen w)). strict j"
    and "\<forall>j \<in> set (fst (walk_list limit fr vs depth ancestors w)). strict j"
  using assms
proof (induction limit fr v depth ancestors w and limit fr v depth ancestors w
    and limit fr kvs depth ancestors seen w and limit fr vs depth ancestors w rule: walk_walk_value_walk_items_walk_list.induct)
  case (1 limit fr v depth ancestors w)
  then show ?case by (simp add: walk.simps NODE_LIMIT_def sound_str)
next
  case (7 limit fr k v kvs depth ancestors seen w)
  obtain key w1 where key: "walker_key limit fr k w = (key, w1)" by (rule prod.exhaust)
  obtain jv w2 where jv: "walk limit fr v (Suc depth) ancestors w1 = (jv, w2)" by (rule prod.exhaust)
  show ?case
    using 7 key jv sound_key [of fr limit k w] by (auto simp: sound_str split: prod.splits)
qed (auto simp: sound_str strict_scalar split: option.split prod.split dest: strict_barred)

subsection \<open>Bounds on the walk\<close>

text \<open>At most \<open>n\<close> objects inside one another.\<close>

fun within_objects :: "nat \<Rightarrow> jval \<Rightarrow> bool" where
  "within_objects n (JDict kvs) = (0 < n \<and> (\<forall>kv \<in> set kvs. within_objects (n - 1) (snd kv)))"
| "within_objects n (JList js) = (\<forall>j \<in> set js. within_objects n j)"
| "within_objects n _ = True"

lemma within_objects_mono: "within_objects m j \<Longrightarrow> m \<le> n \<Longrightarrow> within_objects n j"
proof (induction m j arbitrary: n rule: within_objects.induct)
  case (1 m kvs)
  have "within_objects (n - 1) (snd kv)" if "kv \<in> set kvs" for kv
    by (rule "1.IH" [OF that]) (use "1.prems" that in auto)
  then show ?case using "1.prems" by auto
qed auto

lemma within_scalar: "0 < n \<Longrightarrow> within_objects n (fst (scalar_value limit v w))"
  by (cases v; (simp add: scalar_value_def split: prod.split flt.split)?)

lemma within_barred: "barred i depth ancestors w = Some r \<Longrightarrow> 0 < n \<Longrightarrow> within_objects n (fst r)"
  by (auto simp: barred_def split: if_splits)

abbreviation objects_at :: "nat \<Rightarrow> nat" where "objects_at depth \<equiv> 3 * (Suc MAX_NEST - depth) + 1"

lemma within_array: "\<forall>j \<in> set vs. within_objects n j \<Longrightarrow> within_objects (3 + n) (arrayval vs)"
  using within_objects_mono [of n _ "Suc n"] by auto

lemma objects_at_step: "depth \<le> MAX_NEST \<Longrightarrow> objects_at depth = 3 + objects_at (Suc depth)"
  by simp

lemma within_walk:
  "within_objects (objects_at depth) (fst (walk limit fr v depth ancestors w))"
  "within_objects (objects_at depth) (fst (walk_value limit fr v depth ancestors w))"
  "\<forall>j \<in> set (fst (walk_items limit fr kvs depth ancestors seen w)). within_objects (1 + objects_at (Suc depth)) j"
  "\<forall>j \<in> set (fst (walk_list limit fr vs depth ancestors w)). within_objects (objects_at (Suc depth)) j"
proof (induction limit fr v depth ancestors w and limit fr v depth ancestors w
    and limit fr kvs depth ancestors seen w and limit fr vs depth ancestors w rule: walk_walk_value_walk_items_walk_list.induct)
  case (2 limit fr i kvs depth ancestors w)
  show ?case
  proof (cases "barred i depth ancestors w")
    case None
    then have "objects_at depth = 3 + objects_at (Suc depth)" by (intro objects_at_step) (auto simp: barred_def split: if_splits)
    then show ?thesis using 2 None by (auto split: prod.split)
  qed (auto intro: within_barred)
next
  case (3 limit fr i xs depth ancestors w)
  show ?case
  proof (cases "barred i depth ancestors w")
    case None
    then have "objects_at depth = 3 + objects_at (Suc depth)" by (intro objects_at_step) (auto simp: barred_def split: if_splits)
    then show ?thesis using within_array [OF 3 [OF None]] None by (simp only: walk_value.simps option.case split_beta Let_def fst_conv)
  qed (auto intro: within_barred)
next
  case (4 limit fr i xs depth ancestors w)
  show ?case
  proof (cases "barred i depth ancestors w")
    case None
    then have "objects_at depth = 3 + objects_at (Suc depth)" by (intro objects_at_step) (auto simp: barred_def split: if_splits)
    then show ?thesis using within_array [OF 4 [OF None]] None by (simp only: walk_value.simps option.case split_beta Let_def fst_conv)
  qed (auto intro: within_barred)
next
  case (7 limit fr k v kvs depth ancestors seen w)
  then show ?case by (auto split: prod.splits)
next
  case (9 limit fr v vs depth ancestors w)
  then show ?case by (auto split: prod.splits)
qed (auto simp: within_scalar walk.simps)

text \<open>The walker's budget: it never counts past its limit, and it stops and is marked only there.\<close>

definition walker_ok :: "walker \<Rightarrow> bool" where
  "walker_ok w \<longleftrightarrow> wk_nodes w \<le> MAX_NODES \<and> (wk_stopped w \<longrightarrow> wk_marked w \<and> wk_nodes w = MAX_NODES)"

text \<open>A later state of a walker: nodes only grow, a mark or a stop stays.\<close>

definition later :: "walker \<Rightarrow> walker \<Rightarrow> bool" where
  "later w w' \<longleftrightarrow> wk_nodes w \<le> wk_nodes w' \<and> (wk_marked w \<longrightarrow> wk_marked w') \<and> (wk_stopped w \<longrightarrow> wk_stopped w') \<and> wk_dropped w \<le> wk_dropped w'"

lemma later_refl [simp]: "later w w" by (simp add: later_def)

lemma later_trans: "later w w' \<Longrightarrow> later w' w'' \<Longrightarrow> later w w''" by (auto simp: later_def)

lemma scalar_walker:
  "scalar_value limit v w = (jv, w') \<Longrightarrow> w' = w \<or> w' = mark w"
  by (auto simp: scalar_value_def split: oval.splits flt.splits prod.splits if_splits)

lemma key_walker: "walker_key limit fr k w = (key, w') \<Longrightarrow> w' = w \<or> w' = mark w"
  by (auto simp: walker_key_def Let_def split: oval.splits flt.splits prod.splits if_splits)

lemma barred_walker: "barred i depth ancestors w = Some (jv, w') \<Longrightarrow> w' = w \<or> w' = mark w"
  by (auto simp: barred_def split: if_splits)

lemma walker_ok_mark [simp]: "walker_ok w \<Longrightarrow> walker_ok (mark w)" "walker_ok (w\<lparr>wk_dropped := n\<rparr>) = walker_ok w"
  by (simp_all add: walker_ok_def)

text \<open>Every node pays for the values it adds to the result; running out adds one placeholder.\<close>

abbreviation stop_fee :: "walker \<Rightarrow> nat" where "stop_fee w \<equiv> (if wk_stopped w then 4 else 0)"

lemma jnodes_scalar: "jnodes (fst (scalar_value limit v w)) \<le> 2"
  by (cases v; (simp add: scalar_value_def split: prod.split flt.split)?)

definition paid :: "walker \<Rightarrow> walker \<Rightarrow> nat \<Rightarrow> bool" where
  "paid w w' n \<longleftrightarrow> walker_ok w' \<and> later w w' \<and> n + 5 * wk_nodes w \<le> 5 * wk_nodes w' + stop_fee w'"

lemma paid_barred:
  assumes "barred i depth ancestors w1 = Some (jv, w')" and "walker_ok w" and "wk_nodes w < MAX_NODES" and "w1 = w\<lparr>wk_nodes := Suc (wk_nodes w)\<rparr>"
  shows "paid w w' (jnodes jv + 2)"
  using assms by (auto simp: barred_def paid_def later_def walker_ok_def split: if_splits)

lemma paid_scalar:
  assumes "scalar_value limit v w1 = (jv, w')" and "walker_ok w" and "wk_nodes w < MAX_NODES" and "w1 = w\<lparr>wk_nodes := Suc (wk_nodes w)\<rparr>"
  shows "paid w w' (jnodes jv + 2)"
  using scalar_walker [OF assms(1)] jnodes_scalar [of limit v w1] assms by (auto simp: paid_def later_def walker_ok_def)

lemma paid_container:
  assumes "paid w1 w' n" and "w1 = w\<lparr>wk_nodes := Suc (wk_nodes w)\<rparr>" and "jnodes jv \<le> 3 + n"
  shows "paid w w' (jnodes jv + 2)"
  using assms by (auto simp: paid_def later_def)

lemma paid_refl: "walker_ok w \<Longrightarrow> paid w w 0"
  by (simp add: paid_def)

lemma paid_seq: "paid w w1 m \<Longrightarrow> paid w1 w' n \<Longrightarrow> (wk_stopped w1 \<Longrightarrow> n = 0) \<Longrightarrow> paid w w' (m + n)"
  by (cases "wk_stopped w1") (auto simp: paid_def later_def)

lemma paid_from: "later w w1 \<Longrightarrow> wk_nodes w1 = wk_nodes w \<Longrightarrow> paid w1 w' n \<Longrightarrow> paid w w' n"
  by (auto simp: paid_def later_def)

text \<open>What is said of a value before its node is counted, and after.\<close>

lemma walk_paid:
  "walker_ok w \<Longrightarrow> walk limit fr v depth ancestors w = (jv, w') \<Longrightarrow> paid w w' (jnodes jv + 2)"
  "walker_ok w0 \<Longrightarrow> wk_nodes w0 < MAX_NODES \<Longrightarrow> w = w0\<lparr>wk_nodes := Suc (wk_nodes w0)\<rparr> \<Longrightarrow>
    walk_value limit fr v depth ancestors w = (jv, w') \<Longrightarrow> paid w0 w' (jnodes jv + 2)"
  "walker_ok w \<Longrightarrow> walk_items limit fr kvs depth ancestors seen w = (js, w') \<Longrightarrow> paid w w' (sum_list (map jnodes js))"
  "walker_ok w \<Longrightarrow> walk_list limit fr vs depth ancestors w = (js, w') \<Longrightarrow> paid w w' (sum_list (map jnodes js))"
proof (induction limit fr v depth ancestors w and limit fr v depth ancestors w
    and limit fr kvs depth ancestors seen w and limit fr vs depth ancestors w
    arbitrary: jv w' and jv w' w0 and js w' and js w' rule: walk_walk_value_walk_items_walk_list.induct)
  case (1 limit fr v depth ancestors w)
  show ?case
  proof (cases "MAX_NODES \<le> wk_nodes w")
    case True
    then show ?thesis using "1.prems" by (auto simp: walk.simps paid_def walker_ok_def later_def)
  next
    case False
    then show ?thesis using "1.IH" [OF False "1.prems"(1) _ refl] "1.prems"(2) by (simp add: walk.simps)
  qed
next
  case (2 limit fr i kvs depth ancestors w)
  show ?case
  proof (cases "barred i depth ancestors w")
    case None
    obtain vs where vs: "walk_items limit fr kvs depth (i # ancestors) [] w = (vs, w')" "jv = kvlist vs"
      using "2.prems"(4) None by (auto split: prod.splits)
    have "walker_ok w" using "2.prems" by (auto simp: walker_ok_def)
    then have "paid w w' (sum_list (map jnodes vs))" by (rule "2.IH" [OF None _ vs(1)])
    then show ?thesis using "2.prems"(3) by (rule paid_container) (simp add: vs(2))
  next
    case (Some r)
    then show ?thesis using paid_barred [of i depth ancestors w] "2.prems" by (cases r) simp
  qed
next
  case (3 limit fr i xs depth ancestors w)
  show ?case
  proof (cases "barred i depth ancestors w")
    case None
    obtain vs where vs: "walk_list limit fr xs depth (i # ancestors) w = (vs, w')" "jv = arrayval vs"
      using "3.prems"(4) None by (auto split: prod.splits)
    have "walker_ok w" using "3.prems" by (auto simp: walker_ok_def)
    then have "paid w w' (sum_list (map jnodes vs))" by (rule "3.IH" [OF None _ vs(1)])
    then show ?thesis using "3.prems"(3) by (rule paid_container) (simp add: vs(2))
  next
    case (Some r)
    then show ?thesis using paid_barred [of i depth ancestors w] "3.prems" by (cases r) simp
  qed
next
  case (4 limit fr i xs depth ancestors w)
  show ?case
  proof (cases "barred i depth ancestors w")
    case None
    obtain vs where vs: "walk_list limit fr xs depth (i # ancestors) w = (vs, w')" "jv = arrayval vs"
      using "4.prems"(4) None by (auto split: prod.splits)
    have "walker_ok w" using "4.prems" by (auto simp: walker_ok_def)
    then have "paid w w' (sum_list (map jnodes vs))" by (rule "4.IH" [OF None _ vs(1)])
    then show ?thesis using "4.prems"(3) by (rule paid_container) (simp add: vs(2))
  next
    case (Some r)
    then show ?thesis using paid_barred [of i depth ancestors w] "4.prems" by (cases r) simp
  qed
next
  case (7 limit fr k v kvs depth ancestors seen w)
  show ?case
  proof (cases "wk_stopped w")
    case True
    then show ?thesis using "7.prems" by (auto simp: paid_def)
  next
    case False
    obtain key w1 where key: "walker_key limit fr k w = (key, w1)" by (rule prod.exhaust)
    have w1: "walker_ok w1" "later w w1" "wk_nodes w1 = wk_nodes w" "wk_stopped w1 = wk_stopped w"
      using key_walker [OF key] "7.prems"(1) by (auto simp: later_def)
    show ?thesis
    proof (cases "key = None \<or> the key \<in> set seen")
      case True
      have "walk_items limit fr kvs depth ancestors seen (w1\<lparr>wk_dropped := Suc (wk_dropped w1)\<rparr>) = (js, w')"
        using "7.prems"(2) False key True by simp
      then have "paid (w1\<lparr>wk_dropped := Suc (wk_dropped w1)\<rparr>) w' (sum_list (map jnodes js))"
        using "7.IH"(1) [OF False key [symmetric] refl True] w1(1) by simp
      then show ?thesis using w1 by (auto simp: paid_def later_def)
    next
      case fresh: False
      obtain jv w2 where jv: "walk limit fr v (Suc depth) ancestors w1 = (jv, w2)" by (rule prod.exhaust)
      obtain rest where rest: "walk_items limit fr kvs depth ancestors (the key # seen) w2 = (rest, w')" "js = keyvalue (the key) jv # rest"
        using "7.prems"(2) False key fresh jv by (auto split: prod.splits)
      have first: "paid w1 w2 (jnodes jv + 2)" by (rule "7.IH"(2) [OF False key [symmetric] refl fresh w1(1) jv])
      then have tail: "paid w2 w' (sum_list (map jnodes rest))"
        using "7.IH"(3) [OF False key [symmetric] refl fresh jv [symmetric] refl _ rest(1)] by (simp add: paid_def)
      have "rest = []" if "wk_stopped w2" using rest(1) that by (cases kvs) (auto split: prod.splits)
      then show ?thesis using paid_from [OF w1(2,3) paid_seq [OF first tail]] by (simp add: rest(2) add.commute add.left_commute)
    qed
  qed
next
  case (9 limit fr v vs depth ancestors w)
  show ?case
  proof (cases "wk_stopped w")
    case True
    then show ?thesis using "9.prems" by (auto simp: paid_def)
  next
    case False
    obtain jv w2 where jv: "walk limit fr v (Suc depth) ancestors w = (jv, w2)" by (rule prod.exhaust)
    obtain rest where rest: "walk_list limit fr vs depth ancestors w2 = (rest, w')" "js = jv # rest"
      using "9.prems"(2) False jv by (auto split: prod.splits)
    have first: "paid w w2 (jnodes jv + 2)" by (rule "9.IH"(1) [OF False "9.prems"(1) jv])
    then have tail: "paid w2 w' (sum_list (map jnodes rest))"
      using "9.IH"(2) [OF False jv [symmetric] refl _ rest(1)] by (simp add: paid_def)
    have "rest = []" if "wk_stopped w2" using rest(1) that by (cases vs) (auto split: prod.splits)
    then have "paid w w' (jnodes jv + 2 + sum_list (map jnodes rest))" using paid_seq [OF first tail] by simp
    then show ?thesis by (simp add: rest(2) paid_def)
  qed
qed (auto simp del: add_2_eq_Suc add_2_eq_Suc' intro: paid_scalar paid_refl)

subsection \<open>Attributes\<close>

text \<open>A list of attributes: strict values, nested and paid for as the walk does.\<close>

definition attrs_cost :: "(pystr \<times> jval) list \<Rightarrow> nat" where
  "attrs_cost ps = sum_list (map (\<lambda>(k, v). jnodes v + 2) ps)"

definition attrs_ok :: "(pystr \<times> jval) list \<Rightarrow> bool" where
  "attrs_ok ps \<longleftrightarrow> (\<forall>(k, v) \<in> set ps. sound k \<and> strict v \<and> within_objects (objects_at 1) v)"

lemma attrs_ok_simps [simp]: "attrs_ok []" "attrs_ok ((k, v) # ps) \<longleftrightarrow> sound k \<and> strict v \<and> within_objects (objects_at 1) v \<and> attrs_ok ps"
  "attrs_ok (ps @ qs) \<longleftrightarrow> attrs_ok ps \<and> attrs_ok qs"
  by (auto simp: attrs_ok_def)

lemma attrs_cost_simps [simp]: "attrs_cost [] = 0" "attrs_cost ((k, v) # ps) = jnodes v + 2 + attrs_cost ps" "attrs_cost (ps @ qs) = attrs_cost ps + attrs_cost qs"
  by (simp_all add: attrs_cost_def)

lemma walk_root:
  assumes "\<And>r. sound (fr r)" and "walk limit fr v 1 [] w = (jv, w')"
  shows "strict jv" and "within_objects (objects_at 1) jv"
  using strict_walk(1) [of fr limit v 1 "[]" w] within_walk(1) [of 1 limit fr v "[]" w] assms by simp_all

lemma walk_pairs_ok:
  assumes "\<And>r. sound (fr r)" and "\<forall>(k, v) \<in> set ps. sound k" and "walker_ok w" and "walk_pairs limit fr ps w = (attrs, w')"
  shows "attrs_ok attrs \<and> map fst attrs = map fst ps \<and> walker_ok w' \<and> later w w' \<and> attrs_cost attrs + 5 * wk_nodes w \<le> 5 * wk_nodes w' + 4 * length ps"
  using assms(2-)
proof (induction ps arbitrary: w attrs)
  case (Cons p ps)
  obtain k v where p: "p = (k, v)" by (rule prod.exhaust)
  obtain jv w1 where jv: "walk limit fr v 1 [] w = (jv, w1)" by (rule prod.exhaust)
  obtain rest where rest: "walk_pairs limit fr ps w1 = (rest, w')" "attrs = (k, jv) # rest"
    using Cons.prems(3) jv p by (auto split: prod.splits)
  have paid: "paid w w1 (jnodes jv + 2)" by (rule walk_paid(1) [OF Cons.prems(2) jv])
  have "attrs_ok rest \<and> map fst rest = map fst ps \<and> walker_ok w' \<and> later w1 w' \<and> attrs_cost rest + 5 * wk_nodes w1 \<le> 5 * wk_nodes w' + 4 * length ps"
    using Cons.IH [OF _ _ rest(1)] Cons.prems(1) paid by (simp add: paid_def)
  then show ?case using walk_root [OF assms(1) jv] Cons.prems(1) paid later_trans [of w w1 w'] rest(2) p
    by (auto simp: paid_def simp del: within_objects.simps split: if_splits)
qed simp

lemma user_loop_ok:
  assumes "\<And>r. sound (fr r)" and "walker_ok w" and "user_loop limit fr items lk seen w = (attrs, w')"
  shows "attrs_ok attrs \<and> paid w w' (attrs_cost attrs) \<and> distinct (map fst attrs) \<and> set (map fst attrs) \<inter> (set lk \<union> set seen) = {} \<and>
    (\<forall>k \<in> set (map fst attrs). \<not> starts_with k RESERVED_PREFIX \<and> k \<noteq> []) \<and>
    (\<not> wk_stopped w' \<longrightarrow> length items \<le> length attrs + (wk_dropped w' - wk_dropped w))"
  using assms(2-)
proof (induction items arbitrary: seen w attrs)
  case Nil
  then show ?case by (simp add: paid_refl)
next
  case (Cons p items)
  obtain k v where p: "p = (k, v)" by (rule prod.exhaust)
  obtain key w1 where key: "walker_key limit fr k w = (key, w1)" by (rule prod.exhaust)
  have w1: "walker_ok w1" "later w w1" "wk_nodes w1 = wk_nodes w" "wk_stopped w1 = wk_stopped w" "wk_dropped w1 = wk_dropped w"
    using key_walker [OF key] Cons.prems(1) by (auto simp: later_def)
  let ?skip = "key = None \<or> starts_with (the key) RESERVED_PREFIX \<or> the key \<in> set lk \<or> the key \<in> set seen"
  show ?case
  proof (cases "wk_stopped w")
    case True
    then show ?thesis using Cons.prems p by (auto simp: paid_refl)
  next
    case going: False
    show ?thesis
    proof (cases ?skip)
      case True
      let ?w = "w1\<lparr>wk_dropped := Suc (wk_dropped w1)\<rparr>"
      have loop: "user_loop limit fr items lk seen ?w = (attrs, w')" using Cons.prems(2) going key True p by simp
      have "later w ?w" using w1(2) by (auto simp: later_def)
      then show ?thesis using Cons.IH [OF _ loop] w1 paid_from [of w ?w w' "attrs_cost attrs"] by (auto simp: paid_def later_def)
    next
      case fresh: False
      then obtain name where name: "key = Some name" by (cases key) auto
      obtain jv w2 where jv: "walk limit fr v 1 [] w1 = (jv, w2)" by (rule prod.exhaust)
      obtain rest where rest: "user_loop limit fr items lk (name # seen) w2 = (rest, w')" "attrs = (name, jv) # rest"
        using Cons.prems(2) going key fresh jv p name by (auto split: prod.splits)
      have first: "paid w1 w2 (jnodes jv + 2)" by (rule walk_paid(1) [OF w1(1) jv])
      then have ih: "attrs_ok rest" "paid w2 w' (attrs_cost rest)" "distinct (map fst rest)" "set (map fst rest) \<inter> (set lk \<union> set (name # seen)) = {}"
        "\<forall>k \<in> set (map fst rest). \<not> starts_with k RESERVED_PREFIX \<and> k \<noteq> []"
        "\<not> wk_stopped w' \<longrightarrow> length items \<le> length rest + (wk_dropped w' - wk_dropped w2)"
        using Cons.IH [OF _ rest(1)] by (simp_all add: paid_def)
      have "rest = []" if "wk_stopped w2" using rest(1) that by (cases items) (auto split: prod.splits)
      then have "paid w w' (attrs_cost attrs)" using paid_from [OF w1(2,3) paid_seq [OF first ih(2)]] rest(2) by simp
      moreover have "wk_dropped w \<le> wk_dropped w2" using first w1(5) by (simp add: paid_def later_def)
      ultimately show ?thesis using ih fresh name sound_key [OF assms(1) key [unfolded name]] walk_root [OF assms(1) jv] rest(2)
        by (auto simp del: within_objects.simps)
    qed
  qed
qed

lemma later_walk: "walker_ok w \<Longrightarrow> walk limit fr v depth ancestors w = (jv, w') \<Longrightarrow> walker_ok w' \<and> later w w'"
  using walk_paid(1) by (simp add: paid_def)

text \<open>The keys of the library's own attributes, which occur at most once.\<close>

definition library_names :: "pystr list" where
  "library_names = [str ''code.function.name'', str ''log.record.uid'', RESERVED_PREFIX @ str ''parent_span_id'', TRUNCATED,
     RESERVED_PREFIX @ str ''duration_ms'', RESERVED_PREFIX @ str ''status'', str ''exception.type'', str ''exception.message'', str ''exception.stacktrace'']"

lemma subseq_distinct: "subseq xs ys \<Longrightarrow> distinct ys \<Longrightarrow> distinct xs"
proof (induction rule: list_emb.induct)
  case (list_emb_Cons2 x y xs ys)
  then show ?case using list_emb_set [of "(=)" xs ys] by auto
qed auto

lemma text_pair_names: "subseq (map fst (text_pair key v)) [key]" "length (text_pair key v) \<le> 1"
  by (auto simp: text_pair_def split: option.split)

lemma duration_pair_names: "subseq (map fst (duration_pair v)) [RESERVED_PREFIX @ str ''duration_ms'']" "length (duration_pair v) \<le> 1"
  by (auto simp: duration_pair_def split: option.split oval.split)

lemma opt_pair_names: "subseq (map fst (opt_pair key t)) [str key]" "length (opt_pair key t) \<le> 1"
  by (auto simp: opt_pair_def split: option.split)

lemma text_keys: "map fst (map (\<lambda>(key, t). (key, OStr t)) ps) = map fst ps"
  by (induction ps) auto

lemma error_pairs_names: "subseq (map fst (error_pairs v)) [str ''exception.type'', str ''exception.message'', str ''exception.stacktrace'']"
  "length (error_pairs v) \<le> 3"
proof -
  have "subseq (map fst (exception_reads error)) ([str ''exception.type''] @ [str ''exception.message''] @ [str ''exception.stacktrace''])" for error
    unfolding exception_reads_def map_append by (intro list_emb_append_mono opt_pair_names)
  then show names: "subseq (map fst (error_pairs v)) [str ''exception.type'', str ''exception.message'', str ''exception.stacktrace'']"
    by (auto simp: error_pairs_def text_keys simp del: map_map split: option.split oval.split)
  show "length (error_pairs v) \<le> 3" using list_emb_length [OF names] by simp
qed

lemma library_names_distinct: "distinct library_names" "\<forall>k \<in> set library_names. sound k"
  by (simp_all add: library_names_def TRUNCATED_def RESERVED_PREFIX_def str_def is_surrogate_def)

lemma library_attributes_ok:
  assumes "\<And>r. sound (fr r)" and "walker_ok w" and "library_attributes limit fr event w = (attrs, w')"
  shows "attrs_ok attrs" and "subseq (map fst attrs) library_names" and "TRUNCATED \<in> set (map fst attrs)" and "walker_ok w'" and "later w w'"
    and "attrs_cost attrs + 5 * wk_nodes w \<le> 5 * wk_nodes w' + 36"
proof -
  define p1 where "p1 = text_pair (str ''code.function.name'') (o_read event ''function'') @
    text_pair (str ''log.record.uid'') (o_read event ''log_id'') @ text_pair (RESERVED_PREFIX @ str ''parent_span_id'') (o_read event ''parent_span_id'')"
  define p2 where "p2 = duration_pair (o_read event ''duration_ms'') @ text_pair (RESERVED_PREFIX @ str ''status'') (o_read event ''status'') @
    error_pairs (o_read event ''error'')"
  obtain a1 w1 where a1: "walk_pairs limit fr p1 w = (a1, w1)" by (rule prod.exhaust)
  obtain a2 where a2: "walk_pairs limit fr p2 w1 = (a2, w')" "attrs = a1 @ [(TRUNCATED, JDict [(str ''boolValue'', JBool True)])] @ a2"
    using assms(3) a1 by (auto simp: library_attributes_def p1_def p2_def split: prod.splits)
  have n1: "subseq (map fst p1) ([str ''code.function.name''] @ [str ''log.record.uid''] @ [RESERVED_PREFIX @ str ''parent_span_id''])"
    unfolding p1_def map_append by (intro list_emb_append_mono text_pair_names)
  have n2: "subseq (map fst p2) ([RESERVED_PREFIX @ str ''duration_ms''] @ [RESERVED_PREFIX @ str ''status''] @
      [str ''exception.type'', str ''exception.message'', str ''exception.stacktrace''])"
    unfolding p2_def map_append by (intro list_emb_append_mono text_pair_names duration_pair_names error_pairs_names)
  have len: "length p1 \<le> 3" "length p2 \<le> 5" using list_emb_length [OF n1] list_emb_length [OF n2] by simp_all
  have names: "subseq (map fst p1 @ [TRUNCATED] @ map fst p2) library_names"
    using list_emb_append_mono [OF n1 list_emb_append_mono [OF subseq_order.refl [of "[TRUNCATED]"] n2]] by (simp add: library_names_def)
  have "sound k" if "k \<in> set (map fst p1 @ [TRUNCATED] @ map fst p2)" for k
    using list_emb_set [OF names that] library_names_distinct(2) by blast
  then have "\<forall>k \<in> fst ` set p1. sound k" "\<forall>k \<in> fst ` set p2. sound k" and trunc: "sound TRUNCATED" by simp_all
  then have keys: "\<forall>(k, v) \<in> set p1. sound k" "\<forall>(k, v) \<in> set p2. sound k" by (auto simp: case_prod_beta)
  note ok1 = walk_pairs_ok [OF assms(1) keys(1) assms(2) a1]
  then have ok2: "attrs_ok a2 \<and> map fst a2 = map fst p2 \<and> walker_ok w' \<and> later w1 w' \<and> attrs_cost a2 + 5 * wk_nodes w1 \<le> 5 * wk_nodes w' + 4 * length p2"
    using walk_pairs_ok [OF assms(1) keys(2) _ a2(1)] by blast
  show "attrs_ok attrs" using ok1 ok2 trunc by (simp add: a2(2) sound_str)
  show "subseq (map fst attrs) library_names" "TRUNCATED \<in> set (map fst attrs)" using names ok1 ok2 by (simp_all add: a2(2))
  show "walker_ok w'" "later w w'" using ok1 ok2 later_trans by blast+
  show "attrs_cost attrs + 5 * wk_nodes w \<le> 5 * wk_nodes w' + 36" using ok1 ok2 len by (simp add: a2(2))
qed

subsection \<open>The record\<close>

lemma reserved_truncated: "starts_with TRUNCATED RESERVED_PREFIX"
  by (simp add: starts_with_def TRUNCATED_def)

definition opt_cost :: "jval option \<Rightarrow> nat" where
  "opt_cost v = (case v of None \<Rightarrow> 0 | Some j \<Rightarrow> jnodes j)"

definition opt_ok :: "jval option \<Rightarrow> bool" where
  "opt_ok v \<longleftrightarrow> (case v of None \<Rightarrow> True | Some j \<Rightarrow> strict j \<and> within_objects (objects_at 1) j)"

lemma message_ok:
  assumes "\<And>r. sound (fr r)" and "walker_ok w"
    and "(case message of None \<Rightarrow> (None, w) | Some m \<Rightarrow> (let (jv, w) = walk limit fr m 1 [] w in (Some jv, w))) = (body, w')"
  shows "opt_ok body \<and> walker_ok w' \<and> later w w' \<and> opt_cost body + 5 * wk_nodes w \<le> 5 * wk_nodes w' + 4"
proof (cases message)
  case (Some m)
  obtain jv where jv: "walk limit fr m 1 [] w = (jv, w')" "body = Some jv" using assms(3) Some by (auto split: prod.splits)
  then show ?thesis using walk_root [OF assms(1) jv(1)] walk_paid(1) [OF assms(2) jv(1)]
    by (auto simp: opt_ok_def opt_cost_def paid_def simp del: within_objects.simps split: if_splits)
qed (use assms in \<open>auto simp: opt_ok_def opt_cost_def\<close>)

lemma user_attributes_ok:
  assumes "\<And>r. sound (fr r)" and "walker_ok w" and "user_attributes limit fr given lk w = (attrs, w')"
  shows "attrs_ok attrs \<and> paid w w' (attrs_cost attrs) \<and> distinct (map fst attrs) \<and> set (map fst attrs) \<inter> set lk = {} \<and>
    (\<forall>k \<in> set (map fst attrs). \<not> starts_with k RESERVED_PREFIX \<and> k \<noteq> [])"
  using assms user_loop_ok [OF assms(1,2), where seen = "[]" and limit = limit and lk = lk and attrs = attrs and w' = w']
  by (auto simp: user_attributes_def paid_refl split: option.splits oval.splits)

lemma record_parts_ok:
  assumes "\<And>r. sound (fr r)"
  shows "attrs_ok (op_attributes (record_parts limit fr event)) \<and> opt_ok (op_body (record_parts limit fr event)) \<and>
      walker_ok (op_walker (record_parts limit fr event)) \<and>
      attrs_cost (op_attributes (record_parts limit fr event)) + opt_cost (op_body (record_parts limit fr event)) \<le> 5 * MAX_NODES + 44"
    and "\<exists>library user. op_attributes (record_parts limit fr event) = library @ user \<and> subseq (map fst library) library_names \<and>
      TRUNCATED \<in> set (map fst library) \<and> (\<forall>k \<in> set (map fst user). \<not> starts_with k RESERVED_PREFIX \<and> k \<noteq> [])"
    and "distinct (map fst (op_attributes (record_parts limit fr event)))"
proof -
  define w0 where "w0 = mark_if (case level_text event of Some (_, repaired) \<Rightarrow> repaired | None \<Rightarrow> False) new_walker"
  have w0: "walker_ok w0" "wk_nodes w0 = 0" by (simp_all add: w0_def new_walker_def walker_ok_def)
  obtain library w1 where lib: "library_attributes limit fr event w0 = (library, w1)" by (rule prod.exhaust)
  note ok1 = library_attributes_ok [OF assms w0(1) lib]
  obtain body w2 where body: "(case o_read event ''message'' of None \<Rightarrow> (None, w1)
      | Some m \<Rightarrow> (let (jv, w) = walk limit fr m 1 [] w1 in (Some jv, w))) = (body, w2)" by (rule prod.exhaust)
  note ok2 = message_ok [OF assms ok1(4) body]
  define lk where "lk = filter (\<lambda>key. key \<noteq> TRUNCATED) (map fst library)"
  obtain user w3 where user: "user_attributes limit fr (o_read event ''fields'') lk w2 = (user, w3)" by (rule prod.exhaust)
  have w2: "walker_ok w2" using ok2 by blast
  note ok3 = user_attributes_ok [OF assms w2 user]
  have parts: "record_parts limit fr event = \<lparr>op_body = body, op_attributes = library @ user, op_walker = w3\<rparr>"
    using lib body user unfolding record_parts_def Let_def w0_def [symmetric] by (simp add: lk_def Let_def)
  have cost: "attrs_cost user + 5 * wk_nodes w2 \<le> 5 * wk_nodes w3 + 4" "wk_nodes w3 \<le> MAX_NODES"
    using ok3 by (auto simp: paid_def walker_ok_def split: if_splits)
  show "attrs_ok (op_attributes (record_parts limit fr event)) \<and> opt_ok (op_body (record_parts limit fr event)) \<and>
      walker_ok (op_walker (record_parts limit fr event)) \<and>
      attrs_cost (op_attributes (record_parts limit fr event)) + opt_cost (op_body (record_parts limit fr event)) \<le> 5 * MAX_NODES + 44"
    using ok1 ok2 ok3 cost w0(2) by (simp add: parts paid_def)
  show "\<exists>library user. op_attributes (record_parts limit fr event) = library @ user \<and> subseq (map fst library) library_names \<and>
      TRUNCATED \<in> set (map fst library) \<and> (\<forall>k \<in> set (map fst user). \<not> starts_with k RESERVED_PREFIX \<and> k \<noteq> [])"
    using ok1 ok3 parts by (intro exI [of _ library] exI [of _ user]) simp
  have "distinct (map fst library)" using subseq_distinct [OF ok1(2)] library_names_distinct(1) .
  moreover have "k \<notin> set (map fst library)" if "k \<in> set (map fst user)" for k
  proof (cases "k = TRUNCATED")
    case True
    then show ?thesis using that ok3 reserved_truncated by blast
  next
    case False
    moreover have "k \<notin> set lk" using that ok3 by blast
    ultimately show ?thesis by (simp add: lk_def)
  qed
  ultimately show "distinct (map fst (op_attributes (record_parts limit fr event)))" using ok3 unfolding parts by auto
qed

lemma sound_hex_id: "hex_id n v = Some t \<Longrightarrow> sound t \<and> length t = n \<and> set t \<subseteq> set HEX"
proof -
  assume "hex_id n v = Some t"
  then obtain raw where raw: "those (map lower_hex raw) = Some t" "length raw = n"
    by (auto simp: hex_id_def split: option.splits if_splits)
  have "those (map lower_hex raw) = Some t \<Longrightarrow> length t = length raw \<and> set t \<subseteq> set HEX" for raw t
  proof (induction raw arbitrary: t)
    case (Cons c raw)
    obtain d ds where d: "lower_hex c = Some d" "those (map lower_hex raw) = Some ds" "t = d # ds"
      using Cons.prems by (auto split: option.splits)
    have "d \<in> set HEX" using d(1) by (auto simp: lower_hex_def HEX_set split: if_splits)
    then show ?case using Cons.IH [OF d(2)] d(3) by auto
  qed simp
  then have "length t = n" "set t \<subseteq> set HEX" using raw by auto
  then show "sound t \<and> length t = n \<and> set t \<subseteq> set HEX" by (auto simp: sound_def HEX_set is_surrogate_def)
qed

lemma opt_fields:
  "(\<forall>kv \<in> set (opt_field key v). P kv) \<longleftrightarrow> (\<forall>j. v = Some j \<longrightarrow> P (str key, j))"
  "sum_list (map (\<lambda>(k, v). jnodes v) (opt_field key v)) = opt_cost v"
  by (auto simp: opt_field_def opt_cost_def split: option.split)

lemma attrs_cost_filter: "attrs_cost (filter P ps) \<le> attrs_cost ps"
  by (induction ps) auto

lemma attrs_ok_filter: "attrs_ok ps \<Longrightarrow> attrs_ok (filter P ps)"
  by (auto simp: attrs_ok_def)

lemma jnodes_attributes: "sum_list (map (\<lambda>(name, v). jnodes (keyvalue name v)) ps) = attrs_cost ps"
  by (induction ps) auto

definition attribute_list :: "(pystr \<times> jval) list \<Rightarrow> jval option" where
  "attribute_list written = (if written = [] then None else Some (JList (map (\<lambda>(name, v). keyvalue name v) written)))"

lemma attribute_list_ok:
  assumes "attrs_ok written" and "attribute_list written = Some j"
  shows "strict j" and "within_objects 74 j" and "jnodes j = Suc (attrs_cost written)"
proof -
  have j: "j = JList (map (\<lambda>(name, v). keyvalue name v) written)" using assms(2) by (auto simp: attribute_list_def split: if_splits)
  show "strict j" using assms(1) by (auto simp: j attrs_ok_def sound_str)
  show "within_objects 74 j" using assms(1) by (auto simp: j attrs_ok_def MAX_NEST_def)
  show "jnodes j = Suc (attrs_cost written)" using jnodes_attributes [of written] by (simp add: j comp_def case_prod_beta')
qed

definition record_fields :: "nat \<Rightarrow> (rat \<Rightarrow> pystr) \<Rightarrow> (nat \<Rightarrow> nat option) \<Rightarrow> (oval \<times> oval) list \<Rightarrow> (string \<times> jval option) list" where
  "record_fields limit fr dec event =
     (let nanos = map_option JStr (time_unix_nano dec (o_read event ''timestamp''));
          level = map_option fst (level_text event);
          parts = record_parts limit fr event;
          trace_id = hex_id 32 (o_read event ''trace_id'')
      in [(''timeUnixNano'', nanos), (''observedTimeUnixNano'', nanos),
          (''severityNumber'', map_option JInt (Option.bind level severity)), (''severityText'', map_option JStr level),
          (''body'', op_body parts), (''eventName'', map_option JStr (event_name event)),
          (''attributes'', attribute_list (written_attributes event parts)),
          (''droppedAttributesCount'', if wk_dropped (op_walker parts) = 0 then None else Some (JInt (int (wk_dropped (op_walker parts))))),
          (''flags'', map_option (\<lambda>_. JInt 1) trace_id), (''traceId'', map_option JStr trace_id),
          (''spanId'', map_option JStr (hex_id 16 (o_read event ''span_id'')))])"

lemma log_record_fields: "log_record_of limit fr dec event = JDict (concat (map (\<lambda>(key, v). opt_field key v) (record_fields limit fr dec event)))"
  by (simp add: log_record_of_def record_fields_def attribute_list_def Let_def)

definition field_ok :: "jval option \<Rightarrow> bool" where
  "field_ok v \<longleftrightarrow> (\<forall>j. v = Some j \<longrightarrow> strict j \<and> within_objects 74 j)"

lemma field_ok_texts: "(\<And>t. v = Some t \<Longrightarrow> sound t) \<Longrightarrow> field_ok (map_option JStr v)"
  by (auto simp: field_ok_def)

lemma sound_time: "time_unix_nano dec v = Some t \<Longrightarrow> sound t"
  by (auto simp: time_unix_nano_def Let_def split: option.splits list.splits if_splits)

lemma sound_level: "level_text event = Some (t, r) \<Longrightarrow> sound t"
  by (auto simp: level_text_def split: option.splits if_splits dest: sound_text)

lemma record_fields_ok:
  assumes "\<And>r. sound (fr r)"
  shows "\<forall>(key, v) \<in> set (record_fields limit fr dec event). field_ok v \<and> sound (str key)"
    and "sum_list (map (\<lambda>(key, v). opt_cost v) (record_fields limit fr dec event)) \<le> 5 * MAX_NODES + 54"
proof -
  define parts where "parts = record_parts limit fr event"
  note ok = record_parts_ok(1) [of fr limit event, OF assms, folded parts_def]
  have attrs: "attrs_ok (written_attributes event parts)" "attrs_cost (written_attributes event parts) \<le> attrs_cost (op_attributes parts)"
    using ok attrs_ok_filter attrs_cost_filter by (simp_all add: written_attributes_def Let_def)
  have a: "field_ok (attribute_list (written_attributes event parts))" using attribute_list_ok [OF attrs(1)] by (simp add: field_ok_def)
  have b: "field_ok (op_body parts)" using ok within_objects_mono [of "objects_at 1" _ 74]
    by (auto simp: opt_ok_def field_ok_def MAX_NEST_def split: option.splits)
  have c: "field_ok (map_option JInt i)" "field_ok (map_option (\<lambda>_. JInt 1) t)" "field_ok (if P then None else Some (JInt n))"
    for i t P n by (auto simp: field_ok_def)
  have d: "field_ok (map_option JStr (time_unix_nano dec (o_read event ''timestamp'')))" by (rule field_ok_texts) (rule sound_time)
  have e: "field_ok (map_option JStr (map_option fst (level_text event)))" using sound_level by (intro field_ok_texts) auto
  have f: "field_ok (map_option JStr (event_name event))"
    by (rule field_ok_texts) (auto simp: event_name_def dest: sound_text split: option.splits if_splits)
  have g: "field_ok (map_option JStr (hex_id n v))" for n v using sound_hex_id by (intro field_ok_texts) blast
  show "\<forall>(key, v) \<in> set (record_fields limit fr dec event). field_ok v \<and> sound (str key)"
    unfolding record_fields_def Let_def parts_def [symmetric]
    by (simp add: a b c d e f g sound_str del: option.map_comp map_option_eq_Some)
  have cost: "opt_cost (attribute_list (written_attributes event parts)) \<le> Suc (attrs_cost (op_attributes parts))"
    using attribute_list_ok(3) [OF attrs(1)] attrs(2) by (auto simp: opt_cost_def split: option.split)
  have one: "opt_cost (map_option JStr t) \<le> 1" "opt_cost (map_option JInt i) \<le> 1" "opt_cost (map_option (\<lambda>_. JInt 1) t) \<le> 1"
    "opt_cost (if P then None else Some (JInt n)) \<le> 1" for t i P n
    by (auto simp: opt_cost_def split: option.split)
  have "sum_list (map (\<lambda>(key, v). opt_cost v) (record_fields limit fr dec event)) \<le>
      9 + opt_cost (op_body parts) + opt_cost (attribute_list (written_attributes event parts))"
    unfolding record_fields_def Let_def parts_def [symmetric]
    using one(1) [of "time_unix_nano dec (o_read event ''timestamp'')"] one(1) [of "map_option fst (level_text event)"]
      one(1) [of "event_name event"] one(1) [of "hex_id 32 (o_read event ''trace_id'')"] one(1) [of "hex_id 16 (o_read event ''span_id'')"]
      one(2) [of "Option.bind (map_option fst (level_text event)) severity"] one(3) [of "hex_id 32 (o_read event ''trace_id'')"]
      one(4) [of "wk_dropped (op_walker parts) = 0" "int (wk_dropped (op_walker parts))"]
    by (simp del: option.map_comp)
  then show "sum_list (map (\<lambda>(key, v). opt_cost v) (record_fields limit fr dec event)) \<le> 5 * MAX_NODES + 54"
    using cost ok by simp
qed

lemma log_record_ok:
  assumes "\<And>r. sound (fr r)"
  shows "strict (log_record limit fr dec event)" and "within_objects 75 (log_record limit fr dec event)"
    and "jnodes (log_record limit fr dec event) \<le> 5 * MAX_NODES + 55"
proof -
  have "strict (log_record_of limit fr dec items) \<and> within_objects 75 (log_record_of limit fr dec items) \<and>
      jnodes (log_record_of limit fr dec items) \<le> 5 * MAX_NODES + 55" for items
  proof -
    let ?fs = "record_fields limit fr dec items"
    have fields: "field_ok v \<and> sound (str key)" if "(key, v) \<in> set ?fs" for key v
      using record_fields_ok(1) [of fr limit dec items, OF assms] that by blast
    have "sound (fst kv) \<and> strict (snd kv) \<and> within_objects 74 (snd kv)" if "kv \<in> set (concat (map (\<lambda>(key, v). opt_field key v) ?fs))" for kv
    proof -
      obtain key v where v: "(key, v) \<in> set ?fs" "kv \<in> set (opt_field key v)" using \<open>kv \<in> _\<close> by auto
      then obtain j where j: "v = Some j" "kv = (str key, j)" by (auto simp: opt_field_def split: option.splits)
      then show ?thesis using fields [OF v(1)] by (simp add: field_ok_def)
    qed
    then have "strict (log_record_of limit fr dec items)" "within_objects 75 (log_record_of limit fr dec items)"
      unfolding log_record_fields by simp_all
    moreover have "sum_list (map (\<lambda>(k, v). jnodes v) (concat (map (\<lambda>(key, v). opt_field key v) fs))) = sum_list (map (\<lambda>(key, v). opt_cost v) fs)" for fs
      by (induction fs) (auto simp: opt_fields(2))
    ultimately show ?thesis using record_fields_ok(2) [of fr limit dec items, OF assms] by (simp add: log_record_fields)
  qed
  then show "strict (log_record limit fr dec event)" "within_objects 75 (log_record limit fr dec event)"
    "jnodes (log_record limit fr dec event) \<le> 5 * MAX_NODES + 55"
    by (simp_all add: log_record_def split: oval.split)
qed

text \<open>C30. An OTLP record can always be sent: for every event, with foreign objects, cycles, lone
  surrogates and floats that are not finite anywhere in it, the record renders as strict JSON and
  its text encodes, so no event is lost to rendering.\<close>

theorem otel_record_renders:
  assumes "\<And>r. sound (fr r)"
  shows "\<exists>t. otel_dumps fr (log_record limit fr dec event) = Inr t \<and> encode_utf8 t = Inr (utf8 t)"
  by (rule strict_dumps [OF assms log_record_ok(1)]) (rule assms)

theorem otel_record_renders_witness:
  "\<exists>t. otel_dumps (\<lambda>_. str ''0.5'') (log_record 0 (\<lambda>_. str ''0.5'') (\<lambda>_. None) (ODict 0 [(OStr (str ''message''), OFloat NaN)])) = Inr t \<and>
     encode_utf8 t = Inr (utf8 t)"
  by (rule otel_record_renders) (simp add: sound_str)

text \<open>C31. Whatever the event holds, its record nests at most 75 messages, which with the three of the
  envelope stays below the 100 that a protobuf JSON parser accepts, and holds at most five values
  for each of the walker's 131072 nodes beside a constant: a shared subtree that would expand
  exponentially is cut.\<close>

theorem otel_record_bounded:
  assumes "\<And>r. sound (fr r)"
  shows "within_objects 75 (log_record limit fr dec event) \<and> jnodes (log_record limit fr dec event) \<le> 5 * MAX_NODES + 55"
  using log_record_ok(2,3) [of fr limit dec event, OF assms] by blast

theorem otel_record_bounded_witness:
  "within_objects 75 (log_record 0 (\<lambda>_. str ''0.5'') (\<lambda>_. None) (ODict 0 [(OStr (str ''message''), OList 1 [OInt 7])])) \<and>
   jnodes (log_record 0 (\<lambda>_. str ''0.5'') (\<lambda>_. None) (ODict 0 [(OStr (str ''message''), OList 1 [OInt 7])])) \<le> 5 * MAX_NODES + 55"
  by (rule otel_record_bounded) (simp add: sound_str)

text \<open>The attributes of a record have distinct keys; a key under the reserved prefix is one of the
  library's own, never a user's field; and the record carries the truncation flag exactly when the
  event was truncated or the walker had to change something, stopping early included.\<close>

theorem otel_attributes_unique:
  assumes "\<And>r. sound (fr r)" and "ws = written_attributes event (record_parts limit fr event)" and "w = op_walker (record_parts limit fr event)"
  shows "distinct (map fst ws) \<and>
    (\<forall>k \<in> set (map fst ws). starts_with k RESERVED_PREFIX \<longrightarrow> k \<in> set library_names) \<and>
    (TRUNCATED \<in> set (map fst ws) \<longleftrightarrow> o_read event ''truncated'' = Some (OBool True) \<or> wk_marked w) \<and>
    (wk_stopped w \<longrightarrow> wk_marked w)"
proof -
  define parts where "parts = record_parts limit fr event"
  note ok = record_parts_ok [of fr limit event, OF assms(1), folded parts_def]
  obtain library user where split: "op_attributes parts = library @ user" "subseq (map fst library) library_names"
      "TRUNCATED \<in> set (map fst library)" "\<forall>k \<in> set (map fst user). \<not> starts_with k RESERVED_PREFIX \<and> k \<noteq> []" using ok(2) by blast
  let ?flag = "o_read event ''truncated'' = Some (OBool True) \<or> wk_marked w"
  have ws: "ws = filter (\<lambda>(name, _). name \<noteq> TRUNCATED \<or> ?flag) (op_attributes parts)"
    by (simp add: assms(2,3) written_attributes_def Let_def parts_def)
  have keys: "map fst (filter (\<lambda>(name, _). P name) ps) = filter P (map fst ps)" for P and ps :: "(pystr \<times> jval) list"
    by (induction ps) auto
  have map_ws: "map fst ws = filter (\<lambda>name. name \<noteq> TRUNCATED \<or> ?flag) (map fst (op_attributes parts))" unfolding ws by (rule keys)
  have "k \<in> set library_names" if "k \<in> set (map fst (op_attributes parts))" "starts_with k RESERVED_PREFIX" for k
    using that split(1,4) list_emb_set [OF split(2)] by auto
  then have "\<forall>k \<in> set (map fst ws). starts_with k RESERVED_PREFIX \<longrightarrow> k \<in> set library_names" unfolding map_ws set_filter by blast
  moreover have "distinct (map fst ws)" unfolding map_ws using ok(3) by (rule distinct_filter)
  moreover have "TRUNCATED \<in> set (map fst ws) \<longleftrightarrow> ?flag" using split(1,3) unfolding map_ws set_filter by auto
  moreover have "wk_stopped w \<longrightarrow> wk_marked w" using ok(1) by (simp add: assms(3) parts_def walker_ok_def)
  ultimately show ?thesis by blast
qed

theorem otel_attributes_unique_witness:
  "distinct (map fst (written_attributes [(OStr (str ''fields''), ODict 1 [(OStr (str ''a''), OInt 1)])]
     (record_parts 0 (\<lambda>_. []) [(OStr (str ''fields''), ODict 1 [(OStr (str ''a''), OInt 1)])])))"
  using otel_attributes_unique [of "\<lambda>_. []" _ "[(OStr (str ''fields''), ODict 1 [(OStr (str ''a''), OInt 1)])]" 0, OF _ refl refl] by simp

subsection \<open>What a request adds around its records\<close>

lemma sum_dict_set:
  fixes f :: "'k \<times> 'v \<Rightarrow> nat"
  shows "sum_list (map f (dict_set k v d)) + (case dict_get d k of None \<Rightarrow> 0 | Some v0 \<Rightarrow> f (k, v0)) = sum_list (map f d) + f (k, v)"
  by (induction d) (auto split: option.splits)

text \<open>Adding to a group costs what the value costs in it.\<close>

lemma group_add_cost:
  fixes f :: "'k \<times> 'h \<times> 'v list \<Rightarrow> nat"
  assumes "\<And>h0 vs. f (k, h0, vs @ [v]) \<le> f (k, h0, vs) + n" and "f (k, h, [v]) \<le> n"
  shows "sum_list (map f (group_add k h v d)) \<le> sum_list (map f d) + n"
proof (cases "dict_get d k")
  case None
  then show ?thesis using sum_dict_set [of f k "(h, [v])" d] assms(2) by (simp add: group_add_def)
next
  case (Some g)
  then show ?thesis using sum_dict_set [of f k "(fst g, snd g @ [v])" d] assms(1) [of "fst g" "snd g"]
    by (cases g) (simp add: group_add_def)
qed

lemma fold_group_cost:
  fixes f :: "'k \<times> 'h \<times> 'v list \<Rightarrow> nat"
  assumes "\<And>x h0 vs. x \<in> set xs \<Longrightarrow> f (key x, h0, vs @ [val x]) \<le> f (key x, h0, vs) + cost x"
    and "\<And>x. x \<in> set xs \<Longrightarrow> f (key x, head x, [val x]) \<le> cost x"
  shows "sum_list (map f (fold (\<lambda>x. group_add (key x) (head x) (val x)) xs d)) \<le> sum_list (map f d) + sum_list (map cost xs)"
  using assms
proof (induction xs arbitrary: d)
  case (Cons x xs)
  have "sum_list (map f (group_add (key x) (head x) (val x) d)) \<le> sum_list (map f d) + cost x"
    using Cons.prems by (intro group_add_cost) simp_all
  moreover have "sum_list (map f (fold (\<lambda>x. group_add (key x) (head x) (val x)) xs (group_add (key x) (head x) (val x) d))) \<le>
      sum_list (map f (group_add (key x) (head x) (val x) d)) + sum_list (map cost xs)" using Cons.prems by (intro Cons.IH) simp_all
  ultimately show ?case by simp
qed simp

text \<open>What holds of all keys, heads and values holds in every group.\<close>

definition group_all :: "('k \<Rightarrow> 'h \<Rightarrow> bool) \<Rightarrow> ('v \<Rightarrow> bool) \<Rightarrow> 'k \<times> 'h \<times> 'v list \<Rightarrow> bool" where
  "group_all K V g \<longleftrightarrow> K (fst g) (fst (snd g)) \<and> (\<forall>v \<in> set (snd (snd g)). V v)"

lemma group_add_all:
  assumes "\<forall>g \<in> set d. group_all K V g" and "K k h" and "V v"
  shows "\<forall>g \<in> set (group_add k h v d). group_all K V g"
proof (cases "dict_get d k")
  case None
  have "group_all K V (k, h, [v])" using assms by (simp add: group_all_def)
  then show ?thesis using None assms(1) set_dict_set [of k "(h, [v])" d] by (auto simp: group_add_def)
next
  case (Some g)
  then have "(k, g) \<in> set d" by (simp add: dict_get_def map_of_SomeD)
  then have "group_all K V (k, fst g, snd g @ [v])" using assms(1,3) by (fastforce simp: group_all_def)
  then show ?thesis using Some assms(1) set_dict_set [of k "(fst g, snd g @ [v])" d] by (cases g) (auto simp: group_add_def)
qed

lemma fold_group_all:
  assumes "\<forall>x \<in> set xs. K (key x) (head x) \<and> V (val x)" and "\<forall>g \<in> set d. group_all K V g"
  shows "\<forall>g \<in> set (fold (\<lambda>x. group_add (key x) (head x) (val x)) xs d). group_all K V g"
  using assms
proof (induction xs arbitrary: d)
  case (Cons x xs)
  then have "\<forall>g \<in> set (group_add (key x) (head x) (val x) d). group_all K V g" by (intro group_add_all) simp_all
  then show ?case using Cons.IH Cons.prems(1) by simp
qed simp

lemma join_size: "c < 128 \<Longrightarrow> utf8_size (join_with c ps) \<le> sum_list (map (\<lambda>p. Suc (utf8_size p)) ps)"
  by (induction c ps rule: join_with.induct) (auto simp: utf8_size_def utf8_char_def)

lemma join_size_strict: "c < 128 \<Longrightarrow> ps \<noteq> [] \<Longrightarrow> utf8_size (join_with c ps) < sum_list (map (\<lambda>p. Suc (utf8_size p)) ps)"
  by (induction c ps rule: join_with.induct) (auto simp: utf8_size_def utf8_char_def)

lemma join_size_Cons: "c < 128 \<Longrightarrow> utf8_size (join_with c (ps @ [p])) \<le> utf8_size (join_with c ps) + Suc (utf8_size p)"
  by (induction c ps rule: join_with.induct) (auto simp: utf8_size_def utf8_char_def)

definition group_size :: "pystr \<Rightarrow> resource_key \<times> unit \<times> pystr list \<Rightarrow> nat" where
  "group_size scope_version g = Suc (utf8_size (otel_group (fst g) (snd (snd g)) (scope_json scope_version) schema_json))"

lemma otel_group_size:
  "utf8_size (otel_group key records scope schema_url) = utf8_size (otel_group key [] scope schema_url) + utf8_size (join_with 44 records)"
  by (cases key) (simp add: otel_group_def Let_def utf8_size_def)

lemma otel_framing_eq: "otel_framing key scope_version = utf8_size (otel_group key [] (scope_json scope_version) schema_json)"
  using otel_group_size [of key "[[]]" "scope_json scope_version" schema_json]
  by (simp add: otel_framing_def request_body_def request_groups_def group_add_def utf8_size_def)

definition charged :: "pystr \<Rightarrow> resource_key \<times> pystr \<Rightarrow> nat" where
  "charged scope_version r = utf8_size (snd r) + 1 + otel_framing (fst r) scope_version"

lemma request_body_size:
  "utf8_size (request_body records scope_version) \<le>
     sum_list (map (charged scope_version) records) + utf8_size (request_body [] scope_version)"
proof -
  let ?groups = "request_groups records"
  let ?part = "\<lambda>(key, _, items). otel_group key items (scope_json scope_version) schema_json"
  have groups: "?groups = fold (\<lambda>r. group_add (fst r) () (snd r)) records []" by (simp add: request_groups_def case_prod_beta')
  have "utf8_size (request_body records scope_version) = utf8_size (request_body [] scope_version) + utf8_size (join_with 44 (map ?part ?groups))"
    by (simp add: request_body_def request_groups_def utf8_size_def)
  also have "utf8_size (join_with 44 (map ?part ?groups)) \<le> sum_list (map (group_size scope_version) ?groups)"
    using join_size [of 44 "map ?part ?groups"] by (simp add: group_size_def [abs_def] comp_def case_prod_beta')
  also have "\<dots> \<le> sum_list (map (group_size scope_version) []) + sum_list (map (charged scope_version) records)"
    unfolding groups
  proof (rule fold_group_cost)
    fix r h0 vs
    show "group_size scope_version (fst r, h0, vs @ [snd r]) \<le> group_size scope_version (fst r, h0, vs) + charged scope_version r"
      using join_size_Cons [of 44 vs "snd r"] otel_group_size [of "fst r" "vs @ [snd r]"] otel_group_size [of "fst r" vs]
      by (simp add: group_size_def charged_def)
    show "group_size scope_version (fst r, (), [snd r]) \<le> charged scope_version r"
      using otel_group_size [of "fst r" "[snd r]"] by (simp add: group_size_def charged_def otel_framing_eq)
  qed
  finally show ?thesis by simp
qed

definition sound_stamp :: "resource_key \<Rightarrow> bool" where
  "sound_stamp key \<longleftrightarrow> (\<forall>t. t \<in> set_option (fst key) \<union> set_option (fst (snd key)) \<union> set_option (snd (snd key)) \<longrightarrow> sound t)"

lemma sound_resource_key: "sound_stamp (resource_key event)"
  by (auto simp: sound_stamp_def resource_key_def Let_def split: oval.split dest: sound_text)

lemma sound_group:
  assumes "sound_stamp key" and "\<forall>t \<in> set records. sound t" and "sound scope" and "sound schema_url"
  shows "sound (otel_group key records scope schema_url)"
proof -
  obtain a b c where key: "key = (a, b, c)" by (metis prod.exhaust)
  define attributes where "attributes = concat (map (\<lambda>(name, stamp). case stamp of None \<Rightarrow> [] | Some t \<Rightarrow> [keyvalue (str name) (string_value t)])
      [(''service.name'', a), (''service.version'', b), (''deployment.environment.name'', c)])"
  have "strict (JDict [(str ''attributes'', JList attributes)])"
    using assms(1) by (auto simp: attributes_def key sound_stamp_def sound_str split: option.splits)
  then have "sound (texts_json (JDict [(str ''attributes'', JList attributes)]))" using sound_compact [of "\<lambda>_. []"] by (simp del: compact.simps strict.simps)
  then show ?thesis using assms(2-4) unfolding key otel_group_def Let_def prod.case attributes_def [symmetric]
    by (simp add: sound_str sound_join is_surrogate_def del: compact.simps)
qed

lemma sound_request_body:
  assumes "\<forall>r \<in> set records. sound_stamp (fst r) \<and> sound (snd r)" and "sound scope_version"
  shows "sound (request_body records scope_version)"
proof -
  have json: "sound (scope_json scope_version)" "sound schema_json"
    using assms(2) by (simp_all add: scope_json_def schema_json_def sound_str sound_dumps sound_join is_surrogate_def)
  have groups: "request_groups records = fold (\<lambda>r. group_add (fst r) () (snd r)) records []" by (simp add: request_groups_def case_prod_beta')
  have "\<forall>g \<in> set (request_groups records). group_all (\<lambda>k _. sound_stamp k) sound g"
    unfolding groups using assms(1) by (intro fold_group_all) simp_all
  then have "\<forall>t \<in> set (map (\<lambda>(key, _, items). otel_group key items (scope_json scope_version) schema_json) (request_groups records)). sound t"
    using sound_group [OF _ _ json] by (auto simp: group_all_def)
  then show ?thesis by (simp add: request_body_def sound_str sound_join is_surrogate_def)
qed

end
