(* ===== verification/Http_Destinations.thy ===== *)
theory Http_Destinations
  imports Http_Sink Otel "HOL-Library.List_Lexorder"
begin

text \<open>
  The destinations built on \<^verbatim>\<open>sinks/http.py\<close>: the plain HTTP sink in its two body formats, New Relic,
  Splunk, Datadog, Elasticsearch (and OpenSearch), Honeycomb, Loki and OTLP. Each is its hooks:
  how an event is rendered and measured, how a request is put together, and how a response is
  read. What they use of the standard library that is not modelled (\<^verbatim>\<open>json.loads\<close>, \<^verbatim>\<open>str\<close> of a value,
  \<^verbatim>\<open>datetime.fromisoformat\<close>, the clock) is the record \<open>stdlib\<close>. All of them keep the contract of the
  hooks, so the accounting and the limits of the loop hold for every one.
\<close>

subsection \<open>The standard library\<close>

text \<open>A parsed timestamp: with an offset, its microseconds since the epoch; without one, the local
  time's seconds since the epoch, which may not exist, and its microseconds.\<close>

datatype iso_time = Aware int | Naive "int result" nat

record stdlib =
  py_dumps :: "jval \<Rightarrow> pystr result"
  py_loads :: "bytes \<Rightarrow> jval result"
  py_loads_texts :: "bytes \<Rightarrow> jval result"
  py_str :: "jval \<Rightarrow> pystr result"
  py_fromisoformat :: "pystr \<Rightarrow> iso_time result"
  py_timestamp :: "iso_time \<Rightarrow> flt result"
  py_now :: flt
  py_now_ns :: int
  py_float_repr :: "rat \<Rightarrow> pystr"
  py_decimal :: "nat \<Rightarrow> nat option"
  py_int_limit :: nat

subsection \<open>\<^verbatim>\<open>sinks/_time.py\<close>\<close>

definition absorb_value_error :: "'a \<Rightarrow> 'a result \<Rightarrow> 'a result" where
  "absorb_value_error dflt r = (if r = Inl ValueError then Inr dflt else r)"

definition epoch_seconds :: "stdlib \<Rightarrow> jval option \<Rightarrow> flt result" where
  "epoch_seconds lib timestamp =
     (case timestamp of
        Some (JStr t) \<Rightarrow>
          absorb_value_error (py_now lib)
            (case py_fromisoformat lib t of Inl e \<Rightarrow> Inl e | Inr parsed \<Rightarrow> py_timestamp lib parsed)
      | _ \<Rightarrow> Inr (py_now lib))"

definition epoch_nanos :: "stdlib \<Rightarrow> jval option \<Rightarrow> int result" where
  "epoch_nanos lib timestamp =
     (case timestamp of
        Some (JStr t) \<Rightarrow>
          absorb_value_error (py_now_ns lib)
            (case py_fromisoformat lib t of
               Inl e \<Rightarrow> Inl e
             | Inr (Aware micros) \<Rightarrow> Inr (micros * 1000)
             | Inr (Naive seconds micro) \<Rightarrow> map_sum id (\<lambda>s. s * 1000000000 + int micro * 1000) seconds)
      | _ \<Rightarrow> Inr (py_now_ns lib))"

subsection \<open>The plain sink\<close>

definition plain_item_size :: "pystr \<Rightarrow> event \<Rightarrow> nat result" where
  "plain_item_size rendered ev = map_sum id (\<lambda>b. length b + 1) (encode_utf8 rendered)"

definition plain_body :: "bool \<Rightarrow> http_item list \<Rightarrow> pystr" where
  "plain_body json_array items =
     (if json_array then [91] @ join_with 44 (map hi_rendered items) @ [93]
      else concat (map (\<lambda>it. hi_rendered it @ [10]) items))"

definition plain_reserve :: "bool \<Rightarrow> nat" where
  "plain_reserve json_array = (if json_array then 1 else 0)"

definition plain_retryable :: "nat \<Rightarrow> bool" where
  "plain_retryable status \<longleftrightarrow> status = 429 \<or> 500 \<le> status \<and> status < 600"

definition plain_hooks :: "stdlib \<Rightarrow> bool \<Rightarrow> hooks" where
  "plain_hooks lib json_array =
     \<lparr>hk_render = \<lambda>ev. py_dumps lib (JDict ev), hk_item_size = plain_item_size, hk_body = plain_body json_array,
      hk_handle = \<lambda>payload items c. (True, c), hk_retryable = plain_retryable, hk_response_limit = None,
      hk_reserve = plain_reserve json_array, hk_event_bytes = None\<rparr>"

subsection \<open>Splunk and Datadog\<close>

definition splunk_envelope :: "stdlib \<Rightarrow> pystr option \<Rightarrow> pystr \<Rightarrow> event \<Rightarrow> event result" where
  "splunk_envelope lib host source ev =
     (case epoch_seconds lib (dict_get ev (str ''timestamp'')) of
        Inl e \<Rightarrow> Inl e
      | Inr time \<Rightarrow> Inr ([(str ''event'', JDict ev), (str ''time'', JFloat time), (str ''source'', JStr source)] @
                         (case host of None \<Rightarrow> [] | Some h \<Rightarrow> [(str ''host'', JStr h)])))"

definition splunk_hooks :: "stdlib \<Rightarrow> bool \<Rightarrow> pystr option \<Rightarrow> pystr \<Rightarrow> hooks" where
  "splunk_hooks lib json_array host source =
     (plain_hooks lib json_array)
       \<lparr>hk_render := \<lambda>ev. (case splunk_envelope lib host source ev of Inl e \<Rightarrow> Inl e | Inr env \<Rightarrow> py_dumps lib (JDict env)),
        hk_body := \<lambda>items. concat (map hi_rendered items)\<rparr>"

definition datadog_entry :: "pystr option \<Rightarrow> pystr option \<Rightarrow> event \<Rightarrow> event" where
  "datadog_entry svc ddtags ev =
     (let entry = dict_set (str ''ddsource'') (JStr (str ''log-foundry'')) ev;
          entry = (case svc of None \<Rightarrow> entry | Some s \<Rightarrow> dict_set (str ''service'') (JStr s) entry)
      in case ddtags of None \<Rightarrow> entry | Some t \<Rightarrow> dict_set (str ''ddtags'') (JStr t) entry)"

definition datadog_hooks :: "stdlib \<Rightarrow> pystr option \<Rightarrow> pystr option \<Rightarrow> hooks" where
  "datadog_hooks lib svc ddtags =
     (plain_hooks lib True)\<lparr>hk_render := \<lambda>ev. py_dumps lib (JDict (datadog_entry svc ddtags ev)), hk_event_bytes := Some 1000000\<rparr>"

subsection \<open>Elasticsearch\<close>

abbreviation C_ITEM_ERRORS :: pystr where "C_ITEM_ERRORS \<equiv> str ''item_errors''"

fun is_dict :: "jval \<Rightarrow> bool" where
  "is_dict (JDict _) = True"
| "is_dict _ = False"

definition usable_dicts :: "jval option \<Rightarrow> event list" where
  "usable_dicts results =
     (case results of
        Some (JList js) \<Rightarrow> if list_all is_dict js then map (\<lambda>j. case j of JDict d \<Rightarrow> d | _ \<Rightarrow> []) js else []
      | _ \<Rightarrow> [])"

definition has_error :: "event \<Rightarrow> bool" where
  "has_error item =
     list_ex (\<lambda>(_, r). case r of JDict d \<Rightarrow> (case dict_get d (str ''error'') of Some v \<Rightarrow> truthy v | None \<Rightarrow> False) | _ \<Rightarrow> False) item"

text \<open>True when every item of the request was rejected.\<close>

definition parse_bulk_response :: "stdlib \<Rightarrow> bytes \<Rightarrow> nat \<Rightarrow> counters \<Rightarrow> bool \<times> counters" where
  "parse_bulk_response lib payload sent c =
     (case py_loads lib payload of
        Inr (JDict data) \<Rightarrow>
          if \<not> (case dict_get data (str ''errors'') of Some v \<Rightarrow> truthy v | None \<Rightarrow> False) then (False, c)
          else let items = usable_dicts (dict_get data (str ''items''));
                   errors = length (filter has_error items)
               in if length items \<noteq> sent \<or> errors = 0 then (False, bump C_UNADJUDICATED sent c)
                  else (errors = sent, bump C_ITEM_ERRORS errors c)
      | _ \<Rightarrow> (False, bump C_UNADJUDICATED sent c))"

definition elasticsearch_hooks :: "stdlib \<Rightarrow> pystr \<Rightarrow> hooks" where
  "elasticsearch_hooks lib index =
     (plain_hooks lib False)
       \<lparr>hk_render := \<lambda>ev. (case py_dumps lib (JDict [(str ''index'', JDict [(str ''_index'', JStr index)])]) of
          Inl e \<Rightarrow> Inl e
        | Inr action \<Rightarrow> map_sum id (\<lambda>body. action @ [10] @ body) (py_dumps lib (JDict ev))),
        hk_handle := \<lambda>payload items c. (let (none, c) = parse_bulk_response lib payload (length items) c in (\<not> none, c))\<rparr>"

definition elasticsearch_losses :: "counters \<Rightarrow> sink_losses" where
  "elasticsearch_losses c =
     \<lparr>sl_dropped = c C_OVERSIZED + c C_UNRENDERABLE, sl_failed = c C_FAILED + c C_ITEM_ERRORS + c C_UNADJUDICATED\<rparr>"

subsection \<open>Honeycomb\<close>

abbreviation C_REJECTED_EVENTS :: pystr where "C_REJECTED_EVENTS \<equiv> str ''rejected_events''"

definition honeycomb_status :: "event \<Rightarrow> int option" where
  "honeycomb_status entry = (case dict_get entry (str ''status'') of Some (JInt i) \<Rightarrow> Some i | _ \<Rightarrow> None)"

definition honeycomb_handle :: "stdlib \<Rightarrow> bytes \<Rightarrow> http_item list \<Rightarrow> counters \<Rightarrow> bool \<times> counters" where
  "honeycomb_handle lib payload items c =
     (let sent = length items
      in case py_loads lib payload of
           Inl _ \<Rightarrow> (True, bump C_UNADJUDICATED sent c)
         | Inr data \<Rightarrow>
             (let entries = usable_dicts (Some data);
                  statuses = map the (filter (\<lambda>s. s \<noteq> None) (map honeycomb_status entries))
              in if length statuses \<noteq> sent \<or> length entries \<noteq> sent then (True, bump C_UNADJUDICATED sent c)
                 else let rejected = length (filter (\<lambda>s. \<not> (200 \<le> s \<and> s < 300)) statuses)
                      in (rejected < sent, bump C_REJECTED_EVENTS rejected c)))"

definition honeycomb_hooks :: "stdlib \<Rightarrow> hooks" where
  "honeycomb_hooks lib =
     (plain_hooks lib True)\<lparr>hk_render := \<lambda>ev. py_dumps lib (JDict [(str ''data'', JDict ev)]), hk_handle := honeycomb_handle lib\<rparr>"

definition honeycomb_losses :: "counters \<Rightarrow> sink_losses" where
  "honeycomb_losses c =
     \<lparr>sl_dropped = c C_OVERSIZED + c C_UNRENDERABLE, sl_failed = c C_FAILED + c C_REJECTED_EVENTS + c C_UNADJUDICATED\<rparr>"

subsection \<open>Loki\<close>

text \<open>The labels of an event, in the order of the configured names.\<close>

fun labels_of :: "stdlib \<Rightarrow> pystr list \<Rightarrow> event \<Rightarrow> (pystr, jval) dict \<Rightarrow> (pystr, jval) dict result" where
  "labels_of lib [] ev acc = Inr acc"
| "labels_of lib (key # keys) ev acc =
     (case dict_get ev key of
        None \<Rightarrow> labels_of lib keys ev acc
      | Some v \<Rightarrow> (case py_str lib v of Inl e \<Rightarrow> Inl e | Inr t \<Rightarrow> labels_of lib keys ev (dict_set key (JStr t) acc)))"

definition loki_labels :: "stdlib \<Rightarrow> pystr list \<Rightarrow> event \<Rightarrow> (pystr, jval) dict result" where
  "loki_labels lib keys ev = labels_of lib keys ev []"

definition loki_render :: "stdlib \<Rightarrow> event \<Rightarrow> pystr result" where
  "loki_render lib ev =
     (case epoch_nanos lib (dict_get ev (str ''timestamp'')) of
        Inl e \<Rightarrow> Inl e
      | Inr nanos \<Rightarrow>
          (case py_dumps lib (JDict ev) of Inl e \<Rightarrow> Inl e | Inr line \<Rightarrow> py_dumps lib (JList [JStr (int_repr nanos), JStr line])))"

definition loki_item_size :: "stdlib \<Rightarrow> pystr list \<Rightarrow> pystr \<Rightarrow> event \<Rightarrow> nat result" where
  "loki_item_size lib keys rendered ev =
     (case loki_labels lib keys ev of
        Inl e \<Rightarrow> Inl e
      | Inr labels \<Rightarrow>
          (case py_dumps lib (JDict labels) of
             Inl e \<Rightarrow> Inl e
           | Inr text \<Rightarrow>
               (case encode_utf8 rendered of
                  Inl e \<Rightarrow> Inl e
                | Inr r \<Rightarrow> map_sum id (\<lambda>l. length r + length l + 24) (encode_utf8 text))))"

text \<open>The labels of an item that was measured were read and rendered then; both can be again.\<close>

definition item_labels :: "stdlib \<Rightarrow> pystr list \<Rightarrow> http_item \<Rightarrow> (pystr, jval) dict" where
  "item_labels lib keys it = (case loki_labels lib keys (hi_event it) of Inr d \<Rightarrow> d | Inl _ \<Rightarrow> [])"

definition labels_text :: "stdlib \<Rightarrow> (pystr, jval) dict \<Rightarrow> pystr" where
  "labels_text lib labels = (case py_dumps lib (JDict labels) of Inr t \<Rightarrow> t | Inl _ \<Rightarrow> [])"

definition loki_part :: "stdlib \<Rightarrow> (pystr, jval) dict \<times> (pystr, jval) dict \<times> pystr list \<Rightarrow> pystr" where
  \<open>loki_part lib g = str ''{"stream":'' @ labels_text lib (fst (snd g)) @ str '',"values":['' @ join_with 44 (snd (snd g)) @ str '']}''\<close>

definition loki_body :: "stdlib \<Rightarrow> pystr list \<Rightarrow> http_item list \<Rightarrow> pystr" where
  \<open>loki_body lib keys items =
     (let streams = fold (\<lambda>it. group_add (sort_key fst (item_labels lib keys it)) (item_labels lib keys it) (hi_rendered it)) items []
      in str ''{"streams":['' @ join_with 44 (map (loki_part lib) streams) @ str '']}'')\<close>

definition loki_hooks :: "stdlib \<Rightarrow> pystr list \<Rightarrow> hooks" where
  "loki_hooks lib keys =
     (plain_hooks lib True)
       \<lparr>hk_render := loki_render lib, hk_item_size := loki_item_size lib keys, hk_body := loki_body lib keys, hk_reserve := 14\<rparr>"

subsection \<open>OTLP\<close>

abbreviation C_REJECTED_RECORDS :: pystr where "C_REJECTED_RECORDS \<equiv> str ''rejected_records''"

text \<open>An event as the object graph the walker reads: a tree, so the depth serves as identity.\<close>

fun oval_of :: "nat \<Rightarrow> jval \<Rightarrow> oval" where
  "oval_of d JNull = ONone"
| "oval_of d (JBool b) = OBool b"
| "oval_of d (JInt i) = OInt i"
| "oval_of d (JFloat f) = OFloat f"
| "oval_of d (JStr t) = OStr t"
| "oval_of d (JList js) = OList d (map (oval_of (Suc d)) js)"
| "oval_of d (JDict kvs) = ODict d (map (\<lambda>(k, v). (OStr k, oval_of (Suc d) v)) kvs)"

definition MAX_COUNT_DIGITS :: nat where "MAX_COUNT_DIGITS = 19"

fun ascii_number :: "pystr \<Rightarrow> nat \<Rightarrow> nat option" where
  "ascii_number [] n = Some n"
| "ascii_number (c # t) n = (if 48 \<le> c \<and> c \<le> 57 then ascii_number t (10 * n + (c - 48)) else None)"

definition rejected_count :: "jval \<Rightarrow> nat option" where
  "rejected_count count =
     (case count of
        JStr t \<Rightarrow>
          if t = [] \<or> MAX_COUNT_DIGITS < length t then None
          else (case ascii_number t 0 of None \<Rightarrow> None | Some n \<Rightarrow> if n \<le> 2 ^ 63 - 1 then Some n else None)
      | _ \<Rightarrow> None)"

definition MAX_RESPONSE_BYTES :: nat where "MAX_RESPONSE_BYTES = 4 * 1024 * 1024"

definition otlp_handle :: "stdlib \<Rightarrow> bytes \<Rightarrow> http_item list \<Rightarrow> counters \<Rightarrow> bool \<times> counters" where
  "otlp_handle lib payload items c =
     (let sent = length items
      in if MAX_RESPONSE_BYTES < length payload then (True, bump C_UNADJUDICATED sent c)
         else case py_loads_texts lib payload of
                Inr (JDict data) \<Rightarrow>
                  (case dict_get data (str ''partialSuccess'') of
                     None \<Rightarrow> (True, c)
                   | Some JNull \<Rightarrow> (True, c)
                   | Some (JDict partial) \<Rightarrow>
                       (case dict_get partial (str ''rejectedLogRecords'') of
                          None \<Rightarrow> (True, c)
                        | Some JNull \<Rightarrow> (True, c)
                        | Some count \<Rightarrow>
                            (case rejected_count count of
                               None \<Rightarrow> (True, bump C_UNADJUDICATED sent c)
                             | Some rejected \<Rightarrow>
                                 if rejected = 0 then (True, c)
                                 else (min rejected sent < sent, bump C_REJECTED_RECORDS (min rejected sent) c)))
                   | Some _ \<Rightarrow> (True, bump C_UNADJUDICATED sent c))
              | _ \<Rightarrow> (True, c))"

definition otlp_record :: "stdlib \<Rightarrow> event \<Rightarrow> jval" where
  "otlp_record lib ev = log_record (py_int_limit lib) (py_float_repr lib) (py_decimal lib) (oval_of 0 (JDict ev))"

definition otlp_item_size :: "stdlib \<Rightarrow> pystr \<Rightarrow> pystr \<Rightarrow> event \<Rightarrow> nat result" where
  "otlp_item_size lib scope rendered ev =
     map_sum id (\<lambda>b. length b + 1 + otel_framing (resource_key (oval_of 0 (JDict ev))) scope) (encode_utf8 rendered)"

definition otlp_body :: "stdlib \<Rightarrow> pystr \<Rightarrow> http_item list \<Rightarrow> pystr" where
  "otlp_body lib scope items =
     request_body (map (\<lambda>it. (resource_key (oval_of 0 (JDict (hi_event it))), hi_rendered it)) items) scope"

definition otlp_hooks :: "stdlib \<Rightarrow> pystr \<Rightarrow> hooks" where
  "otlp_hooks lib scope =
     \<lparr>hk_render = \<lambda>ev. otel_dumps (py_float_repr lib) (otlp_record lib ev), hk_item_size = otlp_item_size lib scope, hk_body = otlp_body lib scope,
      hk_handle = otlp_handle lib, hk_retryable = \<lambda>status. status \<in> {429, 502, 503, 504}, hk_response_limit = Some MAX_RESPONSE_BYTES,
      hk_reserve = utf8_size (request_body [] scope), hk_event_bytes = None\<rparr>"

definition otlp_losses :: "counters \<Rightarrow> sink_losses" where
  "otlp_losses c =
     \<lparr>sl_dropped = c C_OVERSIZED + c C_UNRENDERABLE, sl_failed = c C_FAILED + c C_REJECTED_RECORDS + c C_UNADJUDICATED\<rparr>"

subsection \<open>All of them\<close>

text \<open>The package's version, a text of characters below 256, is the version of the scope.\<close>

datatype platform =
    HttpSink bool
  | NewRelic
  | Splunk bool "pystr option" pystr
  | Datadog "pystr option" "pystr option"
  | Elasticsearch pystr
  | Honeycomb
  | Loki "pystr list"
  | Otlp string

fun hooks_of :: "stdlib \<Rightarrow> platform \<Rightarrow> hooks" where
  "hooks_of lib (HttpSink json_array) = plain_hooks lib json_array"
| "hooks_of lib NewRelic = plain_hooks lib True"
| "hooks_of lib (Splunk json_array host source) = splunk_hooks lib json_array host source"
| "hooks_of lib (Datadog svc ddtags) = datadog_hooks lib svc ddtags"
| "hooks_of lib (Elasticsearch index) = elasticsearch_hooks lib index"
| "hooks_of lib Honeycomb = honeycomb_hooks lib"
| "hooks_of lib (Loki keys) = loki_hooks lib keys"
| "hooks_of lib (Otlp scope) = otlp_hooks lib (str scope)"

text \<open>The class attributes: events and bytes in a request.\<close>

fun request_limits :: "platform \<Rightarrow> nat \<times> nat" where
  "request_limits (HttpSink _) = (DEFAULT_MAX_BATCH_COUNT, DEFAULT_MAX_BATCH_BYTES)"
| "request_limits NewRelic = (1000, 1000000)"
| "request_limits (Splunk _ _ _) = (1000, 1000000)"
| "request_limits (Datadog _ _) = (1000, 5000000)"
| "request_limits (Elasticsearch _) = (1000, 10000000)"
| "request_limits Honeycomb = (1000, 1000000)"
| "request_limits (Loki _) = (1000, 4000000)"
| "request_limits (Otlp _) = (DEFAULT_MAX_BATCH_COUNT, DEFAULT_MAX_BATCH_BYTES)"

subsection \<open>The contract of the hooks\<close>

lemma sizes_le: "(\<And>it. it \<in> set items \<Longrightarrow> f it \<le> hi_size it) \<Longrightarrow> sum_list (map f items) \<le> total_size hi_size items"
  by (induction items) (auto simp: total_size_def intro: add_mono)

lemma plain_faithful:
  "plain_item_size (hi_rendered it) (hi_event it) = Inr (hi_size it) \<Longrightarrow> sound (hi_rendered it) \<and> hi_size it = Suc (utf8_size (hi_rendered it))"
  by (cases "encode_utf8 (hi_rendered it)") (auto simp: plain_item_size_def utf8_size_def dest: encodes_sound)

lemma utf8_size_concat: "utf8_size (concat ts) = sum_list (map utf8_size ts)"
  by (induction ts) (auto simp: utf8_size_def)

lemma sound_concat: "sound (concat ts) \<longleftrightarrow> (\<forall>t \<in> set ts. sound t)"
  by (induction ts) auto

lemma plain_body_ok:
  assumes "items \<noteq> []" and "\<forall>it \<in> set items. plain_item_size (hi_rendered it) (hi_event it) = Inr (hi_size it)"
  shows "sound (plain_body json_array items)" and "utf8_size (plain_body json_array items) \<le> total_size hi_size items + plain_reserve json_array"
proof -
  have it: "sound (hi_rendered it)" "hi_size it = Suc (utf8_size (hi_rendered it))" if "it \<in> set items" for it
    using plain_faithful assms(2) that by blast+
  show "sound (plain_body json_array items)" using it(1) by (auto simp: plain_body_def sound_join sound_concat is_surrogate_def)
  have sizes: "sum_list (map (\<lambda>it. Suc (utf8_size (hi_rendered it))) items) \<le> total_size hi_size items" by (rule sizes_le) (simp add: it)
  show "utf8_size (plain_body json_array items) \<le> total_size hi_size items + plain_reserve json_array"
  proof (cases json_array)
    case False
    then show ?thesis using sizes by (simp add: plain_body_def utf8_size_concat comp_def plain_reserve_def utf8_char_def)
  next
    case True
    have "utf8_size (join_with 44 (map hi_rendered items)) < sum_list (map (\<lambda>it. Suc (utf8_size (hi_rendered it))) items)"
      using join_size_strict [of 44 "map hi_rendered items"] assms(1) by (simp add: comp_def)
    then show ?thesis using True sizes by (simp add: plain_body_def plain_reserve_def utf8_char_def)
  qed
qed

lemma splunk_body_ok:
  assumes "\<forall>it \<in> set items. plain_item_size (hi_rendered it) (hi_event it) = Inr (hi_size it)"
  shows "sound (concat (map hi_rendered items))" and "utf8_size (concat (map hi_rendered items)) \<le> total_size hi_size items"
proof -
  have it: "sound (hi_rendered it)" "hi_size it = Suc (utf8_size (hi_rendered it))" if "it \<in> set items" for it
    using plain_faithful assms that by blast+
  show "sound (concat (map hi_rendered items))" using it(1) by (auto simp: sound_concat)
  show "utf8_size (concat (map hi_rendered items)) \<le> total_size hi_size items"
    unfolding utf8_size_concat map_map comp_def by (rule sizes_le) (simp add: it)
qed

lemma loki_faithful:
  assumes "loki_item_size lib keys (hi_rendered it) (hi_event it) = Inr (hi_size it)"
  shows "sound (hi_rendered it)" and "sound (labels_text lib (item_labels lib keys it))"
    and "hi_size it = utf8_size (hi_rendered it) + utf8_size (labels_text lib (item_labels lib keys it)) + 24"
  using assms
  by (auto simp: loki_item_size_def item_labels_def labels_text_def utf8_size_def encode_utf8_def sound_def split: sum.splits if_splits)

lemma loki_part_size: "utf8_size (loki_part lib (k, labels, values)) = 23 + utf8_size (labels_text lib labels) + utf8_size (join_with 44 values)"
  by (simp add: loki_part_def utf8_size_def str_def utf8_char_def)

lemma loki_body_ok:
  assumes "\<forall>it \<in> set items. loki_item_size lib keys (hi_rendered it) (hi_event it) = Inr (hi_size it)"
  shows "sound (loki_body lib keys items)" and "utf8_size (loki_body lib keys items) \<le> total_size hi_size items + 14"
proof -
  define streams where "streams = fold (\<lambda>it. group_add (sort_key fst (item_labels lib keys it)) (item_labels lib keys it) (hi_rendered it)) items []"
  have "\<forall>g \<in> set streams. group_all (\<lambda>_ labels. sound (labels_text lib labels)) sound g"
    unfolding streams_def using assms loki_faithful by (intro fold_group_all) auto
  then have "\<forall>g \<in> set streams. sound (loki_part lib g)"
    by (auto simp: group_all_def loki_part_def sound_str sound_join is_surrogate_def)
  then show "sound (loki_body lib keys items)"
    by (simp add: loki_body_def streams_def [symmetric] sound_str sound_join is_surrogate_def)
  let ?f = "\<lambda>g. Suc (utf8_size (loki_part lib g))"
  have "sum_list (map ?f streams) \<le> sum_list (map ?f []) + sum_list (map hi_size items)"
    unfolding streams_def
  proof (rule fold_group_cost)
    fix it h0 vs
    assume "it \<in> set items"
    then have it: "hi_size it = utf8_size (hi_rendered it) + utf8_size (labels_text lib (item_labels lib keys it)) + 24"
      using loki_faithful(3) assms by blast
    show "?f (sort_key fst (item_labels lib keys it), h0, vs @ [hi_rendered it]) \<le> ?f (sort_key fst (item_labels lib keys it), h0, vs) + hi_size it"
      using join_size_Cons [of 44 vs "hi_rendered it"] by (simp add: loki_part_size it)
    show "?f (sort_key fst (item_labels lib keys it), item_labels lib keys it, [hi_rendered it]) \<le> hi_size it"
      by (simp add: loki_part_size it)
  qed
  moreover have "utf8_size (join_with 44 (map (loki_part lib) streams)) \<le> sum_list (map ?f streams)"
    using join_size [of 44 "map (loki_part lib) streams"] by (simp add: comp_def)
  moreover have "utf8_size (loki_body lib keys items) = 14 + utf8_size (join_with 44 (map (loki_part lib) streams))"
    by (simp add: loki_body_def streams_def [symmetric] utf8_size_def str_def utf8_char_def)
  ultimately show "utf8_size (loki_body lib keys items) \<le> total_size hi_size items + 14" by (simp add: total_size_def)
qed

lemma sound_char_text: "sound (str s)"
proof -
  have "\<not> is_surrogate (of_char c)" for c :: char using nat_of_char_less_256 [of c] unfolding is_surrogate_def by linarith
  then show ?thesis by (auto simp: sound_def str_def)
qed

lemma otlp_body_ok:
  assumes "\<forall>it \<in> set items. otlp_item_size lib (str scope) (hi_rendered it) (hi_event it) = Inr (hi_size it)"
  shows "sound (otlp_body lib (str scope) items)"
    and "utf8_size (otlp_body lib (str scope) items) \<le> total_size hi_size items + utf8_size (request_body [] (str scope))"
proof -
  let ?key = "\<lambda>it. resource_key (oval_of 0 (JDict (hi_event it)))"
  have it: "sound (hi_rendered it)" "hi_size it = charged (str scope) (?key it, hi_rendered it)" if "it \<in> set items" for it
  proof -
    have "otlp_item_size lib (str scope) (hi_rendered it) (hi_event it) = Inr (hi_size it)" using assms that by blast
    then obtain b where b: "encode_utf8 (hi_rendered it) = Inr b" "hi_size it = length b + 1 + otel_framing (?key it) (str scope)"
      by (cases "encode_utf8 (hi_rendered it)") (auto simp: otlp_item_size_def simp del: oval_of.simps)
    then show "sound (hi_rendered it)" "hi_size it = charged (str scope) (?key it, hi_rendered it)"
      using encodes_sound [OF b(1)] by (simp_all add: charged_def utf8_size_def)
  qed
  show "sound (otlp_body lib (str scope) items)"
    unfolding otlp_body_def by (rule sound_request_body) (use it(1) in \<open>auto simp: sound_resource_key sound_char_text simp del: oval_of.simps\<close>)
  have "sum_list (map (\<lambda>it. charged (str scope) (?key it, hi_rendered it)) items) \<le> total_size hi_size items" by (rule sizes_le) (simp add: it(2))
  then show "utf8_size (otlp_body lib (str scope) items) \<le> total_size hi_size items + utf8_size (request_body [] (str scope))"
    using request_body_size [of "map (\<lambda>it. (?key it, hi_rendered it)) items" "str scope"]
    by (simp add: otlp_body_def comp_def del: oval_of.simps)
qed

text \<open>What each destination counts from the answers it reads.\<close>

fun verdict_of :: "platform \<Rightarrow> counters \<Rightarrow> nat" where
  "verdict_of (Elasticsearch _) c = c C_ITEM_ERRORS + c C_UNADJUDICATED"
| "verdict_of Honeycomb c = c C_REJECTED_EVENTS + c C_UNADJUDICATED"
| "verdict_of (Otlp _) c = c C_REJECTED_RECORDS + c C_UNADJUDICATED"
| "verdict_of _ c = 0"

lemma verdict_names [simp]:
  "C_ITEM_ERRORS \<noteq> C_UNADJUDICATED" "C_REJECTED_EVENTS \<noteq> C_UNADJUDICATED" "C_REJECTED_RECORDS \<noteq> C_UNADJUDICATED"
  "C_UNADJUDICATED \<noteq> C_ITEM_ERRORS" "C_UNADJUDICATED \<noteq> C_REJECTED_EVENTS" "C_UNADJUDICATED \<noteq> C_REJECTED_RECORDS"
  by (simp_all add: str_def)

lemma base_names:
  assumes "n \<in> {C_ITEM_ERRORS, C_REJECTED_EVENTS, C_REJECTED_RECORDS, C_UNADJUDICATED}" and "name \<in> {C_OVERSIZED, C_UNRENDERABLE, C_FAILED}"
  shows "bump n k c name = c name"
proof -
  have "n \<noteq> name" using assms by (auto simp: str_def)
  then show ?thesis by (simp add: bump_def)
qed

lemma parse_bulk_counts:
  assumes "parse_bulk_response lib payload sent c = (none, c')"
  obtains (settled) "\<not> none" "c' = c" | (unknown) "\<not> none" "c' = bump C_UNADJUDICATED sent c"
  | (errors) n where "c' = bump C_ITEM_ERRORS n c" "n \<le> sent" "none \<longleftrightarrow> n = sent"
proof -
  have "length (filter has_error items) \<le> length items" for items by simp
  then show thesis using assms that
    by (auto simp: parse_bulk_response_def Let_def split: sum.splits jval.splits if_splits)
qed

lemma honeycomb_counts:
  assumes "honeycomb_handle lib payload items c = (ok, c')"
  obtains (unknown) "ok" "c' = bump C_UNADJUDICATED (length items) c"
  | (rejected) n where "c' = bump C_REJECTED_EVENTS n c" "n \<le> length items" "ok \<longleftrightarrow> n < length items"
proof (cases "py_loads lib payload")
  case (Inl e)
  then show thesis using assms unknown by (simp add: honeycomb_handle_def)
next
  case (Inr data)
  define statuses where "statuses = map the (filter (\<lambda>s. s \<noteq> None) (map honeycomb_status (usable_dicts (Some data))))"
  define n where "n = length (filter (\<lambda>s. \<not> (200 \<le> s \<and> s < 300)) statuses)"
  show thesis
  proof (cases "length statuses \<noteq> length items \<or> length (usable_dicts (Some data)) \<noteq> length items")
    case True
    then show thesis using assms unknown unfolding honeycomb_handle_def Let_def Inr sum.case statuses_def [symmetric] by simp
  next
    case False
    then have "c' = bump C_REJECTED_EVENTS n c" "ok \<longleftrightarrow> n < length items"
      using assms unfolding honeycomb_handle_def Let_def Inr sum.case statuses_def [symmetric] n_def by simp_all
    moreover have "n \<le> length items" using False length_filter_le [of "\<lambda>s. \<not> (200 \<le> s \<and> s < 300)" statuses] by (simp add: n_def)
    ultimately show thesis using rejected by blast
  qed
qed

lemma otlp_counts:
  assumes "otlp_handle lib payload items c = (ok, c')"
  obtains (settled) "ok" "c' = c" | (unknown) "ok" "c' = bump C_UNADJUDICATED (length items) c"
  | (rejected) n where "c' = bump C_REJECTED_RECORDS n c" "n \<le> length items" "ok \<longleftrightarrow> n < length items"
  using assms by (auto simp: otlp_handle_def Let_def split: sum.splits jval.splits option.splits if_splits)

text \<open>The two halves of the contract, destination by destination.\<close>

lemma hooks_body:
  assumes "items \<noteq> []" and "\<forall>it \<in> set items. faithful_item (hooks_of lib p) it"
  shows "sound (hk_body (hooks_of lib p) items) \<and> utf8_size (hk_body (hooks_of lib p) items) \<le> total_size hi_size items + hk_reserve (hooks_of lib p)"
proof (cases p)
  case (Loki keys)
  then show ?thesis using assms(2) loki_body_ok [of items lib keys] by (simp add: loki_hooks_def plain_hooks_def faithful_item_def)
next
  case (Otlp scope)
  then show ?thesis using assms(2) otlp_body_ok [of items lib scope] by (simp add: otlp_hooks_def faithful_item_def)
next
  case (Splunk json_array host source)
  then have "\<forall>it \<in> set items. plain_item_size (hi_rendered it) (hi_event it) = Inr (hi_size it)"
    using assms(2) by (simp add: splunk_hooks_def plain_hooks_def faithful_item_def)
  then show ?thesis using Splunk splunk_body_ok [of items] by (simp add: splunk_hooks_def trans_le_add1)
next
  case (HttpSink json_array)
  then show ?thesis using assms plain_body_ok [of items json_array] by (simp add: plain_hooks_def faithful_item_def)
next
  case NewRelic
  then show ?thesis using assms plain_body_ok [of items True] by (simp add: plain_hooks_def faithful_item_def)
next
  case (Datadog svc ddtags)
  then show ?thesis using assms plain_body_ok [of items True] by (simp add: datadog_hooks_def plain_hooks_def faithful_item_def)
next
  case (Elasticsearch index)
  then show ?thesis using assms plain_body_ok [of items False] by (simp add: elasticsearch_hooks_def plain_hooks_def faithful_item_def)
next
  case Honeycomb
  then show ?thesis using assms plain_body_ok [of items True] by (simp add: honeycomb_hooks_def plain_hooks_def faithful_item_def)
qed

lemma hooks_handle:
  assumes "hk_handle (hooks_of lib p) payload items c = (ok, c')"
  obtains (settled) "ok" "c' = c" | (unknown) "ok" "c' = bump C_UNADJUDICATED (length items) c" "\<And>c. verdict_of p (bump C_UNADJUDICATED (length items) c) = verdict_of p c + length items"
  | (rejected) name n where "c' = bump name n c" "name \<in> {C_ITEM_ERRORS, C_REJECTED_EVENTS, C_REJECTED_RECORDS}" "n \<le> length items" "\<not> ok \<longrightarrow> n = length items"
      "verdict_of p c' = verdict_of p c + n"
proof (cases p)
  case (Elasticsearch index)
  then have "parse_bulk_response lib payload (length items) c = (\<not> ok, c')"
    using assms by (auto simp: elasticsearch_hooks_def split: prod.splits)
  then show thesis
  proof (cases rule: parse_bulk_counts)
    case (errors n)
    show thesis by (rule rejected [of C_ITEM_ERRORS n]) (use errors Elasticsearch in \<open>auto simp: bump_def\<close>)
  next
    case unknown
    show thesis by (rule that(2)) (use unknown Elasticsearch in \<open>auto simp: bump_def\<close>)
  qed (use settled in simp)
next
  case Honeycomb
  then have "honeycomb_handle lib payload items c = (ok, c')" using assms by (simp add: honeycomb_hooks_def)
  then show thesis
  proof (cases rule: honeycomb_counts)
    case (rejected n)
    show thesis by (rule that(3) [of C_REJECTED_EVENTS n]) (use rejected Honeycomb in \<open>auto simp: bump_def\<close>)
  next
    case unknown
    show thesis by (rule that(2)) (use unknown Honeycomb in \<open>auto simp: bump_def\<close>)
  qed
next
  case (Otlp scope)
  then have "otlp_handle lib payload items c = (ok, c')" using assms by (simp add: otlp_hooks_def)
  then show thesis
  proof (cases rule: otlp_counts)
    case (rejected n)
    show thesis by (rule that(3) [of C_REJECTED_RECORDS n]) (use rejected Otlp in \<open>auto simp: bump_def\<close>)
  next
    case unknown
    show thesis by (rule that(2)) (use unknown Otlp in \<open>auto simp: bump_def\<close>)
  qed (use settled in simp)
qed (use assms settled in \<open>auto simp: plain_hooks_def splunk_hooks_def datadog_hooks_def loki_hooks_def\<close>)

lemma verdict_same:
  assumes "\<And>name. name \<notin> {C_OVERSIZED, C_UNRENDERABLE, C_FAILED} \<Longrightarrow> c' name = c name"
  shows "verdict_of p c' = verdict_of p c"
proof -
  have "n \<notin> {C_OVERSIZED, C_UNRENDERABLE, C_FAILED}" if "n \<in> {C_ITEM_ERRORS, C_REJECTED_EVENTS, C_REJECTED_RECORDS, C_UNADJUDICATED}" for n
    using that by (auto simp: str_def)
  then have "c' n = c n" if "n \<in> {C_ITEM_ERRORS, C_REJECTED_EVENTS, C_REJECTED_RECORDS, C_UNADJUDICATED}" for n using that assms by blast
  then show ?thesis by (cases p) simp_all
qed

interpretation http: http_verdict "hooks_of lib p" "verdict_of p" for lib p
proof unfold_locales
  fix chunk :: "http_item list"
  assume "chunk \<noteq> []" and "\<forall>it \<in> set chunk. faithful_item (hooks_of lib p) it"
  note body = hooks_body [OF this]
  show "encode_utf8 (hk_body (hooks_of lib p) chunk) = Inr (body_bytes (hooks_of lib p) chunk)"
    using sound_encodes body by (simp add: body_bytes_def)
  show "length (body_bytes (hooks_of lib p) chunk) \<le> total_size hi_size chunk + hk_reserve (hooks_of lib p)"
    using body by (simp add: body_bytes_def utf8_size_def)
next
  fix payload chunk c ok c' name
  assume "hk_handle (hooks_of lib p) payload chunk c = (ok, c')" and "name \<in> {C_OVERSIZED, C_UNRENDERABLE, C_FAILED}"
  then show "c' name = c name"
  proof (cases rule: hooks_handle)
    case (rejected n k)
    then show ?thesis using base_names [of n name k c] \<open>name \<in> _\<close> by blast
  qed (use \<open>name \<in> _\<close> base_names [of C_UNADJUDICATED name] in \<open>simp_all\<close>)
next
  fix payload chunk c ok c'
  assume "hk_handle (hooks_of lib p) payload chunk c = (ok, c')"
  then show "verdict_of p c \<le> verdict_of p c' \<and> verdict_of p c' \<le> verdict_of p c + length chunk \<and> (\<not> ok \<longrightarrow> verdict_of p c' = verdict_of p c + length chunk)"
    by (cases rule: hooks_handle) auto
next
  fix c c' :: counters
  assume "\<And>name. name \<notin> {C_OVERSIZED, C_UNRENDERABLE, C_FAILED} \<Longrightarrow> c' name = c name"
  then show "verdict_of p c' = verdict_of p c" by (rule verdict_same)
qed

subsection \<open>What holds for every destination\<close>


text \<open>C29. No destination is sent too much: each request holds at least one event and at most the
  configured number, its text encodes, and its bytes are within the configured limit, or the
  reserve and one byte where the limit is smaller than what an empty request needs; and however the
  destination refuses, an emit makes at most one delivery with its retries for each event and for
  each of the 24 reductions of the budget.\<close>

theorem http_requests_bounded:
  "case http_emit (hooks_of lib p) cfg dest batch c n of (r, c', st) \<Rightarrow>
     hr_calls st \<le> n + (hc_retries cfg + 1) * (length batch + MAX_BUDGET_REDUCTIONS) \<and>
     list_all (\<lambda>chunk. chunk \<noteq> [] \<and> length chunk \<le> max 1 (hc_count cfg) \<and>
       encode_utf8 (hk_body (hooks_of lib p) chunk) = Inr (body_bytes (hooks_of lib p) chunk) \<and>
       length (body_bytes (hooks_of lib p) chunk) \<le> max (hc_bytes cfg) (Suc (hk_reserve (hooks_of lib p)))) (hr_offered st)"
proof -
  obtain r c' st where emit: "http_emit (hooks_of lib p) cfg dest batch c n = (r, c', st)" by (metis prod.exhaust)
  show ?thesis using http.emit_within [OF emit] by (simp add: emit list_all_iff)
qed

text \<open>An OTLP sink renders every event, so it drops one only for its size.\<close>

lemma otlp_renders_all:
  assumes "\<And>r. sound (py_float_repr lib r)"
  shows "\<exists>it. render_item (hooks_of lib (Otlp scope)) ev = Inr it"
proof -
  obtain t where t: "otel_dumps (py_float_repr lib) (otlp_record lib ev) = Inr t" "encode_utf8 t = Inr (utf8 t)"
    using strict_dumps [of "py_float_repr lib" "otlp_record lib ev", OF assms] log_record_ok(1) [of "py_float_repr lib", OF assms]
    unfolding otlp_record_def by blast
  then show ?thesis by (simp add: render_item_def otlp_hooks_def otlp_item_size_def)
qed

end
