(* ===== verification/Http_Checks.thy ===== *)
theory Http_Checks
  imports Http_Destinations "HOL-Library.Sublist"
begin

text \<open>
  What \<^verbatim>\<open>sinks/http.py\<close> checks before a request is ever sent: the URL, the method, the headers and the
  credentials, with the texts of its refusals, and the headers of a request. The parsers of the
  standard library it leans on (\<^verbatim>\<open>urllib.parse\<close>, \<^verbatim>\<open>urllib.request.Request\<close>, the head of
  \<^verbatim>\<open>http.client\<close>) are written out; what comes from tables (Unicode normalisation and case, the
  addresses in brackets, \<^verbatim>\<open>repr\<close>, the texts of their errors) is an argument.
\<close>

subsection \<open>The standard library\<close>

datatype urlerr =
    BadBrackets | BadAddress pystr | BadNetloc pystr | NonnumericPort pystr | UrlControls pystr | MethodControls pystr
  | NotAscii pystr | NotLatin1 pystr | BadHeaderName pystr | BadHeaderValue pystr | NotUtf8 pystr | NotUnpackable

fun urlerr_type :: "urlerr \<Rightarrow> pystr" where
  "urlerr_type (NonnumericPort _) = str ''InvalidURL''"
| "urlerr_type (UrlControls _) = str ''InvalidURL''"
| "urlerr_type (NotAscii _) = str ''UnicodeEncodeError''"
| "urlerr_type (NotLatin1 _) = str ''UnicodeEncodeError''"
| "urlerr_type (NotUtf8 _) = str ''UnicodeEncodeError''"
| "urlerr_type NotUnpackable = str ''TypeError''"
| "urlerr_type _ = str ''ValueError''"

record tables =
  tb_nfkc :: "pystr \<Rightarrow> pystr"
  tb_lower :: "pystr \<Rightarrow> pystr"
  tb_capitalize :: "pystr \<Rightarrow> pystr"
  tb_title :: "pystr \<Rightarrow> pystr"
  tb_int :: "pystr \<Rightarrow> int option"
  tb_address :: "pystr \<Rightarrow> bool"
  tb_repr :: "pystr \<Rightarrow> pystr"
  tb_text :: "urlerr \<Rightarrow> pystr"

definition ascii :: "pystr \<Rightarrow> bool" where "ascii t = list_all (\<lambda>c. c < 128) t"
definition is_alpha :: "nat \<Rightarrow> bool" where "is_alpha c \<longleftrightarrow> 65 \<le> c \<and> c \<le> 90 \<or> 97 \<le> c \<and> c \<le> 122"
definition is_digit :: "nat \<Rightarrow> bool" where "is_digit c \<longleftrightarrow> 48 \<le> c \<and> c \<le> 57"
definition lower1 :: "nat \<Rightarrow> nat" where "lower1 c = (if 65 \<le> c \<and> c \<le> 90 then c + 32 else c)"
definition upper1 :: "nat \<Rightarrow> nat" where "upper1 c = (if 97 \<le> c \<and> c \<le> 122 then c - 32 else c)"

definition nfkc :: "tables \<Rightarrow> pystr \<Rightarrow> pystr" where
  "nfkc T t = (if ascii t then t else tb_nfkc T t)"

definition py_lower :: "tables \<Rightarrow> pystr \<Rightarrow> pystr" where
  "py_lower T t = (if ascii t then map lower1 t else tb_lower T t)"

fun ascii_capitalize :: "pystr \<Rightarrow> pystr" where
  "ascii_capitalize [] = []"
| "ascii_capitalize (c # t) = upper1 c # map lower1 t"

fun ascii_title :: "bool \<Rightarrow> pystr \<Rightarrow> pystr" where
  "ascii_title cased [] = []"
| "ascii_title cased (c # t) = (if cased then lower1 c else upper1 c) # ascii_title (is_alpha c) t"

definition py_capitalize :: "tables \<Rightarrow> pystr \<Rightarrow> pystr" where
  "py_capitalize T t = (if ascii t then ascii_capitalize t else tb_capitalize T t)"

definition py_title :: "tables \<Rightarrow> pystr \<Rightarrow> pystr" where
  "py_title T t = (if ascii t then ascii_title False t else tb_title T t)"

text \<open>\<^verbatim>\<open>int\<close> of a text: plain digits, and what else the tables read (signs, spaces, underscores, other digits).\<close>

definition py_int :: "tables \<Rightarrow> pystr \<Rightarrow> int option" where
  "py_int T t =
     (if t \<noteq> [] \<and> list_all is_digit t \<and> length t \<le> 4300 then Some (fold (\<lambda>c n. 10 * n + int (c - 48)) t 0) else tb_int T t)"

definition unwrap :: "pystr \<Rightarrow> pystr" where
  "unwrap url =
     (let t = strip url;
          t = (if t \<noteq> [] \<and> hd t = 60 \<and> last t = 62 then strip (butlast (tl t)) else t)
      in if take 4 t = str ''URL:'' then strip (drop 4 t) else t)"

definition ends_host :: "nat \<Rightarrow> bool" where "ends_host c \<longleftrightarrow> c = 47 \<or> c = 63 \<or> c = 35"

definition host_run :: "pystr \<Rightarrow> pystr" where "host_run t = takeWhile (\<lambda>c. \<not> ends_host c) t"

definition scheme_char :: "nat \<Rightarrow> bool" where
  "scheme_char c \<longleftrightarrow> is_alpha c \<or> is_digit c \<or> c = 43 \<or> c = 45 \<or> c = 46"

text \<open>What \<^verbatim>\<open>urlsplit\<close> drops before it reads: leading controls and spaces, and tabs and line ends anywhere.\<close>

definition url_view :: "pystr \<Rightarrow> pystr" where
  "url_view t = filter (\<lambda>c. c \<noteq> 9 \<and> c \<noteq> 10 \<and> c \<noteq> 13) (dropWhile (\<lambda>c. c \<le> 32) t)"

definition split_scheme :: "pystr \<Rightarrow> pystr \<times> pystr" where
  "split_scheme v =
     (let pre = takeWhile (\<lambda>c. c \<noteq> 58) v
      in if 58 \<in> set v \<and> pre \<noteq> [] \<and> is_alpha (hd pre) \<and> list_all scheme_char pre then (map lower1 pre, drop (Suc (length pre)) v) else ([], v))"

definition check_netloc :: "tables \<Rightarrow> pystr \<Rightarrow> bool" where
  "check_netloc T netloc \<longleftrightarrow>
     ascii netloc \<or>
     (let n = filter (\<lambda>c. c \<noteq> 64 \<and> c \<noteq> 58 \<and> c \<noteq> 35 \<and> c \<noteq> 63) netloc
      in n = nfkc T n \<or> list_all (\<lambda>c. \<not> ends_host c \<and> c \<noteq> 64 \<and> c \<noteq> 58) (nfkc T n))"

text \<open>\<^verbatim>\<open>urlparse\<close>: the scheme and the netloc, or the error.\<close>

definition url_parse :: "tables \<Rightarrow> pystr \<Rightarrow> urlerr + pystr \<times> pystr" where
  "url_parse T url =
     (let (scheme, rest) = split_scheme (url_view url);
          netloc = (if take 2 rest = [47, 47] then host_run (drop 2 rest) else [])
      in if (91 \<in> set netloc) \<noteq> (93 \<in> set netloc) then Inl BadBrackets
         else let address = takeWhile (\<lambda>c. c \<noteq> 93) (tl (dropWhile (\<lambda>c. c \<noteq> 91) netloc))
              in if 91 \<in> set netloc \<and> \<not> tb_address T address then Inl (BadAddress address)
                 else if \<not> check_netloc T netloc then Inl (BadNetloc netloc)
                 else Inr (scheme, netloc))"

text \<open>\<^verbatim>\<open>Request\<close>: its type, its host and its selector; \<^verbatim>\<open>None\<close> when it raises for want of a type.\<close>

record request =
  rq_type :: pystr
  rq_host :: pystr
  rq_selector :: pystr

definition drop_tag :: "pystr \<Rightarrow> pystr" where
  "drop_tag t = (if 35 \<in> set t then rev (tl (dropWhile (\<lambda>c. c \<noteq> 35) (rev t))) else t)"

definition url_request :: "tables \<Rightarrow> pystr \<Rightarrow> request option" where
  "url_request T url =
     (let t = drop_tag (unwrap url); pre = takeWhile (\<lambda>c. c \<noteq> 47 \<and> c \<noteq> 58) t; rest = drop (length pre) t
      in if pre = [] \<or> rest = [] \<or> hd rest \<noteq> 58 then None
         else let rest = tl rest
              in Some (if take 2 rest = [47, 47]
                       then let host = host_run (drop 2 rest); path = drop (2 + length host) rest
                            in \<lparr>rq_type = py_lower T pre, rq_host = unquote host, rq_selector = (if path \<noteq> [] \<and> hd path \<noteq> 47 then 47 # path else path)\<rparr>
                       else \<lparr>rq_type = py_lower T pre, rq_host = [], rq_selector = rest\<rparr>))"

definition url_controls :: "pystr \<Rightarrow> bool" where "url_controls t \<longleftrightarrow> list_ex (\<lambda>c. c \<le> 32 \<or> c = 127) t"

text \<open>\<^verbatim>\<open>HTTPConnection\<close>: the port after the last colon, if no bracket follows it.\<close>

definition host_port :: "tables \<Rightarrow> pystr \<Rightarrow> urlerr + pystr \<times> int" where
  "host_port T host =
     (let after = rev (takeWhile (\<lambda>c. c \<noteq> 58) (rev host));
          split = (if 58 \<in> set host \<and> 93 \<notin> set after
                   then (if after = [] then Inr 80 else case py_int T after of Some n \<Rightarrow> Inr n | None \<Rightarrow> Inl (NonnumericPort after))
                   else Inr 80);
          name = (if 58 \<in> set host \<and> 93 \<notin> set after then take (length host - length after - 1) host else host);
          name = (if name \<noteq> [] \<and> hd name = 91 \<and> last name = 93 then butlast (tl name) else name)
      in case split of Inl e \<Rightarrow> Inl e | Inr port \<Rightarrow> if url_controls name then Inl (UrlControls name) else Inr (name, port))"

definition put_request :: "pystr \<Rightarrow> pystr \<Rightarrow> urlerr + unit" where
  "put_request verb selector =
     (let path = (if selector = [] then [47] else selector)
      in if list_ex (\<lambda>c. c < 32) verb then Inl (MethodControls verb)
         else if url_controls path then Inl (UrlControls path)
         else if \<not> ascii (verb @ [32] @ path) then Inl (NotAscii (verb @ [32] @ path @ str '' HTTP/1.1''))
         else Inr ())"

definition started_request :: "tables \<Rightarrow> pystr \<Rightarrow> pystr \<Rightarrow> pystr \<Rightarrow> urlerr + int" where
  "started_request T host verb selector =
     (case host_port T host of
        Inl e \<Rightarrow> Inl e
      | Inr (_, port) \<Rightarrow> map_sum id (\<lambda>_. port) (put_request verb selector))"

fun illegal_value :: "pystr \<Rightarrow> bool" where
  "illegal_value [] = False"
| "illegal_value (c # t) =
     (c = 10 \<and> (t = [] \<or> hd t \<noteq> 32 \<and> hd t \<noteq> 9) \<or>
      c = 13 \<and> (t = [] \<or> hd t \<noteq> 32 \<and> hd t \<noteq> 9 \<and> hd t \<noteq> 10) \<or> illegal_value t)"

definition legal_name :: "pystr \<Rightarrow> bool" where
  "legal_name t \<longleftrightarrow> t \<noteq> [] \<and> hd t \<noteq> 58 \<and> \<not> (9 \<le> hd t \<and> hd t \<le> 13) \<and> hd t \<noteq> 32 \<and> list_all (\<lambda>c. c \<noteq> 58 \<and> c \<noteq> 13 \<and> c \<noteq> 10) (tl t)"

definition put_header :: "pystr \<Rightarrow> pystr \<Rightarrow> urlerr + unit" where
  "put_header name text =
     (if \<not> ascii name then Inl (NotAscii name)
      else if \<not> legal_name name then Inl (BadHeaderName name)
      else if list_ex (\<lambda>c. 256 \<le> c) text then Inl (NotLatin1 text)
      else if illegal_value text then Inl (BadHeaderValue text)
      else Inr ())"

subsection \<open>Where a credential may sit in a URL\<close>

text \<open>The run read as the host: after an optional scheme and an optional \<^verbatim>\<open>//\<close>, up to a delimiter.\<close>

definition authority_run :: "pystr \<Rightarrow> pystr" where
  "authority_run t =
     (let pre = takeWhile (\<lambda>c. c \<noteq> 47 \<and> c \<noteq> 58) t; rest = drop (length pre) t;
          rest = (if rest \<noteq> [] \<and> hd rest = 58 then tl rest else t)
      in host_run (if take 2 rest = [47, 47] then drop 2 rest else rest))"

definition forms :: "tables \<Rightarrow> pystr \<Rightarrow> pystr list" where
  "forms T t = [t, nfkc T t, unquote t, nfkc T (unquote t)]"

definition holds_at :: "tables \<Rightarrow> pystr \<Rightarrow> bool" where
  "holds_at T t \<longleftrightarrow> list_ex (\<lambda>f. 64 \<in> set f) (forms T t)"

definition holds_delimiter :: "tables \<Rightarrow> pystr \<Rightarrow> bool" where
  "holds_delimiter T t \<longleftrightarrow> list_ex (list_ex ends_host) (forms T t)"

definition carries_userinfo :: "tables \<Rightarrow> pystr \<Rightarrow> bool" where
  "carries_userinfo T url \<longleftrightarrow> holds_at T (authority_run (url_view (unwrap url)))"

text \<open>A scheme, \<^verbatim>\<open>://\<close> and the host run: the only part of a URL a refusal may quote.\<close>

definition split_head :: "pystr \<Rightarrow> (pystr \<times> pystr) option" where
  "split_head url =
     (let scheme = takeWhile scheme_char url; rest = drop (length scheme) url
      in if scheme \<noteq> [] \<and> is_alpha (hd scheme) \<and> take 3 rest = [58, 47, 47] then Some (scheme, host_run (drop 3 rest)) else None)"

definition quotable_head :: "tables \<Rightarrow> pystr \<Rightarrow> pystr option" where
  "quotable_head T url =
     (case split_head url of
        None \<Rightarrow> None
      | Some (scheme, host) \<Rightarrow> if holds_at T url \<or> holds_delimiter T host then None else Some (scheme @ [58, 47, 47] @ host))"

subsection \<open>Refusals\<close>

text \<open>A refusal: its text, and the parser's error it chains.\<close>

record refusal =
  rf_text :: pystr
  rf_cause :: "urlerr option"

definition refuse_url :: "tables \<Rightarrow> pystr \<Rightarrow> pystr \<Rightarrow> pystr \<Rightarrow> pystr option \<Rightarrow> urlerr option \<Rightarrow> refusal" where
  "refuse_url T who reason url head err =
     (case head of
        None \<Rightarrow>
          \<lparr>rf_text = who @ [32] @ reason @ str ''; the URL is not quoted, since '' @
             (if holds_at T url then str ''it holds an '@', and what precedes one may be a password''
              else str ''its host cannot be told apart from the rest of it''), rf_cause = None\<rparr>
      | Some h \<Rightarrow>
          if h = url
          then \<lparr>rf_text = who @ [32] @ reason @ (case err of None \<Rightarrow> [] | Some e \<Rightarrow> str '' ('' @ tb_text T e @ str '')'') @ str '': '' @ tb_repr T url, rf_cause = err\<rparr>
          else \<lparr>rf_text = who @ [32] @ reason @ (case err of None \<Rightarrow> [] | Some e \<Rightarrow> str '' ('' @ urlerr_type e @ str '')'') @ str '': '' @ tb_repr T h @
             str ''; only the scheme and host are quoted, since a path, query or fragment may hold a credential'', rf_cause = None\<rparr>)"

definition userinfo_refusal :: "pystr \<Rightarrow> pystr \<Rightarrow> refusal" where
  "userinfo_refusal who credentials =
     \<lparr>rf_text = who @ str '' must not contain a user or password (user:password@host): urllib would send them as part of the host name, not as credentials; authenticate with ''
        @ credentials @ str '' instead'', rf_cause = None\<rparr>"

definition stray_at_refusal :: "pystr \<Rightarrow> refusal" where
  "stray_at_refusal who =
     \<lparr>rf_text = who @ str '' must not hold an '@' outside its host: an '@' there may be a password whose '#', '?' or '/' ended the host early, sending the request to another host; write an '@' that belongs in a path or query as '' @ [39] @ str ''%40'' @ [39], rf_cause = None\<rparr>"

definition MAX_PORT :: int where "MAX_PORT = 65535"

definition allowed_scheme :: "pystr \<Rightarrow> bool" where
  "allowed_scheme t \<longleftrightarrow> t = str ''http'' \<or> t = str ''https''"

text \<open>The outcome of the checks: refused, accepted, or an error of \<^verbatim>\<open>Request\<close> that would quote the URL.\<close>

datatype checked = Refused_by refusal | Accepted pystr | Escapes

definition sendable :: "tables \<Rightarrow> request \<Rightarrow> urlerr + int" where
  "sendable T rq =
     (case started_request T (rq_host rq) (str ''POST'') (rq_selector rq) of
        Inl e \<Rightarrow> Inl e
      | Inr port \<Rightarrow> map_sum id (\<lambda>_. port) (put_header (str ''Host'') (rq_host rq)))"

text \<open>\<open>who\<close> is the owner and the name of the argument, with a space between.\<close>

definition valid_url :: "tables \<Rightarrow> pystr \<Rightarrow> pystr \<Rightarrow> bool \<Rightarrow> pystr \<Rightarrow> checked" where
  "valid_url T who credentials path_at raw =
     (let url = unwrap raw; head = quotable_head T url;
          refuse = (\<lambda>reason err. Refused_by (refuse_url T who reason url head err));
          scheme_reason = (\<lambda>detail. str ''must use http or https'' @ (if head = None then [] else str '', not '' @ detail))
      in if carries_userinfo T url then Refused_by (userinfo_refusal who credentials)
         else if \<not> path_at \<and> 64 \<in> set url then Refused_by (stray_at_refusal who)
         else case url_parse T url of
                Inl e \<Rightarrow> refuse (str ''is not a URL'') (Some e)
              | Inr (scheme, netloc) \<Rightarrow>
                  if \<not> allowed_scheme scheme then refuse (scheme_reason ((if scheme = [] then str ''no'' else scheme) @ str '' scheme'')) None
                  else case url_request T url of
                         None \<Rightarrow> Escapes
                       | Some rq \<Rightarrow>
                           if py_lower T (rq_type rq) \<noteq> scheme then refuse (scheme_reason (tb_repr T (rq_type rq))) None
                           else if netloc = [] \<or> rq_host rq = [] then refuse (str ''names no host'') None
                           else case sendable T rq of
                                  Inl e \<Rightarrow> refuse (str ''cannot be sent over HTTP'') (Some e)
                                | Inr port \<Rightarrow> if \<not> (0 < port \<and> port \<le> MAX_PORT) then refuse (str ''names no usable port'') None else Accepted url)"

definition valid_base_url :: "tables \<Rightarrow> pystr \<Rightarrow> pystr \<Rightarrow> pystr \<Rightarrow> pystr \<Rightarrow> checked" where
  "valid_base_url T who credentials ending url =
     (if carries_userinfo T url then Refused_by (userinfo_refusal who credentials)
      else if 63 \<in> set url \<or> 35 \<in> set url
      then Refused_by \<lparr>rf_text = who @ str '' cannot carry a query or fragment: the '' @ tb_repr T ending @
             str '' this sink appends would land inside it rather than in the path; pass the base URL alone'', rf_cause = None\<rparr>
      else Accepted url)"

definition valid_method :: "tables \<Rightarrow> pystr \<Rightarrow> pystr \<Rightarrow> checked" where
  "valid_method T owner verb =
     (case started_request T (str ''localhost'') verb [47] of
        Inl e \<Rightarrow> Refused_by \<lparr>rf_text = owner @ str '' method cannot be sent over HTTP ('' @ tb_text T e @ str ''): '' @ tb_repr T verb, rf_cause = Some e\<rparr>
      | Inr _ \<Rightarrow> Accepted verb)"

subsection \<open>Headers and credentials\<close>

definition has_crlf :: "pystr \<Rightarrow> bool" where "has_crlf t \<longleftrightarrow> 13 \<in> set t \<or> 10 \<in> set t"

text \<open>The name of a header as \<^verbatim>\<open>urllib\<close> sends it.\<close>

definition wire_name :: "tables \<Rightarrow> pystr \<Rightarrow> pystr" where
  "wire_name T name = py_title T (py_capitalize T name)"

definition unsendable_header :: "pystr \<Rightarrow> pystr \<Rightarrow> pystr option" where
  "unsendable_header name text = (case put_header name text of Inl e \<Rightarrow> Some (urlerr_type e) | Inr _ \<Rightarrow> None)"

fun check_headers :: "tables \<Rightarrow> pystr \<Rightarrow> (pystr, pystr) dict \<Rightarrow> refusal option" where
  "check_headers T owner [] = None"
| "check_headers T owner ((name, text) # headers) =
     (if has_crlf name then Some \<lparr>rf_text = owner @ str '' header name must not contain CR or LF: '' @ tb_repr T name, rf_cause = None\<rparr>
      else if has_crlf text then Some \<lparr>rf_text = owner @ str '' header value must not contain CR or LF: '' @ tb_repr T name, rf_cause = None\<rparr>
      else case unsendable_header (wire_name T name) text of
             Some failure \<Rightarrow> Some \<lparr>rf_text = owner @ str '' header cannot be sent over HTTP ('' @ failure @ str ''): '' @ tb_repr T name, rf_cause = None\<rparr>
           | None \<Rightarrow> check_headers T owner headers)"

datatype auth = Bearer pystr | Basic pystr pystr

definition base64_char :: "nat \<Rightarrow> nat" where
  "base64_char n = (if n < 26 then 65 + n else if n < 52 then 71 + n else if n < 62 then n - 4 else if n = 62 then 43 else 47)"

fun base64 :: "bytes \<Rightarrow> pystr" where
  "base64 [] = []"
| "base64 [a] = map base64_char [a div 4, a mod 4 * 16] @ [61, 61]"
| "base64 [a, b] = map base64_char [a div 4, a mod 4 * 16 + b div 16, b mod 16 * 4] @ [61]"
| "base64 (a # b # c # r) = map base64_char [a div 4, a mod 4 * 16 + b div 16, b mod 16 * 4 + c div 64, c mod 64] @ base64 r"

definition authorization :: "auth \<Rightarrow> urlerr + pystr" where
  "authorization a =
     (case a of
        Bearer token \<Rightarrow> Inr (str ''Bearer '' @ token)
      | Basic user password \<Rightarrow>
          (case encode_utf8 (user @ [58] @ password) of
             Inl _ \<Rightarrow> Inl (NotUtf8 (user @ [58] @ password))
           | Inr b \<Rightarrow> Inr (str ''Basic '' @ base64 b)))"

definition AUTHORIZATION :: pystr where "AUTHORIZATION = str ''Authorization''"
definition CONTENT_ENCODING :: pystr where "CONTENT_ENCODING = str ''Content-Encoding''"

definition unsendable_auth :: "auth \<Rightarrow> pystr option" where
  "unsendable_auth a = (case authorization a of Inl e \<Rightarrow> Some (urlerr_type e) | Inr text \<Rightarrow> unsendable_header AUTHORIZATION text)"

definition valid_auth :: "pystr \<Rightarrow> (pystr, pystr) dict \<Rightarrow> auth option \<Rightarrow> refusal option" where
  "valid_auth owner headers a =
     (case a of
        None \<Rightarrow> None
      | Some a \<Rightarrow>
          if (case a of Bearer token \<Rightarrow> has_crlf token | _ \<Rightarrow> False) then Some \<lparr>rf_text = owner @ str '' auth token must not contain CR or LF'', rf_cause = None\<rparr>
          else if dict_get headers AUTHORIZATION \<noteq> None then None
          else map_option (\<lambda>failure. \<lparr>rf_text = owner @ str '' auth cannot be sent over HTTP ('' @ failure @ str '')'', rf_cause = None\<rparr>) (unsendable_auth a))"

definition merge_headers :: "(pystr, pystr) dict \<Rightarrow> (pystr, pystr) dict option \<Rightarrow> (pystr, pystr) dict" where
  "merge_headers base caller = (case caller of None \<Rightarrow> base | Some headers \<Rightarrow> dict_update base headers)"

text \<open>The headers of a request, the body it carries, and what \<^verbatim>\<open>Request\<close> makes of the headers: it stores each
  under its capitalized name, the last one winning.\<close>

definition apply_auth :: "auth option \<Rightarrow> (pystr, pystr) dict \<Rightarrow> urlerr + (pystr, pystr) dict" where
  "apply_auth a headers =
     (case a of
        None \<Rightarrow> Inr headers
      | Some a \<Rightarrow> if dict_get headers AUTHORIZATION \<noteq> None then Inr headers else map_sum id (\<lambda>text. dict_set AUTHORIZATION text headers) (authorization a))"

definition prepare :: "(bytes \<Rightarrow> bytes) \<Rightarrow> bool \<Rightarrow> auth option \<Rightarrow> (pystr, pystr) dict \<Rightarrow> bytes \<Rightarrow> pystr \<Rightarrow> (pystr, pystr) dict \<Rightarrow> urlerr + (pystr, pystr) dict \<times> bytes" where
  "prepare compress gzip a caller body content_type added =
     (let headers = dict_update (dict_update [(str ''Content-Type'', content_type)] added) caller;
          zip = (gzip \<and> dict_get caller CONTENT_ENCODING = None);
          headers = (if zip then dict_set CONTENT_ENCODING (str ''gzip'') headers else headers)
      in map_sum id (\<lambda>headers. (headers, if zip then compress body else body)) (apply_auth a headers))"

definition request_headers :: "tables \<Rightarrow> (pystr, pystr) dict \<Rightarrow> (pystr, pystr) dict" where
  "request_headers T headers = fold (\<lambda>(name, text). dict_set (py_capitalize T name) text) headers []"

subsection \<open>What unquoting reveals\<close>

lemma unhex_range: "unhex c = Some n \<Longrightarrow> c \<noteq> 37 \<and> c \<noteq> 64 \<and> n < 16 \<and> (n = 4 \<longleftrightarrow> c = 52) \<and> (n = 0 \<longleftrightarrow> c = 48)"
  by (auto simp: unhex_def split: if_splits)

lemma decode_step_ascii:
  "decode_step (b # bs) = Good d n \<Longrightarrow> b < 128 \<and> d = b \<and> n = 1 \<or> 128 \<le> b \<and> 128 \<le> d \<and> list_all (\<lambda>x. 128 \<le> x) (take (n - 1) bs)"
  "decode_step (b # bs) = Bad n \<Longrightarrow> 128 \<le> b \<and> list_all (\<lambda>x. 128 \<le> x) (take (n - 1) bs)"
  by (auto simp: cont_def decode_step.simps split: if_splits list.splits)

lemma ascii_in_drop: "list_all (\<lambda>x. 128 \<le> x) (take n bs) \<Longrightarrow> c < (128::nat) \<Longrightarrow> c \<in> set (drop n bs) \<longleftrightarrow> c \<in> set bs"
  using set_append [of "take n bs" "drop n bs"] by (auto simp: list_all_iff dest: in_set_dropD)

lemma decode_replace_ascii: "(c::nat) < 128 \<Longrightarrow> c \<in> set (decode_with [65533] bs) \<longleftrightarrow> c \<in> set bs"
proof (induction "[65533::nat]" bs rule: decode_with.induct)
  case (2 b bs)
  show ?case
  proof (cases "decode_step (b # bs)")
    case (Good d n)
    then show ?thesis using decode_step_ascii(1) [OF Good] ascii_in_drop [of "n - 1" bs c] 2 by auto
  next
    case (Bad n)
    then show ?thesis using decode_step_ascii(2) [OF Bad] ascii_in_drop [of "n - 1" bs c] 2 by auto
  qed
qed simp

lemma bytes_reveal: "64 \<in> set (unquote_to_bytes t) \<longleftrightarrow> 64 \<in> set t \<or> sublist [37, 52, 48] t"
proof (induction t rule: length_induct)
  case (1 t)
  show ?case
  proof (cases t)
    case (Cons c r)
    show ?thesis
    proof (cases "\<exists>a b r' x y. c = 37 \<and> r = a # b # r' \<and> unhex a = Some x \<and> unhex b = Some y")
      case True
      then obtain a b r' x y where hex: "c = 37" "r = a # b # r'" "unhex a = Some x" "unhex b = Some y" by blast
      have digits: "a \<noteq> 37" "b \<noteq> 37" "a \<noteq> 64" "b \<noteq> 64" using unhex_range hex by blast+
      have "16 * x + y = 64 \<longleftrightarrow> x = 4 \<and> y = 0" using unhex_range [OF hex(4)] by presburger
      then have "16 * x + y = 64 \<longleftrightarrow> a = 52 \<and> b = 48" using unhex_range hex(3,4) by blast
      moreover have "unquote_to_bytes t = (16 * x + y) # unquote_to_bytes r'" using Cons hex by simp
      moreover have "64 \<in> set (unquote_to_bytes r') \<longleftrightarrow> 64 \<in> set r' \<or> sublist [37, 52, 48] r'" using 1 Cons hex by simp
      ultimately show ?thesis using digits unfolding Cons hex(1,2) by (simp add: sublist_Cons_right) blast
    next
      case False
      have "unquote_to_bytes (c # r) = c # unquote_to_bytes r" 
        by (subst unquote_to_bytes.simps(2)) (use False in \<open>auto simp del: unquote_to_bytes.simps split: list.splits option.splits\<close>)
      moreover have "\<not> prefix [37, 52, 48] (c # r)" using False by (auto simp: prefix_def unhex_def)
      moreover have "64 \<in> set (unquote_to_bytes r) \<longleftrightarrow> 64 \<in> set r \<or> sublist [37, 52, 48] r" using 1 Cons by simp
      ultimately show ?thesis using Cons by (auto simp: sublist_Cons_right)
    qed
  qed simp
qed

lemma sublist_cut:
  assumes "c \<notin> set xs" and "xs \<noteq> []"
  shows "sublist xs (ys @ c # zs) \<longleftrightarrow> sublist xs ys \<or> sublist xs zs"
proof
  assume "sublist xs (ys @ c # zs)"
  then consider "sublist xs ys" | "sublist xs (c # zs)" | as bs where "xs = as @ bs" "suffix as ys" "prefix bs (c # zs)"
    by (auto simp: sublist_append)
  then show "sublist xs ys \<or> sublist xs zs"
  proof cases
    case 2
    then show ?thesis using assms by (auto simp: sublist_Cons_right prefix_Cons)
  next
    case (3 as bs)
    then have "bs = []" using assms by (cases bs) auto
    then show ?thesis using 3 suffix_imp_sublist by auto
  qed blast
next
  show "sublist xs ys \<or> sublist xs zs \<Longrightarrow> sublist xs (ys @ c # zs)" by (auto simp: sublist_append sublist_Cons_right)
qed

lemma runs_reveal: "64 \<in> set (unquote_runs run t) \<longleftrightarrow> 64 \<in> set (run @ t) \<or> sublist [37, 52, 48] (run @ t)"
proof (induction run t rule: unquote_runs.induct)
  case (1 run)
  then show ?case by (simp add: decode_replace_def decode_replace_ascii bytes_reveal)
next
  case (2 run c r)
  show ?case
  proof (cases "c < 128")
    case True
    then show ?thesis using 2 by simp
  next
    case False
    then show ?thesis using 2 sublist_cut [of c "[37, 52, 48]" run r] by (auto simp: decode_replace_def decode_replace_ascii bytes_reveal)
  qed
qed

text \<open>An at sign shows up exactly if it is written, or written as \<^verbatim>\<open>%40\<close>.\<close>

lemma unquote_at: "64 \<in> set (unquote t) \<longleftrightarrow> 64 \<in> set t \<or> sublist [37, 52, 48] t"
proof (cases "37 \<in> set t")
  case True
  then show ?thesis by (simp add: unquote_def runs_reveal)
next
  case False
  then have "\<not> sublist [37, 52, 48] t" using set_mono_sublist [of "[37, 52, 48]" t] by auto
  then show ?thesis using False by (simp add: unquote_def)
qed

lemma sublist_filter: "list_all P xs \<Longrightarrow> sublist xs ys \<Longrightarrow> sublist xs (filter P ys)"
  unfolding sublist_def list_all_iff by (metis filter_True filter_append)

subsection \<open>How the parsers read a URL\<close>

lemma takeWhile_upto: "list_all P xs \<Longrightarrow> \<not> P y \<Longrightarrow> takeWhile P (xs @ y # ys) = xs"
  by (induction xs) auto

lemma split_scheme_found:
  assumes "split_scheme v = (scheme, rest)" and "scheme \<noteq> []"
  shows "\<exists>pre. v = pre @ 58 # rest \<and> scheme = map lower1 pre \<and> list_all scheme_char pre"
proof -
  define pre where "pre = takeWhile (\<lambda>c. c \<noteq> 58) v"
  have ok: "58 \<in> set v" "list_all scheme_char pre" "scheme = map lower1 pre" "rest = drop (Suc (length pre)) v"
    using assms by (auto simp: split_scheme_def Let_def pre_def split: if_splits)
  have "v = pre @ dropWhile (\<lambda>c. c \<noteq> 58) v" by (simp add: pre_def)
  have "dropWhile (\<lambda>c. c \<noteq> 58) v \<noteq> []" using ok(1) by (auto simp: dropWhile_eq_Nil_conv)
  then obtain w where "dropWhile (\<lambda>c. c \<noteq> 58) v = 58 # w" using hd_dropWhile [of "\<lambda>c. c \<noteq> 58" v] by (cases "dropWhile (\<lambda>c. c \<noteq> 58) v") auto
  with \<open>v = pre @ dropWhile (\<lambda>c. c \<noteq> 58) v\<close> have v: "v = pre @ 58 # w" by simp
  have "rest = w" using ok(4) unfolding v by simp
  then show ?thesis using ok v by blast
qed

lemma scheme_char_range: "scheme_char c \<Longrightarrow> c < 128 \<and> 32 < c \<and> c \<noteq> 47 \<and> c \<noteq> 58 \<and> c \<noteq> 35 \<and> c \<noteq> 63"
  by (auto simp: scheme_char_def is_alpha_def is_digit_def)

lemma lower1_letter: "97 \<le> lower1 c \<Longrightarrow> lower1 c \<le> 122 \<Longrightarrow> is_alpha c"
  by (auto simp: lower1_def is_alpha_def split: if_splits)

lemma allowed_letters: "allowed_scheme (map lower1 pre) \<Longrightarrow> pre \<noteq> [] \<and> list_all is_alpha pre"
  by (cases pre) (auto simp: allowed_scheme_def str_def list_all_iff intro!: lower1_letter)

lemma drop_tag_append: "35 \<notin> set x \<Longrightarrow> drop_tag (x @ y) = x @ drop_tag y"
proof -
  assume x: "35 \<notin> set x"
  have "rev (tl (dropWhile (\<lambda>c. c \<noteq> 35) (rev y @ rev x))) = x @ rev (tl (dropWhile (\<lambda>c. c \<noteq> 35) (rev y)))" if y: "35 \<in> set y"
  proof -
    have "dropWhile (\<lambda>c. c \<noteq> 35) (rev y @ rev x) = dropWhile (\<lambda>c. c \<noteq> 35) (rev y) @ rev x" using y by (intro dropWhile_append1 [of 35]) simp_all
    moreover have "dropWhile (\<lambda>c. c \<noteq> 35) (rev y) \<noteq> []" using y by (auto simp: dropWhile_eq_Nil_conv)
    ultimately show ?thesis by simp
  qed
  then show ?thesis using x by (simp add: drop_tag_def)
qed

lemma drop_tag_prefix: "\<exists>z. y = drop_tag y @ z \<and> (z = [] \<or> hd z = 35)"
proof (cases "35 \<in> set y")
  case True
  define d where "d = dropWhile (\<lambda>c. c \<noteq> 35) (rev y)"
  have "d \<noteq> []" using True by (auto simp: d_def dropWhile_eq_Nil_conv)
  then obtain w where w: "d = 35 # w" using hd_dropWhile [of "\<lambda>c. c \<noteq> 35" "rev y"] by (cases d) (auto simp: d_def)
  have "rev y = takeWhile (\<lambda>c. c \<noteq> 35) (rev y) @ d" by (simp add: d_def)
  from arg_cong [OF this, of rev] have "y = rev w @ 35 # rev (takeWhile (\<lambda>c. c \<noteq> 35) (rev y))" using w by simp
  moreover have "drop_tag y = rev w" using True w by (simp add: drop_tag_def d_def [symmetric])
  ultimately show ?thesis by (metis list.sel(1))
qed (simp add: drop_tag_def)

lemma filter_eq_append: "filter P u = xs @ ys \<Longrightarrow> \<exists>a w. u = a @ w \<and> filter P a = xs \<and> filter P w = ys"
proof (induction u arbitrary: xs)
  case (Cons c u)
  show ?case
  proof (cases "P c \<and> xs \<noteq> []")
    case True
    then obtain xs' where xs: "xs = c # xs'" using Cons.prems by (cases xs) auto
    then obtain a w where "u = a @ w" "filter P a = xs'" "filter P w = ys" using Cons True by auto
    then show ?thesis using True xs by (intro exI [of _ "c # a"] exI [of _ w]) simp
  next
    case False
    show ?thesis
    proof (cases "P c")
      case True
      then show ?thesis using False Cons.prems by (intro exI [of _ "[]"] exI [of _ "c # u"]) simp
    next
      case no: False
      then obtain a w where "u = a @ w" "filter P a = xs" "filter P w = ys" using Cons by auto
      then show ?thesis using no by (intro exI [of _ "c # a"] exI [of _ w]) simp
    qed
  qed
qed simp

text \<open>A URL with a scheme is that scheme, with controls \<^verbatim>\<open>urlsplit\<close> does not see, a colon, and the rest.\<close>

lemma url_prefix:
  assumes "split_scheme (url_view url) = (scheme, rest)" and "scheme \<noteq> []"
  shows "\<exists>x b. url = x @ 58 # b \<and> list_all (\<lambda>c. scheme_char c \<or> c \<le> 32) x \<and> scheme = map lower1 (filter (\<lambda>c. 32 < c) x) \<and>
    rest = filter (\<lambda>c. c \<noteq> 9 \<and> c \<noteq> 10 \<and> c \<noteq> 13) b"
proof -
  let ?p = "\<lambda>c. c \<noteq> 9 \<and> c \<noteq> 10 \<and> c \<noteq> (13::nat)"
  obtain pre where pre: "url_view url = pre @ 58 # rest" "scheme = map lower1 pre" "list_all scheme_char pre"
    using split_scheme_found [OF assms] by blast
  define ctl where "ctl = takeWhile (\<lambda>c. c \<le> 32) url"
  define u where "u = dropWhile (\<lambda>c. c \<le> 32) url"
  have url: "url = ctl @ u" by (simp add: ctl_def u_def)
  have "filter ?p u = pre @ 58 # rest" using pre(1) by (simp add: url_view_def u_def)
  then obtain a w where a: "u = a @ w" "filter ?p a = pre" "filter ?p w = 58 # rest" using filter_eq_append by blast
  from a(3) obtain us b where b: "w = us @ 58 # b" "\<forall>c\<in>set us. \<not> ?p c" "rest = filter ?p b" by (auto simp: filter_eq_Cons_iff)
  let ?x = "ctl @ a @ us"
  have big: "32 < c" if "c \<in> set pre" for c using pre(3) that by (auto simp: list_all_iff dest: scheme_char_range)
  have ctl: "\<forall>c\<in>set ctl. c \<le> 32" by (auto simp: ctl_def dest: set_takeWhileD)
  have small: "\<forall>c\<in>set us. c \<le> 32" using b(2) by fastforce
  have "filter (\<lambda>c. 32 < c) a = filter (\<lambda>c. 32 < c) (filter ?p a)" by (simp add: conj_commute) (rule filter_cong, auto)
  then have "filter (\<lambda>c. 32 < c) a = pre" using a(2) big by (simp add: filter_id_conv)
  moreover have "filter (\<lambda>c. 32 < c) ctl = []" "filter (\<lambda>c. 32 < c) us = []" using ctl small by (auto simp: filter_empty_conv)
  ultimately have "filter (\<lambda>c. 32 < c) ?x = pre" by simp
  moreover have "list_all (\<lambda>c. scheme_char c \<or> c \<le> 32) ?x"
    using ctl small pre(3) a(2) by (fastforce simp: list_all_iff)
  ultimately show ?thesis using url a(1) b(1,3) pre(2) by (intro exI [of _ ?x] exI [of _ b]) simp
qed

lemma strip_strip [simp]: "strip (strip t) = strip t"
proof -
  have "dropWhile is_space (rev (dropWhile is_space (rev t'))) = rev (dropWhile is_space (rev t'))" if "t' = [] \<or> \<not> is_space (hd t')" for t'
  proof (cases "dropWhile is_space (rev t')")
    case (Cons c w)
    have "rev t' = takeWhile is_space (rev t') @ c # w" using Cons by (metis takeWhile_dropWhile_id)
    from arg_cong [OF this, of rev] have "t' = rev (c # w) @ rev (takeWhile is_space (rev t'))" by simp
    then have "hd (rev (c # w)) = hd t'" by (metis hd_append2 rev_is_Nil_conv list.distinct(1))
    moreover have "t' \<noteq> []" using Cons by auto
    ultimately have "\<not> is_space (hd (rev (c # w)))" using that by simp
    then show ?thesis using Cons by (cases "rev (c # w)") auto
  next
    case Nil
    then show ?thesis by (simp only: rev.simps dropWhile.simps)
  qed
  from this [of "dropWhile is_space t"] have "dropWhile is_space (strip t) = strip t"
    unfolding strip_def using hd_dropWhile [of is_space t] by blast
  then have "strip (strip t) = rev (dropWhile is_space (rev (strip t)))" by (simp only: strip_def [of "strip t"])
  also have "\<dots> = strip t" unfolding strip_def by (simp only: rev_rev_ident dropWhile_idem)
  finally show ?thesis .
qed

lemma strip_unwrap: "strip (unwrap raw) = unwrap raw"
  by (simp add: unwrap_def Let_def)

lemma unwrap_url:
  assumes "strip url = url" and "url = x @ 58 # b" and "list_all (\<lambda>c. scheme_char c \<or> c \<le> 32) x" and "allowed_scheme (map lower1 (filter (\<lambda>c. 32 < c) x))"
  shows "unwrap url = url"
proof -
  have "filter (\<lambda>c. 32 < c) x \<noteq> []" using assms(4) by (auto simp: allowed_scheme_def str_def)
  then obtain c y where x: "x = c # y" by (cases x) auto
  have "c \<noteq> 60" using assms(3) x by (auto simp: scheme_char_def is_alpha_def is_digit_def)
  moreover have "take 4 url \<noteq> str ''URL:''"
  proof
    assume "take 4 url = str ''URL:''"
    then have p: "prefix (str ''URL:'') url" by (metis take_is_prefix)
    have "58 \<notin> set x" using assms(3) by (auto simp: list_all_iff dest: scheme_char_range)
    then have "takeWhile (\<lambda>c. c \<noteq> 58) url = x" unfolding assms(2) by (intro takeWhile_upto) (auto simp: list_all_iff)
    moreover obtain z where "url = str ''URL:'' @ z" using p by (auto simp: prefix_def)
    ultimately have "x = [85, 82, 76]" by (simp add: str_def)
    then show False using assms(4) by (simp add: allowed_scheme_def str_def lower1_def)
  qed
  ultimately show ?thesis using assms(1,2) x by (simp add: unwrap_def Let_def)
qed

lemma lower_lower [simp]: "lower1 (lower1 c) = lower1 c"
  by (simp add: lower1_def)

definition after_colon :: "pystr \<Rightarrow> request \<Rightarrow> bool" where
  "after_colon b rq \<longleftrightarrow>
     (let rest = drop_tag b
      in if take 2 rest = [47, 47] then rq_host rq = unquote (host_run (drop 2 rest)) else rq_host rq = [])"

lemma url_request_prefix:
  assumes "unwrap url = url" and "url = x @ 58 # b" and "x \<noteq> []" and "list_all (\<lambda>c. scheme_char c \<or> c \<le> 32) x"
  shows "\<exists>rq. url_request T url = Some rq \<and> rq_type rq = py_lower T x \<and> after_colon b rq"
proof -
  have x: "35 \<notin> set x" "list_all (\<lambda>c. c \<noteq> 47 \<and> c \<noteq> 58) x" using assms(4) by (auto simp: list_all_iff dest: scheme_char_range)
  have t: "drop_tag (unwrap url) = x @ 58 # drop_tag b"
    using drop_tag_append [of "x @ [58]" b] x(1) unfolding assms(1) unfolding assms(2) by simp
  have "takeWhile (\<lambda>c. c \<noteq> 47 \<and> c \<noteq> 58) (x @ 58 # drop_tag b) = x" using x(2) by (intro takeWhile_upto) simp_all
  then show ?thesis unfolding url_request_def t using assms(3) by (simp add: Let_def after_colon_def)
qed

lemma ascii_scheme: "list_all (\<lambda>c. scheme_char c \<or> c \<le> 32) x \<Longrightarrow> ascii x"
  by (auto simp: ascii_def list_all_iff dest: scheme_char_range)

text \<open>If \<^verbatim>\<open>Request\<close> reads the allowed scheme too, the URL starts with it and nothing was dropped.\<close>

lemma request_scheme:
  assumes "list_all (\<lambda>c. scheme_char c \<or> c \<le> 32) x" and "allowed_scheme (py_lower T (py_lower T x))"
  shows "list_all is_alpha x" and "py_lower T (py_lower T x) = map lower1 x"
proof -
  have "ascii x" by (rule ascii_scheme [OF assms(1)])
  moreover from this have "ascii (map lower1 x)" by (auto simp: ascii_def list_all_iff lower1_def)
  ultimately show eq: "py_lower T (py_lower T x) = map lower1 x" by (simp add: py_lower_def)
  show "list_all is_alpha x" using allowed_letters assms(2) eq by simp
qed

lemma host_run_append: "z = [] \<or> ends_host (hd z) \<Longrightarrow> host_run (y @ z) = host_run y"
  unfolding host_run_def by (induction y) (cases z, auto)

lemma host_run_filter: "(\<And>c. ends_host c \<Longrightarrow> p c) \<Longrightarrow> host_run (filter p y) = filter p (host_run y)"
  unfolding host_run_def by (induction y) auto

text \<open>The host \<^verbatim>\<open>urllib\<close> connects to is the one whose run was tested: no at sign, written or unquoted.\<close>

lemma request_host_clean:
  assumes parse: "url_parse T url = Inr (scheme, netloc)" and ok: "allowed_scheme scheme" and strip: "strip url = url"
    and clean: "\<not> carries_userinfo T url"
  shows "\<exists>rq. url_request T url = Some rq \<and>
    (py_lower T (rq_type rq) = scheme \<and> rq_host rq \<noteq> [] \<longrightarrow>
      64 \<notin> set (rq_host rq) \<and> (\<exists>pre host path. url = pre @ [58, 47, 47] @ host @ path \<and> map lower1 pre = scheme \<and> host = host_run (host @ path) \<and> rq_host rq = unquote host))"
proof -
  let ?p = "\<lambda>c. c \<noteq> 9 \<and> c \<noteq> 10 \<and> c \<noteq> (13::nat)"
  obtain rest where split: "split_scheme (url_view url) = (scheme, rest)"
    using parse by (auto simp: url_parse_def Let_def split: prod.splits if_splits)
  have "scheme \<noteq> []" using ok by (auto simp: allowed_scheme_def str_def)
  from url_prefix [OF split this] obtain x b where u: "url = x @ 58 # b" "list_all (\<lambda>c. scheme_char c \<or> c \<le> 32) x"
      "scheme = map lower1 (filter (\<lambda>c. 32 < c) x)" "rest = filter ?p b" by blast
  have x: "x \<noteq> []" using ok u(3) by (auto simp: allowed_scheme_def str_def)
  have unwrap: "unwrap url = url" by (rule unwrap_url [OF strip u(1,2)]) (use ok u(3) in simp)
  obtain rq where rq: "url_request T url = Some rq" "rq_type rq = py_lower T x" "after_colon b rq"
    using url_request_prefix [OF unwrap u(1) x u(2)] by blast
  have "64 \<notin> set (rq_host rq) \<and> (\<exists>pre host path. url = pre @ [58, 47, 47] @ host @ path \<and> map lower1 pre = scheme \<and> host = host_run (host @ path) \<and> rq_host rq = unquote host)"
    if same: "py_lower T (rq_type rq) = scheme" and host: "rq_host rq \<noteq> []"
  proof -
    have "allowed_scheme (py_lower T (py_lower T x))" using same ok rq(2) by simp
    then have alpha: "list_all is_alpha x" and lower: "map lower1 x = scheme" using request_scheme [OF u(2), of T] same rq(2) by simp_all
    obtain y where y: "drop_tag b = [47, 47] @ y" "rq_host rq = unquote (host_run y)"
    proof (cases "take 2 (drop_tag b) = [47, 47]")
      case True
      then show ?thesis using that [of "drop 2 (drop_tag b)"] rq(3) append_take_drop_id [of 2 "drop_tag b"] by (simp add: after_colon_def)
    qed (use rq(3) host in \<open>simp add: after_colon_def\<close>)
    obtain z where z: "b = drop_tag b @ z" "z = [] \<or> hd z = 35" using drop_tag_prefix by blast
    have b: "b = [47, 47] @ y @ z" using z(1) y(1) by simp
    have run: "host_run (y @ z) = host_run y" using z(2) by (intro host_run_append) (auto simp: ends_host_def)
    define h where "h = host_run y"
    have h: "64 \<notin> set (unquote (filter ?p h))"
    proof -
      have nocontrol: "\<not> c \<le> 32 \<and> ?p c \<and> c \<noteq> 47 \<and> c \<noteq> 58" if "c \<in> set x" for c using alpha that by (auto simp: list_all_iff is_alpha_def)
      have "dropWhile (\<lambda>c. c \<le> 32) url = url" using u(1) x nocontrol [of "hd x"] by (cases x) auto
      moreover have "filter ?p x = x" using nocontrol by (simp add: filter_id_conv)
      ultimately have view: "url_view url = x @ 58 # 47 # 47 # filter ?p (y @ z)" using u(1) b by (simp add: url_view_def)
      have "takeWhile (\<lambda>c. c \<noteq> 47 \<and> c \<noteq> 58) (url_view url) = x" unfolding view using nocontrol by (intro takeWhile_upto) (auto simp: list_all_iff)
      then have "authority_run (url_view url) = host_run (filter ?p (y @ z))" unfolding authority_run_def Let_def view by simp
      also have "\<dots> = filter ?p (host_run (y @ z))" by (rule host_run_filter) (auto simp: ends_host_def)
      also have "\<dots> = filter ?p h" using run by (simp add: h_def)
      finally have "\<not> holds_at T (filter ?p h)" using clean unwrap by (simp add: carries_userinfo_def)
      then show ?thesis by (simp add: holds_at_def forms_def)
    qed
    have "64 \<notin> set (unquote h)"
    proof
      assume "64 \<in> set (unquote h)"
      then have "64 \<in> set h \<or> sublist [37, 52, 48] h" by (simp only: unquote_at)
      then have "64 \<in> set (filter ?p h) \<or> sublist [37, 52, 48] (filter ?p h)" using sublist_filter [of ?p "[37, 52, 48]" h] by auto
      then show False using h unfolding unquote_at by blast
    qed
    moreover have "url = x @ [58, 47, 47] @ h @ drop (length h) (y @ z)" "h = host_run (h @ drop (length h) (y @ z))"
    proof -
      have "y @ z = h @ drop (length h) (y @ z)" using run unfolding h_def host_run_def by (metis takeWhile_eq_take append_take_drop_id)
      then show "url = x @ [58, 47, 47] @ h @ drop (length h) (y @ z)" "h = host_run (h @ drop (length h) (y @ z))"
        using u(1) b run h_def by simp_all
    qed
    moreover have "rq_host rq = unquote h" using y(2) by (simp only: h_def)
    ultimately show ?thesis using lower by (metis (no_types))
  qed
  then show ?thesis using rq(1) by blast
qed

subsection \<open>What is accepted, and what a refusal shows\<close>

text \<open>C37. A URL that is accepted is \<^verbatim>\<open>http\<close> or \<^verbatim>\<open>https\<close>, holds no at sign, and the host the request goes to is the
  one written between \<^verbatim>\<open>://\<close> and the first delimiter, unquoted: it is not empty and carries no user
  or password, however they were written; the port is one a socket can reach, and the
  request line and its host header can be sent.\<close>

theorem url_accepted_safe:
  assumes "valid_url T who credentials False raw = Accepted url"
  shows "\<exists>rq pre host path port. url = unwrap raw \<and> 64 \<notin> set url \<and> url_request T url = Some rq \<and>
    url = pre @ [58, 47, 47] @ host @ path \<and> allowed_scheme (map lower1 pre) \<and> host = host_run (host @ path) \<and>
    rq_host rq = unquote host \<and> rq_host rq \<noteq> [] \<and> 64 \<notin> set (rq_host rq) \<and> sendable T rq = Inr port \<and> 0 < port \<and> port \<le> MAX_PORT"
proof -
  define u where "u = unwrap raw"
  obtain scheme netloc where parse: "url_parse T u = Inr (scheme, netloc)" and ok: "allowed_scheme scheme"
      and clean: "\<not> carries_userinfo T u" and at: "64 \<notin> set u"
    using assms by (auto simp: valid_url_def Let_def u_def split: if_splits sum.splits prod.splits)
  obtain rq where rq: "url_request T u = Some rq"
      "py_lower T (rq_type rq) = scheme \<and> rq_host rq \<noteq> [] \<longrightarrow>
      64 \<notin> set (rq_host rq) \<and> (\<exists>pre host path. u = pre @ [58, 47, 47] @ host @ path \<and> map lower1 pre = scheme \<and> host = host_run (host @ path) \<and> rq_host rq = unquote host)"
    using request_host_clean [OF parse ok strip_unwrap [of raw, folded u_def] clean] by blast
  have rest: "py_lower T (rq_type rq) = scheme" "rq_host rq \<noteq> []" "u = url" and "\<exists>port. sendable T rq = Inr port \<and> 0 < port \<and> port \<le> MAX_PORT"
    using assms parse ok clean at rq(1) by (auto simp: valid_url_def Let_def u_def [symmetric] split: if_splits sum.splits)
  then obtain port where port: "sendable T rq = Inr port" "0 < port" "port \<le> MAX_PORT" by blast
  obtain pre host path where shape: "u = pre @ [58, 47, 47] @ host @ path" "map lower1 pre = scheme" "host = host_run (host @ path)" "rq_host rq = unquote host"
    and "64 \<notin> set (rq_host rq)" using rq(2) rest by blast
  then show ?thesis using rq(1) rest at ok port u_def by metis
qed

definition plain_reasons :: "pystr list" where
  "plain_reasons = map str [''is not a URL'', ''must use http or https'', ''names no host'', ''cannot be sent over HTTP'', ''names no usable port'']"

definition parser_types :: "pystr list" where
  "parser_types = map str [''InvalidURL'', ''UnicodeEncodeError'', ''TypeError'', ''ValueError'']"

text \<open>The texts a refusal may have, from the head alone: nothing else of the URL enters them.\<close>

definition head_reasons :: "tables \<Rightarrow> pystr \<Rightarrow> pystr list" where
  "head_reasons T h =
     (let scheme = takeWhile scheme_char h
      in plain_reasons @ map (\<lambda>detail. str ''must use http or https'' @ str '', not '' @ detail) [map lower1 scheme @ str '' scheme'', tb_repr T (py_lower T scheme)])"

definition permitted_texts :: "tables \<Rightarrow> pystr \<Rightarrow> pystr \<Rightarrow> pystr option \<Rightarrow> pystr list" where
  "permitted_texts T who credentials head =
     [rf_text (userinfo_refusal who credentials), rf_text (stray_at_refusal who)] @
     (case head of
        None \<Rightarrow> concat (map (\<lambda>reason. map (\<lambda>why. who @ [32] @ reason @ str ''; the URL is not quoted, since '' @ why)
            [str ''it holds an '@', and what precedes one may be a password'', str ''its host cannot be told apart from the rest of it'']) plain_reasons)
      | Some h \<Rightarrow> concat (map (\<lambda>reason. map (\<lambda>detail. who @ [32] @ reason @ detail @ str '': '' @ tb_repr T h @
             str ''; only the scheme and host are quoted, since a path, query or fragment may hold a credential'')
            ([] # map (\<lambda>t. str '' ('' @ t @ str '')'') parser_types)) (head_reasons T h)))"

definition discreet :: "tables \<Rightarrow> pystr \<Rightarrow> pystr \<Rightarrow> pystr \<Rightarrow> refusal \<Rightarrow> bool" where
  "discreet T who credentials url rf \<longleftrightarrow>
     quotable_head T url = Some url \<or> rf_cause rf = None \<and> rf_text rf \<in> set (permitted_texts T who credentials (quotable_head T url))"

lemma urlerr_types: "urlerr_type e \<in> set parser_types"
  by (cases e) (simp_all add: parser_types_def)

lemma refuse_url_discreet:
  assumes "case quotable_head T url of None \<Rightarrow> reason \<in> set plain_reasons | Some h \<Rightarrow> reason \<in> set (head_reasons T h)"
  shows "discreet T who credentials url (refuse_url T who reason url (quotable_head T url) err)"
proof (cases "quotable_head T url")
  case None
  then show ?thesis using assms by (auto simp: discreet_def refuse_url_def permitted_texts_def)
next
  case (Some h)
  show ?thesis
  proof (cases "h = url")
    case False
    have "(case err of None \<Rightarrow> [] | Some e \<Rightarrow> str '' ('' @ urlerr_type e @ str '')'') \<in> set ([] # map (\<lambda>t. str '' ('' @ t @ str '')'') parser_types)"
      using urlerr_types by (auto split: option.split)
    then show ?thesis using assms Some False unfolding discreet_def refuse_url_def permitted_texts_def
      by (simp only: option.case if_False refusal.simps) (auto simp del: append_assoc)
  qed (simp add: discreet_def Some)
qed

lemma quotable_headD:
  assumes "quotable_head T url = Some h"
  shows "\<exists>scheme host. h = scheme @ [58, 47, 47] @ host \<and> prefix h url \<and> list_all scheme_char scheme \<and> scheme \<noteq> [] \<and> is_alpha (hd scheme) \<and>
    takeWhile scheme_char h = scheme \<and> \<not> holds_at T url \<and> \<not> holds_delimiter T host"
proof -
  define scheme where "scheme = takeWhile scheme_char url"
  define rest where "rest = drop (length scheme) url"
  have url: "url = scheme @ rest" unfolding rest_def scheme_def by (metis takeWhile_dropWhile_id dropWhile_eq_drop)
  have h: "scheme \<noteq> []" "is_alpha (hd scheme)" "take 3 rest = [58, 47, 47]" "h = scheme @ [58, 47, 47] @ host_run (drop 3 rest)"
      "\<not> holds_at T url" "\<not> holds_delimiter T (host_run (drop 3 rest))"
    using assms by (auto simp: quotable_head_def split_head_def Let_def scheme_def [symmetric] rest_def [symmetric] split: if_splits)
  have "rest = [58, 47, 47] @ drop 3 rest" using h(3) append_take_drop_id [of 3 rest] by simp
  moreover have "prefix (host_run y) y" for y unfolding host_run_def by (metis prefixI takeWhile_dropWhile_id)
  ultimately have "prefix h url" unfolding url h(4) by (metis same_prefix_prefix)
  moreover have all: "list_all scheme_char scheme" by (auto simp: scheme_def list_all_iff dest: set_takeWhileD)
  moreover have "takeWhile scheme_char h = scheme"
    using takeWhile_upto [OF all, of 58 "47 # 47 # host_run (drop 3 rest)"] by (simp add: h(4) scheme_char_def is_alpha_def is_digit_def)
  ultimately show ?thesis using h by blast
qed

text \<open>With a head to quote, both parsers read its scheme.\<close>

lemma head_parse:
  assumes "quotable_head T url = Some h" and "url_parse T url = Inr (scheme, netloc)"
  shows "scheme = map lower1 (takeWhile scheme_char h)" and "scheme \<noteq> []"
proof -
  obtain pre host where h: "h = pre @ [58, 47, 47] @ host" "prefix h url" "list_all scheme_char pre" "pre \<noteq> []" "is_alpha (hd pre)" "takeWhile scheme_char h = pre"
    using quotable_headD [OF assms(1)] by blast
  then obtain z where url: "url = pre @ 58 # 47 # 47 # host @ z" by (auto simp: prefix_def)
  have pre: "\<not> c \<le> 32 \<and> c \<noteq> 9 \<and> c \<noteq> 10 \<and> c \<noteq> 13 \<and> c \<noteq> 58" if "c \<in> set pre" for c
    using h(3) that by (auto simp: list_all_iff dest!: bspec scheme_char_range)
  have "dropWhile (\<lambda>c. c \<le> 32) url = url" unfolding url using pre h(4) by (cases pre) auto
  moreover have "filter (\<lambda>c. c \<noteq> 9 \<and> c \<noteq> 10 \<and> c \<noteq> 13) pre = pre" using pre by (simp add: filter_id_conv)
  ultimately obtain w where view: "url_view url = pre @ 58 # w" unfolding url_view_def url by simp
  have "takeWhile (\<lambda>c. c \<noteq> 58) (url_view url) = pre" unfolding view using pre by (intro takeWhile_upto) (auto simp: list_all_iff)
  then have "split_scheme (url_view url) = (map lower1 pre, w)" using h view by (simp add: split_scheme_def)
  then show "scheme = map lower1 (takeWhile scheme_char h)" "scheme \<noteq> []"
    using assms(2) h(4,6) by (auto simp: url_parse_def Let_def split: if_splits)
qed

lemma head_request:
  assumes head: "quotable_head T url = Some h" and strip: "strip url = url" and ok: "allowed_scheme (map lower1 (takeWhile scheme_char h))"
    and rq: "url_request T url = Some rq"
  shows "rq_type rq = py_lower T (takeWhile scheme_char h)"
proof -
  obtain pre host where h: "h = pre @ [58, 47, 47] @ host" "prefix h url" "list_all scheme_char pre" "pre \<noteq> []" "takeWhile scheme_char h = pre"
    using quotable_headD [OF head] by blast
  then obtain z where url: "url = pre @ 58 # 47 # 47 # host @ z" by (auto simp: prefix_def)
  have all: "list_all (\<lambda>c. scheme_char c \<or> c \<le> 32) pre" using h(3) by (auto simp: list_all_iff)
  have "filter (\<lambda>c. 32 < c) pre = pre" using h(3) by (auto simp: filter_id_conv list_all_iff dest: scheme_char_range)
  then have "unwrap url = url" using unwrap_url [OF strip url all] ok h(5) by simp
  from url_request_prefix [OF this url h(4) all, of T] show ?thesis using rq h(5) by auto
qed

text \<open>C38. No refusal of a URL shows anything that may be a credential: unless the URL is nothing but a scheme
  and a host, its text is one of those determined by the scheme and the host alone and it chains
  no error; and where the URL holds an at sign in any form, or a host that may end early, not even
  those are quoted. The parsers never raise past the check.\<close>

theorem url_refusal_discreet:
  "(case valid_url T who credentials path_at raw of Accepted _ \<Rightarrow> True | Escapes \<Rightarrow> False | Refused_by rf \<Rightarrow> discreet T who credentials (unwrap raw) rf) \<and>
   (case quotable_head T (unwrap raw) of None \<Rightarrow> True
    | Some h \<Rightarrow> prefix h (unwrap raw) \<and> \<not> holds_at T (unwrap raw) \<and> (\<exists>scheme host. h = scheme @ [58, 47, 47] @ host \<and> \<not> holds_delimiter T host))"
proof
  define u where "u = unwrap raw"
  have strip: "strip u = u" by (simp add: u_def strip_unwrap)
  show "case quotable_head T (unwrap raw) of None \<Rightarrow> True
    | Some h \<Rightarrow> prefix h (unwrap raw) \<and> \<not> holds_at T (unwrap raw) \<and> (\<exists>scheme host. h = scheme @ [58, 47, 47] @ host \<and> \<not> holds_delimiter T host)"
    using quotable_headD by (fastforce split: option.split)
  have plain: "case quotable_head T u of None \<Rightarrow> str t \<in> set plain_reasons | Some h \<Rightarrow> str t \<in> set (head_reasons T h)"
    if "str t \<in> set plain_reasons" for t using that by (auto simp: head_reasons_def Let_def split: option.split)
  have reason: "discreet T who credentials u (refuse_url T who (str t) u (quotable_head T u) err)" if "str t \<in> set plain_reasons" for t err
    by (rule refuse_url_discreet [OF plain [OF that]])
  have fixed: "discreet T who credentials u (userinfo_refusal who credentials)" "discreet T who credentials u (stray_at_refusal who)"
    by (simp_all add: discreet_def permitted_texts_def userinfo_refusal_def stray_at_refusal_def)
  let ?scheme = "\<lambda>detail. str ''must use http or https'' @ (if quotable_head T u = None then [] else str '', not '' @ detail)"
  have unknown: "discreet T who credentials u (refuse_url T who (?scheme ((if scheme = [] then str ''no'' else scheme) @ str '' scheme'')) u (quotable_head T u) None)"
    if "url_parse T u = Inr (scheme, netloc)" for scheme netloc
    by (rule refuse_url_discreet) (use head_parse [OF _ that] in \<open>auto simp: plain_reasons_def head_reasons_def Let_def split: option.split\<close>)
  have differs: "discreet T who credentials u (refuse_url T who (?scheme (tb_repr T (rq_type rq))) u (quotable_head T u) None)"
    if "url_parse T u = Inr (scheme, netloc)" "allowed_scheme scheme" "url_request T u = Some rq" for scheme netloc rq
    by (rule refuse_url_discreet) (use head_parse [OF _ that(1)] head_request [OF _ strip _ that(3)] that(2) in
        \<open>auto simp: plain_reasons_def head_reasons_def Let_def split: option.split\<close>)
  have total: "url_request T u \<noteq> None" if "url_parse T u = Inr (scheme, netloc)" "allowed_scheme scheme" "\<not> carries_userinfo T u" for scheme netloc
    using request_host_clean [OF that(1,2) strip that(3)] by auto
  show "case valid_url T who credentials path_at raw of Accepted _ \<Rightarrow> True | Escapes \<Rightarrow> False | Refused_by rf \<Rightarrow> discreet T who credentials (unwrap raw) rf"
  proof (cases "carries_userinfo T u \<or> \<not> path_at \<and> 64 \<in> set u")
    case True
    then show ?thesis using fixed by (auto simp: valid_url_def Let_def u_def [symmetric])
  next
    case False
    then have go: "\<not> carries_userinfo T u" "(if \<not> path_at \<and> 64 \<in> set u then a else b) = b" for a b :: checked by auto
    show ?thesis
    proof (cases "url_parse T u")
      case (Inl e)
      then show ?thesis using go reason [of "''is not a URL''"] by (simp add: valid_url_def Let_def u_def [symmetric] plain_reasons_def)
    next
      case (Inr p)
      obtain scheme netloc where p: "p = (scheme, netloc)" by (rule prod.exhaust)
      show ?thesis
      proof (cases "allowed_scheme scheme")
        case False
        then show ?thesis using go Inr p unknown [of scheme netloc] by (simp add: valid_url_def Let_def u_def [symmetric])
      next
        case ok: True
        obtain rq where rq: "url_request T u = Some rq" using total [of scheme netloc] Inr p ok go by auto
        show ?thesis
        proof (cases "py_lower T (rq_type rq) = scheme \<and> \<not> (netloc = [] \<or> rq_host rq = [])")
          case False
          then show ?thesis using go Inr p ok rq differs [of scheme netloc rq] reason [of "''names no host''" None]
            by (auto simp: valid_url_def Let_def u_def [symmetric] plain_reasons_def)
        next
          case True
          then show ?thesis using go Inr p ok rq reason [of "''cannot be sent over HTTP''"] reason [of "''names no usable port''" None]
            by (cases "sendable T rq") (simp_all add: valid_url_def Let_def u_def [symmetric] plain_reasons_def)
        qed
      qed
    qed
  qed
qed

subsection \<open>Headers on the wire\<close>

text \<open>A header the request can send, and that cannot smuggle another.\<close>

definition header_ok :: "tables \<Rightarrow> pystr \<times> pystr \<Rightarrow> bool" where
  "header_ok T = (\<lambda>(name, text). put_header (wire_name T name) text = Inr () \<and> \<not> has_crlf text)"

lemma check_headers_ok: "check_headers T owner headers = None \<longleftrightarrow> list_all (\<lambda>(name, text). \<not> has_crlf name \<and> header_ok T (name, text)) headers"
proof (induction headers)
  case (Cons kv headers)
  obtain name tx where kv: "kv = (name, tx)" by (rule prod.exhaust)
  have "unsendable_header (wire_name T name) tx = None \<longleftrightarrow> put_header (wire_name T name) tx = Inr ()"
    by (auto simp: unsendable_header_def split: sum.split)
  then show ?case using Cons kv by (auto simp: header_ok_def split: option.splits)
qed simp

lemma base64_plain: "list_all (\<lambda>c. c < 128 \<and> c \<noteq> 10 \<and> c \<noteq> 13) (base64 bs)"
proof -
  have "base64_char n < 128 \<and> base64_char n \<noteq> 10 \<and> base64_char n \<noteq> 13" for n by (auto simp: base64_char_def)
  then show ?thesis by (induction bs rule: base64.induct) auto
qed

lemma AUTHORIZATION_wire: "wire_name T AUTHORIZATION = AUTHORIZATION"
  by (simp add: wire_name_def AUTHORIZATION_def py_title_def py_capitalize_def ascii_def str_def upper1_def lower1_def is_alpha_def)

lemma illegal_value_crlf: "\<not> has_crlf t \<Longrightarrow> \<not> illegal_value t"
  by (induction t) (auto simp: has_crlf_def)

lemma authorization_ok:
  assumes "valid_auth owner caller (Some a) = None" and "dict_get caller AUTHORIZATION = None"
  shows "\<exists>tx. authorization a = Inr tx \<and> header_ok T (AUTHORIZATION, tx)"
proof -
  have no: "unsendable_auth a = None" "\<not> (case a of Bearer token \<Rightarrow> has_crlf token | _ \<Rightarrow> False)"
    using assms by (auto simp: valid_auth_def split: if_splits)
  then obtain tx where tx: "authorization a = Inr tx" "put_header AUTHORIZATION tx = Inr ()"
    by (auto simp: unsendable_auth_def unsendable_header_def split: sum.splits)
  have "\<not> has_crlf tx"
  proof (cases a)
    case (Bearer token)
    then show ?thesis using no(2) tx(1) by (auto simp: authorization_def has_crlf_def str_def)
  next
    case (Basic user password)
    then obtain bs where "tx = str ''Basic '' @ base64 bs" using tx(1) by (auto simp: authorization_def split: sum.splits)
    then show ?thesis using base64_plain [of bs] by (auto simp: has_crlf_def str_def list_all_iff)
  qed
  then show ?thesis using tx by (simp add: header_ok_def AUTHORIZATION_wire)
qed

lemma dict_update_all: "list_all P a \<Longrightarrow> list_all P b \<Longrightarrow> list_all P (dict_update a b)"
proof (induction a b rule: dict_update.induct)
  case (2 a k v b)
  then show ?case using set_dict_set [of k v a] by (fastforce simp: list_all_iff)
qed simp

lemma dict_get_update_None: "dict_get (dict_update a b) k = None \<longleftrightarrow> dict_get a k = None \<and> dict_get b k = None"
  by (induction a b rule: dict_update.induct) auto

text \<open>C39. What the constructor accepted can always be sent: with headers and credentials that passed their
  checks, preparing a request never raises, and every header of it, the caller's, the sink's and
  the credentials, is one the request can send and that holds no line break; the
  credentials are sent unless the caller's own header replaces them.\<close>

theorem prepared_headers_sendable:
  assumes "check_headers T owner caller = None" and "valid_auth owner caller a = None"
    and "list_all (header_ok T) ((str ''Content-Type'', content_type) # added)" and "dict_get added AUTHORIZATION = None"
  shows "\<exists>headers data. prepare compress gzip a caller body content_type added = Inr (headers, data) \<and> list_all (header_ok T) headers \<and>
    (case a of None \<Rightarrow> True | Some a \<Rightarrow> dict_get headers AUTHORIZATION \<noteq> None)"
proof -
  have caller: "list_all (header_ok T) caller" using assms(1) by (auto simp: check_headers_ok list_all_iff)
  let ?base = "dict_update (dict_update [(str ''Content-Type'', content_type)] added) caller"
  let ?zip = "gzip \<and> dict_get caller CONTENT_ENCODING = None"
  define headers where "headers = (if ?zip then dict_set CONTENT_ENCODING (str ''gzip'') ?base else ?base)"
  have "header_ok T (CONTENT_ENCODING, str ''gzip'')"
    by (simp add: header_ok_def CONTENT_ENCODING_def put_header_def wire_name_def py_title_def py_capitalize_def ascii_def legal_name_def has_crlf_def
        str_def upper1_def lower1_def is_alpha_def)
  moreover have "list_all (header_ok T) ?base" using assms(3) caller by (intro dict_update_all) simp_all
  ultimately have ok: "list_all (header_ok T) headers"
    using set_dict_set [of CONTENT_ENCODING "str ''gzip''" ?base] by (auto simp: headers_def list_all_iff)
  have names: "AUTHORIZATION \<noteq> str ''Content-Type''" "AUTHORIZATION \<noteq> CONTENT_ENCODING" by (simp_all add: AUTHORIZATION_def CONTENT_ENCODING_def str_def)
  have auth: "dict_get headers AUTHORIZATION = None \<longleftrightarrow> dict_get caller AUTHORIZATION = None"
    using assms(4) names by (simp add: headers_def dict_get_update_None)
  have prep: "prepare compress gzip a caller body content_type added = map_sum id (\<lambda>headers. (headers, if ?zip then compress body else body)) (apply_auth a headers)"
    by (simp add: prepare_def headers_def Let_def)
  show ?thesis
  proof (cases "\<exists>c. a = Some c \<and> dict_get caller AUTHORIZATION = None")
    case True
    then obtain c where c: "a = Some c" "dict_get caller AUTHORIZATION = None" by blast
    obtain tx where tx: "authorization c = Inr tx" "header_ok T (AUTHORIZATION, tx)"
      using authorization_ok [OF assms(2) [unfolded c(1)] c(2), of T] by blast
    have "list_all (header_ok T) (dict_set AUTHORIZATION tx headers)"
      using set_dict_set [of AUTHORIZATION tx headers] ok tx(2) by (auto simp: list_all_iff)
    then show ?thesis using prep c tx auth by (simp add: apply_auth_def)
  next
    case False
    then have "apply_auth a headers = Inr headers" using auth by (auto simp: apply_auth_def split: option.split)
    then show ?thesis using prep ok auth False by (auto split: option.split)
  qed
qed

text \<open>Names are compared as written, but stored capitalized: a caller's own encoding header that is written in
  another case neither survives \<^verbatim>\<open>gzip=True\<close> nor prevents the compression.\<close>

lemma caller_encoding_overwritten:
  "\<exists>headers. prepare compress True None [(str ''content-encoding'', str ''identity'')] body content_type [] = Inr (headers, compress body) \<and>
    dict_get (request_headers T headers) (str ''Content-encoding'') = Some (str ''gzip'')"
proof -
  have caps: "py_capitalize T (str ''content-encoding'') = str ''Content-encoding''" "py_capitalize T CONTENT_ENCODING = str ''Content-encoding''"
    "py_capitalize T (str ''Content-Type'') = str ''Content-type''"
    by (simp_all add: CONTENT_ENCODING_def py_capitalize_def ascii_def str_def upper1_def lower1_def)
  have names: "str ''content-encoding'' \<noteq> CONTENT_ENCODING" "CONTENT_ENCODING \<noteq> str ''content-encoding''" "str ''Content-Type'' \<noteq> CONTENT_ENCODING"
    "CONTENT_ENCODING \<noteq> str ''Content-Type''" "str ''content-encoding'' \<noteq> str ''Content-Type''" "str ''Content-Type'' \<noteq> str ''content-encoding''"
    "str ''Content-encoding'' \<noteq> str ''Content-type''" "str ''Content-type'' \<noteq> str ''Content-encoding''"
    by (simp_all add: CONTENT_ENCODING_def str_def)
  show ?thesis by (simp add: prepare_def apply_auth_def request_headers_def caps names)
qed

subsection \<open>Concrete inputs\<close>

definition demo_tables :: tables where
  "demo_tables = \<lparr>tb_nfkc = id, tb_lower = id, tb_capitalize = id, tb_title = id, tb_int = \<lambda>_. None, tb_address = \<lambda>_. True, tb_repr = id, tb_text = \<lambda>_. []\<rparr>"

definition demo_url :: pystr where "demo_url = [104, 116, 116, 112, 58, 47, 47, 104, 58, 56, 48, 47, 120]"

lemma demo_unwrap: "unwrap (32 # demo_url) = demo_url" "unwrap demo_url = demo_url"
  by (simp_all add: demo_url_def unwrap_def strip_def is_space_def str_def)

lemma demo_at: "64 \<notin> set demo_url"
  by (simp add: demo_url_def)

lemma demo_userinfo: "carries_userinfo demo_tables demo_url = False"
  unfolding carries_userinfo_def demo_unwrap
  by (simp add: demo_url_def holds_at_def forms_def nfkc_def ascii_def unquote_def authority_run_def url_view_def host_run_def ends_host_def)

lemma demo_parse: "url_parse demo_tables demo_url = Inr (str ''http'', [104, 58, 56, 48])"
  by (simp add: demo_url_def url_parse_def url_view_def split_scheme_def scheme_char_def is_alpha_def lower1_def host_run_def ends_host_def
      check_netloc_def ascii_def str_def)

lemma demo_request: "url_request demo_tables demo_url = Some \<lparr>rq_type = str ''http'', rq_host = [104, 58, 56, 48], rq_selector = [47, 120]\<rparr>"
  unfolding url_request_def demo_unwrap
  by (simp add: demo_url_def drop_tag_def py_lower_def ascii_def lower1_def host_run_def ends_host_def unquote_def str_def)

lemma demo_sendable: "sendable demo_tables \<lparr>rq_type = str ''http'', rq_host = [104, 58, 56, 48], rq_selector = [47, 120]\<rparr> = Inr 80"
  by (simp add: sendable_def started_request_def host_port_def py_int_def is_digit_def url_controls_def put_request_def ascii_def str_def
      put_header_def legal_name_def)

lemma demo_scheme: "py_lower demo_tables (str ''http'') = str ''http''" "allowed_scheme (str ''http'')"
  by (simp_all add: py_lower_def ascii_def lower1_def allowed_scheme_def str_def)

lemma demo_accepted: "valid_url demo_tables [] [] False (32 # demo_url) = Accepted demo_url"
  unfolding valid_url_def demo_unwrap Let_def demo_userinfo demo_parse
  by (simp add: demo_request demo_sendable demo_scheme demo_at MAX_PORT_def)

theorem url_accepted_safe_witness:
  "\<exists>rq pre host path port. demo_url = unwrap (32 # demo_url) \<and> 64 \<notin> set demo_url \<and> url_request demo_tables demo_url = Some rq \<and>
    demo_url = pre @ [58, 47, 47] @ host @ path \<and> allowed_scheme (map lower1 pre) \<and> host = host_run (host @ path) \<and>
    rq_host rq = unquote host \<and> rq_host rq \<noteq> [] \<and> 64 \<notin> set (rq_host rq) \<and> sendable demo_tables rq = Inr port \<and> 0 < port \<and> port \<le> MAX_PORT"
  by (rule url_accepted_safe [OF demo_accepted])

lemma demo_headers: "check_headers demo_tables [] [([88], [97])] = None" "header_ok demo_tables (str ''Content-Type'', [97])"
  by (simp_all add: header_ok_def has_crlf_def unsendable_header_def put_header_def wire_name_def py_title_def py_capitalize_def ascii_def legal_name_def str_def
      upper1_def lower1_def is_alpha_def)

lemma demo_auth: "valid_auth [] [([88], [97])] (Some (Basic [117] [112])) = None"
  by (simp add: valid_auth_def AUTHORIZATION_def str_def unsendable_auth_def authorization_def encode_utf8_def is_surrogate_def utf8_def utf8_char_def
      unsendable_header_def put_header_def ascii_def legal_name_def base64_char_def)

theorem prepared_headers_sendable_witness:
  "\<exists>headers data. prepare (\<lambda>b. b) True (Some (Basic [117] [112])) [([88], [97])] [1] [97] [] = Inr (headers, data) \<and>
    list_all (header_ok demo_tables) headers \<and> dict_get headers AUTHORIZATION \<noteq> None"
  using prepared_headers_sendable [OF demo_headers(1) demo_auth, of "[97]" "[]" "\<lambda>b. b" True "[1]"] demo_headers(2) by simp

subsection \<open>The constructor of the HTTP sink\<close>

text \<open>The keywords of a caller, \<^verbatim>\<open>None\<close> for one that was not given.\<close>

record http_kwargs =
  hw_method :: "pystr option"
  hw_headers :: "(pystr, pystr) dict option option"
  hw_auth :: "auth option option"
  hw_gzip :: "bool option"
  hw_max_retry_after :: "numarg option"
  hw_max_batch_count :: "numarg option"
  hw_max_batch_bytes :: "numarg option"
  hw_opener :: bool

definition no_kwargs :: http_kwargs where
  "no_kwargs =
     \<lparr>hw_method = None, hw_headers = None, hw_auth = None, hw_gzip = None, hw_max_retry_after = None,
      hw_max_batch_count = None, hw_max_batch_bytes = None, hw_opener = False\<rparr>"

record http_settings =
  hs_url :: pystr
  hs_method :: pystr
  hs_headers :: "(pystr, pystr) dict"
  hs_auth :: "auth option"
  hs_format :: pystr
  hs_timeout :: pynum
  hs_gzip :: bool
  hs_retries :: nat
  hs_max_retry_after :: pynum
  hs_count :: nat
  hs_bytes :: nat

definition BODY_FORMATS :: "pystr list" where "BODY_FORMATS = [str ''ndjson'', str ''json_array'']"

definition AUTH_REMEDY :: pystr where
  "AUTH_REMEDY = str ''auth=(user, password), auth=<token>, or an Authorization header in headers=''"

text \<open>\<^verbatim>\<open>default_count\<close> and \<^verbatim>\<open>default_bytes\<close> are the two limits of the class.\<close>

definition optional_limit :: "nat \<Rightarrow> (numarg \<Rightarrow> int result) \<Rightarrow> numarg \<Rightarrow> nat result" where
  "optional_limit dflt check arg = (if arg = ANone then Inr dflt else map_sum id nat (check arg))"

definition given :: "'a \<Rightarrow> 'a option \<Rightarrow> 'a" where
  "given dflt keyword = (case keyword of None \<Rightarrow> dflt | Some v \<Rightarrow> v)"

definition http_init ::
  "tables \<Rightarrow> nat \<Rightarrow> nat \<Rightarrow> numarg \<Rightarrow> pystr \<Rightarrow> pystr \<Rightarrow> pystr \<Rightarrow> numarg \<Rightarrow> numarg \<Rightarrow> http_kwargs \<Rightarrow> http_settings result" where
  "http_init T default_count default_bytes default_retry_after owner url body_format timeout max_retries kw =
     (case valid_url T (owner @ str '' url'') AUTH_REMEDY False url of
        Accepted url \<Rightarrow>
          if body_format \<notin> set BODY_FORMATS then Inl ValueError
          else (case valid_method T owner (given (str ''POST'') (hw_method kw)) of
            Accepted verb \<Rightarrow>
              let headers = given [] (given None (hw_headers kw)); a = given None (hw_auth kw)
              in if check_headers T owner headers \<noteq> None \<or> valid_auth owner headers a \<noteq> None then Inl ValueError
                 else (case require_timeout timeout of Inl e \<Rightarrow> Inl e | Inr timeout \<Rightarrow>
                      (case floor_count max_retries 0 of Inl e \<Rightarrow> Inl e | Inr retries \<Rightarrow>
                      (case exact_seconds (given default_retry_after (hw_max_retry_after kw)) of Inl e \<Rightarrow> Inl e | Inr retry_after \<Rightarrow>
                      (case optional_limit (max default_count 1) (\<lambda>n. floor_count n 1) (given ANone (hw_max_batch_count kw)) of Inl e \<Rightarrow> Inl e | Inr count \<Rightarrow>
                      (case optional_limit default_bytes require_positive (given ANone (hw_max_batch_bytes kw)) of Inl e \<Rightarrow> Inl e | Inr bytes \<Rightarrow>
                       Inr \<lparr>hs_url = url, hs_method = verb, hs_headers = headers, hs_auth = a, hs_format = body_format, hs_timeout = timeout,
                         hs_gzip = given False (hw_gzip kw), hs_retries = nat retries, hs_max_retry_after = retry_after, hs_count = count, hs_bytes = bytes\<rparr>)))))
          | _ \<Rightarrow> Inl ValueError)
      | _ \<Rightarrow> Inl ValueError)"

lemma map_sum_Inr_iff: "map_sum id f x = Inr y \<longleftrightarrow> (\<exists>z. x = Inr z \<and> y = f z)"
  by (cases x) auto

text \<open>A sink that could be built can cut every batch into requests, and every request it sends is bounded in time.\<close>

lemma http_init_usable:
  assumes "http_init T default_count default_bytes default_retry_after owner url body_format timeout max_retries kw = Inr hs" and "0 < default_bytes"
  shows "0 < hs_count hs \<and> 0 < hs_bytes hs \<and> bounds_something (hs_timeout hs) \<and>
    check_headers T owner (hs_headers hs) = None \<and> valid_auth owner (hs_headers hs) (hs_auth hs) = None"
proof -
  have counts: "0 < n" if "optional_limit (max default_count (Suc 0)) (\<lambda>n. floor_count n 1) arg = Inr n" for arg n
    using that by (cases arg) (auto simp: optional_limit_def floor_count_def)
  have bytes: "0 < n" if "optional_limit default_bytes require_positive arg = Inr n" for arg n
    using that assms(2) by (cases arg) (auto simp: optional_limit_def split: if_splits)
  have timeouts: "bounds_something t" if "require_timeout arg = Inr t" for arg t
    using that by (auto simp: require_timeout_def split: sum.splits if_splits)
  show ?thesis using assms(1) unfolding http_init_def Let_def
    by (auto split: checked.splits sum.splits if_splits dest: counts bytes timeouts)
qed

end
