(* ===== verification/Sockets.thy ===== *)
theory Sockets
  imports Http_Checks "HOL-Library.Sublist"
begin

text \<open>
  The sinks that write to a socket: \<^verbatim>\<open>sinks/_socket.py\<close>, \<^verbatim>\<open>sinks/syslog.py\<close> and
  \<^verbatim>\<open>sinks/logstash.py\<close>, which posts over HTTP instead when it is given a URL; and
  \<^verbatim>\<open>sinks/logging_sink.py\<close>, which hands events to the \<^verbatim>\<open>logging\<close> module. The network is an argument:
  each call of the \<^verbatim>\<open>socket\<close> module takes the state of the network and gives how it ended and the state
  after it.
\<close>

subsection \<open>The transport\<close>

text \<open>How a call ends: it returns, raises an \<^verbatim>\<open>OSError\<close> with its \<^verbatim>\<open>errno\<close>, if it has one, or raises
  something else (a host name that cannot be encoded). Closing a socket raises an \<^verbatim>\<open>OSError\<close> at most,
  which is dropped.\<close>

datatype 'a syscall = Returns 'a | OSErr "int option" | Raises pyexn

record 's net =
  nt_resolve :: "'s \<Rightarrow> int list syscall \<times> 's"
  nt_datagram :: "int \<Rightarrow> 's \<Rightarrow> unit syscall \<times> 's"
  nt_connect :: "'s \<Rightarrow> unit syscall \<times> 's"
  nt_sendall :: "bytes \<Rightarrow> 's \<Rightarrow> unit syscall \<times> 's"
  nt_sendto :: "bytes \<Rightarrow> 's \<Rightarrow> unit syscall \<times> 's"
  nt_close :: "'s \<Rightarrow> 's"
  nt_inet :: int
  nt_noname :: int
  nt_emsgsize :: int

record transport_cfg =
  tc_host :: pystr
  tc_port :: int
  tc_udp :: bool
  tc_timeout :: pynum
  tc_retries :: nat
  tc_limit :: nat

record 's transport =
  tp_open :: bool
  tp_shut :: bool
  tp_counters :: counters
  tp_net :: 's

definition DEFAULT_MAX_DATAGRAM_BYTES :: int where "DEFAULT_MAX_DATAGRAM_BYTES = 65507"

definition socket_init :: "pystr \<Rightarrow> numarg \<Rightarrow> pystr \<Rightarrow> numarg \<Rightarrow> numarg \<Rightarrow> numarg \<Rightarrow> transport_cfg result" where
  "socket_init host port transport timeout max_retries max_datagram_bytes =
     (if transport \<noteq> str ''tcp'' \<and> transport \<noteq> str ''udp'' then Inl ValueError
      else case exact_int port of
        Inl e \<Rightarrow> Inl e
      | Inr port \<Rightarrow>
          if \<not> (0 \<le> port \<and> port \<le> 65535) then Inl ValueError
          else case require_timeout timeout of
            Inl e \<Rightarrow> Inl e
          | Inr timeout \<Rightarrow>
            (case floor_count max_retries 0 of
               Inl e \<Rightarrow> Inl e
             | Inr retries \<Rightarrow>
               (case require_positive max_datagram_bytes of
                  Inl e \<Rightarrow> Inl e
                | Inr limit \<Rightarrow>
                    Inr \<lparr>tc_host = host, tc_port = port, tc_udp = (transport = str ''udp''), tc_timeout = timeout,
                      tc_retries = nat retries, tc_limit = nat limit\<rparr>)))"

definition new_transport :: "'s \<Rightarrow> 's transport" where
  "new_transport s = \<lparr>tp_open = False, tp_shut = False, tp_counters = (\<lambda>_. 0), tp_net = s\<rparr>"

definition make_udp :: "'s net \<Rightarrow> 's \<Rightarrow> unit syscall \<times> 's" where
  "make_udp net s =
     (case nt_resolve net s of
        (OSErr errno, s) \<Rightarrow> (OSErr errno, s)
      | (Raises e, s) \<Rightarrow> (Raises e, s)
      | (Returns families, s) \<Rightarrow>
          if families = [] then (OSErr (Some (nt_noname net)), s)
          else nt_datagram net (if nt_inet net \<in> set families then nt_inet net else hd families) s)"

definition the_socket :: "'s net \<Rightarrow> transport_cfg \<Rightarrow> 's transport \<Rightarrow> unit syscall \<times> 's transport" where
  "the_socket net cfg st =
     (if tp_open st then (Returns (), st)
      else let (r, s) = (if tc_udp cfg then make_udp else nt_connect) net (tp_net st)
           in (r, st\<lparr>tp_open := (r = Returns ()), tp_net := s\<rparr>))"

definition socket_reset :: "'s net \<Rightarrow> 's transport \<Rightarrow> 's transport" where
  "socket_reset net st = (if tp_open st then st\<lparr>tp_open := False, tp_net := nt_close net (tp_net st)\<rparr> else st)"

definition send_attempt :: "'s net \<Rightarrow> transport_cfg \<Rightarrow> bytes \<Rightarrow> 's transport \<Rightarrow> unit syscall \<times> 's transport" where
  "send_attempt net cfg message st =
     (case the_socket net cfg st of
        (Returns _, st) \<Rightarrow>
          (let (r, s) = (if tc_udp cfg then nt_sendto else nt_sendall) net message (tp_net st) in (r, st\<lparr>tp_net := s\<rparr>))
      | failure \<Rightarrow> failure)"

text \<open>The pause before another attempt is \<^verbatim>\<open>0.1 * 2 ** attempt\<close>, a float times an integer that the 1024th
  power no longer fits. What is left of the attempts is the recursion.\<close>

definition backoff :: "nat \<Rightarrow> pynum result" where
  "backoff attempt = (if 1024 \<le> attempt then Inl OverflowError else Inr (NF (Fin (1 / 10 * 2 ^ attempt))))"

fun send_tries :: "'s net \<Rightarrow> transport_cfg \<Rightarrow> bytes \<Rightarrow> nat \<Rightarrow> nat \<Rightarrow> 's transport \<Rightarrow> bool result \<times> 's transport" where
  "send_tries net cfg message attempt left st =
     (case send_attempt net cfg message st of
        (Returns _, st) \<Rightarrow> (Inr True, st)
      | (Raises e, st) \<Rightarrow> (Inl e, st)
      | (OSErr errno, st) \<Rightarrow>
          let st = socket_reset net st
          in if 0 < left \<and> errno \<noteq> Some (nt_emsgsize net)
             then case backoff attempt of
                    Inl e \<Rightarrow> (Inl e, st)
                  | Inr _ \<Rightarrow> send_tries net cfg message (Suc attempt) (left - 1) st
             else (Inr False, st\<lparr>tp_counters := bump C_FAILED 1 (tp_counters st)\<rparr>))"

declare send_tries.simps [simp del]

definition send_one :: "'s net \<Rightarrow> transport_cfg \<Rightarrow> bytes \<Rightarrow> 's transport \<Rightarrow> bool result \<times> 's transport" where
  "send_one net cfg message st = send_tries net cfg message 0 (tc_retries cfg) st"

text \<open>Also the messages that were delivered.\<close>

fun send_loop :: "'s net \<Rightarrow> transport_cfg \<Rightarrow> bytes list \<Rightarrow> 's transport \<Rightarrow> unit result \<times> bytes list \<times> 's transport" where
  "send_loop net cfg [] st = (Inr (), [], st)"
| "send_loop net cfg (message # messages) st =
     (case send_one net cfg message st of
        (Inl e, st) \<Rightarrow> (Inl e, [], st)
      | (Inr ok, st) \<Rightarrow> (let (r, delivered, st) = send_loop net cfg messages st in (r, if ok then message # delivered else delivered, st)))"

definition sendable_messages :: "transport_cfg \<Rightarrow> bytes list \<Rightarrow> deferral \<Rightarrow> bytes list \<times> deferral" where
  "sendable_messages cfg messages pending =
     (if \<not> tc_udp cfg then (messages, pending)
      else let keep = filter (\<lambda>m. length m \<le> tc_limit cfg) messages; dropped = length messages - length keep
           in (keep, if 0 < dropped then defer_announce dropped (defer_count C_OVERSIZED dropped pending) else pending))"

definition send_all :: "'s net \<Rightarrow> transport_cfg \<Rightarrow> bytes list \<Rightarrow> deferral \<Rightarrow> 's transport \<Rightarrow> unit result \<times> bytes list \<times> deferral \<times> 's transport" where
  "send_all net cfg messages pending st =
     (if tp_shut st then (Inl SinkDeliveryError, [], pending, st)
      else if messages = [] then (Inr (), [], pending, st)
      else let (keep, pending) = sendable_messages cfg messages pending;
               (r, delivered, st) = send_loop net cfg keep st
           in (if r = Inr () \<and> keep \<noteq> [] \<and> delivered = [] then Inl SinkDeliveryError else r, delivered, pending, st))"

definition transport_losses :: "counters \<Rightarrow> sink_losses" where
  "transport_losses c = \<lparr>sl_dropped = c C_OVERSIZED + c C_UNENCODABLE, sl_failed = c C_FAILED\<rparr>"

definition socket_close :: "'s net \<Rightarrow> 's transport \<Rightarrow> 's transport" where
  "socket_close net st = socket_reset net (st\<lparr>tp_shut := True\<rparr>)"

text \<open>The \<^verbatim>\<open>emit\<close> of both sinks, with the sink's way of framing an event.\<close>

definition socket_emit :: "'s net \<Rightarrow> transport_cfg \<Rightarrow> (event \<Rightarrow> bytes result) \<Rightarrow> event list \<Rightarrow> 's transport \<Rightarrow> unit result \<times> bytes list \<times> 's transport" where
  "socket_emit net cfg frame batch st =
     (if batch = [] then (Inr (), [], st)
      else let (frames, pending) = encode_events frame C_UNENCODABLE batch new_deferral;
               (r, delivered, pending, st) = send_all net cfg (map snd frames) pending st
           in (r, delivered, st\<lparr>tp_counters := fst (deferral_exit (r \<noteq> Inr ()) pending (tp_counters st))\<rparr>))"

subsection \<open>What the transport accounts for\<close>

lemmas transport_steps = the_socket_def send_attempt_def socket_reset_def

lemma send_attempt_keeps:
  "send_attempt net cfg m st = (r, st') \<Longrightarrow> tp_counters st' = tp_counters st \<and> tp_shut st' = tp_shut st"
  by (auto simp: transport_steps split: prod.splits syscall.splits if_splits)

lemma socket_reset_keeps [simp]:
  "tp_counters (socket_reset net st) = tp_counters st" "tp_shut (socket_reset net st) = tp_shut st" "\<not> tp_open (socket_reset net st)"
  by (simp_all add: socket_reset_def)

lemma send_tries_counts:
  "send_tries net cfg m attempt left st = (r, st') \<Longrightarrow>
     tp_counters st' = (if r = Inr False then bump C_FAILED 1 (tp_counters st) else tp_counters st) \<and> tp_shut st' = tp_shut st"
proof (induction net cfg m attempt left st rule: send_tries.induct)
  case (1 net cfg m attempt left st)
  obtain a s where a: "send_attempt net cfg m st = (a, s)" by (rule prod.exhaust)
  show ?case
  proof (cases a)
    case (OSErr errno)
    show ?thesis
    proof (cases "0 < left \<and> errno \<noteq> Some (nt_emsgsize net) \<and> attempt < 1024")
      case True
      then have rest: "send_tries net cfg m (Suc attempt) (left - 1) (socket_reset net s) = (r, st')"
        using 1(2) a OSErr by (subst (asm) send_tries.simps) (simp add: Let_def backoff_def)
      show ?thesis using 1(1) [OF a [symmetric] OSErr refl _ _ rest] True send_attempt_keeps [OF a] by (simp add: backoff_def)
    next
      case False
      then show ?thesis using 1(2) a OSErr send_attempt_keeps [OF a]
        by (subst (asm) send_tries.simps) (auto simp: Let_def backoff_def split: if_splits)
    qed
  qed (use 1(2) a send_attempt_keeps [OF a] in \<open>subst (asm) send_tries.simps, auto\<close>)+
qed

lemma send_loop_counts:
  "send_loop net cfg ms st = (r, delivered, st') \<Longrightarrow>
     tp_shut st' = tp_shut st \<and> (\<exists>k. tp_counters st' = bump C_FAILED k (tp_counters st) \<and> (r = Inr () \<longrightarrow> length delivered + k = length ms))
       \<and> subseq delivered ms"
proof (induction ms arbitrary: st r delivered st')
  case Nil
  then show ?case by (auto simp: bump_def)
next
  case (Cons m ms)
  obtain q s where q: "send_one net cfg m st = (q, s)" by (rule prod.exhaust)
  note kept = send_tries_counts [OF q [unfolded send_one_def]]
  show ?case
  proof (cases q)
    case (Inl e)
    then show ?thesis using Cons.prems q kept by (auto intro!: exI [of _ 0] simp: bump_def)
  next
    case (Inr ok)
    obtain r1 d1 s1 where rest: "send_loop net cfg ms s = (r1, d1, s1)" by (metis prod.exhaust)
    from Cons.IH [OF this] obtain k where k: "tp_counters s1 = bump C_FAILED k (tp_counters s)" "r1 = Inr () \<longrightarrow> length d1 + k = length ms"
      "subseq d1 ms" "tp_shut s1 = tp_shut s" by blast
    have out: "r = r1" "delivered = (if ok then m # d1 else d1)" "st' = s1" using Cons.prems q Inr rest by auto
    have "tp_counters s1 = bump C_FAILED (if ok then k else Suc k) (tp_counters st)" using k(1) kept Inr by (auto simp: bump_def)
    then show ?thesis using k kept out by (intro conjI exI [of _ "if ok then k else Suc k"]) auto
  qed
qed

lemma sendable_accounts:
  assumes "sendable_messages cfg ms pending = (keep, pending')"
  shows "length keep + pending_of pending' C_OVERSIZED = length ms + pending_of pending C_OVERSIZED"
    and "name \<noteq> C_OVERSIZED \<Longrightarrow> pending_of pending' name = pending_of pending name" and "deferral_wf pending \<Longrightarrow> deferral_wf pending'"
    and "subseq keep ms" and "tc_udp cfg \<Longrightarrow> m \<in> set keep \<Longrightarrow> length m \<le> tc_limit cfg"
  using assms by (auto simp: sendable_messages_def Let_def not_less split: if_splits intro: le_antisym)

text \<open>A batch that is taken is delivered or counted, event by event; one that is not taken has counted
  no drop, and unless a call raised what is no \<^verbatim>\<open>OSError\<close> it has delivered nothing.\<close>

definition socket_accounted :: "counters \<Rightarrow> nat \<Rightarrow> unit result \<Rightarrow> 'm list \<Rightarrow> counters \<Rightarrow> bool" where
  "socket_accounted c n r delivered c' \<longleftrightarrow>
     (case r of
        Inr _ \<Rightarrow> length delivered + sl_dropped (transport_losses c') + sl_failed (transport_losses c') =
                 n + sl_dropped (transport_losses c) + sl_failed (transport_losses c)
      | Inl e \<Rightarrow> sl_dropped (transport_losses c') = sl_dropped (transport_losses c))"

lemma send_all_accounts:
  assumes "send_all net cfg ms pending st = (r, delivered, pending', st')"
  shows "tp_shut st' = tp_shut st \<and> subseq delivered ms \<and>
    (deferral_wf pending \<longrightarrow> deferral_wf pending') \<and> (\<forall>name. name \<noteq> C_OVERSIZED \<longrightarrow> pending_of pending' name = pending_of pending name) \<and>
    (\<exists>k. tp_counters st' = bump C_FAILED k (tp_counters st) \<and>
      (r = Inr () \<longrightarrow> length delivered + k + pending_of pending' C_OVERSIZED = length ms + pending_of pending C_OVERSIZED)) \<and>
    (r = Inl SinkDeliveryError \<and> tp_shut st \<longrightarrow> delivered = [] \<and> st' = st)"
proof (cases "tp_shut st \<or> ms = []")
  case True
  then show ?thesis using assms by (auto simp: send_all_def bump_def intro: exI [of _ 0] split: if_splits)
next
  case False
  obtain keep p1 where keep: "sendable_messages cfg ms pending = (keep, p1)" by (rule prod.exhaust)
  obtain q d s where loop: "send_loop net cfg keep st = (q, d, s)" by (metis prod.exhaust)
  have out: "delivered = d" "pending' = p1" "st' = s" "r = Inr () \<Longrightarrow> q = Inr ()"
    using assms False keep loop by (auto simp: send_all_def split: if_splits)
  note kept = sendable_accounts [OF keep]
  from send_loop_counts [OF loop] obtain k where k: "tp_shut s = tp_shut st" "tp_counters s = bump C_FAILED k (tp_counters st)"
    "q = Inr () \<longrightarrow> length d + k = length keep" "subseq d keep" by blast
  have "subseq d ms" by (rule subseq_order.trans [OF k(4) kept(4)])
  then show ?thesis using kept(1,2,3) k(1,2,3) out False by auto
qed

theorem socket_emit_accounts:
  assumes "socket_emit net cfg frame batch st = (r, delivered, st')"
  shows "socket_accounted (tp_counters st) (length batch) r delivered (tp_counters st')"
proof (cases "batch = []")
  case True
  then show ?thesis using assms by (auto simp: socket_emit_def socket_accounted_def)
next
  case False
  obtain frames p where enc: "encode_events frame C_UNENCODABLE batch new_deferral = (frames, p)" by (rule prod.exhaust)
  obtain q d p' s where all: "send_all net cfg (map snd frames) p st = (q, d, p', s)" by (metis prod.exhaust)
  note e = encode_events_accounts [OF enc]
  from send_all_accounts [OF all] obtain k where k: "tp_counters s = bump C_FAILED k (tp_counters st)" "deferral_wf p'"
    "\<forall>name. name \<noteq> C_OVERSIZED \<longrightarrow> pending_of p' name = pending_of p name"
    "q = Inr () \<longrightarrow> length d + k + pending_of p' C_OVERSIZED = length frames + pending_of p C_OVERSIZED"
    using e(3) by auto
  have "pending_of p C_OVERSIZED = 0" "pending_of p C_FAILED = 0" using e(2) [of C_OVERSIZED] e(2) [of C_FAILED] by simp_all
  then show ?thesis using assms False enc all k e(1)
    by (auto simp: socket_emit_def socket_accounted_def transport_losses_def deferral_exit_counts bump_def split: sum.splits)
qed

text \<open>No datagram over the limit is ever sent, and a transport that is closed touches nothing.\<close>

lemma send_loop_within:
  "send_loop net cfg ms st = (r, delivered, st') \<Longrightarrow> set delivered \<subseteq> set ms"
  using send_loop_counts [of net cfg ms st r delivered st'] by (auto dest: list_emb_set)

lemma udp_within_limit:
  assumes "tc_udp cfg" and "send_all net cfg ms pending st = (r, delivered, pending', st')"
  shows "list_all (\<lambda>m. length m \<le> tc_limit cfg) delivered"
proof -
  obtain keep p1 where keep: "sendable_messages cfg ms pending = (keep, p1)" by (rule prod.exhaust)
  obtain q d s where loop: "send_loop net cfg keep st = (q, d, s)" by (metis prod.exhaust)
  have "delivered = [] \<or> delivered = d" using assms(2) keep loop by (auto simp: send_all_def split: if_splits)
  then show ?thesis using send_loop_within [OF loop] sendable_accounts(5) [OF keep assms(1)] by (auto simp: list_all_iff)
qed

lemma closed_socket_sends_nothing:
  "batch \<noteq> [] \<Longrightarrow> socket_emit net cfg frame batch (socket_close net st) = (Inl SinkDeliveryError, [], socket_close net st)"
  by (auto simp: socket_emit_def send_all_def socket_close_def deferral_exit_def Let_def split: prod.split)

text \<open>A datagram that the network calls too long is not tried again, however many attempts are left.\<close>

lemma too_long_tried_once:
  assumes "send_attempt net cfg m st = (OSErr (Some (nt_emsgsize net)), s)"
  shows "send_one net cfg m st = (Inr False, (socket_reset net s)\<lparr>tp_counters := bump C_FAILED 1 (tp_counters st)\<rparr>)"
  using assms send_attempt_keeps [OF assms] by (simp add: send_one_def send_tries.simps Let_def)

subsection \<open>Syslog\<close>

definition SEVERITY :: "(pystr, nat) dict" where
  "SEVERITY = [(str ''DEBUG'', 7), (str ''INFO'', 6), (str ''NOTICE'', 5), (str ''WARNING'', 4), (str ''ERROR'', 3), (str ''CRITICAL'', 2)]"

definition DEFAULT_SEVERITY :: nat where "DEFAULT_SEVERITY = 5"

definition FACILITY :: "(pystr, nat) dict" where
  "FACILITY =
     [(str ''kern'', 0), (str ''user'', 1), (str ''mail'', 2), (str ''daemon'', 3), (str ''auth'', 4), (str ''syslog'', 5),
      (str ''lpr'', 6), (str ''news'', 7), (str ''uucp'', 8), (str ''cron'', 9), (str ''authpriv'', 10), (str ''ftp'', 11),
      (str ''local0'', 16), (str ''local1'', 17), (str ''local2'', 18), (str ''local3'', 19), (str ''local4'', 20),
      (str ''local5'', 21), (str ''local6'', 22), (str ''local7'', 23)]"

record syslog =
  sy_facility :: nat
  sy_app :: pystr
  sy_hostname :: pystr
  sy_transport :: transport_cfg

text \<open>\<open>gethostname\<close> is the answer of the call; the other arguments are those of the transport.\<close>

definition syslog_init ::
  "pystr \<Rightarrow> pystr \<Rightarrow> numarg \<Rightarrow> pystr \<Rightarrow> pystr \<Rightarrow> pystr \<Rightarrow> numarg \<Rightarrow> numarg \<Rightarrow> numarg \<Rightarrow> syslog result" where
  "syslog_init gethostname host port transport facility app_name timeout max_retries max_datagram_bytes =
     (case dict_get FACILITY facility of
        None \<Rightarrow> Inl ValueError
      | Some code \<Rightarrow>
          if app_name = [] \<or> list_ex is_space app_name then Inl ValueError
          else map_sum id
                 (\<lambda>cfg. \<lparr>sy_facility = code, sy_app = app_name, sy_hostname = (if gethostname = [] then str ''-'' else gethostname), sy_transport = cfg\<rparr>)
                 (socket_init host port transport timeout max_retries max_datagram_bytes))"

text \<open>What a frame depends on besides the event: \<^verbatim>\<open>str.upper\<close>, \<^verbatim>\<open>json.dumps\<close> and the process id.\<close>

record syslog_env =
  se_upper :: "pystr \<Rightarrow> pystr"
  se_dumps :: "jval \<Rightarrow> pystr result"
  se_pid :: nat

definition syslog_severity :: "syslog_env \<Rightarrow> event \<Rightarrow> nat" where
  "syslog_severity env ev =
     (case dict_get ev (str ''level'') of
        Some (JStr l) \<Rightarrow> (case dict_get SEVERITY (se_upper env l) of Some n \<Rightarrow> n | None \<Rightarrow> DEFAULT_SEVERITY)
      | _ \<Rightarrow> DEFAULT_SEVERITY)"

definition syslog_text :: "syslog_env \<Rightarrow> syslog \<Rightarrow> event \<Rightarrow> pystr result" where
  "syslog_text env sy ev =
     (let pri = sy_facility sy * 8 + syslog_severity env ev;
          ts = (case dict_get ev (str ''timestamp'') of Some (JStr t) \<Rightarrow> t | _ \<Rightarrow> str ''-'')
      in map_sum id
           (\<lambda>msg. str ''<'' @ decimal pri @ str ''>1 '' @ ts @ [32] @ sy_hostname sy @ [32] @ sy_app sy @ [32] @ decimal (se_pid env) @ str '' - - '' @ msg)
           (se_dumps env (JDict ev)))"

definition syslog_data :: "syslog_env \<Rightarrow> syslog \<Rightarrow> event \<Rightarrow> bytes result" where
  "syslog_data env sy ev = (case syslog_text env sy ev of Inl e \<Rightarrow> Inl e | Inr t \<Rightarrow> encode_utf8 t)"

text \<open>Over TCP a frame carries the number of its bytes (RFC 6587, octet counting).\<close>

definition octet_frame :: "bytes \<Rightarrow> bytes" where
  "octet_frame data = decimal (length data) @ [32] @ data"

definition syslog_frame :: "syslog_env \<Rightarrow> syslog \<Rightarrow> event \<Rightarrow> bytes result" where
  "syslog_frame env sy ev = map_sum id (\<lambda>data. if tc_udp (sy_transport sy) then data else octet_frame data) (syslog_data env sy ev)"

definition syslog_emit :: "'s net \<Rightarrow> syslog_env \<Rightarrow> syslog \<Rightarrow> event list \<Rightarrow> 's transport \<Rightarrow> unit result \<times> bytes list \<times> 's transport" where
  "syslog_emit net env sy = socket_emit net (sy_transport sy) (syslog_frame env sy)"

text \<open>A sequence of emits, and the frames that were delivered.\<close>

fun syslog_run :: "'s net \<Rightarrow> syslog_env \<Rightarrow> syslog \<Rightarrow> event list list \<Rightarrow> 's transport \<Rightarrow> bytes list \<times> 's transport" where
  "syslog_run net env sy [] st = ([], st)"
| "syslog_run net env sy (batch # batches) st =
     (let (_, delivered, st) = syslog_emit net env sy batch st; (tail_frames, st) = syslog_run net env sy batches st in (delivered @ tail_frames, st))"

text \<open>The priority of a frame is within what RFC 5424 allows.\<close>

lemma dict_get_le: "dict_get d k = Some n \<Longrightarrow> list_all (\<lambda>kv. snd kv \<le> m) d \<Longrightarrow> n \<le> m"
  by (fastforce simp: dict_get_def list_all_iff dest: map_of_SomeD)

lemma syslog_severity_range: "syslog_severity env ev \<le> 7"
proof -
  have "list_all (\<lambda>kv. snd kv \<le> 7) SEVERITY" by (simp add: SEVERITY_def)
  then show ?thesis by (auto simp: syslog_severity_def DEFAULT_SEVERITY_def split: option.split jval.split dest: dict_get_le)
qed

lemma facility_range:
  assumes "syslog_init hn host port tr facility app t r d = Inr sy"
  shows "sy_facility sy \<le> 23"
proof -
  have codes: "list_all (\<lambda>kv. snd kv \<le> 23) FACILITY" by (simp add: FACILITY_def)
  obtain cfg where "socket_init host port tr t r d = Inr cfg"
    using assms by (cases "socket_init host port tr t r d") (simp_all add: syslog_init_def split: option.splits if_splits)
  then show ?thesis using assms dict_get_le [OF _ codes]
    by (auto simp: syslog_init_def split: option.splits if_splits)
qed

lemma syslog_priority: "syslog_init hn host port tr facility app t r d = Inr sy \<Longrightarrow> sy_facility sy * 8 + syslog_severity env ev \<le> 191"
  using facility_range [of hn host port tr facility app t r d sy] syslog_severity_range [of env ev] by linarith

subsection \<open>Reading frames back\<close>

text \<open>The reader of RFC 6587: the count up to the space, then as many bytes; what is left is a frame that
  has not arrived in full.\<close>

definition read_number :: "pystr \<Rightarrow> nat" where
  "read_number t = fold (\<lambda>c n. 10 * n + (c - 48)) t 0"

definition read_count :: "bytes \<Rightarrow> (nat \<times> bytes) option" where
  "read_count t =
     (let ds = takeWhile is_digit t; rest = dropWhile is_digit t
      in if ds = [] \<or> rest = [] \<or> hd rest \<noteq> 32 then None else Some (read_number ds, tl rest))"

lemma read_count_shorter: "read_count t = Some (n, rest) \<Longrightarrow> length rest < length t"
proof -
  assume "read_count t = Some (n, rest)"
  then have "rest = tl (dropWhile is_digit t)" "dropWhile is_digit t \<noteq> []" by (simp_all add: read_count_def Let_def split: if_splits)
  moreover have "length (dropWhile is_digit t) \<le> length t" by (rule length_dropWhile_le)
  ultimately show ?thesis by (cases "dropWhile is_digit t") simp_all
qed

function deframe :: "bytes \<Rightarrow> bytes list \<times> bytes" where
  "deframe t =
     (case read_count t of
        None \<Rightarrow> ([], t)
      | Some (n, rest) \<Rightarrow>
          if length rest < n then ([], t)
          else let (msgs, left) = deframe (drop n rest) in (take n rest # msgs, left))"
  by pat_completeness auto

termination deframe
  by (relation "measure length") (auto dest!: read_count_shorter)

declare deframe.simps [simp del]

lemma read_number_snoc: "read_number (t @ [c]) = 10 * read_number t + (c - 48)"
  by (simp add: read_number_def)

lemma read_number_decimal: "read_number (decimal n) = n"
proof (induction n rule: decimal.induct)
  case (1 n)
  then show ?case by (subst decimal.simps) (auto simp: read_number_snoc read_number_def)
qed

lemma decimal_digits: "list_all is_digit (decimal n)"
proof (induction n rule: decimal.induct)
  case (1 n)
  then show ?case by (subst decimal.simps) (simp add: is_digit_def [of "48 + m" for m] less_Suc_eq_le [symmetric])
qed

lemma decimal_nonempty: "decimal n \<noteq> []"
  by (subst decimal.simps) simp

lemma read_count_frame: "read_count (decimal n @ 32 # rest) = Some (n, rest)"
proof -
  have "takeWhile is_digit (decimal n @ 32 # rest) = decimal n" "dropWhile is_digit (decimal n @ 32 # rest) = 32 # rest"
    using decimal_digits [of n] by (auto simp: list_all_iff takeWhile_append dropWhile_append is_digit_def)
  then show ?thesis using decimal_nonempty by (simp add: read_count_def read_number_decimal Let_def)
qed

lemma deframe_frame: "deframe (octet_frame data @ t) = (data # fst (deframe t), snd (deframe t))"
  by (subst deframe.simps) (simp add: octet_frame_def read_count_frame case_prod_beta)

text \<open>Of a frame that was cut off nothing is read.\<close>

lemma deframe_cut: "k < length (octet_frame data) \<Longrightarrow> fst (deframe (take k (octet_frame data))) = []"
proof (cases "k \<le> length (decimal (length data))")
  case True
  then have "list_all is_digit (take k (octet_frame data))"
    using decimal_digits [of "length data"] by (auto simp: octet_frame_def list_all_iff dest: in_set_takeD)
  then have "read_count (take k (octet_frame data)) = None" by (simp add: read_count_def Let_def list_all_iff)
  then show ?thesis by (subst deframe.simps) simp
next
  case False
  assume "k < length (octet_frame data)"
  moreover obtain j where "k = length (decimal (length data)) + Suc j" using False by (auto simp: not_le less_iff_Suc_add)
  ultimately have "take k (octet_frame data) = decimal (length data) @ 32 # take j data" "j < length data" by (simp_all add: octet_frame_def)
  then show ?thesis by (subst deframe.simps) (simp add: read_count_frame)
qed

lemma deframe_frames: "fst (deframe (concat (map octet_frame ds) @ t)) = ds @ fst (deframe t)"
  by (induction ds) (simp_all add: deframe_frame)

lemma deframe_nil: "fst (deframe []) = []"
  by (subst deframe.simps) (simp add: read_count_def)

subsection \<open>Connections stay readable\<close>

text \<open>What the \<^verbatim>\<open>socket\<close> module documents of streams: a connection starts empty; \<^verbatim>\<open>sendall\<close> adds all of its data, or
  some beginning of it when it raises, which it does with an \<^verbatim>\<open>OSError\<close>. \<open>streams\<close> is what the
  other end of each connection has received, the present one last.\<close>

definition stream_net :: "'s net \<Rightarrow> ('s \<Rightarrow> bytes list) \<Rightarrow> bool" where
  "stream_net net streams \<longleftrightarrow>
     (\<forall>s r s'. nt_connect net s = (r, s') \<longrightarrow> streams s' = streams s @ (if r = Returns () then [[]] else [])) \<and>
     (\<forall>m s r s'. nt_sendall net m s = (r, s') \<longrightarrow> streams s \<noteq> [] \<longrightarrow>
        (\<forall>e. r \<noteq> Raises e) \<and> (\<exists>k. streams s' = butlast (streams s) @ [last (streams s) @ take k m] \<and> (r = Returns () \<longrightarrow> length m \<le> k))) \<and>
     (\<forall>s. streams (nt_close net s) = streams s)"

lemma stream_netD:
  assumes "stream_net net streams"
  shows "nt_connect net s = (r, s') \<Longrightarrow> streams s' = streams s @ (if r = Returns () then [[]] else [])"
    and "nt_sendall net m s = (r, s') \<Longrightarrow> streams s \<noteq> [] \<Longrightarrow>
      (\<forall>e. r \<noteq> Raises e) \<and> (\<exists>k. streams s' = butlast (streams s) @ [last (streams s) @ take k m] \<and> (r = Returns () \<longrightarrow> length m \<le> k))"
    and "streams (nt_close net s) = streams s"
  using assms unfolding stream_net_def by blast+

text \<open>Every stream is frames in full, then at most a part of one; the open one ends with a full frame.\<close>

type_synonym stream_parts = "(bytes list \<times> bytes) list"

definition stream_of :: "bytes list \<times> bytes \<Rightarrow> bytes" where
  "stream_of p = concat (map octet_frame (fst p)) @ snd p"

definition intact :: "bytes set \<Rightarrow> bytes list \<Rightarrow> bool \<Rightarrow> bytes list \<Rightarrow> bool" where
  "intact D xs opened delivered \<longleftrightarrow>
     (\<exists>L :: stream_parts. xs = map stream_of L \<and> (\<forall>p \<in> set L. set (fst p) \<subseteq> D \<and> fst (deframe (snd p)) = []) \<and>
        subseq delivered (map octet_frame (concat (map fst L))) \<and> (opened \<longrightarrow> L \<noteq> [] \<and> snd (last L) = []))"

lemma intact_weaken: "intact D xs opened delivered \<Longrightarrow> intact D xs False delivered"
  unfolding intact_def by blast

lemma intact_fewer: "intact D xs opened (delivered @ tail_frames) \<Longrightarrow> intact D xs opened delivered"
proof -
  have "subseq (delivered @ tail_frames) ys \<Longrightarrow> subseq delivered ys" for ys
    by (rule subseq_order.trans [of _ "delivered @ tail_frames"]) (rule subseq_rev_drop_many, rule subseq_order.order_refl)
  then show "intact D xs opened (delivered @ tail_frames) \<Longrightarrow> intact D xs opened delivered" unfolding intact_def by blast
qed

lemma intact_open: "intact D xs opened delivered \<Longrightarrow> intact D (xs @ [[]]) True delivered"
  unfolding intact_def
  by (elim exE conjE) (rule exI [of _ "L @ [([], [])]" for L], auto simp: stream_of_def deframe_nil)

lemma intact_write:
  assumes ok: "intact D xs True delivered" and d: "d \<in> D" and m: "m = octet_frame d"
  shows "xs \<noteq> [] \<and> intact D (butlast xs @ [last xs @ take k m]) (length m \<le> k) (if length m \<le> k then delivered @ [m] else delivered)"
proof -
  from ok obtain L where "xs = map stream_of L" "L \<noteq> []" "snd (last L) = []" "\<forall>p \<in> set L. set (fst p) \<subseteq> D \<and> fst (deframe (snd p)) = []"
    "subseq delivered (map octet_frame (concat (map fst L)))" unfolding intact_def by blast
  then obtain L0 ds where L: "L = L0 @ [(ds, [])]" "xs = map stream_of L0 @ [concat (map octet_frame ds)]"
    "\<forall>p \<in> set L0. set (fst p) \<subseteq> D \<and> fst (deframe (snd p)) = []" "set ds \<subseteq> D"
    and sub: "subseq delivered (map octet_frame (concat (map fst L0) @ ds))"
    by (cases L rule: rev_cases) (auto simp: stream_of_def)
  show ?thesis
  proof (cases "length m \<le> k")
    case True
    have "subseq (delivered @ [m]) (map octet_frame (concat (map fst (L0 @ [(ds @ [d], [])]))))"
      using list_emb_append_mono [OF sub, of "[m]" "[m]"] m by simp
    moreover have "butlast xs @ [last xs @ take k m] = map stream_of (L0 @ [(ds @ [d], [])])" using L(2) True m by (simp add: stream_of_def)
    moreover have "\<forall>p \<in> set (L0 @ [(ds @ [d], [])]). set (fst p) \<subseteq> D \<and> fst (deframe (snd p)) = []" using L d deframe_nil by simp
    moreover have "L0 @ [(ds @ [d], [])] \<noteq> [] \<and> snd (last (L0 @ [(ds @ [d], [])])) = []" by simp
    ultimately have "intact D (butlast xs @ [last xs @ take k m]) True (delivered @ [m])" unfolding intact_def by blast
    then show ?thesis using L(2) True by simp
  next
    case False
    have "fst (deframe (take k m)) = []" using deframe_cut [of k d] False m by simp
    moreover have "butlast xs @ [last xs @ take k m] = map stream_of (L0 @ [(ds, take k m)])" using L(2) by (simp add: stream_of_def)
    moreover have "\<forall>p \<in> set (L0 @ [(ds, take k m)]). set (fst p) \<subseteq> D \<and> fst (deframe (snd p)) = []" using L(3,4) calculation(1) by simp
    moreover have "subseq delivered (map octet_frame (concat (map fst (L0 @ [(ds, take k m)]))))" using sub by simp
    ultimately have "intact D (butlast xs @ [last xs @ take k m]) False delivered" unfolding intact_def by blast
    then show ?thesis using L(2) False by simp
  qed
qed

text \<open>What the receivers read, all connections together.\<close>

definition received :: "bytes list \<Rightarrow> bytes list" where
  "received xs = concat (map (\<lambda>x. fst (deframe x)) xs)"

lemma intact_received: "intact D xs opened delivered \<Longrightarrow> set (received xs) \<subseteq> D \<and> subseq delivered (map octet_frame (received xs))"
proof -
  assume "intact D xs opened delivered"
  then obtain L where L: "xs = map stream_of L" "\<forall>p \<in> set L. set (fst p) \<subseteq> D \<and> fst (deframe (snd p)) = []"
    "subseq delivered (map octet_frame (concat (map fst L)))" unfolding intact_def by blast
  have "received xs = concat (map fst L)" using L(1,2) unfolding L(1) by (induction L) (auto simp: received_def stream_of_def deframe_frames)
  then show ?thesis using L by auto
qed

text \<open>One attempt, all attempts, a batch.\<close>

lemma send_attempt_intact:
  assumes net: "stream_net net streams" and tcp: "\<not> tc_udp cfg" and d: "d \<in> D"
    and ok: "intact D (streams (tp_net st)) (tp_open st) delivered" and a: "send_attempt net cfg (octet_frame d) st = (r, st')"
  shows "intact D (streams (tp_net st')) (case r of OSErr _ \<Rightarrow> False | _ \<Rightarrow> tp_open st') (if r = Returns () then delivered @ [octet_frame d] else delivered)"
proof -
  obtain q s where q: "the_socket net cfg st = (q, s)" by (rule prod.exhaust)
  have opened: "intact D (streams (tp_net s)) (tp_open s) delivered \<and> (q = Returns () \<longrightarrow> tp_open s)"
  proof (cases "tp_open st")
    case False
    then obtain n where "nt_connect net (tp_net st) = (q, n)" "s = st\<lparr>tp_open := (q = Returns ()), tp_net := n\<rparr>"
      using q tcp by (auto simp: the_socket_def split: prod.splits)
    then show ?thesis using ok stream_netD(1) [OF net] False by (auto intro: intact_open)
  qed (use q ok in \<open>simp add: the_socket_def\<close>)
  show ?thesis
  proof (cases "q = Returns ()")
    case True
    obtain w n where w: "nt_sendall net (octet_frame d) (tp_net s) = (w, n)" by (rule prod.exhaust)
    have out: "r = w" "st' = s\<lparr>tp_net := n\<rparr>" using a q True tcp w by (auto simp: send_attempt_def)
    have now: "intact D (streams (tp_net s)) True delivered" using opened True by auto
    note written = intact_write [OF now d refl]
    have nonempty: "streams (tp_net s) \<noteq> []" using written by simp
    from stream_netD(2) [OF net w nonempty] obtain k where k: "streams n = butlast (streams (tp_net s)) @ [last (streams (tp_net s)) @ take k (octet_frame d)]"
      "w = Returns () \<longrightarrow> length (octet_frame d) \<le> k" "\<forall>e. w \<noteq> Raises e" by blast
    have after: "intact D (streams n) (length (octet_frame d) \<le> k) (if length (octet_frame d) \<le> k then delivered @ [octet_frame d] else delivered)"
      using written k(1) by simp
    have failed: "intact D (streams n) False delivered"
    proof (cases "length (octet_frame d) \<le> k")
      case True
      then have "intact D (streams n) True (delivered @ [octet_frame d])" using after by simp
      then show ?thesis by (rule intact_weaken [OF intact_fewer])
    next
      case False
      then show ?thesis using after by simp
    qed
    show ?thesis
    proof (cases w)
      case (Returns u)
      then show ?thesis using after k(2) out opened True by auto
    next
      case (OSErr e)
      then show ?thesis using failed out by simp
    next
      case (Raises e)
      then show ?thesis using k(3) by blast
    qed
  next
    case False
    then have "r = q" "st' = s" using a q by (auto simp: send_attempt_def split: syscall.splits)
    then show ?thesis using False opened by (cases q) (auto intro: intact_weaken)
  qed
qed

lemma send_tries_intact:
  assumes "stream_net net streams" and "\<not> tc_udp cfg" and "d \<in> D"
  shows "intact D (streams (tp_net st)) (tp_open st) delivered \<Longrightarrow> send_tries net cfg (octet_frame d) attempt left st = (r, st') \<Longrightarrow>
    intact D (streams (tp_net st')) (tp_open st') (if r = Inr True then delivered @ [octet_frame d] else delivered)"
proof (induction left arbitrary: attempt st)
  case 0
  obtain a s where a: "send_attempt net cfg (octet_frame d) st = (a, s)" by (rule prod.exhaust)
  note now = send_attempt_intact [OF assms 0(1) a]
  show ?case using 0(2) a now stream_netD(3) [OF assms(1)]
    by (subst (asm) send_tries.simps) (auto simp: Let_def socket_reset_def split: syscall.splits if_splits)
next
  case (Suc left)
  obtain a s where a: "send_attempt net cfg (octet_frame d) st = (a, s)" by (rule prod.exhaust)
  note now = send_attempt_intact [OF assms Suc.prems(1) a]
  have reset: "intact D (streams (tp_net (socket_reset net s))) (tp_open (socket_reset net s)) delivered" if "a = OSErr errno" for errno
    using now that stream_netD(3) [OF assms(1)] by (auto simp: socket_reset_def intro: intact_weaken)
  show ?case using Suc.prems(2) a now reset Suc.IH [of "socket_reset net s" "Suc attempt"]
    by (subst (asm) send_tries.simps) (auto simp: Let_def backoff_def split: syscall.splits if_splits)
qed

lemma send_loop_intact:
  assumes "stream_net net streams" and "\<not> tc_udp cfg" and "set ms \<subseteq> octet_frame ` D"
  shows "intact D (streams (tp_net st)) (tp_open st) earlier \<Longrightarrow> send_loop net cfg ms st = (r, delivered, st') \<Longrightarrow>
    intact D (streams (tp_net st')) (tp_open st') (earlier @ delivered)"
  using assms(3)
proof (induction ms arbitrary: st earlier r delivered st')
  case (Cons m ms)
  obtain d where d: "m = octet_frame d" "d \<in> D" using Cons.prems(3) by auto
  obtain q s where q: "send_one net cfg m st = (q, s)" by (rule prod.exhaust)
  note now = send_tries_intact [OF assms(1,2) d(2) Cons.prems(1) q [unfolded send_one_def d(1)]]
  show ?case
  proof (cases q)
    case (Inl e)
    then show ?thesis using Cons.prems(2) q now by simp
  next
    case (Inr ok)
    obtain r1 d1 s1 where rest: "send_loop net cfg ms s = (r1, d1, s1)" by (metis prod.exhaust)
    have "intact D (streams (tp_net s)) (tp_open s) (earlier @ (if ok then [m] else []))" using now Inr d by (cases ok) simp_all
    from Cons.IH [OF this rest] Cons.prems(2,3) q Inr rest show ?thesis by auto
  qed
qed simp

lemma encoded_wires: "encode_events frame counter batch pending = (frames, pending') \<Longrightarrow> set (map snd frames) \<subseteq> {w. \<exists>ev \<in> set batch. frame ev = Inr w}"
proof -
  have "set (map snd (fst (encode_loop frame batch))) \<subseteq> {w. \<exists>ev \<in> set batch. frame ev = Inr w}"
  proof (induction batch)
    case (Cons ev batch)
    then show ?case by (cases "encode_loop frame batch"; cases "frame ev") fastforce+
  qed simp
  then show "encode_events frame counter batch pending = (frames, pending') \<Longrightarrow> set (map snd frames) \<subseteq> {w. \<exists>ev \<in> set batch. frame ev = Inr w}"
    by (auto simp: encode_events_def split: prod.splits)
qed

abbreviation datas :: "syslog_env \<Rightarrow> syslog \<Rightarrow> event list \<Rightarrow> bytes set" where
  "datas env sy evs \<equiv> {data. \<exists>ev \<in> set evs. syslog_data env sy ev = Inr data}"

lemma syslog_emit_intact:
  assumes "stream_net net streams" and "\<not> tc_udp (sy_transport sy)" and "datas env sy batch \<subseteq> D"
    and "intact D (streams (tp_net st)) (tp_open st) earlier" and "syslog_emit net env sy batch st = (r, delivered, st')"
  shows "intact D (streams (tp_net st')) (tp_open st') (earlier @ delivered)"
proof (cases "batch = []")
  case True
  then show ?thesis using assms(4,5) by (simp add: syslog_emit_def socket_emit_def)
next
  case False
  obtain frames p where enc: "encode_events (syslog_frame env sy) C_UNENCODABLE batch new_deferral = (frames, p)" by (rule prod.exhaust)
  obtain q d p' s where all: "send_all net (sy_transport sy) (map snd frames) p st = (q, d, p', s)" by (metis prod.exhaust)
  have framed: "w \<in> octet_frame ` D" if "syslog_frame env sy ev = Inr w" "ev \<in> set batch" for w ev
    using that assms(2,3) by (cases "syslog_data env sy ev") (auto simp: syslog_frame_def)
  then have wires: "set (map snd frames) \<subseteq> octet_frame ` D" using encoded_wires [OF enc] by blast
  have "intact D (streams (tp_net s)) (tp_open s) (earlier @ d)"
  proof (cases "tp_shut st \<or> map snd frames = []")
    case True
    then show ?thesis using all assms(4) by (auto simp: send_all_def split: if_splits)
  next
    case False
    obtain q1 d1 s1 where loop: "send_loop net (sy_transport sy) (map snd frames) st = (q1, d1, s1)" by (metis prod.exhaust)
    have "d = d1" "s = s1" using all loop False assms(2) by (auto simp: send_all_def sendable_messages_def)
    then show ?thesis using send_loop_intact [OF assms(1,2) wires assms(4) loop] by simp
  qed
  then show ?thesis using assms(5) False enc all by (auto simp: syslog_emit_def socket_emit_def)
qed

lemma syslog_run_intact:
  assumes "stream_net net streams" and "\<not> tc_udp (sy_transport sy)"
  shows "datas env sy (concat batches) \<subseteq> D \<Longrightarrow> intact D (streams (tp_net st)) (tp_open st) earlier \<Longrightarrow>
    syslog_run net env sy batches st = (delivered, st') \<Longrightarrow> intact D (streams (tp_net st')) (tp_open st') (earlier @ delivered)"
proof (induction batches arbitrary: st earlier delivered)
  case (Cons batch batches)
  obtain r d s where e: "syslog_emit net env sy batch st = (r, d, s)" by (metis prod.exhaust)
  obtain d1 s1 where rest: "syslog_run net env sy batches s = (d1, s1)" by (rule prod.exhaust)
  have "datas env sy batch \<subseteq> D" "datas env sy (concat batches) \<subseteq> D" using Cons.prems(1) by auto
  from Cons.IH [OF this(2) syslog_emit_intact [OF assms this(1) Cons.prems(2) e]] rest Cons.prems(3) e show ?case by auto
qed simp

text \<open>C40. Over TCP, whatever connections break and wherever a message is cut off by it, each connection
  can be read by octet counting: the receivers together read nothing but whole messages of the
  events that were emitted, and all messages that were delivered, in their order.\<close>

theorem syslog_streams_readable:
  assumes "stream_net net streams" and "\<not> tc_udp (sy_transport sy)" and "streams s = []"
    and "syslog_run net env sy batches (new_transport s) = (delivered, st)"
  shows "set (received (streams (tp_net st))) \<subseteq> datas env sy (concat batches) \<and>
    subseq delivered (map octet_frame (received (streams (tp_net st))))"
proof -
  have "intact (datas env sy (concat batches)) (streams (tp_net (new_transport s))) (tp_open (new_transport s)) []"
    using assms(3) by (simp add: new_transport_def intact_def)
  from syslog_run_intact [OF assms(1,2) order_refl this assms(4)] show ?thesis by (simp add: intact_received)
qed

text \<open>A network whose first connection breaks in the middle of a frame.\<close>

definition breaking_net :: "(nat \<times> bytes list) net" where
  "breaking_net =
     \<lparr>nt_resolve = (\<lambda>s. (Returns [2], s)), nt_datagram = (\<lambda>_ s. (Returns (), s)),
      nt_connect = (\<lambda>(n, xs). (Returns (), (n, xs @ [[]]))),
      nt_sendall = (\<lambda>m (n, xs).
        if xs = [] then (OSErr None, (n, xs))
        else if n = 0 then (OSErr (Some 104), (1, butlast xs @ [last xs @ take 5 m])) else (Returns (), (n, butlast xs @ [last xs @ m]))),
      nt_sendto = (\<lambda>_ s. (Returns (), s)), nt_close = id, nt_inet = 2, nt_noname = -2, nt_emsgsize = 90\<rparr>"

definition demo_syslog :: syslog where
  "demo_syslog =
     \<lparr>sy_facility = 1, sy_app = [97], sy_hostname = [104],
      sy_transport = \<lparr>tc_host = [], tc_port = 514, tc_udp = False, tc_timeout = NI 5, tc_retries = 3, tc_limit = 65507\<rparr>\<rparr>"

definition demo_env :: syslog_env where
  "demo_env = \<lparr>se_upper = id, se_dumps = (\<lambda>_. Inr [123, 125]), se_pid = 7\<rparr>"

lemma breaking_stream_net: "stream_net breaking_net snd"
proof -
  have "\<exists>k. xs @ [t @ take 5 m] = xs @ [t @ take k m]" "\<exists>k. xs @ [t @ m] = xs @ [t @ take k m] \<and> length m \<le> k" for xs :: "bytes list" and t m
    by (auto intro: exI [of _ 5] exI [of _ "length m"])
  then show ?thesis unfolding stream_net_def breaking_net_def by auto
qed

definition demo_frame :: bytes where
  "demo_frame = octet_frame (str ''<13>1 - h a 7 - - {}'')"

lemma demo_framed: "syslog_frame demo_env demo_syslog [] = Inr demo_frame"
proof -
  have "syslog_data demo_env demo_syslog [] = Inr (str ''<13>1 - h a 7 - - {}'')"
    by (simp add: syslog_data_def syslog_text_def demo_env_def demo_syslog_def syslog_severity_def DEFAULT_SEVERITY_def str_def decimal.simps
        encode_utf8_def is_surrogate_def utf8_char_def)
  then show ?thesis by (simp add: syslog_frame_def demo_frame_def demo_syslog_def)
qed

abbreviation demo_end :: "(nat \<times> bytes list) transport" where
  "demo_end \<equiv> \<lparr>tp_open = True, tp_shut = False, tp_counters = (\<lambda>_. 0), tp_net = (1, [take 5 demo_frame, demo_frame])\<rparr>"

lemma demo_send: "send_loop breaking_net (sy_transport demo_syslog) [m] (new_transport (0, [])) =
    (Inr (), [m], \<lparr>tp_open = True, tp_shut = False, tp_counters = (\<lambda>_. 0), tp_net = (1, [take 5 m, m])\<rparr>)"
  by (simp add: send_one_def demo_syslog_def send_tries.simps transport_steps breaking_net_def new_transport_def backoff_def Let_def)

lemma demo_run: "syslog_run breaking_net demo_env demo_syslog [[[]]] (new_transport (0, [])) = ([demo_frame], demo_end)"
proof -
  have enc: "encode_events (syslog_frame demo_env demo_syslog) C_UNENCODABLE [[]] new_deferral = ([([], demo_frame)], new_deferral)"
    by (simp add: encode_events_def demo_framed)
  have "\<not> tc_udp (sy_transport demo_syslog)" "\<not> tp_shut (new_transport (0 :: nat, [] :: bytes list))" by (simp_all add: demo_syslog_def new_transport_def)
  then have all: "send_all breaking_net (sy_transport demo_syslog) [demo_frame] new_deferral (new_transport (0, [])) = (Inr (), [demo_frame], new_deferral, demo_end)"
    by (simp add: send_all_def sendable_messages_def demo_send del: send_loop.simps)
  have "fst (deferral_exit False new_deferral c) = c" for c by (simp add: deferral_exit_def new_deferral_def)
  then show ?thesis by (simp add: syslog_emit_def socket_emit_def enc all)
qed

lemma syslog_streams_readable_witness:
  "syslog_run breaking_net demo_env demo_syslog [[[]]] (new_transport (0, [])) = ([demo_frame], demo_end) \<and>
   subseq [demo_frame] (map octet_frame (received [take 5 demo_frame, demo_frame]))"
proof -
  have "\<not> tc_udp (sy_transport demo_syslog)" "snd (0 :: nat, [] :: bytes list) = []" by (simp_all add: demo_syslog_def)
  from syslog_streams_readable [OF breaking_stream_net this demo_run] show ?thesis by (simp add: demo_run del: syslog_run.simps)
qed

subsection \<open>Logstash\<close>

datatype backend = Http http_settings | Socket transport_cfg

text \<open>\<open>http\<close> builds the HTTP sink and \<^verbatim>\<open>None\<close> is \<open>ANone\<close> for the numbers.\<close>

definition logstash_init ::
  "tables \<Rightarrow> (pystr \<Rightarrow> pystr \<Rightarrow> numarg \<Rightarrow> numarg \<Rightarrow> http_kwargs \<Rightarrow> http_settings result) \<Rightarrow>
   pystr option \<Rightarrow> pystr option \<Rightarrow> numarg \<Rightarrow> pystr option \<Rightarrow> pystr \<Rightarrow> numarg \<Rightarrow> numarg \<Rightarrow> numarg \<Rightarrow> http_kwargs \<Rightarrow> backend result" where
  "logstash_init T http url host port transport body_format timeout max_retries max_datagram_bytes kw =
     (if body_format \<notin> set BODY_FORMATS then Inl ValueError
      else case url of
        Some url \<Rightarrow>
          if host \<noteq> None \<or> port \<noteq> ANone \<or> transport \<noteq> None \<or> max_datagram_bytes \<noteq> ANone then Inl ValueError
          else (case valid_url T (str ''LogstashSink url'') AUTH_REMEDY False url of
                  Accepted _ \<Rightarrow> map_sum id Http (http url body_format timeout max_retries kw)
                | _ \<Rightarrow> Inl ValueError)
      | None \<Rightarrow>
          (case host of
             None \<Rightarrow> Inl ValueError
           | Some host \<Rightarrow>
               if port = ANone \<or> kw \<noteq> no_kwargs then Inl ValueError
               else map_sum id Socket
                      (socket_init host port (given (str ''tcp'') transport) timeout max_retries
                        (if max_datagram_bytes = ANone then AInt DEFAULT_MAX_DATAGRAM_BYTES else max_datagram_bytes))))"

definition logstash_frame :: "(jval \<Rightarrow> pystr result) \<Rightarrow> event \<Rightarrow> bytes result" where
  "logstash_frame dumps ev = (case dumps (JDict ev) of Inl e \<Rightarrow> Inl e | Inr t \<Rightarrow> encode_utf8 (t @ [10]))"

text \<open>The sink with its backend and the state of that: the counters and the number of requests of the HTTP
  sink, or the transport.\<close>

datatype 's logstash = OverHttp http_settings counters nat | OverSocket transport_cfg "'s transport"

fun logstash_start :: "backend \<Rightarrow> 's \<Rightarrow> 's logstash" where
  "logstash_start (Http hs) s = OverHttp hs (\<lambda>_. 0) 0"
| "logstash_start (Socket cfg) s = OverSocket cfg (new_transport s)"

definition http_cfg_of :: "http_settings \<Rightarrow> http_cfg" where
  "http_cfg_of hs = \<lparr>hc_retries = hs_retries hs, hc_count = hs_count hs, hc_bytes = hs_bytes hs, hc_gzip = hs_gzip hs\<rparr>"

fun logstash_emit :: "stdlib \<Rightarrow> destination \<Rightarrow> 's net \<Rightarrow> (jval \<Rightarrow> pystr result) \<Rightarrow> event list \<Rightarrow> 's logstash \<Rightarrow> unit result \<times> 's logstash" where
  "logstash_emit lib dest net dumps batch (OverHttp hs c n) =
     (let (r, c, run) = http_emit (plain_hooks lib (hs_format hs = str ''json_array'')) (http_cfg_of hs) dest batch c n
      in (r, OverHttp hs c (hr_calls run)))"
| "logstash_emit lib dest net dumps batch (OverSocket cfg st) =
     (let (r, _, st) = socket_emit net cfg (logstash_frame dumps) batch st in (r, OverSocket cfg st))"

fun logstash_losses :: "'s logstash \<Rightarrow> sink_losses" where
  "logstash_losses (OverHttp hs c n) = http_losses c"
| "logstash_losses (OverSocket cfg st) = transport_losses (tp_counters st)"

text \<open>Releasing the HTTP sink closes nothing.\<close>

fun logstash_close :: "'s net \<Rightarrow> 's logstash \<Rightarrow> 's logstash" where
  "logstash_close net (OverHttp hs c n) = OverHttp hs c n"
| "logstash_close net (OverSocket cfg st) = OverSocket cfg (socket_close net st)"

text \<open>Whichever backend is chosen, no argument that it cannot use has been dropped.\<close>

lemma socket_init_usable:
  "socket_init host port transport timeout max_retries max_datagram_bytes = Inr cfg \<Longrightarrow>
     tc_host cfg = host \<and> port = AInt (tc_port cfg) \<and> 0 \<le> tc_port cfg \<and> tc_port cfg \<le> 65535 \<and> 0 < tc_limit cfg \<and> bounds_something (tc_timeout cfg)"
  by (cases port; cases max_datagram_bytes)
    (auto simp: socket_init_def require_timeout_def split: sum.splits if_splits)

lemma logstash_backend:
  "logstash_init T http url host port transport body_format timeout max_retries max_datagram_bytes kw = Inr b \<Longrightarrow>
     (case b of
        Http hs \<Rightarrow> url \<noteq> None \<and> host = None \<and> port = ANone \<and> transport = None \<and> max_datagram_bytes = ANone
      | Socket cfg \<Rightarrow> url = None \<and> host = Some (tc_host cfg) \<and> kw = no_kwargs \<and> port = AInt (tc_port cfg))"
  by (auto simp: logstash_init_def split: if_splits option.splits checked.splits sum.splits backend.splits simp: map_sum_Inr_iff dest: socket_init_usable)

end
