(* ===== verification/Logging_Sink.thy ===== *)
theory Logging_Sink
  imports Sink_Kit
begin

text \<open>
  \<^verbatim>\<open>sinks/logging_sink.py\<close>: events handed to the \<^verbatim>\<open>logging\<close> module as records. A record is the
  dictionary of its attributes; what \<^verbatim>\<open>LogRecord\<close> itself sets, \<^verbatim>\<open>str.upper\<close> and the logger are
  arguments. The main lemma gives every attribute of a record; three names of a field are not
  attributes like others, and one of them replaces the record.
\<close>

subsection \<open>Records\<close>

type_synonym attributes = "(pystr, jval) dict"

text \<open>The attributes of a new record of the sink's logger, from its level and message.\<close>

record logging_env =
  le_record :: "int \<Rightarrow> jval \<Rightarrow> attributes"
  le_upper :: "pystr \<Rightarrow> pystr"

definition LOGGING_LEVELS :: "(pystr, int) dict" where
  "LOGGING_LEVELS = [(str ''DEBUG'', 10), (str ''INFO'', 20), (str ''WARNING'', 30), (str ''ERROR'', 40), (str ''CRITICAL'', 50)]"

definition IDENTITY :: "pystr list" where
  "IDENTITY =
     map str [''trace_id'', ''span_id'', ''parent_span_id'', ''log_id'', ''function'', ''service'', ''version'', ''env'']"

definition reserved :: "logging_env \<Rightarrow> pystr list" where
  "reserved env = dict_keys (le_record env 0 (JStr [])) @ [str ''message'', str ''asctime'']"

definition default_level :: "logging_env \<Rightarrow> pystr \<Rightarrow> int" where
  "default_level env name = (case dict_get LOGGING_LEVELS (le_upper env name) of Some n \<Rightarrow> n | None \<Rightarrow> 20)"

definition level_of :: "logging_env \<Rightarrow> int \<Rightarrow> event \<Rightarrow> int" where
  "level_of env dflt ev =
     (case dict_get ev (str ''level'') of
        Some (JStr l) \<Rightarrow> (case dict_get LOGGING_LEVELS (le_upper env l) of Some n \<Rightarrow> n | None \<Rightarrow> dflt)
      | _ \<Rightarrow> dflt)"

text \<open>\<^verbatim>\<open>setattr\<close> on a record. Three names are descriptors of its class: the class itself, the dictionary of
  the attributes, which an assignment replaces, and the weak references.\<close>

abbreviation DUNDER_CLASS :: pystr where "DUNDER_CLASS \<equiv> str ''__class__''"
abbreviation DUNDER_DICT :: pystr where "DUNDER_DICT \<equiv> str ''__dict__''"
abbreviation DUNDER_WEAKREF :: pystr where "DUNDER_WEAKREF \<equiv> str ''__weakref__''"

definition record_set :: "pystr \<Rightarrow> jval \<Rightarrow> attributes \<Rightarrow> attributes result" where
  "record_set key v rec =
     (if key = DUNDER_CLASS then Inl TypeError
      else if key = DUNDER_DICT then (case v of JDict d \<Rightarrow> Inr d | _ \<Rightarrow> Inl TypeError)
      else if key = DUNDER_WEAKREF then Inl (OtherError (str ''AttributeError''))
      else Inr (dict_set key v rec))"

fun attach_identity :: "pystr list \<Rightarrow> event \<Rightarrow> attributes \<Rightarrow> attributes" where
  "attach_identity [] ev rec = rec"
| "attach_identity (key # keys) ev rec =
     attach_identity keys ev (case dict_get ev key of None \<Rightarrow> rec | Some v \<Rightarrow> dict_set key v rec)"

fun attach_fields :: "logging_env \<Rightarrow> (pystr \<times> jval) list \<Rightarrow> attributes \<Rightarrow> attributes result" where
  "attach_fields env [] rec = Inr rec"
| "attach_fields env ((key, v) # kvs) rec =
     (if key \<notin> set (reserved env) \<and> key \<notin> set IDENTITY \<and> key \<noteq> str ''fields''
      then case record_set key v rec of Inl e \<Rightarrow> Inl e | Inr rec \<Rightarrow> attach_fields env kvs rec
      else attach_fields env kvs rec)"

definition attach :: "logging_env \<Rightarrow> event \<Rightarrow> attributes \<Rightarrow> attributes result" where
  "attach env ev rec =
     (let rec = attach_identity IDENTITY ev rec
      in case dict_get ev (str ''fields'') of
           Some (JDict fs) \<Rightarrow> attach_fields env fs (dict_set (str ''fields'') (JDict fs) rec)
         | _ \<Rightarrow> Inr rec)"

definition base_record :: "logging_env \<Rightarrow> int \<Rightarrow> event \<Rightarrow> attributes" where
  "base_record env dflt ev =
     le_record env (level_of env dflt ev) (case dict_get ev (str ''message'') of None \<Rightarrow> JStr [] | Some m \<Rightarrow> m)"

definition to_record :: "logging_env \<Rightarrow> int \<Rightarrow> event \<Rightarrow> attributes result" where
  "to_record env dflt ev = attach env ev (base_record env dflt ev)"

text \<open>The logger handles the records in order; the first exception ends the batch.\<close>

fun logging_emit :: "logging_env \<Rightarrow> int \<Rightarrow> (attributes \<Rightarrow> 's \<Rightarrow> unit result \<times> 's) \<Rightarrow> event list \<Rightarrow> 's \<Rightarrow> unit result \<times> 's" where
  "logging_emit env dflt handle [] s = (Inr (), s)"
| "logging_emit env dflt handle (ev # evs) s =
     (case to_record env dflt ev of
        Inl e \<Rightarrow> (Inl e, s)
      | Inr rec \<Rightarrow> (case handle rec s of (Inl e, s) \<Rightarrow> (Inl e, s) | (Inr _, s) \<Rightarrow> logging_emit env dflt handle evs s))"

subsection \<open>Flushing\<close>

text \<open>A logger is its handlers and whether it propagates; the list goes from the sink's logger to the root.\<close>

type_synonym 'h lineage = "('h list \<times> bool) list"

fun flush_handlers :: "('h \<Rightarrow> 's \<Rightarrow> unit result \<times> 's) \<Rightarrow> 'h list \<Rightarrow> pyexn option \<Rightarrow> 's \<Rightarrow> pyexn option \<times> 's" where
  "flush_handlers flush [] first s = (first, s)"
| "flush_handlers flush (h # hs) first s =
     (let (r, s) = flush h s
      in flush_handlers flush hs (case r of Inl err \<Rightarrow> (if first = None then Some err else first) | Inr _ \<Rightarrow> first) s)"

fun flush_lineage :: "('h \<Rightarrow> 's \<Rightarrow> unit result \<times> 's) \<Rightarrow> 'h lineage \<Rightarrow> pyexn option \<Rightarrow> 's \<Rightarrow> pyexn option \<times> 's" where
  "flush_lineage flush [] first s = (first, s)"
| "flush_lineage flush ((handlers, propagate) # loggers) first s =
     (let (first, s) = flush_handlers flush handlers first s
      in if propagate then flush_lineage flush loggers first s else (first, s))"

definition logging_flush :: "('h \<Rightarrow> 's \<Rightarrow> unit result \<times> 's) \<Rightarrow> 'h lineage \<Rightarrow> 's \<Rightarrow> unit result \<times> 's" where
  "logging_flush flush loggers s =
     (let (first, s) = flush_lineage flush loggers None s in (case first of None \<Rightarrow> Inr () | Some err \<Rightarrow> Inl err, s))"

text \<open>The handlers a record reaches, which are those that are flushed; every one of them is, whatever
  an earlier one raised, and the first error is the one that is raised.\<close>

fun reached :: "'h lineage \<Rightarrow> 'h list" where
  "reached [] = []"
| "reached ((handlers, propagate) # loggers) = handlers @ (if propagate then reached loggers else [])"

fun flush_each :: "('h \<Rightarrow> 's \<Rightarrow> unit result \<times> 's) \<Rightarrow> 'h list \<Rightarrow> 's \<Rightarrow> pyexn list \<times> 's" where
  "flush_each flush [] s = ([], s)"
| "flush_each flush (h # hs) s =
     (let (r, s) = flush h s; (errs, s) = flush_each flush hs s in ((case r of Inl e \<Rightarrow> [e] | Inr _ \<Rightarrow> []) @ errs, s))"

lemma flush_each_append:
  "flush_each flush (hs @ hs') s =
     (let (errs, s) = flush_each flush hs s; (errs', s) = flush_each flush hs' s in (errs @ errs', s))"
  by (induction hs arbitrary: s) (auto split: prod.split)

lemma flush_handlers_each:
  "flush_handlers flush hs first s =
     (let (errs, s') = flush_each flush hs s in (case first of Some e \<Rightarrow> Some e | None \<Rightarrow> (case errs of [] \<Rightarrow> None | e # _ \<Rightarrow> Some e), s'))"
  by (induction hs arbitrary: first s) (auto split: prod.split sum.split option.split list.split)

lemma flush_lineage_each:
  "flush_lineage flush loggers first s =
     (let (errs, s') = flush_each flush (reached loggers) s
      in (case first of Some e \<Rightarrow> Some e | None \<Rightarrow> (case errs of [] \<Rightarrow> None | e # _ \<Rightarrow> Some e), s'))"
proof (induction loggers arbitrary: first s)
  case (Cons logger loggers)
  obtain hs propagate where logger: "logger = (hs, propagate)" by (cases logger)
  obtain errs s1 where e: "flush_each flush hs s = (errs, s1)" by (rule prod.exhaust)
  show ?case using e Cons.IH
    by (cases propagate) (simp_all add: logger flush_handlers_each flush_each_append Let_def split: prod.split option.split list.split)
qed (simp split: option.split)

theorem logging_flush_reaches_all:
  "logging_flush flush loggers s =
     (let (errs, s') = flush_each flush (reached loggers) s in (case errs of [] \<Rightarrow> Inr () | e # _ \<Rightarrow> Inl e, s'))"
  by (simp add: logging_flush_def flush_lineage_each Let_def split: prod.split list.split)

subsection \<open>What a record carries\<close>

text \<open>What the module documents of its records: their attributes are the same for all, and none is
  named like an identity or \<^verbatim>\<open>fields\<close>.\<close>

definition plain_records :: "logging_env \<Rightarrow> bool" where
  "plain_records env \<longleftrightarrow>
     (\<forall>l m. dict_keys (le_record env l m) = dict_keys (le_record env 0 (JStr []))) \<and>
     set (reserved env) \<inter> (insert (str ''fields'') (set IDENTITY)) = {}"

definition carried :: "logging_env \<Rightarrow> int \<Rightarrow> event \<Rightarrow> pystr \<Rightarrow> jval option" where
  "carried env dflt ev key =
     (if key \<in> set (reserved env) then dict_get (base_record env dflt ev) key
      else if key \<in> set IDENTITY then dict_get ev key
      else case dict_get ev (str ''fields'') of
             Some (JDict fs) \<Rightarrow> if key = str ''fields'' then Some (JDict fs) else dict_get fs key
           | _ \<Rightarrow> None)"

lemma attach_identity_get:
  "dict_get (attach_identity keys ev rec) key =
     (if key \<in> set keys \<and> dict_get ev key \<noteq> None then dict_get ev key else dict_get rec key)"
  by (induction keys arbitrary: rec) (auto split: option.split)

lemma attach_fields_get:
  "dict_wf kvs \<Longrightarrow> list_all (\<lambda>(k, _). k \<notin> {DUNDER_CLASS, DUNDER_DICT, DUNDER_WEAKREF}) kvs \<Longrightarrow>
     \<exists>out. attach_fields env kvs rec = Inr out \<and>
       (\<forall>key. dict_get out key =
          (if key \<notin> set (reserved env) \<and> key \<notin> set IDENTITY \<and> key \<noteq> str ''fields'' \<and> dict_get kvs key \<noteq> None
           then dict_get kvs key else dict_get rec key))"
proof (induction kvs arbitrary: rec)
  case (Cons kv kvs)
  obtain k v where kv: "kv = (k, v)" by (cases kv)
  have wf: "dict_wf kvs" "dict_get kvs k = None" using Cons.prems(1) by (auto simp: kv dict_wf_def dict_get_def map_of_eq_None_iff)
  have ok: "list_all (\<lambda>(k, _). k \<notin> {DUNDER_CLASS, DUNDER_DICT, DUNDER_WEAKREF}) kvs" "record_set k v rec = Inr (dict_set k v rec)"
    using Cons.prems(2) by (auto simp: kv record_set_def)
  show ?case
  proof (cases "k \<notin> set (reserved env) \<and> k \<notin> set IDENTITY \<and> k \<noteq> str ''fields''")
    case True
    from Cons.IH [OF wf(1) ok(1), of "dict_set k v rec"] True wf(2) ok(2) show ?thesis by (auto simp: kv)
  next
    case False
    from Cons.IH [OF wf(1) ok(1), of rec] False show ?thesis by (auto simp: kv)
  qed
qed simp

text \<open>A record carries exactly the attributes of its module, the identities of the event, the fields as
  they are, and every field under its own name unless that name is taken.\<close>

theorem record_carries:
  assumes plain: "plain_records env"
    and wf: "\<And>fs. dict_get ev (str ''fields'') = Some (JDict fs) \<Longrightarrow>
      dict_wf fs \<and> list_all (\<lambda>(k, _). k \<notin> {DUNDER_CLASS, DUNDER_DICT, DUNDER_WEAKREF}) fs"
  shows "\<exists>rec. to_record env dflt ev = Inr rec \<and> (\<forall>key. dict_get rec key = carried env dflt ev key)"
proof -
  let ?base = "base_record env dflt ev" let ?rec = "attach_identity IDENTITY ev ?base"
  have keys: "dict_get ?base key = None" if "key \<notin> set (reserved env)" for key
  proof -
    have "set (dict_keys ?base) = set (dict_keys (le_record env 0 (JStr [])))" using plain unfolding plain_records_def base_record_def by metis
    then have "key \<notin> set (dict_keys ?base)" using that by (simp add: reserved_def)
    then show ?thesis by (simp add: dict_keys_def dict_get_def map_of_eq_None_iff)
  qed
  have apart: "set (reserved env) \<inter> insert (str ''fields'') (set IDENTITY) = {}" using plain by (simp add: plain_records_def)
  have new: "str ''fields'' \<notin> set IDENTITY" by (simp add: IDENTITY_def str_def)
  show ?thesis
  proof (cases "\<exists>fs. dict_get ev (str ''fields'') = Some (JDict fs)")
    case True
    then obtain fs where fs: "dict_get ev (str ''fields'') = Some (JDict fs)" by blast
    from attach_fields_get [of fs env "dict_set (str ''fields'') (JDict fs) ?rec"] wf [OF fs]
    obtain out where out: "attach_fields env fs (dict_set (str ''fields'') (JDict fs) ?rec) = Inr out"
      "\<And>key. dict_get out key = (if key \<notin> set (reserved env) \<and> key \<notin> set IDENTITY \<and> key \<noteq> str ''fields'' \<and> dict_get fs key \<noteq> None
         then dict_get fs key else dict_get (dict_set (str ''fields'') (JDict fs) ?rec) key)" by blast
    have "dict_get out key = carried env dflt ev key" for key
      using keys [of key] apart new by (auto simp: out(2) carried_def fs attach_identity_get)
    then show ?thesis using out(1) by (simp add: to_record_def attach_def fs)
  next
    case False
    then have "attach env ev ?base = Inr ?rec" by (auto simp: attach_def Let_def split: option.splits jval.splits)
    moreover have "dict_get ?rec key = carried env dflt ev key" for key
      using keys [of key] apart False by (auto simp: carried_def attach_identity_get split: option.split jval.split)
    ultimately show ?thesis by (simp add: to_record_def)
  qed
qed

text \<open>A field named \<^verbatim>\<open>__dict__\<close> that holds a dictionary replaces the whole record: level, message and
  identities are gone. One named \<^verbatim>\<open>__class__\<close> makes every emit of its batch raise.\<close>

lemma field_replaces_record:
  "dict_get ev (str ''fields'') = Some (JDict [(DUNDER_DICT, JDict d)]) \<Longrightarrow> DUNDER_DICT \<notin> set (reserved env) \<Longrightarrow>
     to_record env dflt ev = Inr d"
  by (simp add: to_record_def attach_def record_set_def IDENTITY_def str_def)

lemma field_poisons_batch:
  "dict_get ev (str ''fields'') = Some (JDict [(DUNDER_CLASS, v)]) \<Longrightarrow> DUNDER_CLASS \<notin> set (reserved env) \<Longrightarrow>
     logging_emit env dflt handle (ev # evs) s = (Inl TypeError, s)"
  by (simp add: to_record_def attach_def record_set_def IDENTITY_def str_def)

end
