(* ===== verification/Sentry.thy ===== *)
theory Sentry
  imports Http_Checks
begin

text \<open>
  \<^verbatim>\<open>sinks/sentry.py\<close>: events at or above a level captured one by one, through the SDK's client or as
  envelopes posted by an HTTP sink. The reading of a DSN is written out over the parser of
  \<^verbatim>\<open>Http_Checks\<close>; the client, the endpoint and fresh event ids are arguments.
\<close>

subsection \<open>Data source names\<close>

text \<open>\<^verbatim>\<open>str.partition\<close> and \<^verbatim>\<open>str.rpartition\<close> at one character: what is before, whether it occurs, what is after.\<close>

definition partition_at :: "nat \<Rightarrow> pystr \<Rightarrow> pystr \<times> bool \<times> pystr" where
  "partition_at c t = (let pre = takeWhile (\<lambda>x. x \<noteq> c) t in (pre, c \<in> set t, drop (Suc (length pre)) t))"

definition rpartition_at :: "nat \<Rightarrow> pystr \<Rightarrow> pystr \<times> bool \<times> pystr" where
  "rpartition_at c t =
     (let post = rev (takeWhile (\<lambda>x. x \<noteq> c) (rev t))
      in if c \<in> set t then (take (length t - Suc (length post)) t, True, post) else ([], False, t))"

text \<open>\<^verbatim>\<open>urlsplit\<close> with the properties of its result that are read.\<close>

record split_url =
  su_scheme :: pystr
  su_username :: "pystr option"
  su_hostname :: pystr
  su_port :: "pystr"
  su_path :: pystr

definition netloc_user :: "pystr \<Rightarrow> pystr option" where
  "netloc_user netloc =
     (let (userinfo, have_info, _) = rpartition_at 64 netloc in if have_info then Some (fst (partition_at 58 userinfo)) else None)"

definition netloc_hostinfo :: "pystr \<Rightarrow> pystr \<times> pystr" where
  "netloc_hostinfo netloc =
     (let (_, _, hostinfo) = rpartition_at 64 netloc; (_, have_open_br, bracketed) = partition_at 91 hostinfo
      in if have_open_br
         then let (hostname, _, port) = partition_at 93 bracketed; (_, _, port) = partition_at 58 port in (hostname, port)
         else let (hostname, _, port) = partition_at 58 hostinfo in (hostname, port))"

definition lowered_host :: "tables \<Rightarrow> pystr \<Rightarrow> pystr" where
  "lowered_host T hostname = (let pre = takeWhile (\<lambda>c. c \<noteq> 37) hostname in py_lower T pre @ drop (length pre) hostname)"

definition split_path :: "pystr \<Rightarrow> pystr" where
  "split_path url =
     (let (_, rest) = split_scheme (url_view url); rest = (if take 2 rest = [47, 47] then drop (2 + length (host_run (drop 2 rest))) rest else rest)
      in takeWhile (\<lambda>c. c \<noteq> 35 \<and> c \<noteq> 63) rest)"

definition urlsplit :: "tables \<Rightarrow> pystr \<Rightarrow> split_url option" where
  "urlsplit T url =
     (case url_parse T url of
        Inl _ \<Rightarrow> None
      | Inr (scheme, netloc) \<Rightarrow>
          (let (hostname, port) = netloc_hostinfo netloc
           in Some \<lparr>su_scheme = scheme, su_username = netloc_user netloc, su_hostname = lowered_host T hostname, su_port = port,
                su_path = split_path url\<rparr>))"

text \<open>The port is the value of plain digits, at most 65535; \<^verbatim>\<open>None\<close> when the property raises.\<close>

definition port_text :: "tables \<Rightarrow> pystr \<Rightarrow> pystr option" where
  "port_text T port =
     (if port = [] then Some []
      else if \<not> list_all is_digit port then None
      else case py_int T port of
             None \<Rightarrow> None
           | Some n \<Rightarrow> if 0 \<le> n \<and> n \<le> 65535 then Some ([58] @ int_repr n) else None)"

definition project_id :: "tables \<Rightarrow> pystr \<Rightarrow> pystr option" where
  "project_id T project =
     (if project \<noteq> [] \<and> list_all is_digit project then Some project else map_option int_repr (py_int T project))"

definition strips_to :: "nat \<Rightarrow> pystr \<Rightarrow> bool" where
  "strips_to c t \<longleftrightarrow> list_ex (\<lambda>x. x \<noteq> c) t"

definition ingest_url :: "pystr \<Rightarrow> pystr \<Rightarrow> pystr \<Rightarrow> pystr \<Rightarrow> pystr \<Rightarrow> pystr" where
  "ingest_url scheme host port head project =
     (let prefix = (if strips_to 47 head then head @ [47] else [47]); host = (if 58 \<in> set host then [91] @ host @ [93] else host)
      in scheme @ str ''://'' @ host @ port @ prefix @ str ''api/'' @ project @ str ''/envelope/'')"

definition auth_header :: "pystr \<Rightarrow> pystr" where
  "auth_header username = str ''Sentry sentry_key='' @ username @ str '', sentry_version=7, sentry_client=log-foundry''"

text \<open>The parts of a DSN that are used: its password is none of them.\<close>

definition parse_parts :: "tables \<Rightarrow> split_url \<Rightarrow> (pystr \<times> pystr) result" where
  "parse_parts T u =
     (case port_text T (su_port u) of
        None \<Rightarrow> Inl ValueError
      | Some port \<Rightarrow>
          (case su_username u of
             None \<Rightarrow> Inl ValueError
           | Some username \<Rightarrow>
               if su_scheme u = [] \<or> su_hostname u = [] \<or> username = [] \<or> \<not> strips_to 47 (su_path u) then Inl ValueError
               else let (head, _, project) = rpartition_at 47 (su_path u)
                    in case project_id T project of
                         None \<Rightarrow> Inl ValueError
                       | Some project \<Rightarrow>
                           let url = ingest_url (su_scheme u) (su_hostname u) port head project; header = auth_header username
                           in if carries_userinfo T url then Inl ValueError
                              else case valid_url T (str ''SentrySink dsn'') AUTH_REMEDY True url of
                                     Accepted _ \<Rightarrow> if unsendable_header (str ''X-Sentry-Auth'') header \<noteq> None then Inl ValueError else Inr (url, header)
                                   | _ \<Rightarrow> Inl ValueError))"

definition parse_dsn :: "tables \<Rightarrow> pystr \<Rightarrow> (pystr \<times> pystr) result" where
  "parse_dsn T dsn = (case urlsplit T dsn of None \<Rightarrow> Inl ValueError | Some u \<Rightarrow> parse_parts T u)"

subsection \<open>The sink\<close>

definition LEVEL_RANK :: "(pystr, int) dict" where
  "LEVEL_RANK = [(str ''DEBUG'', 10), (str ''INFO'', 20), (str ''WARNING'', 30), (str ''ERROR'', 40), (str ''CRITICAL'', 50)]"

definition SENTRY_LEVEL :: "(pystr, pystr) dict" where
  "SENTRY_LEVEL =
     [(str ''DEBUG'', str ''debug''), (str ''INFO'', str ''info''), (str ''WARNING'', str ''warning''), (str ''ERROR'', str ''error''),
      (str ''CRITICAL'', str ''fatal'')]"

datatype selected = Sdk | Envelopes

record sentry =
  sn_dsn :: "pystr option"
  sn_backend :: pystr
  sn_min_rank :: int
  sn_client :: bool
  sn_http :: "http_settings option"
  sn_auth :: pystr

definition replace_at :: "pystr \<Rightarrow> pystr" where
  "replace_at t = concat (map (\<lambda>c. if c = 64 then str ''%40'' else [c]) t)"

text \<open>\<open>given_client\<close> says whether a client was passed, \<open>installed\<close> whether the SDK can be imported; \<open>http\<close>
  builds the HTTP sink on a URL.\<close>

definition sentry_init ::
  "tables \<Rightarrow> (pystr \<Rightarrow> pystr) \<Rightarrow> (pystr \<Rightarrow> http_settings result) \<Rightarrow> bool \<Rightarrow> bool \<Rightarrow> bool \<Rightarrow> pystr option \<Rightarrow> pystr \<Rightarrow> pystr \<Rightarrow> sentry result" where
  "sentry_init T upper http installed given_client given_opener dsn min_level backend =
     (if backend \<notin> {str ''auto'', str ''sdk'', str ''http''} then Inl ValueError
      else if given_client \<and> backend = str ''http'' then Inl ValueError
      else if given_opener \<and> (backend = str ''sdk'' \<or> dsn = None) then Inl ValueError
      else let rank = (case dict_get LEVEL_RANK (upper min_level) of Some n \<Rightarrow> n | None \<Rightarrow> 40);
               client = (backend \<noteq> str ''http'' \<and> (given_client \<or> installed));
               sink = \<lparr>sn_dsn = dsn, sn_backend = backend, sn_min_rank = rank, sn_client = client, sn_http = None, sn_auth = []\<rparr>
           in if backend = str ''sdk'' then (if client then Inr sink else Inl ValueError)
              else case dsn of
                     None \<Rightarrow> if backend = str ''http'' \<or> \<not> client then Inl ValueError else Inr sink
                   | Some dsn \<Rightarrow>
                       (case parse_dsn T dsn of
                          Inl e \<Rightarrow> Inl e
                        | Inr (url, header) \<Rightarrow>
                            map_sum id (\<lambda>hs. sink\<lparr>sn_http := Some (hs\<lparr>hs_url := url\<rparr>), sn_auth := header\<rparr>) (http (replace_at url))))"

text \<open>What a client shows of itself: for an object its \<^verbatim>\<open>is_active\<close>, if callable, and whether its transport is
  \<^verbatim>\<open>None\<close>; each may raise. The client may have a \<^verbatim>\<open>get_client\<close>, which may answer \<^verbatim>\<open>None\<close>.\<close>

record client_face =
  cf_is_active :: "bool result option"
  cf_no_transport :: "bool result"

record client_view =
  cv_outer :: client_face
  cv_descend :: "client_face option result option"

record 's sdk =
  sd_view :: "'s \<Rightarrow> client_view"
  sd_capture :: "event \<Rightarrow> 's \<Rightarrow> unit result \<times> 's"
  sd_flush :: "('s \<Rightarrow> unit result \<times> 's) option"

definition face_delivers :: "client_face \<Rightarrow> bool" where
  "face_delivers f =
     (case cf_is_active f of
        Some (Inl _) \<Rightarrow> True
      | Some (Inr False) \<Rightarrow> False
      | _ \<Rightarrow> (case cf_no_transport f of Inl _ \<Rightarrow> True | Inr b \<Rightarrow> \<not> b))"

definition client_can_deliver :: "client_view \<Rightarrow> bool" where
  "client_can_deliver v =
     (case cv_descend v of
        Some (Inl _) \<Rightarrow> True
      | Some (Inr (Some inner)) \<Rightarrow> face_delivers inner
      | _ \<Rightarrow> face_delivers (cv_outer v))"

definition select_backend :: "sentry \<Rightarrow> client_view \<Rightarrow> selected option" where
  "select_backend sn v =
     (if sn_backend sn = str ''http'' then Some Envelopes
      else if sn_client sn \<and> client_can_deliver v then Some Sdk
      else if sn_backend sn = str ''sdk'' then None
      else if sn_http sn \<noteq> None then Some Envelopes else None)"

definition qualifies :: "(pystr \<Rightarrow> pystr) \<Rightarrow> sentry \<Rightarrow> event \<Rightarrow> bool" where
  "qualifies upper sn ev =
     (case dict_get ev (str ''level'') of
        Some (JStr l) \<Rightarrow> sn_min_rank sn \<le> (case dict_get LEVEL_RANK (upper l) of Some n \<Rightarrow> n | None \<Rightarrow> -1)
      | _ \<Rightarrow> False)"

definition sentry_event :: "(pystr \<Rightarrow> pystr) \<Rightarrow> event \<Rightarrow> event" where
  "sentry_event upper ev =
     [(str ''message'', case dict_get ev (str ''message'') of Some m \<Rightarrow> m | None \<Rightarrow> JStr []),
      (str ''level'', JStr (case dict_get ev (str ''level'') of
          Some (JStr l) \<Rightarrow> (case dict_get SENTRY_LEVEL (upper l) of Some t \<Rightarrow> t | None \<Rightarrow> str ''error'')
        | _ \<Rightarrow> str ''error'')),
      (str ''logger'', JStr (str ''log_foundry'')),
      (str ''extra'', JDict ev)]"

record 's sentry_state =
  ss_sent :: nat
  ss_skipped :: nat
  ss_transport_errors :: nat
  ss_http :: counters
  ss_calls :: nat
  ss_client :: 's

record 's sentry_env =
  ev_upper :: "pystr \<Rightarrow> pystr"
  ev_dumps :: "jval \<Rightarrow> pystr result"
  ev_id :: "nat \<Rightarrow> pystr"
  ev_hooks :: hooks
  ev_dest :: destination
  ev_sdk :: "'s sdk"

definition envelope :: "'s sentry_env \<Rightarrow> sentry \<Rightarrow> nat \<Rightarrow> event \<Rightarrow> bytes result" where
  "envelope env sn n ev =
     (let dsn = (case sn_dsn sn of None \<Rightarrow> JNull | Some t \<Rightarrow> JStr t)
      in case ev_dumps env (JDict [(str ''event_id'', JStr (ev_id env n)), (str ''dsn'', dsn)]) of Inl e \<Rightarrow> Inl e | Inr header \<Rightarrow>
         (case ev_dumps env (JDict [(str ''type'', JStr (str ''event''))]) of Inl e \<Rightarrow> Inl e | Inr item \<Rightarrow>
         (case ev_dumps env (JDict (sentry_event (ev_upper env) ev)) of Inl e \<Rightarrow> Inl e | Inr body \<Rightarrow>
            encode_utf8 (header @ [10] @ item @ [10] @ body @ [10]))))"

text \<open>A request that is not split: a 413 abandons it like any other refusal.\<close>

definition post_envelope :: "'s sentry_env \<Rightarrow> sentry \<Rightarrow> event \<Rightarrow> 's sentry_state \<Rightarrow> unit result \<times> 's sentry_state" where
  "post_envelope env sn ev st =
     (case sn_http sn of
        None \<Rightarrow> (Inl (OtherError (str ''AssertionError'')), st)
      | Some hs \<Rightarrow>
          (case envelope env sn (ss_calls st) ev of
             Inl e \<Rightarrow> (Inl e, st)
           | Inr body \<Rightarrow>
               (let (r, n) = http_send (ev_hooks env) \<lparr>hc_retries = hs_retries hs, hc_count = hs_count hs, hc_bytes = hs_bytes hs, hc_gzip = hs_gzip hs\<rparr>
                      (ev_dest env) body (ss_calls st);
                    st = st\<lparr>ss_calls := n\<rparr>
                in case r of
                     Payload _ \<Rightarrow> (Inr (), st)
                   | Raised e \<Rightarrow> (Inl e, st)
                   | NoAttempt \<Rightarrow> (Inl SinkDeliveryError, st)
                   | _ \<Rightarrow> (Inl SinkDeliveryError, st\<lparr>ss_http := bump C_FAILED 1 (ss_http st)\<rparr>))))"

definition sentry_capture :: "'s sentry_env \<Rightarrow> sentry \<Rightarrow> selected option \<Rightarrow> event \<Rightarrow> 's sentry_state \<Rightarrow> bool \<times> 's sentry_state" where
  "sentry_capture env sn backend ev st =
     (case backend of
        None \<Rightarrow> (False, st)
      | Some b \<Rightarrow>
          (let (r, st) = (case b of
                 Sdk \<Rightarrow> (let (r, s) = sd_capture (ev_sdk env) (sentry_event (ev_upper env) ev) (ss_client st) in (r, st\<lparr>ss_client := s\<rparr>))
               | Envelopes \<Rightarrow> post_envelope env sn ev st)
           in case r of
                Inr _ \<Rightarrow> (True, st)
              | Inl SinkDeliveryError \<Rightarrow> (False, st)
              | Inl _ \<Rightarrow> (False, st\<lparr>ss_transport_errors := Suc (ss_transport_errors st)\<rparr>)))"

text \<open>How many events were attempted and how many landed.\<close>

fun sentry_loop :: "'s sentry_env \<Rightarrow> sentry \<Rightarrow> selected option \<Rightarrow> event list \<Rightarrow> 's sentry_state \<Rightarrow> nat \<times> nat \<times> 's sentry_state" where
  "sentry_loop env sn backend [] st = (0, 0, st)"
| "sentry_loop env sn backend (ev # evs) st =
     (if \<not> qualifies (ev_upper env) sn ev then sentry_loop env sn backend evs (st\<lparr>ss_skipped := Suc (ss_skipped st)\<rparr>)
      else let (ok, st) = sentry_capture env sn backend ev st;
               (attempted, delivered, st) = sentry_loop env sn backend evs (if ok then st\<lparr>ss_sent := Suc (ss_sent st)\<rparr> else st)
           in (Suc attempted, if ok then Suc delivered else delivered, st))"

definition sentry_emit :: "'s sentry_env \<Rightarrow> sentry \<Rightarrow> event list \<Rightarrow> 's sentry_state \<Rightarrow> unit result \<times> 's sentry_state" where
  "sentry_emit env sn batch st =
     (let backend = select_backend sn (sd_view (ev_sdk env) (ss_client st));
          (attempted, delivered, st) = sentry_loop env sn backend batch st
      in (if 0 < attempted \<and> delivered = 0 then Inl SinkDeliveryError else Inr (), st))"

definition sentry_losses :: "'s sentry_state \<Rightarrow> sink_losses" where
  "sentry_losses st = \<lparr>sl_dropped = 0, sl_failed = ss_http st C_FAILED + ss_transport_errors st\<rparr>"

definition sentry_flush :: "'s sentry_env \<Rightarrow> sentry \<Rightarrow> 's sentry_state \<Rightarrow> unit result \<times> 's sentry_state" where
  "sentry_flush env sn st =
     (if \<not> sn_client sn then (Inr (), st)
      else case sd_flush (ev_sdk env) of
             None \<Rightarrow> (Inr (), st)
           | Some flush \<Rightarrow> (let (r, s) = flush (ss_client st) in (r, st\<lparr>ss_client := s\<rparr>)))"

text \<open>A flush that fails is absorbed; releasing the HTTP sink closes nothing.\<close>

definition sentry_close :: "'s sentry_env \<Rightarrow> sentry \<Rightarrow> 's sentry_state \<Rightarrow> 's sentry_state" where
  "sentry_close env sn st = snd (sentry_flush env sn st)"

subsection \<open>The secret of a DSN\<close>

text \<open>Printable ASCII, and of that what neither ends a host nor is an at sign or a bracket.\<close>

definition printable :: "nat \<Rightarrow> bool" where "printable c \<longleftrightarrow> 33 \<le> c \<and> c \<le> 126"

definition plain_part :: "pystr \<Rightarrow> bool" where
  "plain_part t \<longleftrightarrow> list_all (\<lambda>c. printable c \<and> \<not> ends_host c \<and> c \<noteq> 64 \<and> c \<noteq> 91 \<and> c \<noteq> 93) t"

definition dsn_text :: "pystr \<Rightarrow> pystr \<Rightarrow> pystr \<Rightarrow> pystr \<Rightarrow> pystr" where
  "dsn_text scheme user secret rest = scheme @ [58, 47, 47] @ user @ [58] @ secret @ [64] @ rest"

lemma rpartition_at_last: "c \<notin> set post \<Longrightarrow> rpartition_at c (pre @ c # post) = (pre, True, post)"
proof -
  assume "c \<notin> set post"
  then have "takeWhile (\<lambda>x. x \<noteq> c) (rev (pre @ c # post)) = rev post" by (simp add: takeWhile_append)
  then show ?thesis by (simp add: rpartition_at_def)
qed

lemma url_view_printable: "list_all printable t \<Longrightarrow> url_view t = t"
proof -
  assume t: "list_all printable t"
  have "dropWhile (\<lambda>c. c \<le> 32) t = t" using t by (cases t) (auto simp: printable_def)
  moreover have "filter (\<lambda>c. c \<noteq> 9 \<and> c \<noteq> 10 \<and> c \<noteq> 13) t = t" using t by (auto simp: filter_id_conv list_all_iff printable_def)
  ultimately show ?thesis by (simp add: url_view_def)
qed

lemma split_scheme_dsn:
  assumes "scheme \<noteq> []" and "is_alpha (hd scheme)" and "list_all scheme_char scheme"
  shows "split_scheme (dsn_text scheme user secret rest) = (map lower1 scheme, [47, 47] @ user @ [58] @ secret @ [64] @ rest)"
proof -
  have "58 \<notin> set scheme" using assms(3) by (auto simp: list_all_iff scheme_char_def is_alpha_def is_digit_def)
  then have "takeWhile (\<lambda>c. c \<noteq> 58) (dsn_text scheme user secret rest) = scheme" by (auto simp: dsn_text_def takeWhile_append)
  then show ?thesis using assms by (simp add: split_scheme_def Let_def) (simp add: dsn_text_def)
qed

lemma host_run_secret:
  "plain_part user \<Longrightarrow> plain_part secret \<Longrightarrow> host_run (user @ [58] @ secret @ [64] @ rest) = (user @ [58] @ secret) @ 64 # host_run rest"
  by (auto simp: host_run_def plain_part_def list_all_iff takeWhile_append ends_host_def)

lemma plain_part_brackets: "plain_part t \<Longrightarrow> 91 \<notin> set t \<and> 93 \<notin> set t \<and> 64 \<notin> set t"
  by (auto simp: plain_part_def list_all_iff)

text \<open>What is read of a DSN, in terms of its parts.\<close>

definition read_parts :: "tables \<Rightarrow> pystr \<Rightarrow> pystr \<Rightarrow> pystr \<Rightarrow> split_url option" where
  "read_parts T scheme user rest =
     (let h = host_run rest; (hostname, port) = netloc_hostinfo h
      in if (91 \<in> set h) \<noteq> (93 \<in> set h) \<or> 91 \<in> set h \<and> \<not> tb_address T (takeWhile (\<lambda>c. c \<noteq> 93) (tl (dropWhile (\<lambda>c. c \<noteq> 91) h))) then None
         else Some \<lparr>su_scheme = map lower1 scheme, su_username = Some (takeWhile (\<lambda>c. c \<noteq> 58) user), su_hostname = lowered_host T hostname,
           su_port = port, su_path = takeWhile (\<lambda>c. c \<noteq> 35 \<and> c \<noteq> 63) (drop (length h) rest)\<rparr>)"

lemma netloc_hostinfo_secret: "64 \<notin> set h \<Longrightarrow> netloc_hostinfo (pre @ 64 # h) = netloc_hostinfo h"
  by (simp add: netloc_hostinfo_def rpartition_at_last) (simp add: rpartition_at_def)

lemma urlsplit_dsn:
  assumes scheme: "scheme \<noteq> []" "is_alpha (hd scheme)" "list_all scheme_char scheme"
    and plain: "plain_part user" "plain_part secret" and rest: "list_all printable rest" "64 \<notin> set (host_run rest)"
  shows "urlsplit T (dsn_text scheme user secret rest) = read_parts T scheme user rest"
proof -
  let ?h = "host_run rest" let ?pre = "user @ [58] @ secret"
  have "list_all printable (dsn_text scheme user secret rest)"
    using scheme(3) plain rest(1) by (auto simp: dsn_text_def plain_part_def list_all_iff printable_def scheme_char_def is_alpha_def is_digit_def)
  note view = url_view_printable [OF this]
  have netloc: "host_run (user @ [58] @ secret @ [64] @ rest) = ?pre @ 64 # ?h" by (rule host_run_secret [OF plain])
  have brackets: "91 \<notin> set ?pre" "93 \<notin> set ?pre" using plain plain_part_brackets by auto
  have "ascii (?pre @ 64 # ?h)"
    using plain rest(1) set_takeWhileD [of _ _ rest]
    by (fastforce simp: ascii_def plain_part_def list_all_iff printable_def host_run_def)
  then have ok: "check_netloc T (?pre @ 64 # ?h)" by (simp add: check_netloc_def)
  have address: "dropWhile (\<lambda>c. c \<noteq> 91) (?pre @ 64 # ?h) = dropWhile (\<lambda>c. c \<noteq> 91) ?h" using brackets by (auto simp: dropWhile_append)
  have parsed: "url_parse T (dsn_text scheme user secret rest) =
    (if (91 \<in> set ?h) \<noteq> (93 \<in> set ?h) then Inl BadBrackets
     else if 91 \<in> set ?h \<and> \<not> tb_address T (takeWhile (\<lambda>c. c \<noteq> 93) (tl (dropWhile (\<lambda>c. c \<noteq> 91) ?h)))
       then Inl (BadAddress (takeWhile (\<lambda>c. c \<noteq> 93) (tl (dropWhile (\<lambda>c. c \<noteq> 91) ?h))))
     else Inr (map lower1 scheme, ?pre @ 64 # ?h))"
    using netloc brackets ok address by (auto simp: url_parse_def view split_scheme_dsn [OF scheme] Let_def simp del: append_assoc)
  have user: "netloc_user (?pre @ 64 # ?h) = Some (takeWhile (\<lambda>c. c \<noteq> 58) user)"
  proof -
    have "takeWhile (\<lambda>c. c \<noteq> 58) ?pre = takeWhile (\<lambda>c. c \<noteq> 58) user"
    proof (cases "58 \<in> set user")
      case True
      then show ?thesis by (simp add: takeWhile_append1)
    next
      case False
      then have "takeWhile (\<lambda>c. c \<noteq> 58) user = user" by (simp only: takeWhile_eq_all_conv) auto
      moreover have "takeWhile (\<lambda>c. c \<noteq> 58) (user @ 58 # secret) = user" using False by (subst takeWhile_append2) auto
      ultimately show ?thesis unfolding append_Cons append_Nil by (rule trans [OF _ sym, rotated])
    qed
    then show ?thesis using rpartition_at_last [OF rest(2), of ?pre] by (simp add: netloc_user_def partition_at_def Let_def)
  qed
  have path: "split_path (dsn_text scheme user secret rest) = takeWhile (\<lambda>c. c \<noteq> 35 \<and> c \<noteq> 63) (drop (length ?h) rest)"
    using netloc by (simp add: split_path_def view split_scheme_dsn [OF scheme])
  show ?thesis
    using parsed user path netloc_hostinfo_secret [OF rest(2), of ?pre]
    by (simp add: urlsplit_def read_parts_def Let_def split: prod.split)
qed

text \<open>The secret of a DSN has no part in what is made of it: neither the URL nor the header, nor whether
  it is accepted, depends on it.\<close>

theorem dsn_secret_unused:
  assumes "scheme \<noteq> []" and "is_alpha (hd scheme)" and "list_all scheme_char scheme"
    and "plain_part user" and "plain_part secret" and "plain_part secret'" and "list_all printable rest" and "64 \<notin> set (host_run rest)"
  shows "parse_dsn T (dsn_text scheme user secret rest) = parse_dsn T (dsn_text scheme user secret' rest)"
  using urlsplit_dsn [of scheme user secret rest T] urlsplit_dsn [of scheme user secret' rest T] assms by (simp add: parse_dsn_def)

subsection \<open>What an emit accounts for\<close>

text \<open>Neither the client nor an opener raises the library's own exception.\<close>

definition foreign_raises :: "'s sentry_env \<Rightarrow> bool" where
  "foreign_raises env \<longleftrightarrow>
     (\<forall>ev s. fst (sd_capture (ev_sdk env) ev s) \<noteq> Inl SinkDeliveryError) \<and>
     (\<forall>n body. ev_dest env n body \<noteq> OtherRaise SinkDeliveryError) \<and> (\<forall>j. ev_dumps env j \<noteq> Inl SinkDeliveryError)"

abbreviation lost_events :: "'s sentry_state \<Rightarrow> nat" where
  "lost_events st \<equiv> sl_failed (sentry_losses st)"

lemma post_envelope_accounts:
  assumes "foreign_raises env" and "sn_http sn \<noteq> None" and "post_envelope env sn ev st = (r, st')"
  shows "ss_sent st' = ss_sent st \<and> ss_skipped st' = ss_skipped st \<and> ss_transport_errors st' = ss_transport_errors st \<and>
    ss_http st' C_FAILED = ss_http st C_FAILED + (if r = Inl SinkDeliveryError then 1 else 0)"
proof -
  obtain hs where hs: "sn_http sn = Some hs" using assms(2) by blast
  have enc: "envelope env sn n ev \<noteq> Inl SinkDeliveryError" for n
    using assms(1) by (auto simp: envelope_def foreign_raises_def encode_utf8_def Let_def split: sum.split option.split)
  show ?thesis
  proof (cases "envelope env sn (ss_calls st) ev")
    case (Inl e)
    then show ?thesis using assms(3) enc hs by (auto simp: post_envelope_def)
  next
    case (Inr body)
    obtain q n where q: "http_attempts (ev_hooks env) (ev_dest env) body (ss_calls st) (hs_retries hs + 1) = (q, n)" by (rule prod.exhaust)
    have "q \<noteq> NoAttempt" using q http_attempts_some [of "ev_hooks env" "ev_dest env" body "ss_calls st" "hs_retries hs"] by simp
    moreover have "q \<noteq> Raised SinkDeliveryError"
    proof
      assume "q = Raised SinkDeliveryError"
      then obtain k where "ev_dest env k body = OtherRaise SinkDeliveryError" using http_attempts_raised q by blast
      then show False using assms(1) by (simp add: foreign_raises_def)
    qed
    ultimately show ?thesis using assms(3) hs Inr q by (cases q) (auto simp: post_envelope_def http_send_def bump_def)
  qed
qed

lemma sentry_capture_accounts:
  assumes "foreign_raises env" and "backend = Some Envelopes \<longrightarrow> sn_http sn \<noteq> None" and "sentry_capture env sn backend ev st = (ok, st')"
  shows "ss_sent st' = ss_sent st \<and> ss_skipped st' = ss_skipped st \<and>
    lost_events st' = lost_events st + (if ok \<or> backend = None then 0 else 1)"
proof (cases backend)
  case None
  then show ?thesis using assms(3) by (simp add: sentry_capture_def)
next
  case (Some b)
  show ?thesis
  proof (cases b)
    case Sdk
    then show ?thesis using assms Some
      by (auto simp: sentry_capture_def foreign_raises_def sentry_losses_def split: prod.splits sum.splits pyexn.splits)
        (metis fst_conv)+
  next
    case Envelopes
    obtain r s where r: "post_envelope env sn ev st = (r, s)" by (rule prod.exhaust)
    note posted = post_envelope_accounts [OF assms(1) _ r]
    show ?thesis using posted assms(2,3) Some Envelopes r
      by (cases r) (auto simp: sentry_capture_def sentry_losses_def split: pyexn.splits)
  qed
qed

lemma sentry_loop_accounts:
  assumes "foreign_raises env" and "backend = Some Envelopes \<longrightarrow> sn_http sn \<noteq> None"
  shows "sentry_loop env sn backend batch st = (attempted, delivered, st') \<Longrightarrow>
    attempted = length (filter (qualifies (ev_upper env) sn) batch) \<and> ss_sent st' = ss_sent st + delivered \<and>
    ss_skipped st' = ss_skipped st + (length batch - attempted) \<and> attempted \<le> length batch \<and> delivered \<le> attempted \<and>
    (if backend = None then delivered = 0 \<and> lost_events st' = lost_events st else lost_events st' + delivered = lost_events st + attempted)"
proof (induction batch arbitrary: st attempted delivered st')
  case (Cons ev evs)
  show ?case
  proof (cases "qualifies (ev_upper env) sn ev")
    case False
    then have "sentry_loop env sn backend evs (st\<lparr>ss_skipped := Suc (ss_skipped st)\<rparr>) = (attempted, delivered, st')" using Cons.prems by simp
    from Cons.IH [OF this] False show ?thesis by (auto simp: sentry_losses_def Suc_diff_le)
  next
    case True
    obtain ok s where c: "sentry_capture env sn backend ev st = (ok, s)" by (rule prod.exhaust)
    obtain a d s' where rest: "sentry_loop env sn backend evs (if ok then s\<lparr>ss_sent := Suc (ss_sent s)\<rparr> else s) = (a, d, s')" by (metis prod.exhaust)
    have none: "backend = None \<Longrightarrow> \<not> ok" using c by (auto simp: sentry_capture_def)
    from Cons.IH [OF rest] sentry_capture_accounts [OF assms c] Cons.prems c rest True none show ?thesis
      by (auto simp: sentry_losses_def split: if_splits)
  qed
qed (simp add: sentry_losses_def)

text \<open>An emit skips the events below the level and sends or counts every other one; it raises exactly
  when there were some and none landed.\<close>

theorem sentry_emit_accounts:
  assumes "foreign_raises env" and "sn_backend sn = str ''http'' \<longrightarrow> sn_http sn \<noteq> None" and "sentry_emit env sn batch st = (r, st')"
  shows "let wanted = length (filter (qualifies (ev_upper env) sn) batch); landed = ss_sent st' - ss_sent st
    in ss_skipped st' = ss_skipped st + (length batch - wanted) \<and> ss_sent st \<le> ss_sent st' \<and> landed \<le> wanted \<and>
      (select_backend sn (sd_view (ev_sdk env) (ss_client st)) \<noteq> None \<longrightarrow> lost_events st' = lost_events st + (wanted - landed)) \<and>
      (r = Inl SinkDeliveryError \<longleftrightarrow> 0 < wanted \<and> landed = 0) \<and> (r = Inr () \<or> r = Inl SinkDeliveryError)"
proof -
  let ?b = "select_backend sn (sd_view (ev_sdk env) (ss_client st))"
  obtain a d s where loop: "sentry_loop env sn ?b batch st = (a, d, s)" by (metis prod.exhaust)
  have "?b = Some Envelopes \<longrightarrow> sn_http sn \<noteq> None" using assms(2) by (auto simp: select_backend_def)
  from sentry_loop_accounts [OF assms(1) this loop] assms(3) loop show ?thesis
    by (auto simp: sentry_emit_def Let_def split: if_splits)
qed

text \<open>A sink that was built for envelopes can send them.\<close>

lemma sentry_init_http:
  "sentry_init T upper http installed given_client given_opener dsn min_level backend = Inr sn \<Longrightarrow> sn_backend sn = str ''http'' \<longrightarrow> sn_http sn \<noteq> None"
  by (auto simp: sentry_init_def Let_def str_def map_sum_Inr_iff split: if_splits option.splits sum.splits prod.splits)

end
