(* ===== verification/Row_Stores.thy ===== *)
theory Row_Stores
  imports Batch_Emit
begin

text \<open>
  The sinks that insert rows: \<^verbatim>\<open>sinks/clickhouse.py\<close>, \<^verbatim>\<open>sinks/sqlite.py\<close>, \<^verbatim>\<open>sinks/postgres.py\<close>,
  \<^verbatim>\<open>sinks/mongodb.py\<close> and \<^verbatim>\<open>sinks/redis.py\<close>. The driver is an argument: each call takes the state of
  the store and gives a result and the state after it. What the drivers document about
  transactions is the predicate \<open>transactional\<close>, over what the store holds for good and what is
  still uncommitted. Events are encoded by an argument that may raise (\<^verbatim>\<open>json.dumps\<close>).
\<close>

subsection \<open>Names of tables\<close>

definition ident_start :: "nat \<Rightarrow> bool" where
  "ident_start c \<longleftrightarrow> 65 \<le> c \<and> c \<le> 90 \<or> 97 \<le> c \<and> c \<le> 122 \<or> c = 95"

definition ident_char :: "nat \<Rightarrow> bool" where
  "ident_char c \<longleftrightarrow> ident_start c \<or> 48 \<le> c \<and> c \<le> 57"

definition plain_identifier :: "pystr \<Rightarrow> bool" where
  "plain_identifier t \<longleftrightarrow> t \<noteq> [] \<and> ident_start (hd t) \<and> list_all ident_char (tl t)"

text \<open>The pattern ends in \<^verbatim>\<open>$\<close>, which also matches before a newline at the end.\<close>

definition valid_identifier :: "pystr \<Rightarrow> pystr result" where
  "valid_identifier name =
     (if plain_identifier name \<or> name \<noteq> [] \<and> last name = 10 \<and> plain_identifier (butlast name) then Inr name else Inl ValueError)"

lemma valid_identifier_safe:
  "valid_identifier name = Inr t \<Longrightarrow> t = name \<and> (\<exists>n. plain_identifier n \<and> (name = n \<or> name = n @ [10]))"
  by (auto simp: valid_identifier_def split: if_splits) (metis append_butlast_last_id)

lemma valid_identifier_newline: "valid_identifier (str ''events'' @ [10]) = Inr (str ''events'' @ [10]) \<and> \<not> plain_identifier (str ''events'' @ [10])"
  by (simp add: valid_identifier_def plain_identifier_def ident_start_def ident_char_def str_def)

subsection \<open>Retries\<close>

text \<open>The loop all these sinks share: the call, then what is done about a failure, then again.\<close>

fun with_retries :: "('s \<Rightarrow> 'r result \<times> 's) \<Rightarrow> ('s \<Rightarrow> 's) \<Rightarrow> nat \<Rightarrow> 's \<Rightarrow> 'r result \<times> 's" where
  "with_retries call recover 0 s = (case call s of (Inr r, s') \<Rightarrow> (Inr r, s') | (Inl e, s') \<Rightarrow> (Inl e, recover s'))"
| "with_retries call recover (Suc left) s =
     (case call s of (Inr r, s') \<Rightarrow> (Inr r, s') | (Inl e, s') \<Rightarrow> with_retries call recover left (recover s'))"

lemma with_retries_invariant:
  assumes "\<And>n s e s'. P n s \<Longrightarrow> call s = (Inl e, s') \<Longrightarrow> P (Suc n) (recover s')"
    and "\<And>n s r s'. P n s \<Longrightarrow> call s = (Inr r, s') \<Longrightarrow> Q (Suc n) r s'" and "P n s"
  shows "case with_retries call recover left s of (Inr r, s') \<Rightarrow> \<exists>m\<le>n + Suc left. Q m r s' | (Inl e, s') \<Rightarrow> P (n + Suc left) s'"
  using assms(3)
proof (induction left arbitrary: n s)
  case 0
  then show ?case using assms(1,2) by (fastforce split: prod.splits sum.splits)
next
  case (Suc left)
  show ?case
  proof (cases "call s")
    case (Pair r s')
    show ?thesis
    proof (cases r)
      case (Inl e)
      then show ?thesis using Suc.IH [OF assms(1) [OF Suc.prems]] Pair by (simp only: add_Suc add_Suc_right with_retries.simps prod.case sum.case)
    next
      case (Inr x)
      then have "Q (Suc n) x s'" using assms(2) Suc.prems Pair by blast
      then show ?thesis using Pair Inr by (simp add: exI [of _ "Suc n"])
    qed
  qed
qed

text \<open>What an emit leaves behind: how it ended, the counters, the rows that were stored, the store.\<close>

record ('p, 's) stored =
  sr_result :: "unit result"
  sr_counters :: counters
  sr_rows :: "'p list"
  sr_store :: 's

abbreviation finish_emit :: "unit result \<Rightarrow> deferral \<Rightarrow> counters \<Rightarrow> 'p list \<Rightarrow> 's \<Rightarrow> ('p, 's) stored" where
  "finish_emit r pending c rows s \<equiv>
     \<lparr>sr_result = r, sr_counters = fst (deferral_exit (r \<noteq> Inr ()) pending c), sr_rows = rows, sr_store = s\<rparr>"

definition row_losses :: "counters \<Rightarrow> sink_losses" where
  "row_losses c = \<lparr>sl_dropped = c C_UNENCODABLE, sl_failed = c C_FAILED\<rparr>"

text \<open>Every event of a batch that was taken is stored or counted; a batch that was not taken has
  stored nothing and dropped nothing.\<close>

definition rows_accounted :: "(counters \<Rightarrow> sink_losses) \<Rightarrow> counters \<Rightarrow> nat \<Rightarrow> ('p, 's) stored \<Rightarrow> bool" where
  "rows_accounted losses c n out \<longleftrightarrow>
     (case sr_result out of
        Inr _ \<Rightarrow> length (sr_rows out) + sl_dropped (losses (sr_counters out)) + sl_failed (losses (sr_counters out)) =
                 n + sl_dropped (losses c) + sl_failed (losses c)
      | Inl _ \<Rightarrow> sr_rows out = [] \<and> sl_dropped (losses (sr_counters out)) = sl_dropped (losses c))"

text \<open>The part of \<^verbatim>\<open>emit\<close> the sinks of this theory share: the empty batch, the encoding, the closed sink, and
  a batch of which nothing could be encoded; then the sink's own insert.\<close>

type_synonym ('p, 's) inserter = "'p list \<Rightarrow> nat \<Rightarrow> counters \<Rightarrow> 's \<Rightarrow> unit result \<times> 'p list \<times> counters \<times> 's"

definition row_emit :: "(event \<Rightarrow> 'p result) \<Rightarrow> bool \<Rightarrow> ('p, 's) inserter \<Rightarrow> event list \<Rightarrow> counters \<Rightarrow> 's \<Rightarrow> ('p, 's) stored" where
  "row_emit encode shut inserter batch c s =
     (if batch = [] then finish_emit (Inr ()) new_deferral c [] s
      else let (encoded, pending) = encode_events encode C_UNENCODABLE batch new_deferral; rows = map snd encoded
           in if shut then finish_emit (Inl SinkDeliveryError) pending c [] s
              else if rows = [] then finish_emit (Inr ()) pending c [] s
              else let (r, stored_rows, c, s) = inserter rows (length batch) c s in finish_emit r pending c stored_rows s)"

subsection \<open>ClickHouse\<close>

text \<open>Chunks go in one by one. The client inserts the rows of a call or none of them.\<close>

fun clickhouse_inserts :: "('p list \<Rightarrow> 's \<Rightarrow> unit result \<times> 's) \<Rightarrow> nat \<Rightarrow> 'p list list \<Rightarrow> counters \<Rightarrow> 's \<Rightarrow> 'p list list \<times> counters \<times> 's" where
  "clickhouse_inserts client max_retries [] c s = ([], c, s)"
| "clickhouse_inserts client max_retries (chunk # chunks) c s =
     (case with_retries (client chunk) id max_retries s of
        (Inr _, s') \<Rightarrow> (let (ins, c', s'') = clickhouse_inserts client max_retries chunks c s' in (chunk # ins, c', s''))
      | (Inl e, s') \<Rightarrow> clickhouse_inserts client max_retries chunks (bump C_FAILED (length chunk) c) s')"

definition clickhouse_insert :: "numarg \<Rightarrow> nat \<Rightarrow> ('p list \<Rightarrow> 's \<Rightarrow> unit result \<times> 's) \<Rightarrow> ('p, 's) inserter" where
  "clickhouse_insert chunk_size max_retries client rows n c s =
     (case chunk_list rows chunk_size of
        Inl e \<Rightarrow> (Inl e, [], c, s)
      | Inr chunks \<Rightarrow>
          (let (ins, c, s) = clickhouse_inserts client max_retries chunks c s
           in if chunks = [] \<or> ins = [] then (Inl SinkDeliveryError, [], c, s) else (Inr (), concat ins, c, s)))"

definition clickhouse_emit :: "numarg \<Rightarrow> nat \<Rightarrow> (event \<Rightarrow> 'p result) \<Rightarrow> ('p list \<Rightarrow> 's \<Rightarrow> unit result \<times> 's) \<Rightarrow> bool \<Rightarrow> event list \<Rightarrow> counters \<Rightarrow> 's \<Rightarrow> ('p, 's) stored" where
  "clickhouse_emit chunk_size max_retries encode client shut = row_emit encode shut (clickhouse_insert chunk_size max_retries client)"

text \<open>A row is the values of some fields and the JSON of the whole event.\<close>

definition project_row :: "pystr list \<Rightarrow> (jval \<Rightarrow> pystr result) \<Rightarrow> event \<Rightarrow> (jval option list \<times> pystr) result" where
  "project_row columns dumps ev = map_sum id (\<lambda>text. (map (dict_get ev) columns, text)) (dumps (JDict ev))"

definition clickhouse_columns :: "pystr list" where
  "clickhouse_columns = map str [''timestamp'', ''level'', ''trace_id'', ''span_id'', ''function'', ''service'', ''duration_ms'', ''status'']"

definition clickhouse_row :: "(jval \<Rightarrow> pystr result) \<Rightarrow> event \<Rightarrow> (jval option list \<times> pystr) result" where
  "clickhouse_row = project_row clickhouse_columns"

text \<open>Closing a client twice does nothing; one that was injected is left open.\<close>

definition client_close :: "('s \<Rightarrow> unit result \<times> 's) \<Rightarrow> bool \<Rightarrow> bool \<Rightarrow> 's \<Rightarrow> unit result \<times> bool \<times> 's" where
  "client_close close owns shut s =
     (if shut \<or> \<not> owns then (Inr (), True, s) else let (r, s') = close s in (r, True, s'))"

subsection \<open>Transactions\<close>

record ('p, 's) db =
  db_exec :: "'p list \<Rightarrow> 's \<Rightarrow> unit result \<times> 's"
  db_commit :: "'s \<Rightarrow> unit result \<times> 's"
  db_rollback :: "'s \<Rightarrow> unit result \<times> 's"
  db_broken :: "'s \<Rightarrow> bool"
  db_drop :: "'s \<Rightarrow> unit result \<times> 's"
  db_connect :: "'s \<Rightarrow> unit result \<times> 's"

text \<open>A connection is clean when nothing is uncommitted on it, or when it is broken.\<close>

definition clean_conn :: "('p, 's) db \<Rightarrow> ('s \<Rightarrow> 'p list) \<Rightarrow> 's \<Rightarrow> bool" where
  "clean_conn db uncommitted s \<longleftrightarrow> db_broken db s \<or> uncommitted s = []"

text \<open>What a driver documents: executing adds to the transaction; a commit that returns makes it
  durable, and one that raises, as when the connection is lost before the answer, made all of it
  durable or none; a rollback leaves a connection clean even if it raises, since then the connection
  is broken; a broken connection executes nothing; a new connection has no transaction.\<close>

definition transactional :: "('p, 's) db \<Rightarrow> ('s \<Rightarrow> 'p list) \<Rightarrow> ('s \<Rightarrow> 'p list) \<Rightarrow> bool" where
  "transactional db durable uncommitted \<longleftrightarrow>
     (\<forall>rows s r s'. db_exec db rows s = (r, s') \<longrightarrow> durable s' = durable s \<and>
        (r = Inr () \<longrightarrow> \<not> db_broken db s \<and> \<not> db_broken db s' \<and> uncommitted s' = uncommitted s @ rows)) \<and>
     (\<forall>s r s'. db_commit db s = (r, s') \<longrightarrow> durable s' = durable s @ uncommitted s \<or> r \<noteq> Inr () \<and> durable s' = durable s) \<and>
     (\<forall>s r s'. db_rollback db s = (r, s') \<longrightarrow> durable s' = durable s \<and> clean_conn db uncommitted s') \<and>
     (\<forall>s r s'. db_drop db s = (r, s') \<longrightarrow> durable s' = durable s) \<and>
     (\<forall>s r s'. db_connect db s = (r, s') \<longrightarrow> durable s' = durable s \<and> (if r = Inr () then uncommitted s' = [] else db_broken db s'))"

text \<open>A commit that raises is known to have done nothing.\<close>

definition definite_commits :: "('p, 's) db \<Rightarrow> ('s \<Rightarrow> 'p list) \<Rightarrow> bool" where
  "definite_commits db durable \<longleftrightarrow> (\<forall>s e s'. db_commit db s = (Inl e, s') \<longrightarrow> durable s' = durable s)"

subsection \<open>SQLite\<close>

text \<open>\<^verbatim>\<open>with self._conn\<close>: commit, or roll back and raise; a commit that fails is rolled back too.\<close>

definition rolled_back :: "('p, 's) db \<Rightarrow> pyexn \<Rightarrow> 's \<Rightarrow> unit result \<times> 's" where
  "rolled_back db e s = (case db_rollback db s of (Inr _, s') \<Rightarrow> (Inl e, s') | (Inl e', s') \<Rightarrow> (Inl e', s'))"

definition sqlite_insert :: "('p, 's) db \<Rightarrow> 'p list \<Rightarrow> 's \<Rightarrow> unit result \<times> 's" where
  "sqlite_insert db rows s =
     (case db_exec db rows s of
        (Inr _, s1) \<Rightarrow> (case db_commit db s1 of (Inr _, s2) \<Rightarrow> (Inr (), s2) | (Inl e, s2) \<Rightarrow> rolled_back db e s2)
      | (Inl e, s1) \<Rightarrow> rolled_back db e s1)"

text \<open>Only the errors of the driver are counted and wrapped.\<close>

definition sqlite_guarded :: "(pyexn \<Rightarrow> bool) \<Rightarrow> (pyexn \<Rightarrow> pyexn option) \<Rightarrow> ('p, 's) db \<Rightarrow> ('p, 's) inserter" where
  "sqlite_guarded is_driver_error delivery_error db rows n c s =
     (case sqlite_insert db rows s of
        (Inr _, s') \<Rightarrow> (Inr (), rows, c, s')
      | (Inl e, s') \<Rightarrow>
          if is_driver_error e then (Inl (case delivery_error e of None \<Rightarrow> e | Some built \<Rightarrow> built), [], bump C_FAILED n c, s')
          else (Inl e, [], c, s'))"

definition sqlite_emit :: "(pyexn \<Rightarrow> bool) \<Rightarrow> (pyexn \<Rightarrow> pyexn option) \<Rightarrow> (event \<Rightarrow> 'p result) \<Rightarrow> ('p, 's) db \<Rightarrow> bool \<Rightarrow> event list \<Rightarrow> counters \<Rightarrow> 's \<Rightarrow> ('p, 's) stored" where
  "sqlite_emit is_driver_error delivery_error encode db shut = row_emit encode shut (sqlite_guarded is_driver_error delivery_error db)"

definition sqlite_columns :: "pystr list" where
  "sqlite_columns = map str [''log_id'', ''trace_id'', ''span_id'', ''timestamp'', ''level'', ''function'']"

definition sqlite_row :: "(jval \<Rightarrow> pystr result) \<Rightarrow> event \<Rightarrow> (jval option list \<times> pystr) result" where
  "sqlite_row = project_row sqlite_columns"

definition sqlite_losses :: "counters \<Rightarrow> sink_losses option" where
  "sqlite_losses c = (if c C_UNENCODABLE = 0 \<and> c C_FAILED = 0 then None else Some (row_losses c))"

definition sqlite_close :: "('p, 's) db \<Rightarrow> bool \<Rightarrow> bool \<Rightarrow> 's \<Rightarrow> unit result \<times> bool \<times> 's" where
  "sqlite_close db owns shut s =
     (if shut then (Inr (), True, s)
      else case db_commit db s of
             (Inl e, s') \<Rightarrow> (Inl e, True, s')
           | (Inr _, s') \<Rightarrow> if owns then (let (r, s'') = db_drop db s' in (r, True, s'')) else (Inr (), True, s'))"

subsection \<open>PostgreSQL\<close>

text \<open>A search for an escape of U+0000 in JSON text: an odd run of backslashes, then \<^verbatim>\<open>u0000\<close>.\<close>

fun nul_search :: "bool \<Rightarrow> pystr \<Rightarrow> bool" where
  "nul_search esc [] = False"
| "nul_search esc (c # t) =
     (if c = 92 then nul_search (\<not> esc) t
      else esc \<and> c = 117 \<and> take 4 t = [48, 48, 48, 48] \<or> nul_search False t)"

definition nul_escape :: "pystr \<Rightarrow> bool" where
  "nul_escape t = nul_search False t"

definition postgres_columns :: "pystr list" where
  "postgres_columns = map str [''timestamp'', ''level'', ''trace_id'', ''span_id'', ''function'', ''service'']"

definition postgres_row :: "(jval \<Rightarrow> pystr result) \<Rightarrow> event \<Rightarrow> (jval option list \<times> pystr) result" where
  "postgres_row dumps ev =
     (case dumps (JDict ev) of
        Inl e \<Rightarrow> Inl e
      | Inr text \<Rightarrow>
          (case (if nul_escape text then repair_nul ev else None) of
             None \<Rightarrow> Inr (map (dict_get ev) postgres_columns, text)
           | Some repaired \<Rightarrow> map_sum id (\<lambda>text'. (map (dict_get repaired) postgres_columns, text')) (dumps (JDict repaired))))"

fun exec_chunks :: "('p, 's) db \<Rightarrow> 'p list list \<Rightarrow> 's \<Rightarrow> unit result \<times> 's" where
  "exec_chunks db [] s = (Inr (), s)"
| "exec_chunks db (chunk # chunks) s =
     (case db_exec db chunk s of (Inl e, s') \<Rightarrow> (Inl e, s') | (Inr _, s') \<Rightarrow> exec_chunks db chunks s')"

text \<open>Failures to close and to open are absorbed; the insert then fails on the broken connection.\<close>

definition reconnect_if_broken :: "('p, 's) db \<Rightarrow> bool \<Rightarrow> 's \<Rightarrow> 's" where
  "reconnect_if_broken db owns s =
     (if \<not> owns \<or> \<not> db_broken db s then s else let (_, s1) = db_drop db s; (_, s2) = db_connect db s1 in s2)"

definition postgres_attempt :: "numarg \<Rightarrow> ('p, 's) db \<Rightarrow> bool \<Rightarrow> 'p list \<Rightarrow> 's \<Rightarrow> unit result \<times> 's" where
  "postgres_attempt chunk_size db owns rows s =
     (let s = reconnect_if_broken db owns s
      in case chunk_list rows chunk_size of
           Inl e \<Rightarrow> (Inl e, s)
         | Inr chunks \<Rightarrow> (case exec_chunks db chunks s of (Inl e, s') \<Rightarrow> (Inl e, s') | (Inr _, s') \<Rightarrow> db_commit db s'))"

definition postgres_rollback :: "('p, 's) db \<Rightarrow> 's \<Rightarrow> 's" where
  "postgres_rollback db s = snd (db_rollback db s)"

definition postgres_insert :: "numarg \<Rightarrow> nat \<Rightarrow> bool \<Rightarrow> ('p, 's) db \<Rightarrow> ('p, 's) inserter" where
  "postgres_insert chunk_size max_retries owns db rows n c s =
     (if chunk_list rows chunk_size = Inr [] then (Inl SinkDeliveryError, [], c, reconnect_if_broken db owns s)
      else case with_retries (postgres_attempt chunk_size db owns rows) (postgres_rollback db) max_retries s of
             (Inr _, s') \<Rightarrow> (Inr (), rows, c, s')
           | (Inl e, s') \<Rightarrow> (Inl SinkDeliveryError, [], bump C_FAILED n c, s'))"

definition postgres_emit :: "numarg \<Rightarrow> nat \<Rightarrow> bool \<Rightarrow> (event \<Rightarrow> 'p result) \<Rightarrow> ('p, 's) db \<Rightarrow> bool \<Rightarrow> event list \<Rightarrow> counters \<Rightarrow> 's \<Rightarrow> ('p, 's) stored" where
  "postgres_emit chunk_size max_retries owns encode db shut = row_emit encode shut (postgres_insert chunk_size max_retries owns db)"

definition postgres_close :: "('p, 's) db \<Rightarrow> bool \<Rightarrow> bool \<Rightarrow> 's \<Rightarrow> unit result \<times> bool \<times> 's" where
  "postgres_close db owns shut s =
     (if shut then (Inr (), True, s)
      else let (_, s') = db_commit db s in if owns then (let (r, s'') = db_drop db s' in (r, True, s'')) else (Inr (), True, s'))"

subsection \<open>MongoDB\<close>

definition MAX_DOC_BYTES :: nat where "MAX_DOC_BYTES = 16 * 1024 * 1024"

text \<open>The check is \<^verbatim>\<open>bson.encode\<close>, if the package has one.\<close>

definition mongo_encode :: "(event \<Rightarrow> unit result) option \<Rightarrow> (jval \<Rightarrow> pystr result) \<Rightarrow> event \<Rightarrow> (event \<times> nat) result" where
  "mongo_encode check dumps ev =
     (let document =
        (case check of
           None \<Rightarrow> Inr ev
         | Some check \<Rightarrow>
             (case check ev of
                Inr _ \<Rightarrow> Inr ev
              | Inl e \<Rightarrow>
                  (case repair_bson ev of
                     None \<Rightarrow> Inl e
                   | Some repaired \<Rightarrow> (case check repaired of Inl e2 \<Rightarrow> Inl e2 | Inr _ \<Rightarrow> Inr repaired))))
      in case document of
           Inl e \<Rightarrow> Inl e
         | Inr d \<Rightarrow>
             (case dumps (JDict d) of
                Inl e \<Rightarrow> Inl e
              | Inr text \<Rightarrow> map_sum id (\<lambda>b. (d, length b)) (encode_utf8 text)))"

fun mongo_documents :: "(event \<times> event \<times> nat) list \<Rightarrow> deferral \<Rightarrow> event list \<times> deferral" where
  "mongo_documents [] pending = ([], pending)"
| "mongo_documents ((_, document, n) # encoded) pending =
     (if MAX_DOC_BYTES < n then mongo_documents encoded (defer_announce 1 (defer_count C_OVERSIZED 1 pending))
      else let (documents, pending) = mongo_documents encoded pending in (document # documents, pending))"

text \<open>How \<^verbatim>\<open>insert_many\<close> with \<^verbatim>\<open>ordered=False\<close> ends: all are inserted; some are, and the error counts
  those that were not; or the call failed.\<close>

datatype bulk = BulkOk | BulkErrors nat | BulkFailed pyexn

fun mongo_insert :: "(event list \<Rightarrow> 's \<Rightarrow> bulk \<times> 's) \<Rightarrow> event list \<Rightarrow> nat \<Rightarrow> counters \<Rightarrow> 's \<Rightarrow> (unit result \<times> nat) \<times> counters \<times> 's" where
  "mongo_insert ins documents left c s =
     (case ins documents s of
        (BulkOk, s') \<Rightarrow> ((Inr (), length documents), c, s')
      | (BulkErrors rejects, s') \<Rightarrow>
          ((if length documents \<le> rejects then Inl SinkDeliveryError else Inr (), length documents - rejects), bump C_FAILED rejects c, s')
      | (BulkFailed e, s') \<Rightarrow>
          (case left of
             Suc k \<Rightarrow> mongo_insert ins documents k c s'
           | 0 \<Rightarrow> ((Inl SinkDeliveryError, 0), bump C_FAILED (length documents) c, s')))"

definition mongo_emit :: "(event \<Rightarrow> unit result) option \<Rightarrow> (jval \<Rightarrow> pystr result) \<Rightarrow> (event list \<Rightarrow> 's \<Rightarrow> bulk \<times> 's) \<Rightarrow> nat \<Rightarrow> bool \<Rightarrow> event list \<Rightarrow> counters \<Rightarrow> 's \<Rightarrow> unit result \<times> nat \<times> counters \<times> 's" where
  "mongo_emit check dumps ins max_retries shut batch c s =
     (if batch = [] then (Inr (), 0, c, s)
      else if shut then (Inl SinkDeliveryError, 0, c, s)
      else let (encoded, pending) = encode_events (mongo_encode check dumps) C_UNENCODABLE batch new_deferral;
               (documents, pending) = mongo_documents encoded pending
           in if documents = [] then (Inr (), 0, fst (deferral_exit False pending c), s)
              else let ((r, inserted), c, s) = mongo_insert ins documents max_retries c s
                   in (r, inserted, fst (deferral_exit (r \<noteq> Inr ()) pending c), s))"

definition mongo_losses :: "counters \<Rightarrow> sink_losses" where
  "mongo_losses c = \<lparr>sl_dropped = c C_OVERSIZED + c C_UNENCODABLE, sl_failed = c C_FAILED\<rparr>"

subsection \<open>Redis\<close>

datatype redis_kind = Streams "nat option" | Lists "nat option"

datatype redis_cmd = XAdd pystr "nat option" | RPush pystr | LTrim int int

fun redis_stage :: "redis_kind \<Rightarrow> pystr \<Rightarrow> redis_cmd list" where
  "redis_stage (Streams maxlen) payload = [XAdd payload maxlen]"
| "redis_stage (Lists None) payload = [RPush payload]"
| "redis_stage (Lists (Some n)) payload = [RPush payload, LTrim (- int n) (- 1)]"

definition redis_send :: "redis_kind \<Rightarrow> nat \<Rightarrow> (redis_cmd list \<Rightarrow> 's \<Rightarrow> unit result \<times> 's) \<Rightarrow> (pystr, 's) inserter" where
  "redis_send kind max_retries execute payloads n c s =
     (case with_retries (execute (concat (map (redis_stage kind) payloads))) id max_retries s of
        (Inr _, s') \<Rightarrow> (Inr (), payloads, c, s')
      | (Inl e, s') \<Rightarrow> (Inl SinkDeliveryError, [], bump C_FAILED n c, s'))"

definition redis_emit :: "redis_kind \<Rightarrow> nat \<Rightarrow> (event \<Rightarrow> pystr result) \<Rightarrow> (redis_cmd list \<Rightarrow> 's \<Rightarrow> unit result \<times> 's) \<Rightarrow> bool \<Rightarrow> event list \<Rightarrow> counters \<Rightarrow> 's \<Rightarrow> (pystr, 's) stored" where
  "redis_emit kind max_retries encode execute shut batch c s =
     (if batch \<noteq> [] \<and> shut then finish_emit (Inl SinkDeliveryError) new_deferral c [] s
      else row_emit encode False (redis_send kind max_retries execute) batch c s)"

text \<open>What the commands do to a list, as Redis documents them; \<^verbatim>\<open>LTRIM\<close> with negative indices counts
  from the end.\<close>

fun redis_list :: "redis_cmd \<Rightarrow> pystr list \<Rightarrow> pystr list" where
  "redis_list (RPush payload) xs = xs @ [payload]"
| "redis_list (LTrim start stop) xs =
     (let n = int (length xs);
          from = max 0 (if start < 0 then n + start else start);
          upto = min (n - 1) (if stop < 0 then n + stop else stop)
      in if upto < from then [] else take (nat (upto - from + 1)) (drop (nat from) xs))"
| "redis_list (XAdd _ _) xs = xs"

subsection \<open>Every event is stored or counted\<close>

lemma encode_pending:
  assumes "encode_events encode C_UNENCODABLE batch new_deferral = (encoded, pending)"
  shows "length encoded + pending_of pending C_UNENCODABLE = length batch" and "pending_of pending C_FAILED = 0"
    and "pending_of pending C_OVERSIZED = 0" and "deferral_wf pending"
  using encode_events_accounts(1,3) [OF assms] encode_events_accounts(2) [OF assms, of C_FAILED] encode_events_accounts(2) [OF assms, of C_OVERSIZED]
  by simp_all

lemma rows_returned:
  assumes "encode_events encode C_UNENCODABLE batch new_deferral = (encoded, pending)" and "length rows + failed = length encoded"
  shows "rows_accounted row_losses c (length batch) (finish_emit (Inr ()) pending (bump C_FAILED failed c) rows s)"
proof -
  note p = encode_pending [OF assms(1)]
  have "fst (deferral_exit False pending (bump C_FAILED failed c)) name = bump C_FAILED failed c name + pending_of pending name" for name
    using deferral_exit_counts [OF p(4)] by simp
  then show ?thesis using p(1,2) assms(2) by (simp add: rows_accounted_def row_losses_def bump_def)
qed

lemma rows_raised: "rows_accounted row_losses c n (finish_emit (Inl e) pending (bump C_FAILED failed c) [] s)"
  by (simp add: rows_accounted_def row_losses_def bump_def deferral_exit_def)

lemma bump_zero: "bump name 0 c = c"
  by (simp add: bump_def)

lemmas rows_kept = rows_returned [where failed = 0, unfolded bump_zero add_0_right] rows_raised [where failed = 0, unfolded bump_zero]

text \<open>The contract of an insert: it counts what it does not store, and if it raises it stored nothing.\<close>

locale inserting =
  fixes inserter :: "('p, 's) inserter"
  assumes inserts: "inserter rows n c s = (r, stored_rows, c', s') \<Longrightarrow>
    \<exists>k. c' = bump C_FAILED k c \<and> (r = Inr () \<longrightarrow> length stored_rows + k = length rows) \<and> (r \<noteq> Inr () \<longrightarrow> stored_rows = [])"
begin

lemma emit_accounted: "rows_accounted row_losses c (length batch) (row_emit encode shut inserter batch c s)"
proof (cases "batch = []")
  case True
  then show ?thesis by (simp add: row_emit_def rows_accounted_def deferral_exit_def new_deferral_def)
next
  case False
  obtain encoded pending where enc: "encode_events encode C_UNENCODABLE batch new_deferral = (encoded, pending)" by (rule prod.exhaust)
  show ?thesis
  proof (cases "shut \<or> encoded = []")
    case True
    then show ?thesis using False enc rows_kept(1) [OF enc, of "[]" c s] rows_kept(2) [of c "length batch" SinkDeliveryError pending s]
      by (auto simp: row_emit_def)
  next
    case go: False
    obtain r stored_rows c' s' where ins: "inserter (map snd encoded) (length batch) c s = (r, stored_rows, c', s')" by (metis prod.exhaust)
    obtain k where k: "c' = bump C_FAILED k c" "r = Inr () \<longrightarrow> length stored_rows + k = length encoded" "r \<noteq> Inr () \<longrightarrow> stored_rows = []"
      using inserts [OF ins] by auto
    have emit: "row_emit encode shut inserter batch c s = finish_emit r pending (bump C_FAILED k c) stored_rows s'"
      using False go enc ins k(1) by (simp add: row_emit_def)
    show ?thesis
    proof (cases r)
      case (Inl e)
      then show ?thesis using emit k(3) rows_raised [of c "length batch" e pending k s'] by simp
    next
      case (Inr u)
      then show ?thesis using emit k(2) rows_returned [OF enc, of stored_rows k c s'] by simp
    qed
  qed
qed

end

lemma clickhouse_inserts_accounts:
  assumes "clickhouse_inserts client max_retries chunks c s = (ins, c', s')"
  shows "\<exists>k. c' = bump C_FAILED k c \<and> length (concat ins) + k = length (concat chunks)"
  using assms
proof (induction chunks arbitrary: c s ins)
  case Nil
  then show ?case by (auto intro: exI [of _ 0] simp: bump_zero)
next
  case (Cons chunk chunks)
  obtain r s1 where r: "with_retries (client chunk) id max_retries s = (r, s1)" by (rule prod.exhaust)
  show ?case
  proof (cases r)
    case (Inr u)
    then obtain ins' where "clickhouse_inserts client max_retries chunks c s1 = (ins', c', s')" "ins = chunk # ins'"
      using Cons.prems r by (auto split: prod.splits)
    then show ?thesis using Cons.IH by fastforce
  next
    case (Inl e)
    then have "clickhouse_inserts client max_retries chunks (bump C_FAILED (length chunk) c) s1 = (ins, c', s')" using Cons.prems r by simp
    from Cons.IH [OF this] obtain k where "c' = bump C_FAILED k (bump C_FAILED (length chunk) c)" "length (concat ins) + k = length (concat chunks)" by blast
    then show ?thesis by (intro exI [of _ "length chunk + k"]) (simp add: bump_def add.assoc)
  qed
qed

interpretation clickhouse: inserting "clickhouse_insert chunk_size max_retries client" for chunk_size max_retries client
proof unfold_locales
  fix rows n c s r stored_rows c' s'
  assume ins: "clickhouse_insert chunk_size max_retries client rows n c s = (r, stored_rows, c', s')"
  show "\<exists>k. c' = bump C_FAILED k c \<and> (r = Inr () \<longrightarrow> length stored_rows + k = length rows) \<and> (r \<noteq> Inr () \<longrightarrow> stored_rows = [])"
  proof (cases "chunk_list rows chunk_size")
    case (Inl e)
    then show ?thesis using ins by (auto simp: clickhouse_insert_def intro: exI [of _ 0] simp: bump_zero)
  next
    case (Inr chunks)
    obtain ok c1 s1 where d: "clickhouse_inserts client max_retries chunks c s = (ok, c1, s1)" by (metis prod.exhaust)
    obtain k where k: "c1 = bump C_FAILED k c" "length (concat ok) + k = length (concat chunks)" using clickhouse_inserts_accounts [OF d] by blast
    have "concat chunks = rows" using chunk_list_spec [OF Inr] by blast
    then show ?thesis using ins Inr d k by (auto simp: clickhouse_insert_def split: if_splits)
  qed
qed

interpretation sqlite: inserting "sqlite_guarded is_driver_error delivery_error db" for is_driver_error delivery_error db
  by unfold_locales (auto simp: sqlite_guarded_def bump_zero intro: exI [of _ 0] split: prod.splits sum.splits if_splits)

interpretation postgres: inserting "postgres_insert chunk_size max_retries owns db" for chunk_size max_retries owns db
  by unfold_locales (auto simp: postgres_insert_def bump_zero intro: exI [of _ 0] split: prod.splits sum.splits if_splits)

interpretation redis: inserting "redis_send kind max_retries execute" for kind max_retries execute
  by unfold_locales (auto simp: redis_send_def bump_zero intro: exI [of _ 0] split: prod.splits sum.splits)

lemma mongo_documents_accounts:
  assumes "mongo_documents encoded pending = (documents, pending')"
  shows "length documents + pending_of pending' C_OVERSIZED = length encoded + pending_of pending C_OVERSIZED"
    and "name \<noteq> C_OVERSIZED \<Longrightarrow> pending_of pending' name = pending_of pending name" and "deferral_wf pending \<Longrightarrow> deferral_wf pending'"
proof -
  have "length documents + pending_of pending' C_OVERSIZED = length encoded + pending_of pending C_OVERSIZED \<and>
      (\<forall>name. name \<noteq> C_OVERSIZED \<longrightarrow> pending_of pending' name = pending_of pending name) \<and> (deferral_wf pending \<longrightarrow> deferral_wf pending')"
    using assms
  proof (induction encoded pending arbitrary: documents rule: mongo_documents.induct)
    case (2 ev document n encoded pending)
    show ?case
    proof (cases "MAX_DOC_BYTES < n")
      case True
      then show ?thesis using "2.IH"(1) [OF True, of documents] "2.prems" by simp
    next
      case False
      then obtain ds where "mongo_documents encoded pending = (ds, pending')" "documents = document # ds" using "2.prems" by (auto split: prod.splits)
      then show ?thesis using "2.IH"(2) [OF False] by simp
    qed
  qed simp
  then show "length documents + pending_of pending' C_OVERSIZED = length encoded + pending_of pending C_OVERSIZED"
    "name \<noteq> C_OVERSIZED \<Longrightarrow> pending_of pending' name = pending_of pending name" "deferral_wf pending \<Longrightarrow> deferral_wf pending'" by blast+
qed

lemma mongo_insert_accounts:
  "mongo_insert ins documents left c s = ((r, inserted), c', s') \<Longrightarrow>
     \<exists>k. c' = bump C_FAILED k c \<and> (r = Inr () \<longrightarrow> inserted + k = length documents) \<and> (r \<noteq> Inr () \<longrightarrow> inserted = 0)"
proof (induction ins documents left c s rule: mongo_insert.induct)
  case (1 ins documents left c s)
  obtain b s1 where b: "ins documents s = (b, s1)" by (rule prod.exhaust)
  show ?case
  proof (cases b)
    case BulkOk
    then show ?thesis using "1.prems" b by (intro exI [of _ 0]) (auto simp: bump_zero)
  next
    case (BulkErrors rejects)
    then show ?thesis using "1.prems" b by (intro exI [of _ rejects]) (auto split: if_splits)
  next
    case (BulkFailed e)
    then show ?thesis using "1.prems" b "1.IH" [OF b [symmetric] BulkFailed] by (cases left) auto
  qed
qed

declare mongo_insert.simps [simp del]

lemma mongo_accounted:
  assumes "mongo_emit check dumps ins max_retries shut batch c s = (r, inserted, c', s')"
  shows "(case r of
      Inr _ \<Rightarrow> inserted + sl_dropped (mongo_losses c') + sl_failed (mongo_losses c') = length batch + sl_dropped (mongo_losses c) + sl_failed (mongo_losses c)
    | Inl _ \<Rightarrow> inserted = 0 \<and> sl_dropped (mongo_losses c') = sl_dropped (mongo_losses c))"
proof -
  obtain encoded p1 where enc: "encode_events (mongo_encode check dumps) C_UNENCODABLE batch new_deferral = (encoded, p1)" by (rule prod.exhaust)
  obtain documents p2 where docs: "mongo_documents encoded p1 = (documents, p2)" by (rule prod.exhaust)
  note p1 = encode_pending [OF enc]
  have p2: "length documents + pending_of p2 C_OVERSIZED + pending_of p2 C_UNENCODABLE = length batch" "pending_of p2 C_FAILED = 0" "deferral_wf p2"
    using mongo_documents_accounts [OF docs] p1 by simp_all
  obtain r1 n c1 s1 where ins: "mongo_insert ins documents max_retries c s = ((r1, n), c1, s1)" by (metis prod.exhaust)
  obtain k where k: "c1 = bump C_FAILED k c" "r1 = Inr () \<longrightarrow> n + k = length documents" "r1 \<noteq> Inr () \<longrightarrow> n = 0" using mongo_insert_accounts [OF ins] by blast
  have exit: "fst (deferral_exit raised p2 d) name = (if raised then d name else d name + pending_of p2 name)" for raised d name
    by (rule deferral_exit_counts [OF p2(3)])
  consider "batch = []" | "batch \<noteq> []" "shut" | "batch \<noteq> []" "\<not> shut" "documents = []" | "batch \<noteq> []" "\<not> shut" "documents \<noteq> []" by blast
  then show ?thesis
  proof cases
    case 4
    then have "r = r1" "inserted = n" "c' = fst (deferral_exit (r1 \<noteq> Inr ()) p2 c1)" using assms enc docs ins by (auto simp: mongo_emit_def)
    then show ?thesis using k p2 exit by (cases r1) (simp_all add: mongo_losses_def bump_def)
  qed (use assms enc docs p2 exit in \<open>auto simp: mongo_emit_def mongo_losses_def\<close>)
qed

subsection \<open>All or nothing\<close>

lemma exec_chunks_durable:
  assumes "transactional db durable uncommitted" and "exec_chunks db chunks s = (r, s')"
  shows "durable s' = durable s \<and> (r = Inr () \<and> chunks \<noteq> [] \<longrightarrow> \<not> db_broken db s \<and> uncommitted s' = uncommitted s @ concat chunks)"
  using assms(2)
proof (induction chunks arbitrary: s)
  case (Cons chunk chunks)
  obtain x s1 where x: "db_exec db chunk s = (x, s1)" by (rule prod.exhaust)
  have step: "durable s1 = durable s" "x = Inr () \<longrightarrow> \<not> db_broken db s \<and> \<not> db_broken db s1 \<and> uncommitted s1 = uncommitted s @ chunk"
    using assms(1) x unfolding transactional_def by blast+
  show ?case
  proof (cases x)
    case (Inl e)
    then show ?thesis using Cons.prems x step by auto
  next
    case (Inr u)
    then have "exec_chunks db chunks s1 = (r, s')" using Cons.prems x by simp
    then show ?thesis using Cons.IH step Inr by (cases chunks) auto
  qed
qed simp

lemma reconnect_clean:
  assumes "transactional db durable uncommitted" and "clean_conn db uncommitted s"
  shows "durable (reconnect_if_broken db owns s) = durable s \<and> clean_conn db uncommitted (reconnect_if_broken db owns s)"
proof (cases "\<not> owns \<or> \<not> db_broken db s")
  case True
  then show ?thesis using assms(2) by (simp add: reconnect_if_broken_def)
next
  case False
  obtain r1 s1 where d: "db_drop db s = (r1, s1)" by (rule prod.exhaust)
  obtain r2 s2 where c: "db_connect db s1 = (r2, s2)" by (rule prod.exhaust)
  have "durable s1 = durable s" "durable s2 = durable s1" "if r2 = Inr () then uncommitted s2 = [] else db_broken db s2"
    using assms(1) d c unfolding transactional_def by blast+
  then show ?thesis using False d c by (auto simp: reconnect_if_broken_def clean_conn_def split: if_splits)
qed

lemma postgres_attempt_durable:
  assumes db: "transactional db durable uncommitted" and clean: "clean_conn db uncommitted s" and rows: "rows \<noteq> []"
    and attempt: "postgres_attempt chunk_size db owns rows s = (r, s')"
  shows "durable s' = durable s @ rows \<or> r \<noteq> Inr () \<and> durable s' = durable s"
    and "definite_commits db durable \<Longrightarrow> r \<noteq> Inr () \<Longrightarrow> durable s' = durable s"
proof -
  define s0 where "s0 = reconnect_if_broken db owns s"
  have s0: "durable s0 = durable s" "clean_conn db uncommitted s0" using reconnect_clean [OF db clean] by (simp_all add: s0_def)
  consider (failed) "r \<noteq> Inr ()" "durable s' = durable s" |
    (committed) s1 where "durable s1 = durable s" "uncommitted s1 = rows" "db_commit db s1 = (r, s')"
  proof (cases "chunk_list rows chunk_size")
    case (Inl e)
    then show ?thesis using attempt s0 that(1) by (auto simp: postgres_attempt_def s0_def Let_def)
  next
    case (Inr chunks)
    then have chunks: "concat chunks = rows" "chunks \<noteq> []" using chunk_list_spec [OF Inr] rows by auto
    obtain x s1 where x: "exec_chunks db chunks s0 = (x, s1)" by (rule prod.exhaust)
    have exec: "durable s1 = durable s0" "x = Inr () \<longrightarrow> \<not> db_broken db s0 \<and> uncommitted s1 = uncommitted s0 @ rows"
      using exec_chunks_durable [OF db x] chunks by auto
    show ?thesis
    proof (cases x)
      case (Inl e)
      then show ?thesis using attempt Inr x exec s0 that(1) by (auto simp: postgres_attempt_def s0_def [symmetric] Let_def)
    next
      case ok: (Inr u)
      then have "db_commit db s1 = (r, s')" using attempt Inr x by (simp add: postgres_attempt_def s0_def [symmetric] Let_def)
      then show ?thesis using that(2) [of s1] exec ok s0 by (simp add: clean_conn_def)
    qed
  qed
  note outcome = this
  show "durable s' = durable s @ rows \<or> r \<noteq> Inr () \<and> durable s' = durable s"
  proof (use outcome in cases)
    case (committed s1)
    have "durable s' = durable s1 @ uncommitted s1 \<or> r \<noteq> Inr () \<and> durable s' = durable s1"
      using db committed(3) unfolding transactional_def by blast
    then show ?thesis using committed by simp
  qed simp
  show "durable s' = durable s" if "definite_commits db durable" "r \<noteq> Inr ()"
    using outcome that by cases (simp, cases r, force simp: definite_commits_def, simp)
qed

lemma rollback_clean:
  assumes "transactional db durable uncommitted" and "db_rollback db s = (r, s')"
  shows "durable s' = durable s" "clean_conn db uncommitted s'"
  using assms unfolding transactional_def by blast+

lemma concat_replicate_snoc: "concat (replicate k xs) @ xs = xs @ concat (replicate k xs)"
  by (induction k) simp_all

text \<open>The rows are in the store a number of times, at most once per attempt.\<close>

definition copies :: "nat \<Rightarrow> 'a list \<Rightarrow> 'a list" where
  "copies k rows = concat (replicate k rows)"

lemma copies_simps [simp]: "copies 0 rows = []" "copies (Suc 0) rows = rows" "copies k rows @ rows = copies (Suc k) rows"
  by (simp_all add: copies_def concat_replicate_snoc)

lemma postgres_insert_copies:
  assumes db: "transactional db durable uncommitted" and clean: "clean_conn db uncommitted s" and rows: "rows \<noteq> []"
    and ins: "postgres_insert chunk_size max_retries owns db rows n c s = (r, stored_rows, c', s')"
  shows "\<exists>k\<le>Suc max_retries. durable s' = durable s @ copies k rows \<and> stored_rows = (if r = Inr () then rows else []) \<and>
    (r = Inr () \<longrightarrow> 0 < k) \<and> (definite_commits db durable \<longrightarrow> k = (if r = Inr () then 1 else 0))"
proof -
  let ?P = "\<lambda>n s'. \<exists>k\<le>n. durable s' = durable s @ copies k rows \<and> (definite_commits db durable \<longrightarrow> k = 0) \<and> clean_conn db uncommitted s'"
  let ?Q = "\<lambda>n (u::unit) s'. \<exists>k\<le>n. durable s' = durable s @ copies k rows \<and> 0 < k \<and> (definite_commits db durable \<longrightarrow> k = 1)"
  let ?retries = "with_retries (postgres_attempt chunk_size db owns rows) (postgres_rollback db) max_retries s"
  have inv: "case ?retries of (Inr u, s') \<Rightarrow> \<exists>m\<le>0 + Suc max_retries. ?Q m u s' | (Inl e, s') \<Rightarrow> ?P (0 + Suc max_retries) s'"
  proof (rule with_retries_invariant)
    show "?P 0 s" using clean by simp
  next
    fix n s1 e s2
    assume "?P n s1" and fail: "postgres_attempt chunk_size db owns rows s1 = (Inl e, s2)"
    then obtain k where k: "k \<le> n" "durable s1 = durable s @ copies k rows" "definite_commits db durable \<longrightarrow> k = 0" "clean_conn db uncommitted s1" by blast
    obtain x s3 where x: "db_rollback db s2 = (x, s3)" by (rule prod.exhaust)
    note a = postgres_attempt_durable [OF db k(4) rows fail]
    show "?P (Suc n) (postgres_rollback db s2)"
    proof (cases "durable s2 = durable s1")
      case True
      then show ?thesis using k rollback_clean [OF db x] x by (auto simp: postgres_rollback_def intro!: exI [of _ k])
    next
      case False
      then have "\<not> definite_commits db durable" "durable s2 = durable s @ copies (Suc k) rows" using a k(2) by (auto simp flip: copies_simps(3))
      then show ?thesis using k(1) rollback_clean [OF db x] x by (auto simp: postgres_rollback_def intro!: exI [of _ "Suc k"])
    qed
  next
    fix n s1 u s2
    assume "?P n s1" and ok: "postgres_attempt chunk_size db owns rows s1 = (Inr u, s2)"
    then obtain k where k: "k \<le> n" "durable s1 = durable s @ copies k rows" "definite_commits db durable \<longrightarrow> k = 0" "clean_conn db uncommitted s1" by blast
    have "durable s2 = durable s @ copies (Suc k) rows" using postgres_attempt_durable(1) [OF db k(4) rows ok] k(2) by (simp flip: copies_simps(3))
    then show "?Q (Suc n) u s2" using k by (intro exI [of _ "Suc k"]) simp
  qed
  have "chunk_list rows chunk_size \<noteq> Inr []" using chunk_list_spec [of rows chunk_size "[]"] rows by auto
  then show ?thesis using ins inv by (auto simp: postgres_insert_def split: prod.splits sum.splits dest: le_trans)
qed

lemma row_emit_store:
  assumes "\<And>rows n c r stored_rows c' s'. rows \<noteq> [] \<Longrightarrow> inserter rows n c s = (r, stored_rows, c', s') \<Longrightarrow> P r stored_rows s'" and "P (Inr ()) [] s" and "P (Inl SinkDeliveryError) [] s"
  shows "P (sr_result (row_emit encode shut inserter batch c s)) (sr_rows (row_emit encode shut inserter batch c s)) (sr_store (row_emit encode shut inserter batch c s))"
proof -
  obtain encoded pending where enc: "encode_events encode C_UNENCODABLE batch new_deferral = (encoded, pending)" by (rule prod.exhaust)
  obtain r stored_rows c' s' where ins: "inserter (map snd encoded) (length batch) c s = (r, stored_rows, c', s')" by (metis prod.exhaust)
  have "P r stored_rows s'" if "encoded \<noteq> []" by (rule assms(1) [OF _ ins]) (simp add: that)
  then show ?thesis using assms(2,3) enc ins by (simp add: row_emit_def Let_def)
qed

text \<open>C33. An emit into PostgreSQL is all or nothing, with its retries, its reconnections and its chunks:
  what the store holds for good grows by whole copies of the rows that could be encoded, in order,
  at most one per attempt and at least one when the emit returns; if a commit that raises is known
  to have done nothing, it is exactly one copy when it returns and none when it raises. Every
  event of a batch that is taken is stored or counted.\<close>

theorem postgres_emit_atomic:
  assumes "transactional db durable uncommitted" and "clean_conn db uncommitted s"
    and "postgres_emit chunk_size max_retries owns encode db shut batch c s = out"
  shows "rows_accounted row_losses c (length batch) out \<and>
    (\<exists>rows k. k \<le> Suc max_retries \<and> durable (sr_store out) = durable s @ copies k rows \<and>
      sr_rows out = (if sr_result out = Inr () then rows else []) \<and> (sr_result out = Inr () \<and> rows \<noteq> [] \<longrightarrow> 0 < k) \<and>
      (definite_commits db durable \<longrightarrow> durable (sr_store out) = durable s @ sr_rows out))"
proof
  show "rows_accounted row_losses c (length batch) out" unfolding assms(3) [symmetric] postgres_emit_def by (rule postgres.emit_accounted)
  let ?P = "\<lambda>r stored_rows s'. \<exists>rows k. k \<le> Suc max_retries \<and> durable s' = durable s @ copies k rows \<and> stored_rows = (if r = Inr () then rows else []) \<and>
      (r = Inr () \<and> rows \<noteq> [] \<longrightarrow> 0 < k) \<and> (definite_commits db durable \<longrightarrow> durable s' = durable s @ stored_rows)"
  show "?P (sr_result out) (sr_rows out) (sr_store out)"
    unfolding assms(3) [symmetric] postgres_emit_def
  proof (rule row_emit_store [where P = ?P])
    fix rows n c r stored_rows c' s'
    assume rows: "rows \<noteq> []" and ins: "postgres_insert chunk_size max_retries owns db rows n c s = (r, stored_rows, c', s')"
    show "?P r stored_rows s'"
      using postgres_insert_copies [OF assms(1,2) rows ins] by (elim exE conjE, intro exI [of _ rows] exI) auto
  qed (auto intro!: exI [of _ 0])
qed

text \<open>A store whose connection can always be used.\<close>

definition demo_db :: "(nat, nat list \<times> nat list) db" where
  "demo_db = \<lparr>db_exec = \<lambda>rows (d, u). (Inr (), (d, u @ rows)), db_commit = \<lambda>(d, u). (Inr (), (d @ u, [])), db_rollback = \<lambda>(d, u). (Inr (), (d, [])),
     db_broken = \<lambda>_. False, db_drop = \<lambda>(d, u). (Inr (), (d, [])), db_connect = \<lambda>(d, u). (Inr (), (d, []))\<rparr>"

lemma demo_transactional: "transactional demo_db fst snd" "definite_commits demo_db fst"
  by (auto simp: transactional_def definite_commits_def demo_db_def clean_conn_def)

theorem postgres_emit_atomic_witness:
  "\<exists>out. postgres_emit (AInt 2) 1 True (\<lambda>ev. Inr (length ev)) demo_db False [[], [], []] (\<lambda>_. 0) ([7], []) = out \<and>
     sr_rows out = [0, 0, 0] \<and> fst (sr_store out) = [7, 0, 0, 0] \<and> rows_accounted row_losses (\<lambda>_. 0) 3 out"
proof (intro exI conjI)
  let ?out = "postgres_emit (AInt 2) 1 True (\<lambda>ev. Inr (length ev)) demo_db False [[], [], []] (\<lambda>_. 0) ([7], [])"
  have clean: "clean_conn demo_db snd ([7], [])" by (simp add: clean_conn_def)
  note atomic = postgres_emit_atomic [OF demo_transactional(1) clean refl, where chunk_size = "AInt 2" and max_retries = 1 and owns = True and shut = False
    and encode = "\<lambda>ev. Inr (length ev)" and batch = "[[], [], []]" and c = "\<lambda>_. 0"]
  show rows: "sr_rows ?out = [0, 0, 0]"
    by (simp add: postgres_emit_def postgres_insert_def row_emit_def encode_events_def postgres_attempt_def reconnect_if_broken_def
        chunk_list_def demo_db_def numeral_3_eq_3 numeral_2_eq_2)
  show "fst (sr_store ?out) = [7, 0, 0, 0]" using conjunct2 [OF atomic] demo_transactional(2) rows by auto
  show "rows_accounted row_losses (\<lambda>_. 0) 3 ?out" using conjunct1 [OF atomic] by (simp add: numeral_3_eq_3)
qed simp

subsection \<open>SQLite\<close>

lemma rolled_back_durable:
  assumes "transactional db durable uncommitted" and "rolled_back db e s = (r, s')"
  shows "durable s' = durable s \<and> r \<noteq> Inr () \<and> clean_conn db uncommitted s'"
  using assms rollback_clean [OF assms(1), of s] by (cases "db_rollback db s") (auto simp: rolled_back_def split: sum.splits)

lemma sqlite_insert_atomic:
  assumes "transactional db durable uncommitted" and "definite_commits db durable" and "clean_conn db uncommitted s" and ins: "sqlite_insert db rows s = (r, s')"
  shows "durable s' = durable s @ (if r = Inr () then rows else [])"
proof -
  obtain x s1 where x: "db_exec db rows s = (x, s1)" by (rule prod.exhaust)
  have exec: "durable s1 = durable s" "x = Inr () \<longrightarrow> \<not> db_broken db s \<and> uncommitted s1 = uncommitted s @ rows"
    using assms(1) x unfolding transactional_def by blast+
  obtain y s2 where y: "db_commit db s1 = (y, s2)" by (rule prod.exhaust)
  have commit: "durable s2 = durable s1 @ uncommitted s1 \<or> y \<noteq> Inr () \<and> durable s2 = durable s1"
    using assms(1) y unfolding transactional_def by blast
  have undone: "durable s3 = durable s0 \<and> z \<noteq> Inr ()" if "rolled_back db e s0 = (z, s3)" for e s0 z s3
    using rolled_back_durable [OF assms(1) that] by blast
  show ?thesis
  proof (cases x)
    case (Inl e)
    then show ?thesis using ins x undone exec(1) by (auto simp: sqlite_insert_def)
  next
    case ok: (Inr u)
    then have "uncommitted s1 = rows" using exec(2) assms(3) by (simp add: clean_conn_def)
    moreover have "durable s2 = durable s1" if "y = Inl e" for e using assms(2) y that by (auto simp: definite_commits_def)
    ultimately show ?thesis using ok ins x y commit exec(1) undone by (cases y) (auto simp: sqlite_insert_def)
  qed
qed

lemma sqlite_emit_atomic:
  assumes "transactional db durable uncommitted" and "definite_commits db durable" and "clean_conn db uncommitted s"
  shows "durable (sr_store (sqlite_emit is_driver_error delivery_error encode db shut batch c s)) =
    durable s @ sr_rows (sqlite_emit is_driver_error delivery_error encode db shut batch c s)"
  unfolding sqlite_emit_def
proof (rule row_emit_store [where P = "\<lambda>r rows s'. durable s' = durable s @ rows"])
  fix rows n c r stored_rows c' s'
  assume "sqlite_guarded is_driver_error delivery_error db rows n c s = (r, stored_rows, c', s')"
  then show "durable s' = durable s @ stored_rows"
    using sqlite_insert_atomic [OF assms] by (auto simp: sqlite_guarded_def split: prod.splits sum.splits if_splits)
qed simp_all

lemma redis_accounted: "rows_accounted row_losses c (length batch) (redis_emit kind max_retries encode execute shut batch c s)"
proof (cases "batch \<noteq> [] \<and> shut")
  case True
  then show ?thesis using rows_kept(2) [of c "length batch" SinkDeliveryError new_deferral s] by (simp add: redis_emit_def)
next
  case False
  then show ?thesis unfolding redis_emit_def if_not_P [OF False] by (intro redis.emit_accounted)
qed

subsection \<open>The search for an escaped NUL is exact\<close>

lemma nul_search_plain: "92 \<notin> set t \<Longrightarrow> nul_search False (t @ u) = nul_search False u"
  by (induction t) auto

lemma hex4_zero: "c < 65536 \<Longrightarrow> hex4 c = [48, 48, 48, 48] \<longleftrightarrow> c = 0"
proof -
  assume "c < 65536"
  have digit: "hex_digit (n mod 16) = 48 \<longleftrightarrow> n mod 16 = 0" for n by (rule hex_digit_zero) simp
  have "c = c div 16 * 16 + c mod 16" "c div 16 = c div 256 * 16 + c div 16 mod 16" "c div 256 = c div 4096 * 16 + c div 256 mod 16"
    "c div 4096 mod 16 = c div 4096"
    using \<open>c < 65536\<close> div_mod_decomp [of c 16] div_mod_decomp [of "c div 16" 16] div_mod_decomp [of "c div 256" 16]
    by (simp_all flip: div_mult2_eq)
  then have "c = 0" if "c div 4096 mod 16 = 0" "c div 256 mod 16 = 0" "c div 16 mod 16 = 0" "c mod 16 = 0" using that by linarith
  then have "c div 4096 mod 16 = 0 \<and> c div 256 mod 16 = 0 \<and> c div 16 mod 16 = 0 \<and> c mod 16 = 0 \<longleftrightarrow> c = 0" by fastforce
  then show ?thesis by (simp add: hex4_def digit)
qed

lemma hex4_plain: "92 \<notin> set (hex4 n)"
  by (auto simp: hex4_def hex_digit_def)

lemma length_hex4 [simp]: "length (hex4 n) = 4"
  by (simp add: hex4_def)

lemma nul_search_hex: "nul_search True (117 # hex4 n @ u) \<longleftrightarrow> hex4 n = [48, 48, 48, 48] \<or> nul_search False u"
  using nul_search_plain [OF hex4_plain, of n u] by simp

lemma nul_search_escape: "c \<le> 1114111 \<Longrightarrow> nul_search False (escape_char True c @ u) \<longleftrightarrow> c = 0 \<or> nul_search False u"
proof -
  assume c: "c \<le> 1114111"
  consider "c < 65536" | "65536 \<le> c" by linarith
  then show ?thesis
  proof cases
    case 1
    then show ?thesis using nul_search_hex [of c u] hex4_zero [OF 1] by (auto simp: escape_char_def simp del: nul_search.simps(2)) (simp_all)
  next
    case 2
    let ?hi = "55296 + (c - 65536) div 1024" and ?lo = "56320 + (c - 65536) mod 1024"
    have "?hi < 65536" "?lo < 65536" using c by auto
    then have "hex4 ?hi \<noteq> [48, 48, 48, 48]" "hex4 ?lo \<noteq> [48, 48, 48, 48]" using hex4_zero by simp_all
    then show ?thesis using 2 nul_search_hex [of ?hi "92 # 117 # hex4 ?lo @ u"] nul_search_hex [of ?lo u]
      by (simp add: escape_char_def)
  qed
qed

text \<open>Texts of code points all through a value.\<close>

fun wf_json :: "jval \<Rightarrow> bool" where
  "wf_json (JStr t) = wf_text t"
| "wf_json (JList js) = (\<forall>j \<in> set js. wf_json j)"
| "wf_json (JDict kvs) = (\<forall>kv \<in> set kvs. wf_text (fst kv) \<and> wf_json (snd kv))"
| "wf_json _ = True"

lemma nul_search_str:
  assumes "wf_text t"
  shows "nul_search False (dumps_str True t @ u) \<longleftrightarrow> 0 \<in> set t \<or> nul_search False u"
proof -
  have "nul_search False (concat (map (escape_char True) t) @ v) \<longleftrightarrow> 0 \<in> set t \<or> nul_search False v" for v
    using assms by (induction t) (auto simp: nul_search_escape wf_text_def)
  then show ?thesis by (simp add: dumps_str_def)
qed

lemma nul_search_number: "nul_search False (int_repr i @ u) = nul_search False u"
proof -
  have "92 \<notin> set (decimal n)" for n by (induction n rule: decimal.induct) (subst decimal.simps, auto)
  then have "92 \<notin> set (int_repr i)" by (simp add: int_repr_def)
  then show ?thesis by (rule nul_search_plain)
qed

lemma nul_search_join:
  assumes "\<And>x u. x \<in> set xs \<Longrightarrow> nul_search False (f x @ u) \<longleftrightarrow> Q x \<or> nul_search False u"
  shows "nul_search False (join2 (map f xs) @ u) \<longleftrightarrow> (\<exists>x \<in> set xs. Q x) \<or> nul_search False u"
  using assms
proof (induction xs)
  case (Cons x xs)
  then have rest: "nul_search False (join2 (map f xs) @ u) \<longleftrightarrow> (\<exists>x \<in> set xs. Q x) \<or> nul_search False u" by simp
  show ?case
  proof (cases xs)
    case Nil
    then show ?thesis using Cons.prems [of x u] by simp
  next
    case (Cons y ys)
    then have "nul_search False (join2 (map f (x # xs)) @ u) \<longleftrightarrow> Q x \<or> nul_search False (44 # 32 # join2 (map f xs) @ u)"
      using Cons.prems [of x "44 # 32 # join2 (map f xs) @ u"] by simp
    then show ?thesis using rest by auto
  qed
qed simp

lemma nul_search_json:
  assumes "\<And>r. 92 \<notin> set (fr r)"
  shows "wf_json j \<Longrightarrow> nul_search False (json_dumps True fr j @ u) \<longleftrightarrow> \<not> clean True False j \<or> nul_search False u"
proof (induction j arbitrary: u)
  case (JFloat f)
  then show ?case using nul_search_plain [of "dumps_flt fr f" u] assms by (cases f) (simp_all add: str_def)
next
  case (JList js)
  have "nul_search False (join2 (map (json_dumps True fr) js) @ 93 # u) \<longleftrightarrow> (\<exists>j \<in> set js. \<not> clean True False j) \<or> nul_search False (93 # u)"
    by (rule nul_search_join) (use JList in simp)
  then show ?case by (simp add: list_all_iff)
next
  case (JDict kvs)
  let ?f = "\<lambda>(k, v). dumps_str True k @ [58, 32] @ json_dumps True fr v"
  have "nul_search False (join2 (map ?f kvs) @ 125 # u) \<longleftrightarrow> (\<exists>kv \<in> set kvs. 0 \<in> set (fst kv) \<or> \<not> clean True False (snd kv)) \<or> nul_search False (125 # u)"
  proof (rule nul_search_join)
    fix kv v
    assume kv: "kv \<in> set kvs"
    obtain k j where p: "kv = (k, j)" by (rule prod.exhaust)
    have "wf_text k" "wf_json j" using JDict.prems kv p by auto
    moreover have "nul_search False (json_dumps True fr j @ v) \<longleftrightarrow> \<not> clean True False j \<or> nul_search False v"
      using JDict.IH [of kv j v] kv p \<open>wf_json j\<close> by simp
    ultimately show "nul_search False (?f kv @ v) \<longleftrightarrow> (0 \<in> set (fst kv) \<or> \<not> clean True False (snd kv)) \<or> nul_search False v"
      using nul_search_str [of k "58 # 32 # json_dumps True fr j @ v"] by (simp add: p)
  qed
  then show ?case by (simp add: list_all_iff case_prod_unfold)
qed (simp_all add: nul_search_number nul_search_str nul_search_plain str_def)

text \<open>The filter on the JSON text finds an escape exactly when the event holds a NUL, so a row holds
  none: neither in its document nor, since the projected columns come from the same event, in them.\<close>

lemma nul_escape_exact:
  assumes "\<And>r. 92 \<notin> set (fr r)" and "wf_json (JDict ev)"
  shows "nul_escape (json_dumps True fr (JDict ev)) \<longleftrightarrow> repair_nul ev \<noteq> None"
  using nul_search_json [of fr "JDict ev" "[]", OF assms] repair_walk_unchanged [of True False "JDict ev"]
  by (auto simp: nul_escape_def repair_nul_def split: prod.splits simp del: json_dumps.simps clean.simps repair_walk.simps)

lemma postgres_row_acceptable:
  assumes "\<And>r. 92 \<notin> set (fr r)" and "wf_json (JDict ev)"
  shows "\<exists>source. postgres_row (\<lambda>j. Inr (json_dumps True fr j)) ev = Inr (map (dict_get source) postgres_columns, json_dumps True fr (JDict source)) \<and>
    clean True False (JDict source)"
proof (cases "repair_nul ev")
  case None
  then have "clean True False (JDict ev)"
    using repair_walk_unchanged [of True False "JDict ev"] by (auto simp: repair_nul_def split: prod.splits if_splits simp del: clean.simps repair_walk.simps)
  then show ?thesis using None by (intro exI [of _ ev]) (simp add: postgres_row_def)
next
  case (Some repaired)
  then have "nul_escape (json_dumps True fr (JDict ev))" using nul_escape_exact [OF assms] by simp
  moreover obtain j b where "repair_walk True False (JDict ev) = (j, b)" by (rule prod.exhaust)
  then have "clean True False (JDict repaired)" using Some repaired_clean [of True False ev j b] by (auto simp: repair_nul_def split: if_splits)
  ultimately show ?thesis using Some by (intro exI [of _ repaired]) (simp add: postgres_row_def)
qed

subsection \<open>A capped Redis list keeps the newest\<close>

definition newest :: "nat \<Rightarrow> 'a list \<Rightarrow> 'a list" where
  "newest n xs = drop (length xs - n) xs"

lemma ltrim_newest: "0 < n \<Longrightarrow> redis_list (LTrim (- int n) (- 1)) xs = newest n xs"
proof -
  assume n: "0 < n"
  show ?thesis
  proof (cases "n \<le> length xs")
    case True
    then show ?thesis using n by (simp add: newest_def Let_def max_def nat_diff_distrib' of_nat_diff)
  next
    case False
    then show ?thesis using n by (cases xs) (simp_all add: newest_def Let_def max_def)
  qed
qed

lemma newest_snoc: "0 < n \<Longrightarrow> newest n (newest n xs @ [x]) = newest n (xs @ [x])"
  by (cases "n \<le> length xs") (auto simp: newest_def Suc_diff_le)

lemma redis_list_stage: "0 < n \<Longrightarrow> fold redis_list (redis_stage (Lists (Some n)) p) xs = newest n (xs @ [p])"
  using ltrim_newest [of n "xs @ [p]"] by (simp del: redis_list.simps(2))

lemma redis_capped:
  assumes "0 < n"
  shows "fold redis_list (concat (map (redis_stage (Lists (Some n))) payloads)) xs = (if payloads = [] then xs else newest n (xs @ payloads))"
proof (induction payloads rule: rev_induct)
  case (snoc p ps)
  have "fold redis_list (concat (map (redis_stage (Lists (Some n))) (ps @ [p]))) xs =
      newest n (fold redis_list (concat (map (redis_stage (Lists (Some n))) ps)) xs @ [p])"
    by (simp add: redis_list_stage [OF assms] del: redis_stage.simps redis_list.simps)
  also have "\<dots> = newest n (xs @ ps @ [p])"
    using newest_snoc [OF assms, of "xs @ ps" p] unfolding snoc by simp
  finally show ?case by (simp del: redis_stage.simps redis_list.simps)
qed simp

end
