(* ===== verification/Brokers.thy ===== *)
theory Brokers
  imports Row_Stores "HOL-Library.Sublist"
begin

text \<open>
  The sinks that publish to a broker through a client library: \<^verbatim>\<open>sinks/rabbitmq.py\<close>,
  \<^verbatim>\<open>sinks/kafka.py\<close> and \<^verbatim>\<open>sinks/eventhubs.py\<close>. The client is an argument: each call takes the state of
  the client and gives a result and the state after it. The bodies are the bytes of the JSON text.
\<close>

definition wire_body :: "(jval \<Rightarrow> pystr result) \<Rightarrow> event \<Rightarrow> nat list result" where
  "wire_body dumps ev = (case dumps (JDict ev) of Inl e \<Rightarrow> Inl e | Inr text \<Rightarrow> encode_utf8 text)"

subsection \<open>RabbitMQ\<close>

record 's amqp =
  am_connect :: "'s \<Rightarrow> unit result \<times> 's"
  am_channel :: "'s \<Rightarrow> unit result \<times> 's"
  am_publish :: "nat list \<Rightarrow> 's \<Rightarrow> unit result \<times> 's"
  am_close_channel :: "'s \<Rightarrow> unit result \<times> 's"
  am_close_connection :: "'s \<Rightarrow> unit result \<times> 's"

text \<open>The sink holds a connection and a channel, or \<^verbatim>\<open>None\<close> for either.\<close>

record 's rabbit =
  rb_connection :: bool
  rb_channel :: bool
  rb_broker :: 's

definition safe_close :: "('s \<Rightarrow> unit result \<times> 's) \<Rightarrow> 's \<Rightarrow> 's" where
  "safe_close close s = snd (close s)"

definition active_connection :: "'s amqp \<Rightarrow> 's rabbit \<Rightarrow> unit result \<times> 's rabbit" where
  "active_connection drv st =
     (if rb_connection st then (Inr (), st)
      else let (r, s) = am_connect drv (rb_broker st) in (r, st\<lparr>rb_connection := (r = Inr ()), rb_broker := s\<rparr>))"

definition active_channel :: "'s amqp \<Rightarrow> 's rabbit \<Rightarrow> unit result \<times> 's rabbit" where
  "active_channel drv st =
     (case active_connection drv st of
        (Inl e, st') \<Rightarrow> (Inl e, st')
      | (Inr _, st') \<Rightarrow>
          if rb_channel st' then (Inr (), st')
          else let (r, s) = am_channel drv (rb_broker st') in (r, st'\<lparr>rb_channel := (r = Inr ()), rb_broker := s\<rparr>))"

definition drop_channel :: "'s amqp \<Rightarrow> 's rabbit \<Rightarrow> 's rabbit" where
  "drop_channel drv st =
     (if rb_channel st then st\<lparr>rb_channel := False, rb_broker := safe_close (am_close_channel drv) (rb_broker st)\<rparr> else st)"

definition drop_connection :: "'s amqp \<Rightarrow> 's rabbit \<Rightarrow> 's rabbit" where
  "drop_connection drv st =
     (if rb_connection st then st\<lparr>rb_connection := False, rb_broker := safe_close (am_close_connection drv) (rb_broker st)\<rparr> else st)"

definition rabbit_reset :: "'s amqp \<Rightarrow> bool \<Rightarrow> 's rabbit \<Rightarrow> 's rabbit" where
  "rabbit_reset drv owns st = (let st = drop_channel drv st in if owns then drop_connection drv st else st)"

definition rabbit_attempt :: "'s amqp \<Rightarrow> nat list \<Rightarrow> 's rabbit \<Rightarrow> unit result \<times> 's rabbit" where
  "rabbit_attempt drv body st =
     (case active_channel drv st of
        (Inl e, st') \<Rightarrow> (Inl e, st')
      | (Inr _, st') \<Rightarrow> let (r, s) = am_publish drv body (rb_broker st') in (r, st'\<lparr>rb_broker := s\<rparr>))"

fun rabbit_publishes :: "'s amqp \<Rightarrow> bool \<Rightarrow> nat \<Rightarrow> nat list list \<Rightarrow> counters \<Rightarrow> 's rabbit \<Rightarrow> nat list list \<times> counters \<times> 's rabbit" where
  "rabbit_publishes drv owns max_retries [] c st = ([], c, st)"
| "rabbit_publishes drv owns max_retries (body # bodies) c st =
     (case with_retries (rabbit_attempt drv body) (rabbit_reset drv owns) max_retries st of
        (Inr _, st') \<Rightarrow> (let (done_bodies, c', st'') = rabbit_publishes drv owns max_retries bodies c st' in (body # done_bodies, c', st''))
      | (Inl e, st') \<Rightarrow> rabbit_publishes drv owns max_retries bodies (bump C_FAILED 1 c) st')"

definition rabbit_insert :: "'s amqp \<Rightarrow> bool \<Rightarrow> nat \<Rightarrow> (nat list, 's rabbit) inserter" where
  "rabbit_insert drv owns max_retries bodies n c st =
     (let (published, c, st) = rabbit_publishes drv owns max_retries bodies c st
      in (if published = [] then Inl SinkDeliveryError else Inr (), published, c, st))"

definition rabbit_emit :: "'s amqp \<Rightarrow> bool \<Rightarrow> nat \<Rightarrow> (jval \<Rightarrow> pystr result) \<Rightarrow> bool \<Rightarrow> event list \<Rightarrow> counters \<Rightarrow> 's rabbit \<Rightarrow> (nat list, 's rabbit) stored" where
  "rabbit_emit drv owns max_retries dumps shut = row_emit (wire_body dumps) shut (rabbit_insert drv owns max_retries)"

definition rabbit_close :: "'s amqp \<Rightarrow> bool \<Rightarrow> 's rabbit \<Rightarrow> bool \<times> 's rabbit" where
  "rabbit_close drv shut st = (True, if shut then st else drop_connection drv (drop_channel drv st))"

text \<open>A publish that is retried starts over: every failed attempt drops the channel, and an owned
  connection with it. A channel is held only on a connection, and a borrowed connection is held
  as long as the sink is open.\<close>

definition rabbit_ok :: "bool \<Rightarrow> 's rabbit \<Rightarrow> bool" where
  "rabbit_ok owns st \<longleftrightarrow> (rb_channel st \<longrightarrow> rb_connection st) \<and> (\<not> owns \<longrightarrow> rb_connection st)"

lemmas rabbit_defs = active_connection_def active_channel_def drop_channel_def drop_connection_def rabbit_reset_def rabbit_attempt_def

lemma rabbit_attempt_ok:
  "rabbit_ok owns st \<Longrightarrow> rabbit_attempt drv body st = (r, st') \<Longrightarrow> rabbit_ok owns st' \<and> (r = Inr () \<longrightarrow> rb_connection st' \<and> rb_channel st')"
  by (auto simp: rabbit_ok_def rabbit_defs split: prod.splits sum.splits if_splits)

lemma rabbit_reset_ok:
  "rabbit_ok owns st \<Longrightarrow> rabbit_ok owns (rabbit_reset drv owns st) \<and> \<not> rb_channel (rabbit_reset drv owns st) \<and> rb_connection (rabbit_reset drv owns st) = (\<not> owns)"
  by (auto simp: rabbit_ok_def rabbit_defs Let_def)

lemma rabbit_retries_ok:
  assumes "rabbit_ok owns st" and "with_retries (rabbit_attempt drv body) (rabbit_reset drv owns) max_retries st = (r, st')"
  shows "rabbit_ok owns st'"
proof -
  have "case with_retries (rabbit_attempt drv body) (rabbit_reset drv owns) max_retries st of
      (Inr r, s') \<Rightarrow> \<exists>m\<le>0 + Suc max_retries. rabbit_ok owns s' | (Inl e, s') \<Rightarrow> rabbit_ok owns s'"
    by (rule with_retries_invariant [where P = "\<lambda>_. rabbit_ok owns" and Q = "\<lambda>_ _. rabbit_ok owns"])
      (use assms(1) in \<open>auto dest: rabbit_attempt_ok rabbit_reset_ok\<close>)
  then show ?thesis using assms(2) by (auto split: sum.splits)
qed

lemma rabbit_publishes_accounts:
  assumes "rabbit_publishes drv owns max_retries bodies c st = (published, c', st')"
  shows "\<exists>k. c' = bump C_FAILED k c \<and> length published + k = length bodies" and "rabbit_ok owns st \<Longrightarrow> rabbit_ok owns st'"
proof -
  have "(\<exists>k. c' = bump C_FAILED k c \<and> length published + k = length bodies) \<and> (rabbit_ok owns st \<longrightarrow> rabbit_ok owns st')"
    using assms
  proof (induction bodies arbitrary: c st published)
    case Nil
    then show ?case by (auto intro: exI [of _ 0] simp: bump_zero)
  next
    case (Cons body bodies)
    obtain r s1 where r: "with_retries (rabbit_attempt drv body) (rabbit_reset drv owns) max_retries st = (r, s1)" by (rule prod.exhaust)
    have ok: "rabbit_ok owns st \<longrightarrow> rabbit_ok owns s1" using rabbit_retries_ok [OF _ r] by blast
    show ?case
    proof (cases r)
      case (Inr u)
      then obtain ps where "rabbit_publishes drv owns max_retries bodies c s1 = (ps, c', st')" "published = body # ps"
        using Cons.prems r by (auto split: prod.splits)
      then show ?thesis using Cons.IH ok by fastforce
    next
      case (Inl e)
      then have "rabbit_publishes drv owns max_retries bodies (bump C_FAILED 1 c) s1 = (published, c', st')" using Cons.prems r by simp
      from Cons.IH [OF this] obtain k where "c' = bump C_FAILED k (bump C_FAILED 1 c)" "length published + k = length bodies" "rabbit_ok owns s1 \<longrightarrow> rabbit_ok owns st'" by blast
      then show ?thesis using ok by (auto intro!: exI [of _ "Suc k"] simp: bump_def)
    qed
  qed
  then show "\<exists>k. c' = bump C_FAILED k c \<and> length published + k = length bodies" "rabbit_ok owns st \<Longrightarrow> rabbit_ok owns st'" by blast+
qed

interpretation rabbit: inserting "rabbit_insert drv owns max_retries" for drv owns max_retries
proof unfold_locales
  fix rows n c s r stored_rows c' s'
  assume ins: "rabbit_insert drv owns max_retries rows n c s = (r, stored_rows, c', s')"
  obtain published c1 s1 where p: "rabbit_publishes drv owns max_retries rows c s = (published, c1, s1)" by (metis prod.exhaust)
  show "\<exists>k. c' = bump C_FAILED k c \<and> (r = Inr () \<longrightarrow> length stored_rows + k = length rows) \<and> (r \<noteq> Inr () \<longrightarrow> stored_rows = [])"
    using rabbit_publishes_accounts(1) [OF p] ins p by (auto simp: rabbit_insert_def split: if_splits)
qed

lemma rabbit_emit_ok:
  assumes "rabbit_ok owns st"
  shows "rabbit_ok owns (sr_store (rabbit_emit drv owns max_retries dumps shut batch c st))"
    and "rows_accounted row_losses c (length batch) (rabbit_emit drv owns max_retries dumps shut batch c st)"
proof -
  show "rows_accounted row_losses c (length batch) (rabbit_emit drv owns max_retries dumps shut batch c st)"
    unfolding rabbit_emit_def by (rule rabbit.emit_accounted)
  show "rabbit_ok owns (sr_store (rabbit_emit drv owns max_retries dumps shut batch c st))"
    unfolding rabbit_emit_def
  proof (rule row_emit_store [where P = "\<lambda>_ _. rabbit_ok owns"])
    fix rows n c r stored_rows c' s'
    assume "rabbit_insert drv owns max_retries rows n c st = (r, stored_rows, c', s')"
    then show "rabbit_ok owns s'" using rabbit_publishes_accounts(2) assms by (fastforce simp: rabbit_insert_def split: prod.splits)
  qed (use assms in simp_all)
qed

text \<open>An emit over a borrowed connection neither opens nor closes a connection, whatever fails.\<close>

lemma rabbit_borrowed_attempt:
  "rabbit_ok False st \<Longrightarrow> rabbit_attempt (drv\<lparr>am_connect := f, am_close_connection := g\<rparr>) body st = rabbit_attempt drv body st"
  by (auto simp: rabbit_ok_def rabbit_defs Let_def split: prod.splits sum.splits)

lemma rabbit_borrowed_retries:
  "rabbit_ok False st \<Longrightarrow>
     with_retries (rabbit_attempt (drv\<lparr>am_connect := f, am_close_connection := g\<rparr>) body) (rabbit_reset (drv\<lparr>am_connect := f, am_close_connection := g\<rparr>) False) n st =
     with_retries (rabbit_attempt drv body) (rabbit_reset drv False) n st"
proof (induction n arbitrary: st)
  case 0
  then show ?case by (auto simp: rabbit_borrowed_attempt rabbit_reset_def drop_channel_def split: prod.splits sum.splits)
next
  case (Suc n)
  obtain r s where r: "rabbit_attempt drv body st = (r, s)" by (rule prod.exhaust)
  have reset: "rabbit_reset (drv\<lparr>am_connect := f, am_close_connection := g\<rparr>) False s = rabbit_reset drv False s" by (simp add: rabbit_reset_def drop_channel_def)
  have "rabbit_ok False (rabbit_reset drv False s)" using rabbit_attempt_ok [OF Suc.prems r] rabbit_reset_ok by blast
  then show ?case using Suc r by (simp add: rabbit_borrowed_attempt reset split: sum.split)
qed

lemma rabbit_borrowed_publishes:
  "rabbit_ok False st \<Longrightarrow>
     rabbit_publishes (drv\<lparr>am_connect := f, am_close_connection := g\<rparr>) False n bodies c st = rabbit_publishes drv False n bodies c st"
proof (induction bodies arbitrary: c st)
  case (Cons body bodies)
  obtain r s where r: "with_retries (rabbit_attempt drv body) (rabbit_reset drv False) n st = (r, s)" by (rule prod.exhaust)
  have "rabbit_ok False s" by (rule rabbit_retries_ok [OF Cons.prems r])
  then show ?case using Cons r by (cases r) (simp_all add: rabbit_borrowed_retries)
qed simp

lemma rabbit_borrowed_untouched:
  assumes "rabbit_ok False st"
  shows "rabbit_emit (drv\<lparr>am_connect := f, am_close_connection := g\<rparr>) False n dumps shut batch c st = rabbit_emit drv False n dumps shut batch c st"
proof -
  have "rabbit_insert (drv\<lparr>am_connect := f, am_close_connection := g\<rparr>) False n rows k c st = rabbit_insert drv False n rows k c st" for rows k c
    using assms by (simp add: rabbit_insert_def rabbit_borrowed_publishes)
  then show ?thesis by (simp add: rabbit_emit_def row_emit_def Let_def split: prod.split)
qed

text \<open>Closing the sink, however, closes a borrowed connection like an owned one: ownership is not asked.\<close>

lemma rabbit_close_takes_borrowed:
  "rabbit_ok False st \<Longrightarrow> \<not> rb_channel st \<Longrightarrow>
     rabbit_close drv False st = (True, st\<lparr>rb_connection := False, rb_broker := snd (am_close_connection drv (rb_broker st))\<rparr>)"
  by (simp add: rabbit_ok_def rabbit_close_def drop_channel_def drop_connection_def safe_close_def)

subsection \<open>Kafka\<close>

text \<open>A producer queues messages. The deliveries it has settled are reported to the callback from
  within \<^verbatim>\<open>poll\<close> and \<^verbatim>\<open>flush\<close>, which give here how many of them failed; \<^verbatim>\<open>flush\<close> also answers how many messages
  are still queued, as an integer or as something else.\<close>

record 's producer =
  kp_produce :: "nat list \<Rightarrow> nat list option \<Rightarrow> 's \<Rightarrow> unit result \<times> 's"
  kp_poll :: "'s \<Rightarrow> nat \<times> unit result \<times> 's"
  kp_flush :: "pynum \<Rightarrow> 's \<Rightarrow> nat \<times> int option result \<times> 's"

abbreviation C_REJECTED :: pystr where "C_REJECTED \<equiv> str ''rejected''"

definition kafka_losses :: "counters \<Rightarrow> sink_losses" where
  "kafka_losses c = \<lparr>sl_dropped = c C_REJECTED, sl_failed = c C_FAILED\<rparr>"

definition kafka_key :: "(jval \<Rightarrow> pystr result) \<Rightarrow> pystr \<Rightarrow> event \<Rightarrow> nat list option result" where
  "kafka_key render key_field ev =
     (if key_field = [] then Inr None
      else case dict_get ev key_field of
             None \<Rightarrow> Inr None
           | Some v \<Rightarrow>
               if v = JNull then Inr None
               else case value_text render v of Inl e \<Rightarrow> Inl e | Inr text \<Rightarrow> map_sum id Some (encode_utf8 text))"

definition kafka_encode :: "(jval \<Rightarrow> pystr result) \<Rightarrow> (jval \<Rightarrow> pystr result) \<Rightarrow> pystr \<Rightarrow> event \<Rightarrow> (nat list \<times> nat list option) result" where
  "kafka_encode dumps render key_field ev =
     (case wire_body dumps ev of Inl e \<Rightarrow> Inl e | Inr body \<Rightarrow> map_sum id (Pair body) (kafka_key render key_field ev))"

definition on_delivery :: "nat \<Rightarrow> counters \<Rightarrow> counters" where
  "on_delivery errors c = bump C_FAILED errors c"

text \<open>How the loop ended, how many messages were accepted and refused, the counters, the producer.\<close>

fun kafka_produces :: "'s producer \<Rightarrow> (nat list \<times> nat list option) list \<Rightarrow> counters \<Rightarrow> 's \<Rightarrow> unit result \<times> nat \<times> nat \<times> counters \<times> 's" where
  "kafka_produces kp [] c s = (Inr (), 0, 0, c, s)"
| "kafka_produces kp ((body, key) # messages) c s =
     (case kp_produce kp body key s of
        (Inl e, s1) \<Rightarrow>
          (let (r, accepted, refused, c', s') = kafka_produces kp messages c s1 in (r, accepted, Suc refused, c', s'))
      | (Inr _, s1) \<Rightarrow>
          (case kp_poll kp s1 of
             (errors, Inl e, s2) \<Rightarrow> (Inl e, 1, 0, on_delivery errors c, s2)
           | (errors, Inr _, s2) \<Rightarrow>
               (let (r, accepted, refused, c', s') = kafka_produces kp messages (on_delivery errors c) s2
                in (r, Suc accepted, refused, c', s'))))"

definition kafka_emit :: "'s producer \<Rightarrow> (event \<Rightarrow> (nat list \<times> nat list option) result) \<Rightarrow> bool \<Rightarrow> event list \<Rightarrow> counters \<Rightarrow> 's \<Rightarrow> unit result \<times> counters \<times> 's" where
  "kafka_emit kp encode shut batch c s =
     (if batch = [] then (Inr (), c, s)
      else if shut then (Inl SinkDeliveryError, c, s)
      else let (messages, pending) = encode_events encode C_REJECTED batch new_deferral
           in if messages = [] then (Inr (), fst (deferral_exit False pending c), s)
              else case kafka_produces kp (map snd messages) c s of
                     (Inl e, accepted, refused, c, s) \<Rightarrow> (Inl e, fst (deferral_exit True pending c), s)
                   | (Inr _, accepted, refused, c, s) \<Rightarrow>
                       (let pending = (if 0 < refused then defer_announce refused (defer_count C_REJECTED refused pending) else pending);
                            r = (if accepted = 0 then Inl SinkDeliveryError else Inr ())
                        in (r, fst (deferral_exit (accepted = 0) pending c), s)))"

definition kafka_flush :: "'s producer \<Rightarrow> pynum \<Rightarrow> bool \<Rightarrow> counters \<Rightarrow> 's \<Rightarrow> unit result \<times> counters \<times> 's" where
  "kafka_flush kp flush_timeout shut c s =
     (if shut then (Inl SinkDeliveryError, c, s)
      else let (errors, remaining, s) = kp_flush kp flush_timeout s
           in (case remaining of
                 Inl e \<Rightarrow> Inl e
               | Inr (Some k) \<Rightarrow> if 0 < k then Inl SinkDeliveryError else Inr ()
               | Inr None \<Rightarrow> Inr (), on_delivery errors c, s))"

definition flush_bounded :: "'s producer \<Rightarrow> pynum \<Rightarrow> counters \<Rightarrow> 's \<Rightarrow> unit result \<times> counters \<times> 's" where
  "flush_bounded kp flush_timeout c s =
     (case kp_flush kp flush_timeout s of
        (errors, Inl e, s) \<Rightarrow> (Inl e, on_delivery errors c, s)
      | (errors, Inr None, s) \<Rightarrow> (Inr (), on_delivery errors c, s)
      | (errors, Inr (Some k), s) \<Rightarrow> (Inr (), if k \<le> 0 then on_delivery errors c else bump C_FAILED (nat k) (on_delivery errors c), s))"

definition kafka_close :: "'s producer \<Rightarrow> pynum \<Rightarrow> bool \<Rightarrow> counters \<Rightarrow> 's \<Rightarrow> unit result \<times> bool \<times> counters \<times> 's" where
  "kafka_close kp flush_timeout shut c s =
     (if shut then (Inr (), True, c, s)
      else let (r, c, s) = flush_bounded kp flush_timeout c s in (r, True, c, s))"

text \<open>The life of a sink: any sequence of calls, with the number of events of the batches it took and
  whether a close has returned.\<close>

datatype kafka_op = KEmit "event list" | KFlush | KClose

record 's kafka =
  kf_shut :: bool
  kf_counters :: counters
  kf_producer :: 's
  kf_taken :: nat
  kf_drained :: bool

fun kafka_step :: "'s producer \<Rightarrow> (event \<Rightarrow> (nat list \<times> nat list option) result) \<Rightarrow> pynum \<Rightarrow> kafka_op \<Rightarrow> 's kafka \<Rightarrow> 's kafka" where
  "kafka_step kp encode flush_timeout (KEmit batch) st =
     (let (r, c, s) = kafka_emit kp encode (kf_shut st) batch (kf_counters st) (kf_producer st)
      in st\<lparr>kf_counters := c, kf_producer := s, kf_taken := kf_taken st + (if r = Inr () then length batch else 0)\<rparr>)"
| "kafka_step kp encode flush_timeout KFlush st =
     (let (r, c, s) = kafka_flush kp flush_timeout (kf_shut st) (kf_counters st) (kf_producer st)
      in st\<lparr>kf_counters := c, kf_producer := s\<rparr>)"
| "kafka_step kp encode flush_timeout KClose st =
     (let (r, shut, c, s) = kafka_close kp flush_timeout (kf_shut st) (kf_counters st) (kf_producer st)
      in st\<lparr>kf_shut := shut, kf_counters := c, kf_producer := s, kf_drained := kf_drained st \<or> \<not> kf_shut st \<and> r = Inr ()\<rparr>)"

text \<open>What the library documents of a producer: a message that is accepted is queued, and it stays
  queued until it is delivered or its failure is reported; \<^verbatim>\<open>flush\<close> answers what is still queued.\<close>

definition queueing :: "'s producer \<Rightarrow> ('s \<Rightarrow> nat) \<Rightarrow> ('s \<Rightarrow> nat) \<Rightarrow> bool" where
  "queueing kp queued delivered \<longleftrightarrow>
     (\<forall>body key s r s'. kp_produce kp body key s = (r, s') \<longrightarrow>
        delivered s' = delivered s \<and> queued s' = queued s + (if r = Inr () then 1 else 0)) \<and>
     (\<forall>s errors r s'. kp_poll kp s = (errors, r, s') \<longrightarrow> queued s' + delivered s' + errors = queued s + delivered s) \<and>
     (\<forall>timeout s errors r s'. kp_flush kp timeout s = (errors, r, s') \<longrightarrow>
        queued s' + delivered s' + errors = queued s + delivered s \<and> (\<forall>left. r = Inr left \<longrightarrow> left = Some (int (queued s'))))"

definition polls_return :: "'s producer \<Rightarrow> bool" where
  "polls_return kp \<longleftrightarrow> (\<forall>s errors e s'. kp_poll kp s \<noteq> (errors, Inl e, s'))"

lemma queueingD:
  assumes "queueing kp queued delivered"
  shows "kp_produce kp body key s = (r, s') \<Longrightarrow> delivered s' = delivered s \<and> queued s' = queued s + (if r = Inr () then 1 else 0)"
    and "kp_poll kp s = (errors, u, s') \<Longrightarrow> queued s' + delivered s' + errors = queued s + delivered s"
    and "kp_flush kp timeout s = (errors, x, s') \<Longrightarrow> queued s' + delivered s' + errors = queued s + delivered s"
    and "kp_flush kp timeout s = (errors, Inr left, s') \<Longrightarrow> left = Some (int (queued s'))"
  using assms unfolding queueing_def by blast+

lemma rejected_names [simp]: "C_REJECTED \<noteq> C_FAILED" "C_FAILED \<noteq> C_REJECTED"
  by (simp_all add: str_def)

lemma on_delivery_counts [simp]: "on_delivery errors c C_FAILED = c C_FAILED + errors" "on_delivery errors c C_REJECTED = c C_REJECTED"
  by (simp_all add: on_delivery_def bump_def)

lemma kafka_produces_accounts:
  assumes "queueing kp queued delivered"
  shows "kafka_produces kp messages c s = (r, accepted, refused, c', s') \<Longrightarrow>
    queued s' + delivered s' + c' C_FAILED = queued s + delivered s + c C_FAILED + accepted \<and> c' C_REJECTED = c C_REJECTED \<and>
    (r = Inr () \<longrightarrow> accepted + refused = length messages) \<and> (polls_return kp \<longrightarrow> r = Inr ())"
proof (induction messages arbitrary: c s accepted refused)
  case (Cons message messages)
  obtain body key where m: "message = (body, key)" by (rule prod.exhaust)
  obtain x s1 where x: "kp_produce kp body key s = (x, s1)" by (rule prod.exhaust)
  obtain errors y s2 where y: "kp_poll kp s1 = (errors, y, s2)" by (metis prod.exhaust)
  note laws = queueingD(1) [OF assms x] queueingD(2) [OF assms y]
  show ?case
  proof (cases x)
    case (Inl e)
    then obtain f where "kafka_produces kp messages c s1 = (r, accepted, f, c', s')" "refused = Suc f"
      using Cons.prems m x by (auto split: prod.splits)
    then show ?thesis using Cons.IH laws(1) Inl by fastforce
  next
    case ok: (Inr u)
    show ?thesis
    proof (cases y)
      case (Inl e)
      then have "r = Inl e" "accepted = 1" "c' = on_delivery errors c" "s' = s2" using Cons.prems m x y ok by auto
      moreover have "\<not> polls_return kp" using y Inl by (auto simp: polls_return_def)
      ultimately show ?thesis using laws ok by simp
    next
      case (Inr v)
      then obtain a where a: "kafka_produces kp messages (on_delivery errors c) s2 = (r, a, refused, c', s')" "accepted = Suc a"
        using Cons.prems m x y ok by (auto split: prod.splits)
      show ?thesis using Cons.IH [OF a(1)] a(2) laws ok by simp
    qed
  qed
qed simp

lemma kafka_emit_accounts:
  assumes q: "queueing kp queued delivered" and emit: "kafka_emit kp encode shut batch c s = (r, c', s')"
  shows "queued s' + delivered s' + c' C_FAILED + c' C_REJECTED \<ge> queued s + delivered s + c C_FAILED + c C_REJECTED + (if r = Inr () then length batch else 0)"
    and "polls_return kp \<Longrightarrow>
      queued s' + delivered s' + c' C_FAILED + c' C_REJECTED = queued s + delivered s + c C_FAILED + c C_REJECTED + (if r = Inr () then length batch else 0)"
    and "shut \<Longrightarrow> c' = c \<and> s' = s \<and> (r = Inr () \<longrightarrow> batch = [])"
proof -
  obtain messages pending where enc: "encode_events encode C_REJECTED batch new_deferral = (messages, pending)" by (rule prod.exhaust)
  have p: "length messages + pending_of pending C_REJECTED = length batch" "pending_of pending C_FAILED = 0" "deferral_wf pending"
    using encode_events_accounts(1,3) [OF enc] encode_events_accounts(2) [OF enc, of C_FAILED] by simp_all
  obtain x accepted refused c1 s1 where x: "kafka_produces kp (map snd messages) c s = (x, accepted, refused, c1, s1)" by (metis prod.exhaust)
  note produced = kafka_produces_accounts [OF q x]
  define pending' where "pending' = (if 0 < refused then defer_announce refused (defer_count C_REJECTED refused pending) else pending)"
  have p': "pending_of pending' C_REJECTED = pending_of pending C_REJECTED + refused" "pending_of pending' C_FAILED = 0" "deferral_wf pending'"
    using p by (simp_all add: pending'_def)
  consider (trivial) "batch = [] \<or> shut" "c' = c" "s' = s" "r = Inr () \<longrightarrow> batch = []"
    | (nothing) "\<not> shut" "messages = []" "r = Inr ()" "c' = fst (deferral_exit False pending c)" "s' = s"
    | (broken) e where "\<not> shut" "x = Inl e" "r = Inl e" "c' = c1" "s' = s1"
    | (produced) "\<not> shut" "x = Inr ()" "r = (if accepted = 0 then Inl SinkDeliveryError else Inr ())" "c' = fst (deferral_exit (accepted = 0) pending' c1)" "s' = s1"
    using emit enc x pending'_def by (cases x) (auto simp: kafka_emit_def Let_def deferral_exit_def split: if_splits)
  note outcome = this
  show "queued s' + delivered s' + c' C_FAILED + c' C_REJECTED \<ge> queued s + delivered s + c C_FAILED + c C_REJECTED + (if r = Inr () then length batch else 0)"
    using outcome by cases (use p p' produced in \<open>auto simp: deferral_exit_counts\<close>)
  show "queued s' + delivered s' + c' C_FAILED + c' C_REJECTED = queued s + delivered s + c C_FAILED + c C_REJECTED + (if r = Inr () then length batch else 0)" if "polls_return kp"
    using outcome by cases (use p p' produced that in \<open>auto simp: deferral_exit_counts\<close>)
  show "c' = c \<and> s' = s \<and> (r = Inr () \<longrightarrow> batch = [])" if "shut" using outcome that by cases auto
qed

lemma kafka_flush_accounts:
  assumes q: "queueing kp queued delivered" and "kafka_flush kp timeout shut c s = (r, c', s')"
  shows "queued s' + delivered s' + c' C_FAILED + c' C_REJECTED = queued s + delivered s + c C_FAILED + c C_REJECTED" and "shut \<Longrightarrow> c' = c \<and> s' = s"
proof -
  obtain errors x s1 where x: "kp_flush kp timeout s = (errors, x, s1)" by (metis prod.exhaust)
  show "queued s' + delivered s' + c' C_FAILED + c' C_REJECTED = queued s + delivered s + c C_FAILED + c C_REJECTED"
    using assms(2) x queueingD(3) [OF q x] by (auto simp: kafka_flush_def split: if_splits)
  show "c' = c \<and> s' = s" if "shut" using assms(2) that by (simp add: kafka_flush_def)
qed

lemma kafka_close_accounts:
  assumes q: "queueing kp queued delivered" and "kafka_close kp timeout shut c s = (r, shut', c', s')"
  shows "shut'" and "shut \<Longrightarrow> c' = c \<and> s' = s"
    and "\<not> shut \<Longrightarrow> queued s' + delivered s' + c' C_FAILED + c' C_REJECTED = queued s + delivered s + c C_FAILED + c C_REJECTED + (if r = Inr () then queued s' else 0)"
proof -
  obtain errors x s1 where x: "kp_flush kp timeout s = (errors, x, s1)" by (metis prod.exhaust)
  show "shut'" "shut \<Longrightarrow> c' = c \<and> s' = s" using assms(2) by (auto simp: kafka_close_def split: if_splits prod.splits)
  show "queued s' + delivered s' + c' C_FAILED + c' C_REJECTED = queued s + delivered s + c C_FAILED + c C_REJECTED + (if r = Inr () then queued s' else 0)" if "\<not> shut"
  proof (cases x)
    case (Inl e)
    then show ?thesis using assms(2) x that queueingD(3) [OF q x] by (auto simp: kafka_close_def flush_bounded_def)
  next
    case (Inr left)
    then have "left = Some (int (queued s1))" using queueingD(4) [OF q] x by blast
    then show ?thesis using assms(2) x that Inr queueingD(3) [OF q x] by (auto simp: kafka_close_def flush_bounded_def bump_def split: if_splits)
  qed
qed

text \<open>Nothing that was taken disappears: it is queued, delivered, or counted, and once a close has
  returned what was left in the queue is counted too.\<close>

definition kafka_ledger :: "'s producer \<Rightarrow> ('s \<Rightarrow> nat) \<Rightarrow> ('s \<Rightarrow> nat) \<Rightarrow> 's kafka \<Rightarrow> bool" where
  "kafka_ledger kp queued delivered st \<longleftrightarrow>
     (let known = delivered (kf_producer st) + kf_counters st C_FAILED + kf_counters st C_REJECTED
      in kf_taken st \<le> known + queued (kf_producer st) \<and> (kf_drained st \<longrightarrow> kf_shut st \<and> kf_taken st \<le> known) \<and>
         (polls_return kp \<and> \<not> kf_shut st \<longrightarrow> kf_taken st = known + queued (kf_producer st)))"

lemma kafka_step_ledger:
  assumes q: "queueing kp queued delivered" and "kafka_ledger kp queued delivered st"
  shows "kafka_ledger kp queued delivered (kafka_step kp encode timeout op st)"
proof (cases op)
  case (KEmit batch)
  obtain r c s where e: "kafka_emit kp encode (kf_shut st) batch (kf_counters st) (kf_producer st) = (r, c, s)" by (metis prod.exhaust)
  show ?thesis using assms(2) kafka_emit_accounts [OF q e] KEmit e by (cases "kf_shut st") (auto simp: kafka_ledger_def Let_def)
next
  case KFlush
  obtain r c s where f: "kafka_flush kp timeout (kf_shut st) (kf_counters st) (kf_producer st) = (r, c, s)" by (metis prod.exhaust)
  show ?thesis using assms(2) kafka_flush_accounts [OF q f] KFlush f by (auto simp: kafka_ledger_def Let_def)
next
  case KClose
  obtain r sh c s where f: "kafka_close kp timeout (kf_shut st) (kf_counters st) (kf_producer st) = (r, sh, c, s)" by (metis prod.exhaust)
  show ?thesis using assms(2) kafka_close_accounts [OF q f] KClose f by (cases "kf_shut st") (auto simp: kafka_ledger_def Let_def split: if_splits)
qed

text \<open>C34. Whatever is called on a Kafka sink and whatever the broker does, an event of a batch that was
  taken is delivered, counted as rejected or failed, or still queued in the producer; and once a
  close has returned, it is delivered or counted, so that nothing is lost without a count at exit.
  If \<^verbatim>\<open>poll\<close> does not raise, nothing is counted twice either while the sink is open.\<close>

theorem kafka_nothing_lost:
  assumes "queueing kp queued delivered" and "queued s = 0" and "delivered s = 0"
  shows "kafka_ledger kp queued delivered
    (fold (kafka_step kp encode timeout) ops \<lparr>kf_shut = False, kf_counters = (\<lambda>_. 0), kf_producer = s, kf_taken = 0, kf_drained = False\<rparr>)"
proof -
  have "kafka_ledger kp queued delivered st \<Longrightarrow> kafka_ledger kp queued delivered (fold (kafka_step kp encode timeout) ops st)" for st
    by (induction ops arbitrary: st) (simp_all add: kafka_step_ledger [OF assms(1)])
  then show ?thesis using assms(2,3) by (simp add: kafka_ledger_def)
qed

text \<open>A producer with room for two messages, which delivers one of them per poll and fails the rest.\<close>

definition demo_producer :: "(nat \<times> nat) producer" where
  "demo_producer = \<lparr>kp_produce = \<lambda>body key (q, d). if q < 2 then (Inr (), (Suc q, d)) else (Inl (OtherError (str ''BufferError'')), (q, d)),
     kp_poll = \<lambda>(q, d). (if q = 2 then (1, Inr (), (0, Suc d)) else (0, Inr (), (q, d))),
     kp_flush = \<lambda>_ (q, d). (0, Inr (Some (int q)), (q, d))\<rparr>"

lemma demo_queueing: "queueing demo_producer fst snd"
  by (auto simp: queueing_def demo_producer_def split: if_splits)

theorem kafka_nothing_lost_witness:
  "\<exists>st. st = fold (kafka_step demo_producer (\<lambda>ev. Inr ([], None)) (NI 10)) [KEmit [[], [], []], KClose, KEmit [[]]]
      \<lparr>kf_shut = False, kf_counters = (\<lambda>_. 0), kf_producer = (0, 0), kf_taken = 0, kf_drained = False\<rparr> \<and>
    kafka_ledger demo_producer fst snd st \<and> kf_taken st = 3 \<and> kf_drained st \<and> snd (kf_producer st) = 1"
proof (intro exI conjI)
  let ?st = "fold (kafka_step demo_producer (\<lambda>ev. Inr ([], None)) (NI 10)) [KEmit [[], [], []], KClose, KEmit [[]]]
      \<lparr>kf_shut = False, kf_counters = (\<lambda>_. 0), kf_producer = (0, 0), kf_taken = 0, kf_drained = False\<rparr>"
  show "kafka_ledger demo_producer fst snd ?st" by (rule kafka_nothing_lost [OF demo_queueing]) simp_all
  show "kf_taken ?st = 3" "kf_drained ?st" "snd (kf_producer ?st) = 1"
    by (simp_all add: kafka_emit_def encode_events_def demo_producer_def kafka_close_def flush_bounded_def)
qed simp

subsection \<open>Event Hubs\<close>

text \<open>A batch of the client is its content; \<^verbatim>\<open>add\<close> raises \<^verbatim>\<open>ValueError\<close> for what does not fit.\<close>

record 's hub =
  eh_class :: "unit result"
  eh_create :: "'s \<Rightarrow> unit result \<times> 's"
  eh_add :: "nat list list \<Rightarrow> nat list \<Rightarrow> unit result"
  eh_send :: "nat list list \<Rightarrow> 's \<Rightarrow> unit result \<times> 's"

record 's hub_run =
  hu_current :: "nat list list"
  hu_attempted :: nat
  hu_sent :: "nat list list list"
  hu_pending :: deferral
  hu_counters :: counters
  hu_client :: 's

definition try_add :: "'s hub \<Rightarrow> nat list list \<Rightarrow> nat list \<Rightarrow> bool result" where
  "try_add hub current body = (case eh_add hub current body of Inr _ \<Rightarrow> Inr True | Inl e \<Rightarrow> if e = ValueError then Inr False else Inl e)"

definition hub_send :: "'s hub \<Rightarrow> nat \<Rightarrow> 's hub_run \<Rightarrow> 's hub_run" where
  "hub_send hub max_retries st =
     (if hu_current st = [] then st
      else case with_retries (eh_send hub (hu_current st)) id max_retries (hu_client st) of
             (Inr _, s) \<Rightarrow> st\<lparr>hu_attempted := Suc (hu_attempted st), hu_sent := hu_sent st @ [hu_current st], hu_client := s\<rparr>
           | (Inl e, s) \<Rightarrow> st\<lparr>hu_attempted := Suc (hu_attempted st), hu_counters := bump C_FAILED (length (hu_current st)) (hu_counters st), hu_client := s\<rparr>)"

definition hub_create :: "'s hub \<Rightarrow> 's hub_run \<Rightarrow> unit result \<times> 's hub_run" where
  "hub_create hub st = (let (r, s) = eh_create hub (hu_client st) in (r, st\<lparr>hu_current := (if r = Inr () then [] else hu_current st), hu_client := s\<rparr>))"

definition hub_place :: "'s hub \<Rightarrow> nat \<Rightarrow> nat list \<Rightarrow> 's hub_run \<Rightarrow> unit result \<times> 's hub_run" where
  "hub_place hub max_retries body st =
     (case try_add hub (hu_current st) body of
        Inl e \<Rightarrow> (Inl e, st)
      | Inr True \<Rightarrow> (Inr (), st\<lparr>hu_current := hu_current st @ [body]\<rparr>)
      | Inr False \<Rightarrow>
          (case hub_create hub (hub_send hub max_retries st) of
             (Inl e, st) \<Rightarrow> (Inl e, st)
           | (Inr _, st) \<Rightarrow>
               (case try_add hub [] body of
                  Inl e \<Rightarrow> (Inl e, st)
                | Inr True \<Rightarrow> (Inr (), st\<lparr>hu_current := [body]\<rparr>)
                | Inr False \<Rightarrow> (Inr (), st\<lparr>hu_pending := defer_announce 1 (defer_count C_OVERSIZED 1 (hu_pending st))\<rparr>))))"

fun hub_loop :: "'s hub \<Rightarrow> nat \<Rightarrow> nat list list \<Rightarrow> 's hub_run \<Rightarrow> unit result \<times> 's hub_run" where
  "hub_loop hub max_retries [] st = (Inr (), st)"
| "hub_loop hub max_retries (body # bodies) st =
     (case hub_place hub max_retries body st of (Inl e, st') \<Rightarrow> (Inl e, st') | (Inr _, st') \<Rightarrow> hub_loop hub max_retries bodies st')"

definition hub_send_batch :: "'s hub \<Rightarrow> nat \<Rightarrow> nat list list \<Rightarrow> 's hub_run \<Rightarrow> unit result \<times> 's hub_run" where
  "hub_send_batch hub max_retries bodies st =
     (case eh_class hub of
        Inl e \<Rightarrow> (Inl e, st)
      | Inr _ \<Rightarrow>
          (case hub_create hub st of
             (Inl e, st) \<Rightarrow> (Inl e, st)
           | (Inr _, st) \<Rightarrow>
               (case hub_loop hub max_retries bodies st of
                  (Inl e, st) \<Rightarrow> (Inl e, st)
                | (Inr _, st) \<Rightarrow>
                    (let st = hub_send hub max_retries st
                     in (if 0 < hu_attempted st \<and> hu_sent st = [] then Inl SinkDeliveryError else Inr (), st)))))"

definition hub_emit :: "'s hub \<Rightarrow> nat \<Rightarrow> (jval \<Rightarrow> pystr result) \<Rightarrow> bool \<Rightarrow> event list \<Rightarrow> counters \<Rightarrow> 's \<Rightarrow> unit result \<times> nat list list list \<times> counters \<times> 's" where
  "hub_emit hub max_retries dumps shut batch c s =
     (if batch = [] then (Inr (), [], c, s)
      else let (encoded, pending) = encode_events (wire_body dumps) C_UNENCODABLE batch new_deferral
           in if shut then (Inl SinkDeliveryError, [], fst (deferral_exit True pending c), s)
              else if encoded = [] then (Inr (), [], fst (deferral_exit False pending c), s)
              else let (r, st) = hub_send_batch hub max_retries (map snd encoded)
                         \<lparr>hu_current = [], hu_attempted = 0, hu_sent = [], hu_pending = pending, hu_counters = c, hu_client = s\<rparr>
                   in (r, hu_sent st, fst (deferral_exit (r \<noteq> Inr ()) (hu_pending st) (hu_counters st)), hu_client st))"

text \<open>A batch the client let grow to its size.\<close>

definition hub_fits :: "'s hub \<Rightarrow> nat list list \<Rightarrow> bool" where
  "hub_fits hub bodies \<longleftrightarrow> list_all (\<lambda>i. eh_add hub (take i bodies) (bodies ! i) = Inr ()) [0..<length bodies]"

lemma hub_fits_snoc: "hub_fits hub (bodies @ [body]) \<longleftrightarrow> hub_fits hub bodies \<and> eh_add hub bodies body = Inr ()"
  by (auto simp: hub_fits_def nth_append list_all_iff)

text \<open>The bodies of a run are in what was sent, in the current batch, failed, or too large.\<close>

definition hub_inv :: "'s hub \<Rightarrow> counters \<Rightarrow> deferral \<Rightarrow> nat list list \<Rightarrow> 's hub_run \<Rightarrow> bool" where
  "hub_inv hub c p bodies st \<longleftrightarrow>
     (\<exists>k. hu_counters st = bump C_FAILED k c \<and>
        length (concat (hu_sent st)) + length (hu_current st) + k + pending_of (hu_pending st) C_OVERSIZED = length bodies + pending_of p C_OVERSIZED) \<and>
     subseq (concat (hu_sent st) @ hu_current st) bodies \<and> list_all (hub_fits hub) (hu_sent st @ [hu_current st]) \<and>
     (\<forall>name. name \<noteq> C_OVERSIZED \<longrightarrow> pending_of (hu_pending st) name = pending_of p name) \<and> (deferral_wf p \<longrightarrow> deferral_wf (hu_pending st))"

lemma hub_inv_more: "hub_inv hub c p bodies st \<Longrightarrow> hub_inv hub c p bodies (st\<lparr>hu_client := s\<rparr>)"
  by (simp add: hub_inv_def)

lemma hub_send_inv:
  assumes "hub_inv hub c p bodies st"
  shows "hub_inv hub c p bodies ((hub_send hub max_retries st)\<lparr>hu_current := [], hu_client := s'\<rparr>)"
proof (cases "hu_current st = []")
  case True
  then have "(hub_send hub max_retries st)\<lparr>hu_current := [], hu_client := s'\<rparr> = st\<lparr>hu_client := s'\<rparr>"
    by (cases st) (simp add: hub_send_def)
  then show ?thesis using hub_inv_more [OF assms] by simp
next
  case False
  obtain r s where r: "with_retries (eh_send hub (hu_current st)) id max_retries (hu_client st) = (r, s)" by (rule prod.exhaust)
  obtain k where k: "hu_counters st = bump C_FAILED k c"
    "length (concat (hu_sent st)) + length (hu_current st) + k + pending_of (hu_pending st) C_OVERSIZED = length bodies + pending_of p C_OVERSIZED"
    using assms by (auto simp: hub_inv_def)
  have sub: "subseq (concat (hu_sent st) @ hu_current st) bodies" using assms by (simp add: hub_inv_def)
  then have sub': "subseq (concat (hu_sent st)) bodies" by (rule subseq_order.trans [rotated]) (simp add: list_emb_prefix)
  show ?thesis
  proof (cases r)
    case (Inl e)
    have "bump C_FAILED (length (hu_current st)) (bump C_FAILED k c) = bump C_FAILED (k + length (hu_current st)) c" by (simp add: bump_def add.assoc)
    then show ?thesis using assms False r Inl k sub' by (auto simp: hub_inv_def hub_send_def hub_fits_def intro!: exI [of _ "k + length (hu_current st)"])
  next
    case (Inr u)
    then show ?thesis using assms False r k sub by (auto simp: hub_inv_def hub_send_def hub_fits_def)
  qed
qed

lemma hub_inv_add:
  assumes "hub_inv hub c p bodies st" and "eh_add hub (hu_current st) body = Inr ()"
  shows "hub_inv hub c p (bodies @ [body]) (st\<lparr>hu_current := hu_current st @ [body]\<rparr>)"
proof -
  have "subseq ((concat (hu_sent st) @ hu_current st) @ [body]) (bodies @ [body])"
    using assms(1) by (intro list_emb_append_mono) (simp_all add: hub_inv_def)
  then show ?thesis using assms by (auto simp: hub_inv_def hub_fits_snoc)
qed

lemma hub_inv_oversized:
  assumes "hub_inv hub c p bodies st"
  shows "hub_inv hub c p (bodies @ [body]) (st\<lparr>hu_pending := defer_announce 1 (defer_count C_OVERSIZED 1 (hu_pending st))\<rparr>)"
proof -
  have "subseq (concat (hu_sent st) @ hu_current st) (bodies @ [body])" using assms by (auto simp: hub_inv_def intro: list_emb_append2 list_emb_prefix)
  then show ?thesis using assms by (auto simp: hub_inv_def)
qed

lemma hub_place_inv:
  assumes "hub_inv hub c p bodies st" and "hub_place hub max_retries body st = (Inr u, st')"
  shows "hub_inv hub c p (bodies @ [body]) st'"
proof (cases "eh_add hub (hu_current st) body")
  case (Inr v)
  then show ?thesis using assms(2) hub_inv_add [OF assms(1)] by (auto simp: hub_place_def try_add_def)
next
  case (Inl e)
  then have e: "e = ValueError" using assms(2) by (auto simp: hub_place_def try_add_def split: if_splits)
  obtain r s where r: "eh_create hub (hu_client (hub_send hub max_retries st)) = (r, s)" by (rule prod.exhaust)
  define st1 where "st1 = (hub_send hub max_retries st)\<lparr>hu_current := [], hu_client := s\<rparr>"
  have ok: "r = Inr ()" using assms(2) Inl e r by (cases r) (auto simp: hub_place_def try_add_def hub_create_def)
  have inv: "hub_inv hub c p bodies st1" unfolding st1_def by (rule hub_send_inv [OF assms(1)])
  have create: "hub_create hub (hub_send hub max_retries st) = (Inr (), st1)" using r ok by (simp add: hub_create_def st1_def)
  have "hu_current st1 = []" by (simp add: st1_def)
  then show ?thesis using assms(2) Inl e create hub_inv_add [OF inv, of body] hub_inv_oversized [OF inv, of body]
    by (auto simp: hub_place_def try_add_def split: sum.splits if_splits)
qed

lemma hub_loop_inv:
  "hub_inv hub c p bodies st \<Longrightarrow> hub_loop hub max_retries rest st = (Inr u, st') \<Longrightarrow> hub_inv hub c p (bodies @ rest) st'"
proof (induction rest arbitrary: bodies st)
  case (Cons body rest)
  obtain r s where r: "hub_place hub max_retries body st = (r, s)" by (rule prod.exhaust)
  then have "r = Inr ()" "hub_loop hub max_retries rest s = (Inr u, st')" using Cons.prems(2) by (cases r; simp)+
  then show ?case using Cons.IH [OF hub_place_inv [OF Cons.prems(1)]] r by simp
qed simp

text \<open>An emit that returns has sent, failed or dropped every event and counted those it did not send; the
  batches it sent hold the bodies in order, each as large as the client let it grow.\<close>

lemma hub_emit_accounts:
  assumes "hub_emit hub max_retries dumps shut batch c s = (Inr u, sent, c', s')"
  shows "length (concat sent) + sl_dropped (mongo_losses c') + sl_failed (mongo_losses c') = length batch + sl_dropped (mongo_losses c) + sl_failed (mongo_losses c)"
    and "list_all (hub_fits hub) sent"
proof -
  obtain encoded pending where enc: "encode_events (wire_body dumps) C_UNENCODABLE batch new_deferral = (encoded, pending)" by (rule prod.exhaust)
  note p = encode_pending [OF enc]
  define st0 :: "'a hub_run" where "st0 = \<lparr>hu_current = [], hu_attempted = 0, hu_sent = [], hu_pending = pending, hu_counters = c, hu_client = s\<rparr>"
  have goal: "length (concat sent) + sl_dropped (mongo_losses c') + sl_failed (mongo_losses c') = length batch + sl_dropped (mongo_losses c) + sl_failed (mongo_losses c) \<and>
      list_all (hub_fits hub) sent"
  proof (cases "batch = [] \<or> shut \<or> encoded = []")
    case True
    then show ?thesis using assms enc p deferral_exit_counts [OF p(4), of False c]
      by (auto simp: hub_emit_def mongo_losses_def split: if_splits)
  next
    case False
    then obtain st where st: "hub_send_batch hub max_retries (map snd encoded) st0 = (Inr (), st)"
        "sent = hu_sent st" "c' = fst (deferral_exit False (hu_pending st) (hu_counters st))"
      using assms enc by (auto simp: hub_emit_def st0_def split: prod.splits)
    then obtain s1 st1 where st1: "hub_loop hub max_retries (map snd encoded) (st0\<lparr>hu_client := s1\<rparr>) = (Inr (), st1)" "st = hub_send hub max_retries st1"
      by (auto simp: hub_send_batch_def hub_create_def Let_def st0_def split: sum.splits prod.splits if_splits)
    have "hub_inv hub c pending [] (st0\<lparr>hu_client := s1\<rparr>)" by (simp add: hub_inv_def st0_def hub_fits_def bump_zero exI [of _ 0])
    from hub_send_inv [OF hub_loop_inv [OF this st1(1)], where max_retries = max_retries and s' = "hu_client st"] st1(2)
    have inv: "hub_inv hub c pending (map snd encoded) (st\<lparr>hu_current := []\<rparr>)" by simp
    then obtain k where k: "hu_counters st = bump C_FAILED k c"
        "length (concat (hu_sent st)) + k + pending_of (hu_pending st) C_OVERSIZED = length encoded + pending_of pending C_OVERSIZED" by (auto simp: hub_inv_def)
    have counts: "fst (deferral_exit False (hu_pending st) d) name = d name + pending_of (hu_pending st) name" for d name
      using inv p(4) deferral_exit_counts [of "hu_pending st"] by (simp add: hub_inv_def)
    have "pending_of (hu_pending st) C_UNENCODABLE = pending_of pending C_UNENCODABLE" "pending_of (hu_pending st) C_FAILED = 0"
      using inv p(2) by (simp_all add: hub_inv_def)
    then show ?thesis using st k p counts inv by (auto simp: mongo_losses_def bump_def hub_inv_def)
  qed
  then show "length (concat sent) + sl_dropped (mongo_losses c') + sl_failed (mongo_losses c') = length batch + sl_dropped (mongo_losses c) + sl_failed (mongo_losses c)"
    "list_all (hub_fits hub) sent" by blast+
qed

end
