(* ===== verification/Pubsub.thy ===== *)
theory Pubsub
  imports Brokers "HOL-Library.Multiset"
begin

text \<open>
  The Pub/Sub sink of \<^verbatim>\<open>sinks/pubsub.py\<close>: futures of publishes in flight, their resolution within a deadline,
  and what is counted when they are given up. The client, the clock, the pause and the stop signal
  are arguments. A loop that polls until the clock says otherwise may not end: it is an option, and
  that it ends when time passes is proved.
\<close>

record ('f, 's) publisher =
  ps_publish :: "nat list \<Rightarrow> 's \<Rightarrow> 'f result \<times> 's"
  ps_result :: "'f \<Rightarrow> rat option \<Rightarrow> 's \<Rightarrow> unit result \<times> 's"
  ps_done :: "'f \<Rightarrow> 's \<Rightarrow> bool result option"
  ps_monotonic :: "'s \<Rightarrow> rat \<times> 's"
  ps_wait :: "rat \<Rightarrow> 's \<Rightarrow> 's"
  ps_stopped :: "'s \<Rightarrow> bool"

text \<open>The state of the sink, with the futures whose publish was confirmed.\<close>

record ('f, 's) pubsub =
  pb_futures :: "'f list"
  pb_shut :: bool
  pb_counters :: counters
  pb_confirmed :: "'f list"
  pb_env :: 's

definition DEFAULT_MAX_PENDING :: nat where "DEFAULT_MAX_PENDING = 1000"
definition POLL_INTERVAL :: rat where "POLL_INTERVAL = 1 / 20"
definition TimeoutExn :: pyexn where "TimeoutExn = OtherError (str ''TimeoutError'')"

definition has_settled :: "('f, 's) publisher \<Rightarrow> 's \<Rightarrow> 'f \<Rightarrow> bool" where
  "has_settled pub s f = (case ps_done pub f s of None \<Rightarrow> False | Some (Inl e) \<Rightarrow> True | Some (Inr b) \<Rightarrow> b)"

abbreviation count_failed :: "nat \<Rightarrow> ('f, 's) pubsub \<Rightarrow> ('f, 's) pubsub" where
  "count_failed n st \<equiv> st\<lparr>pb_counters := bump C_FAILED n (pb_counters st)\<rparr>"

subsection \<open>Resolving a future\<close>

text \<open>\<^verbatim>\<open>_resolve\<close> answers whether the future settled, or raises \<^verbatim>\<open>_Unboundable\<close>.\<close>

datatype verdict = Answered bool | Unboundable

definition resolve :: "('f, 's) publisher \<Rightarrow> 'f \<Rightarrow> rat option \<Rightarrow> ('f, 's) pubsub \<Rightarrow> verdict \<times> ('f, 's) pubsub" where
  "resolve pub f timeout st =
     (let (r, s) = ps_result pub f timeout (pb_env st); st = st\<lparr>pb_env := s\<rparr>
      in case r of
           Inr _ \<Rightarrow> (Answered True, st\<lparr>pb_confirmed := pb_confirmed st @ [f]\<rparr>)
         | Inl e \<Rightarrow>
             if timeout \<noteq> None \<and> e = TypeError then (Unboundable, st)
             else if timeout \<noteq> None \<and> e = TimeoutExn then (Answered False, st)
             else (Answered True, count_failed 1 st))"

definition now :: "('f, 's) publisher \<Rightarrow> ('f, 's) pubsub \<Rightarrow> rat \<times> ('f, 's) pubsub" where
  "now pub st = (let (t, s) = ps_monotonic pub (pb_env st) in (t, st\<lparr>pb_env := s\<rparr>))"

definition past :: "('f, 's) publisher \<Rightarrow> rat \<Rightarrow> bool \<Rightarrow> ('f, 's) pubsub \<Rightarrow> bool \<times> ('f, 's) pubsub" where
  "past pub deadline heed_stop st =
     (let (t, st) = now pub st in (deadline \<le> t \<or> heed_stop \<and> ps_stopped pub (pb_env st), st))"

text \<open>The \<^verbatim>\<open>while\<close> of \<^verbatim>\<open>_resolve_within\<close> for one future: it settled, it cannot be polled, or time was up.\<close>

datatype polled = Done | Unpollable | Late

definition poll_once :: "('f, 's) publisher \<Rightarrow> 'f \<Rightarrow> rat \<Rightarrow> bool \<Rightarrow> ('f, 's) pubsub \<Rightarrow> polled option \<times> ('f, 's) pubsub" where
  "poll_once pub f deadline heed_stop st =
     (let (late, st) = past pub deadline heed_stop st
      in if late then (Some Late, st)
         else let (began, st) = now pub st; slice = min (deadline - began) POLL_INTERVAL; (v, st) = resolve pub f (Some slice) st
              in case v of
                   Unboundable \<Rightarrow> (Some Unpollable, st)
                 | Answered True \<Rightarrow> (Some Done, st)
                 | Answered False \<Rightarrow> (let (t, st) = now pub st in (None, st\<lparr>pb_env := ps_wait pub (slice - (t - began)) (pb_env st)\<rparr>)))"

partial_function (option) poll_loop :: "('f, 's) publisher \<Rightarrow> 'f \<Rightarrow> rat \<Rightarrow> bool \<Rightarrow> ('f, 's) pubsub \<Rightarrow> (polled \<times> ('f, 's) pubsub) option" where
  "poll_loop pub f deadline heed_stop st =
     (case poll_once pub f deadline heed_stop st of
        (Some p, st') \<Rightarrow> Some (p, st')
      | (None, st') \<Rightarrow> poll_loop pub f deadline heed_stop st')"

fun classify_remainder :: "('f, 's) publisher \<Rightarrow> 'f list \<Rightarrow> ('f, 's) pubsub \<Rightarrow> 'f list \<times> 'f list \<times> ('f, 's) pubsub" where
  "classify_remainder pub [] st = ([], [], st)"
| "classify_remainder pub (f # fs) st =
     (let (v, st) = resolve pub f (Some 0) st; (expired, unboundable, st) = classify_remainder pub fs st
      in case v of
           Unboundable \<Rightarrow> (expired, f # unboundable, st)
         | Answered settled \<Rightarrow> (if settled then expired else f # expired, unboundable, st))"

fun resolve_within :: "('f, 's) publisher \<Rightarrow> 'f list \<Rightarrow> rat \<Rightarrow> bool \<Rightarrow> ('f, 's) pubsub \<Rightarrow> ('f list \<times> 'f list \<times> ('f, 's) pubsub) option" where
  "resolve_within pub [] deadline heed_stop st = Some ([], [], st)"
| "resolve_within pub (f # fs) deadline heed_stop st =
     (case poll_loop pub f deadline heed_stop st of
        None \<Rightarrow> None
      | Some (Late, st) \<Rightarrow> Some (classify_remainder pub (f # fs) st)
      | Some (Done, st) \<Rightarrow> resolve_within pub fs deadline heed_stop st
      | Some (Unpollable, st) \<Rightarrow>
          map_option (\<lambda>(expired, unboundable, st). (expired, f # unboundable, st)) (resolve_within pub fs deadline heed_stop st))"

fun resolve_all :: "('f, 's) publisher \<Rightarrow> 'f list \<Rightarrow> ('f, 's) pubsub \<Rightarrow> ('f, 's) pubsub" where
  "resolve_all pub [] st = st"
| "resolve_all pub (f # fs) st = resolve_all pub fs (snd (resolve pub f None st))"

text \<open>The parameters of a sink: the bound on what may be in flight, and the seconds a wait may take.\<close>

record pubsub_cfg =
  pc_max_pending :: nat
  pc_overflow_timeout :: rat

definition drain_pending :: "('f, 's) publisher \<Rightarrow> pubsub_cfg \<Rightarrow> 'f list \<Rightarrow> ('f, 's) pubsub \<Rightarrow> ('f, 's) pubsub option" where
  "drain_pending pub cfg fs st =
     (let (t, st) = now pub st
      in map_option (\<lambda>(expired, unboundable, st). count_failed (length expired) (resolve_all pub unboundable st))
           (resolve_within pub fs (t + pc_overflow_timeout cfg) False st))"

subsection \<open>The operations\<close>

text \<open>What does not settle in time goes back to the front; if the sink closed meanwhile, it is drained.\<close>

definition put_back :: "('f, 's) publisher \<Rightarrow> pubsub_cfg \<Rightarrow> 'f list \<Rightarrow> ('f, 's) pubsub \<Rightarrow> ('f, 's) pubsub option" where
  "put_back pub cfg unresolved st =
     (if \<not> pb_shut st then Some (st\<lparr>pb_futures := unresolved @ pb_futures st\<rparr>) else drain_pending pub cfg unresolved st)"

definition await_overflow :: "('f, 's) publisher \<Rightarrow> pubsub_cfg \<Rightarrow> 'f list \<Rightarrow> ('f, 's) pubsub \<Rightarrow> ('f, 's) pubsub option" where
  "await_overflow pub cfg overflow st =
     (if overflow = [] then Some st
      else let (t, st) = now pub st
           in case resolve_within pub overflow (t + pc_overflow_timeout cfg) True st of
                None \<Rightarrow> None
              | Some (expired, unboundable, st) \<Rightarrow>
                  if expired @ unboundable = [] then Some st else put_back pub cfg (expired @ unboundable) st)"

text \<open>The critical section of \<^verbatim>\<open>_reap\<close>: the settled, the oldest that are too many, and what stays.\<close>

definition reap_split :: "('f, 's) publisher \<Rightarrow> nat \<Rightarrow> ('f, 's) pubsub \<Rightarrow> 'f list \<times> 'f list \<times> ('f, 's) pubsub" where
  "reap_split pub max_pending st =
     (let settled = filter (has_settled pub (pb_env st)) (pb_futures st);
          outstanding = filter (\<lambda>f. \<not> has_settled pub (pb_env st) f) (pb_futures st);
          excess = length outstanding - max_pending
      in (settled, take excess outstanding, st\<lparr>pb_futures := drop excess outstanding\<rparr>))"

definition reap :: "('f, 's) publisher \<Rightarrow> pubsub_cfg \<Rightarrow> ('f, 's) pubsub \<Rightarrow> ('f, 's) pubsub option" where
  "reap pub cfg st =
     (let (settled, overflow, st) = reap_split pub (pc_max_pending cfg) st
      in await_overflow pub cfg overflow (resolve_all pub settled st))"

text \<open>The critical section of a publish: a sink that closed meanwhile counts the future as failed.\<close>

definition register :: "'f \<Rightarrow> ('f, 's) pubsub \<Rightarrow> ('f, 's) pubsub" where
  "register f st = (if pb_shut st then count_failed 1 st else st\<lparr>pb_futures := pb_futures st @ [f]\<rparr>)"

fun publishes :: "('f, 's) publisher \<Rightarrow> nat list list \<Rightarrow> ('f, 's) pubsub \<Rightarrow> nat \<times> ('f, 's) pubsub" where
  "publishes pub [] st = (0, st)"
| "publishes pub (body # bodies) st =
     (case ps_publish pub body (pb_env st) of
        (Inl e, s) \<Rightarrow> (let (refused, st') = publishes pub bodies (st\<lparr>pb_env := s\<rparr>) in (Suc refused, st'))
      | (Inr f, s) \<Rightarrow> publishes pub bodies (register f (st\<lparr>pb_env := s\<rparr>)))"

definition pubsub_emit :: "('f, 's) publisher \<Rightarrow> pubsub_cfg \<Rightarrow> (jval \<Rightarrow> pystr result) \<Rightarrow> event list \<Rightarrow> ('f, 's) pubsub \<Rightarrow> (unit result \<times> ('f, 's) pubsub) option" where
  "pubsub_emit pub cfg dumps batch st =
     (if batch = [] then Some (Inr (), st)
      else if pb_shut st then Some (Inl SinkDeliveryError, st)
      else let (encoded, pending) = encode_events (wire_body dumps) C_REJECTED batch new_deferral
           in if encoded = [] then Some (Inr (), st\<lparr>pb_counters := fst (deferral_exit False pending (pb_counters st))\<rparr>)
              else let (refused, st) = publishes pub (map snd encoded) st;
                       pending = (if 0 < refused then defer_announce refused (defer_count C_REJECTED refused pending) else pending);
                       none = (refused = length encoded)
                   in map_option (\<lambda>st. (if none then Inl SinkDeliveryError else Inr (), st\<lparr>pb_counters := fst (deferral_exit none pending (pb_counters st))\<rparr>))
                        (reap pub cfg st))"

definition pubsub_flush :: "('f, 's) publisher \<Rightarrow> pubsub_cfg \<Rightarrow> ('f, 's) pubsub \<Rightarrow> (unit result \<times> ('f, 's) pubsub) option" where
  "pubsub_flush pub cfg st =
     (if pb_shut st then Some (Inl SinkDeliveryError, st)
      else let pending = pb_futures st; st = st\<lparr>pb_futures := []\<rparr>
           in if pending = [] then Some (Inr (), st)
              else let (t, st) = now pub st
                   in case resolve_within pub pending (t + pc_overflow_timeout cfg) True st of
                        None \<Rightarrow> None
                      | Some (expired, unboundable, st) \<Rightarrow>
                          if expired @ unboundable = [] then Some (Inr (), st)
                          else map_option (Pair (Inl SinkDeliveryError)) (put_back pub cfg (expired @ unboundable) st))"

definition pubsub_close :: "('f, 's) publisher \<Rightarrow> pubsub_cfg \<Rightarrow> ('f, 's) pubsub \<Rightarrow> ('f, 's) pubsub option" where
  "pubsub_close pub cfg st = drain_pending pub cfg (pb_futures st) (st\<lparr>pb_shut := True, pb_futures := []\<rparr>)"

definition pubsub_losses :: "('f, 's) pubsub \<Rightarrow> sink_losses" where
  "pubsub_losses st = \<lparr>sl_dropped = pb_counters st C_REJECTED, sl_failed = pb_counters st C_FAILED\<rparr>"

subsection \<open>What threads do to the shared state\<close>

text \<open>A configuration is the state of the sink, the futures some thread has taken out of it, and how many
  events were published or rejected. A step is one critical section or one resolution, of any thread; the environment
  may change at any moment.\<close>

inductive ps_step :: "('f, 's) publisher \<Rightarrow> ('f, 's) pubsub \<times> 'f multiset \<times> nat \<Rightarrow> ('f, 's) pubsub \<times> 'f multiset \<times> nat \<Rightarrow> bool"
  for pub where
  env: "ps_step pub (st, H, n) (st\<lparr>pb_env := s\<rparr>, H, n)"
| counts: "c C_FAILED = pb_counters st C_FAILED \<Longrightarrow> c C_REJECTED = pb_counters st C_REJECTED + k \<Longrightarrow> ps_step pub (st, H, n) (st\<lparr>pb_counters := c\<rparr>, H, n + k)"
| published: "ps_step pub (st, H, n) (register f st, H, Suc n)"
| reaped: "reap_split pub k st = (settled, overflow, st') \<Longrightarrow> ps_step pub (st, H, n) (st', mset settled + mset overflow + H, n)"
| taken: "ps_step pub (st, H, n) (st\<lparr>pb_futures := []\<rparr>, mset (pb_futures st) + H, n)"
| shutting: "ps_step pub (st, H, n) (st\<lparr>pb_shut := True, pb_futures := []\<rparr>, mset (pb_futures st) + H, n)"
| resolved: "resolve pub f timeout st = (Answered True, st') \<Longrightarrow> ps_step pub (st, add_mset f H, n) (st', H, n)"
| unresolved: "resolve pub f timeout st = (v, st') \<Longrightarrow> v \<noteq> Answered True \<Longrightarrow> ps_step pub (st, add_mset f H, n) (st', add_mset f H, n)"
| returned: "\<not> pb_shut st \<Longrightarrow> ps_step pub (st, mset fs + H, n) (st\<lparr>pb_futures := fs @ pb_futures st\<rparr>, H, n)"
| expired: "ps_step pub (st, mset fs + H, n) (count_failed (length fs) st, H, n)"

abbreviation ps_steps :: "('f, 's) publisher \<Rightarrow> ('f, 's) pubsub \<times> 'f multiset \<times> nat \<Rightarrow> ('f, 's) pubsub \<times> 'f multiset \<times> nat \<Rightarrow> bool" where
  "ps_steps pub \<equiv> (ps_step pub)\<^sup>*\<^sup>*"

definition ps_ledger :: "('f, 's) pubsub \<times> 'f multiset \<times> nat \<Rightarrow> bool" where
  "ps_ledger = (\<lambda>(st, H, n). length (pb_confirmed st) + pb_counters st C_FAILED + pb_counters st C_REJECTED + length (pb_futures st) + size H = n \<and> (pb_shut st \<longrightarrow> pb_futures st = []))"

lemma resolve_effect:
  assumes "resolve pub f timeout st = (v, st')"
  shows "pb_futures st' = pb_futures st" "pb_shut st' = pb_shut st" "name \<noteq> C_FAILED \<Longrightarrow> pb_counters st' name = pb_counters st name"
    and "length (pb_confirmed st') + pb_counters st' C_FAILED = length (pb_confirmed st) + pb_counters st C_FAILED + (if v = Answered True then 1 else 0)"
    and "timeout = None \<Longrightarrow> v = Answered True"
  using assms by (auto simp: resolve_def bump_def Let_def split: prod.splits sum.splits if_splits)

lemma reap_split_parts:
  assumes "reap_split pub k st = (settled, overflow, st')"
  shows "mset (pb_futures st) = mset settled + mset overflow + mset (pb_futures st')"
    and "st' = st\<lparr>pb_futures := pb_futures st'\<rparr>" and "pb_shut st' = pb_shut st"
proof -
  have "mset (filter P xs) + mset (filter (\<lambda>x. \<not> P x) xs) = mset xs" for P and xs :: "'a list" by (induction xs) auto
  moreover have "mset (take n xs) + mset (drop n xs) = mset xs" for n and xs :: "'a list"
    by (metis append_take_drop_id mset_append)
  ultimately show "mset (pb_futures st) = mset settled + mset overflow + mset (pb_futures st')"
    using assms by (auto simp: reap_split_def Let_def add.assoc)
  show "st' = st\<lparr>pb_futures := pb_futures st'\<rparr>" "pb_shut st' = pb_shut st" using assms by (auto simp: reap_split_def Let_def)
qed

lemma ps_step_ledger: "ps_step pub x y \<Longrightarrow> ps_ledger x \<Longrightarrow> ps_ledger y"
proof (induction rule: ps_step.induct)
  case (reaped k st settled overflow st' H n)
  note parts = reap_split_parts [OF reaped.hyps]
  have "length (pb_futures st) = length settled + length overflow + length (pb_futures st')"
    using arg_cong [OF parts(1), of size] by simp
  then show ?case using reaped.prems parts(2) by (cases st; cases st') (auto simp: ps_ledger_def)
next
  case (resolved f timeout st st' H n)
  then show ?case using resolve_effect [OF resolved.hyps] by (simp add: ps_ledger_def)
next
  case (unresolved f timeout st v st' H n)
  then show ?case using resolve_effect [OF unresolved.hyps(1)] by (simp add: ps_ledger_def)
qed (auto simp: ps_ledger_def register_def bump_def)

lemma ps_steps_ledger: "ps_steps pub x y \<Longrightarrow> ps_ledger x \<Longrightarrow> ps_ledger y"
  by (induction rule: rtranclp_induct) (auto dest: ps_step_ledger)

subsection \<open>The operations are made of such steps\<close>

lemmas ps_one = r_into_rtranclp [where r = "ps_step pub" for pub]

lemma now_steps: "now pub st = (t, st') \<Longrightarrow> ps_steps pub (st, H, n) (st', H, n)"
  by (auto simp: now_def split: prod.splits intro: ps_one ps_step.env)

lemma past_steps: "past pub deadline heed st = (b, st') \<Longrightarrow> ps_steps pub (st, H, n) (st', H, n)"
  by (auto simp: past_def Let_def split: prod.splits dest: now_steps)

lemma resolve_steps:
  assumes "resolve pub f timeout st = (v, st')"
  shows "ps_steps pub (st, add_mset f H, n) (st', if v = Answered True then H else add_mset f H, n)"
  using ps_step.resolved [of pub f timeout st st'] ps_step.unresolved [of pub f timeout st v st'] assms by (auto intro: ps_one)

lemma poll_once_steps:
  assumes "poll_once pub f deadline heed st = (p, st')"
  shows "ps_steps pub (st, add_mset f H, n) (st', if p = Some Done then H else add_mset f H, n)"
proof -
  let ?H = "add_mset f H"
  obtain late st1 where late: "past pub deadline heed st = (late, st1)" by (rule prod.exhaust)
  obtain began st2 where began: "now pub st1 = (began, st2)" by (rule prod.exhaust)
  define slice where "slice = min (deadline - began) POLL_INTERVAL"
  obtain v st3 where v: "resolve pub f (Some slice) st2 = (v, st3)" by (rule prod.exhaust)
  obtain t st4 where t: "now pub st3 = (t, st4)" by (rule prod.exhaust)
  have s1: "ps_steps pub (st, ?H, n) (st1, ?H, n)" by (rule past_steps [OF late])
  have s3: "ps_steps pub (st1, ?H, n) (st3, if v = Answered True then H else ?H, n)"
    by (rule rtranclp_trans [OF now_steps [OF began] resolve_steps [OF v]])
  have s4: "ps_steps pub (st3, ?H, n) (st4\<lparr>pb_env := s\<rparr>, ?H, n)" for s
    by (rule rtranclp_trans [OF now_steps [OF t]]) (rule ps_one, rule ps_step.env)
  show ?thesis
  proof (cases late)
    case True
    then show ?thesis using assms late s1 by (auto simp: poll_once_def)
  next
    case False
    show ?thesis
    proof (cases "v = Answered False")
      case True
      then have "p = None \<and> (\<exists>s. st' = st4\<lparr>pb_env := s\<rparr>)" using assms late False began v t by (auto simp: poll_once_def slice_def Let_def)
      then show ?thesis using rtranclp_trans [OF s1 rtranclp_trans [OF s3]] s4 True by fastforce
    next
      case no: False
      then have "st' = st3 \<and> (p = Some Done \<longleftrightarrow> v = Answered True)" using assms late False began v by (auto simp: poll_once_def slice_def Let_def split: verdict.splits bool.splits)
      then show ?thesis using rtranclp_trans [OF s1 s3] by auto
    qed
  qed
qed

lemma poll_loop_steps:
  assumes "poll_loop pub f deadline heed st = Some (p, st')"
  shows "ps_steps pub (st, add_mset f H, n) (st', if p = Done then H else add_mset f H, n)"
proof -
  let ?P = "\<lambda>pub f deadline heed st out. ps_steps pub (st, add_mset f H, n) (snd out, if fst out = Done then H else add_mset f H, n)"
  have "?P pub f deadline heed st (p, st')"
    using assms
  proof (rule poll_loop.raw_induct [where P = ?P, rotated])
    fix loop :: "('a, 'b) publisher \<Rightarrow> 'a \<Rightarrow> rat \<Rightarrow> bool \<Rightarrow> ('a, 'b) pubsub \<Rightarrow> (polled \<times> ('a, 'b) pubsub) option"
      and pub :: "('a, 'b) publisher" and f deadline heed and st :: "('a, 'b) pubsub" and out
    assume IH: "\<And>pub f deadline heed st out. loop pub f deadline heed st = Some out \<Longrightarrow> ?P pub f deadline heed st out"
      and out: "(case poll_once pub f deadline heed st of (Some p, st') \<Rightarrow> Some (p, st') | (None, st') \<Rightarrow> loop pub f deadline heed st') = Some out"
    obtain q st1 where q: "poll_once pub f deadline heed st = (q, st1)" by (rule prod.exhaust)
    note step = poll_once_steps [OF q]
    show "?P pub f deadline heed st out"
    proof (cases q)
      case None
      then have "loop pub f deadline heed st1 = Some out" using out q by simp
      from IH [OF this] show ?thesis using rtranclp_trans [OF step [of H n]] None by simp
    next
      case (Some r)
      then show ?thesis using step [of H n] out q by auto
    qed
  qed
  then show ?thesis by simp
qed

lemma classify_steps:
  "classify_remainder pub fs st = (expired, unboundable, st') \<Longrightarrow>
     ps_steps pub (st, mset fs + H, n) (st', mset (expired @ unboundable) + H, n)"
proof (induction fs arbitrary: st expired unboundable st' H)
  case (Cons f fs)
  obtain v st1 where v: "resolve pub f (Some 0) st = (v, st1)" by (rule prod.exhaust)
  obtain e u st2 where r: "classify_remainder pub fs st1 = (e, u, st2)" by (metis prod.exhaust)
  let ?H = "if v = Answered True then H else add_mset f H"
  have eq: "st' = st2" "mset (expired @ unboundable) + H = mset (e @ u) + ?H"
    using Cons.prems v r by (auto split: verdict.splits if_splits)
  have "ps_steps pub (st, add_mset f (mset fs + H), n) (st1, mset fs + ?H, n)"
    using resolve_steps [OF v, of "mset fs + H" n] by (simp split: if_splits)
  then show ?case using rtranclp_trans [OF _ Cons.IH [OF r, of ?H]] eq by simp
qed simp

lemma resolve_within_steps:
  "resolve_within pub fs deadline heed st = Some (expired, unboundable, st') \<Longrightarrow>
     ps_steps pub (st, mset fs + H, n) (st', mset (expired @ unboundable) + H, n)"
proof (induction fs arbitrary: st expired unboundable H)
  case (Cons f fs)
  obtain p st1 where p: "poll_loop pub f deadline heed st = Some (p, st1)" using Cons.prems by (cases "poll_loop pub f deadline heed st") auto
  note step = poll_loop_steps [OF p, of "mset fs + H" n]
  show ?case
  proof (cases p)
    case Done
    then show ?thesis using Cons.prems p step rtranclp_trans [OF _ Cons.IH [of st1 expired unboundable H]] by auto
  next
    case Late
    then have "classify_remainder pub (f # fs) st1 = (expired, unboundable, st')" using Cons.prems p by simp
    then show ?thesis using rtranclp_trans [OF _ classify_steps [of pub "f # fs" st1 expired unboundable st' H n]] step Late by simp
  next
    case Unpollable
    then obtain u where u: "resolve_within pub fs deadline heed st1 = Some (expired, u, st')" "unboundable = f # u" using Cons.prems p by auto
    then show ?thesis using rtranclp_trans [OF _ Cons.IH [OF u(1), of "add_mset f H"]] step Unpollable by simp
  qed
qed simp

lemma resolve_all_steps: "ps_steps pub (st, mset fs + H, n) (resolve_all pub fs st, H, n)"
proof (induction fs arbitrary: st)
  case (Cons f fs)
  obtain v st1 where v: "resolve pub f None st = (v, st1)" by (rule prod.exhaust)
  have "v = Answered True" using resolve_effect(5) [OF v] by simp
  then show ?case using rtranclp_trans [OF _ Cons.IH [of st1]] resolve_steps [OF v, of "mset fs + H" n] v by simp
qed simp

lemma drain_steps:
  assumes "drain_pending pub cfg fs st = Some st'"
  shows "ps_steps pub (st, mset fs + H, n) (st', H, n)"
proof -
  obtain t st1 where t: "now pub st = (t, st1)" by (rule prod.exhaust)
  obtain expired unboundable st2 where w: "resolve_within pub fs (t + pc_overflow_timeout cfg) False st1 = Some (expired, unboundable, st2)"
      and st': "st' = count_failed (length expired) (resolve_all pub unboundable st2)"
    using assms t by (auto simp: drain_pending_def)
  have "ps_steps pub (st, mset fs + H, n) (st2, mset unboundable + (mset expired + H), n)"
    using rtranclp_trans [OF now_steps [OF t, of "mset fs + H" n] resolve_within_steps [OF w, of H n]] by (simp add: ac_simps)
  also have "ps_steps pub (st2, mset unboundable + (mset expired + H), n) (resolve_all pub unboundable st2, mset expired + H, n)"
    by (rule resolve_all_steps)
  also have "ps_step pub (resolve_all pub unboundable st2, mset expired + H, n) (st', H, n)" unfolding st' by (rule ps_step.expired)
  finally show ?thesis .
qed

lemma put_back_steps: "put_back pub cfg fs st = Some st' \<Longrightarrow> ps_steps pub (st, mset fs + H, n) (st', H, n)"
  by (auto simp: put_back_def split: if_splits intro: drain_steps ps_one ps_step.returned)

lemma await_steps:
  assumes "await_overflow pub cfg overflow st = Some st'"
  shows "ps_steps pub (st, mset overflow + H, n) (st', H, n)"
proof (cases "overflow = []")
  case False
  obtain t st1 where t: "now pub st = (t, st1)" by (rule prod.exhaust)
  obtain expired unboundable st2 where w: "resolve_within pub overflow (t + pc_overflow_timeout cfg) True st1 = Some (expired, unboundable, st2)"
      and st': "if expired @ unboundable = [] then st' = st2 else put_back pub cfg (expired @ unboundable) st2 = Some st'"
    using assms t False by (auto simp: await_overflow_def split: option.splits if_splits)
  have "ps_steps pub (st, mset overflow + H, n) (st2, mset (expired @ unboundable) + H, n)"
    using rtranclp_trans [OF now_steps [OF t, of "mset overflow + H" n] resolve_within_steps [OF w, of H n]] by simp
  then show ?thesis using st' rtranclp_trans [OF _ put_back_steps, of pub _ st2 "expired @ unboundable" H n cfg st'] by (auto split: if_splits)
qed (use assms in \<open>simp add: await_overflow_def\<close>)

lemma reap_steps:
  assumes "reap pub cfg st = Some st'"
  shows "ps_steps pub (st, H, n) (st', H, n)"
proof -
  obtain settled overflow st1 where r: "reap_split pub (pc_max_pending cfg) st = (settled, overflow, st1)" by (metis prod.exhaust)
  have a: "await_overflow pub cfg overflow (resolve_all pub settled st1) = Some st'" using assms r by (simp add: reap_def)
  have "ps_step pub (st, H, n) (st1, mset settled + (mset overflow + H), n)"
    using ps_step.reaped [OF r, of H n] by (simp add: ac_simps)
  then show ?thesis
    using rtranclp_trans [OF rtranclp_trans [OF ps_one resolve_all_steps] await_steps [OF a]] by blast
qed

lemma publishes_steps:
  "publishes pub bodies st = (refused, st') \<Longrightarrow> refused \<le> length bodies \<and> ps_steps pub (st, H, n) (st', H, n + (length bodies - refused))"
proof (induction bodies arbitrary: st refused n)
  case (Cons body bodies)
  obtain r s where r: "ps_publish pub body (pb_env st) = (r, s)" by (rule prod.exhaust)
  have env: "ps_steps pub (st, H, m) (st\<lparr>pb_env := s\<rparr>, H, m)" for m by (rule ps_one, rule ps_step.env)
  show ?case
  proof (cases r)
    case (Inl e)
    then obtain k where k: "publishes pub bodies (st\<lparr>pb_env := s\<rparr>) = (k, st')" "refused = Suc k" using Cons.prems r by (auto split: prod.splits)
    show ?thesis using Cons.IH [OF k(1), of n] k(2) rtranclp_trans [OF env [of n]] by auto
  next
    case (Inr f)
    then have p: "publishes pub bodies (register f (st\<lparr>pb_env := s\<rparr>)) = (refused, st')" using Cons.prems r by simp
    have "ps_steps pub (st, H, n) (register f (st\<lparr>pb_env := s\<rparr>), H, Suc n)"
      by (rule rtranclp_trans [OF env]) (rule ps_one, rule ps_step.published)
    then show ?thesis using Cons.IH [OF p, of "Suc n"] rtranclp_trans by (fastforce simp: Suc_diff_le)
  qed
qed simp

lemma emit_steps:
  assumes "pubsub_emit pub cfg dumps batch st = Some (r, st')"
  shows "ps_steps pub (st, H, n) (st', H, n + (if r = Inr () then length batch else 0))"
proof -
  obtain encoded p1 where enc: "encode_events (wire_body dumps) C_REJECTED batch new_deferral = (encoded, p1)" by (rule prod.exhaust)
  have p1: "length encoded + pending_of p1 C_REJECTED = length batch" "pending_of p1 C_FAILED = 0" "deferral_wf p1"
    using encode_events_accounts(1,3) [OF enc] encode_events_accounts(2) [OF enc, of C_FAILED] by simp_all
  consider (none) "batch = [] \<or> pb_shut st" | (dropped) "batch \<noteq> []" "\<not> pb_shut st" "encoded = []" | (sent) "batch \<noteq> []" "\<not> pb_shut st" "encoded \<noteq> []" by blast
  then show ?thesis
  proof cases
    case none
    then show ?thesis using assms by (auto simp: pubsub_emit_def split: if_splits)
  next
    case dropped
    then have "r = Inr ()" "st' = st\<lparr>pb_counters := fst (deferral_exit False p1 (pb_counters st))\<rparr>" using assms enc by (auto simp: pubsub_emit_def)
    then show ?thesis using p1 dropped(3) ps_one [OF ps_step.counts [of _ st "length batch" pub H n]] by (auto simp: deferral_exit_counts)
  next
    case sent
    obtain refused st1 where pub: "publishes pub (map snd encoded) st = (refused, st1)" by (rule prod.exhaust)
    define p2 where "p2 = (if 0 < refused then defer_announce refused (defer_count C_REJECTED refused p1) else p1)"
    define none where "none = (refused = length encoded)"
    obtain st2 where r: "reap pub cfg st1 = Some st2" "r = (if none then Inl SinkDeliveryError else Inr ())"
        "st' = st2\<lparr>pb_counters := fst (deferral_exit none p2 (pb_counters st2))\<rparr>"
      using assms sent enc pub by (auto simp: pubsub_emit_def none_def p2_def Let_def)
    have p2: "pending_of p2 C_REJECTED = pending_of p1 C_REJECTED + refused" "pending_of p2 C_FAILED = 0" "deferral_wf p2" using p1 by (simp_all add: p2_def)
    have le: "refused \<le> length encoded" and steps: "ps_steps pub (st, H, n) (st1, H, n + (length encoded - refused))"
      using publishes_steps [OF pub, of H n] by (simp_all only: length_map)
    let ?k = "if none then 0 else pending_of p2 C_REJECTED"
    have step: "ps_step pub (st2, H, n + (length encoded - refused)) (st', H, n + (length encoded - refused) + ?k)"
      unfolding r(3) by (rule ps_step.counts) (use p2 in \<open>simp_all add: deferral_exit_counts\<close>)
    have "length encoded - refused + ?k = (if r = Inr () then length batch else 0)" using p1(1) p2(1) le r(2) by (auto simp: none_def)
    then show ?thesis using rtranclp_trans [OF rtranclp_trans [OF steps reap_steps [OF r(1)]] ps_one [OF step]] by (simp only: add.assoc)
  qed
qed

lemma flush_steps:
  assumes "pubsub_flush pub cfg st = Some (r, st')"
  shows "ps_steps pub (st, H, n) (st', H, n)"
proof -
  obtain t st1 where t: "now pub (st\<lparr>pb_futures := []\<rparr>) = (t, st1)" by (rule prod.exhaust)
  have take: "ps_steps pub (st, H, n) (st1, mset (pb_futures st) + H, n)"
    by (rule rtranclp_trans [OF ps_one [OF ps_step.taken] now_steps [OF t]])
  consider "pb_shut st" "st' = st" | "pb_futures st = []" "st' = st\<lparr>pb_futures := []\<rparr>" |
    (waited) expired unboundable st2 where "resolve_within pub (pb_futures st) (t + pc_overflow_timeout cfg) True st1 = Some (expired, unboundable, st2)"
      "if expired @ unboundable = [] then st' = st2 else put_back pub cfg (expired @ unboundable) st2 = Some st'"
    using assms t by (auto simp: pubsub_flush_def Let_def split: if_splits option.splits)
  then show ?thesis
  proof cases
    case waited
    have "ps_steps pub (st, H, n) (st2, mset (expired @ unboundable) + H, n)"
      by (rule rtranclp_trans [OF take resolve_within_steps [OF waited(1)]])
    then show ?thesis using waited(2) rtranclp_trans [OF _ put_back_steps, of pub _ st2 "expired @ unboundable" H n cfg st'] by (auto split: if_splits)
  next
    case 2
    then show ?thesis using ps_step.taken [of pub st H n] by (auto intro: ps_one)
  qed simp
qed

lemma close_steps:
  assumes "pubsub_close pub cfg st = Some st'"
  shows "ps_steps pub (st, H, n) (st', H, n)" and "pb_shut st'"
proof -
  have drain: "drain_pending pub cfg (pb_futures st) (st\<lparr>pb_shut := True, pb_futures := []\<rparr>) = Some st'" using assms by (simp add: pubsub_close_def)
  show "ps_steps pub (st, H, n) (st', H, n)" by (rule rtranclp_trans [OF ps_one [OF ps_step.shutting] drain_steps [OF drain]])
  have "pb_shut (fst x) \<Longrightarrow> pb_shut (fst y)" if "ps_steps pub x y" for x y
    using that by induction (auto elim!: ps_step.cases simp: register_def dest: resolve_effect(2) reap_split_parts(3))
  from this [OF drain_steps [OF drain, of "{#}" 0]] show "pb_shut st'" by simp
qed

subsection \<open>Waits end\<close>

text \<open>What is documented of time: the clock does not go back, and a result asked for within a timeout
  that is not there takes that long.\<close>

definition ticking :: "('f, 's) publisher \<Rightarrow> ('s \<Rightarrow> rat) \<Rightarrow> bool" where
  "ticking pub clock \<longleftrightarrow>
     (\<forall>s t s'. ps_monotonic pub s = (t, s') \<longrightarrow> clock s \<le> t \<and> t \<le> clock s') \<and>
     (\<forall>f timeout s r s'. ps_result pub f timeout s = (r, s') \<longrightarrow> clock s \<le> clock s') \<and>
     (\<forall>f t s s'. ps_result pub f (Some t) s = (Inl TimeoutExn, s') \<longrightarrow> clock s + t \<le> clock s') \<and>
     (\<forall>t s. clock s \<le> clock (ps_wait pub t s))"

lemma tickingD:
  assumes "ticking pub clock"
  shows "now pub st = (t, st') \<Longrightarrow> clock (pb_env st) \<le> t \<and> t \<le> clock (pb_env st')"
    and "resolve pub f timeout st = (v, st') \<Longrightarrow> clock (pb_env st) \<le> clock (pb_env st')"
    and "resolve pub f (Some slice) st = (Answered False, st') \<Longrightarrow> clock (pb_env st) + slice \<le> clock (pb_env st')"
    and "clock s \<le> clock (ps_wait pub x s)"
  using assms by (auto simp: ticking_def now_def resolve_def Let_def split: prod.splits sum.splits if_splits)

lemma poll_once_advances:
  assumes "ticking pub clock" and "poll_once pub f deadline heed st = (None, st')"
  shows "clock (pb_env st) < deadline" and "deadline \<le> clock (pb_env st') \<or> clock (pb_env st) + POLL_INTERVAL \<le> clock (pb_env st')"
proof -
  note laws = tickingD [OF assms(1)]
  obtain t1 st1 where t1: "now pub st = (t1, st1)" by (rule prod.exhaust)
  obtain began st2 where began: "now pub st1 = (began, st2)" by (rule prod.exhaust)
  define slice where "slice = min (deadline - began) POLL_INTERVAL"
  obtain v st3 where v: "resolve pub f (Some slice) st2 = (v, st3)" by (rule prod.exhaust)
  obtain t4 st4 where t4: "now pub st3 = (t4, st4)" by (rule prod.exhaust)
  have early: "t1 < deadline" and st': "v = Answered False" "st' = st4\<lparr>pb_env := ps_wait pub (slice - (t4 - began)) (pb_env st4)\<rparr>"
    using assms(2) t1 began v t4
    by (auto simp: poll_once_def past_def slice_def Let_def not_le split: verdict.splits bool.splits if_splits)
  have "clock (pb_env st3) \<le> clock (pb_env st')" using laws(1) [OF t4] laws(4) [of "pb_env st4"] st'(2) by (force intro: order.trans)
  moreover have "clock (pb_env st2) + slice \<le> clock (pb_env st3)" using laws(3) v st'(1) by simp
  moreover have "clock (pb_env st) \<le> t1" "t1 \<le> clock (pb_env st1)" "clock (pb_env st1) \<le> began" "began \<le> clock (pb_env st2)"
    using laws(1) [OF t1] laws(1) [OF began] by simp_all
  ultimately show "clock (pb_env st) < deadline" "deadline \<le> clock (pb_env st') \<or> clock (pb_env st) + POLL_INTERVAL \<le> clock (pb_env st')"
    using early by (auto simp: slice_def min_def split: if_splits)
qed

text \<open>Polling one future takes at most one round per interval until the deadline, and one more.\<close>

lemma poll_loop_returns:
  assumes "ticking pub clock"
  shows "deadline \<le> clock (pb_env st) + of_nat k * POLL_INTERVAL \<Longrightarrow> \<exists>out. poll_loop pub f deadline heed st = Some out"
proof (induction k arbitrary: st)
  case 0
  obtain q st1 where q: "poll_once pub f deadline heed st = (q, st1)" by (rule prod.exhaust)
  have "q \<noteq> None" using poll_once_advances(1) [OF assms] q 0 by fastforce
  then show ?case using q by (subst poll_loop.simps) auto
next
  case (Suc k)
  obtain q st1 where q: "poll_once pub f deadline heed st = (q, st1)" by (rule prod.exhaust)
  show ?case
  proof (cases q)
    case None
    have "0 \<le> of_nat k * POLL_INTERVAL" by (simp add: POLL_INTERVAL_def)
    then have "deadline \<le> clock (pb_env st1) + of_nat k * POLL_INTERVAL"
      using poll_once_advances(2) [OF assms] q None Suc.prems by (force simp: distrib_right)
    from Suc.IH [OF this] show ?thesis using q None by (subst poll_loop.simps) auto
  qed (use q in \<open>subst poll_loop.simps, auto\<close>)
qed

lemma poll_loop_total:
  assumes "ticking pub clock"
  shows "\<exists>p st'. poll_loop pub f deadline heed st = Some (p, st')"
proof -
  obtain k where "(deadline - clock (pb_env st)) / POLL_INTERVAL \<le> of_nat k" using real_arch_simple by blast
  then have "deadline \<le> clock (pb_env st) + of_nat k * POLL_INTERVAL" by (simp add: POLL_INTERVAL_def)
  then show ?thesis using poll_loop_returns [OF assms] by fastforce
qed

lemma resolve_within_total:
  assumes "ticking pub clock"
  shows "\<exists>expired unboundable st'. resolve_within pub fs deadline heed st = Some (expired, unboundable, st')"
proof (induction fs arbitrary: st)
  case (Cons f fs)
  obtain p st1 where p: "poll_loop pub f deadline heed st = Some (p, st1)" using poll_loop_total [OF assms] by blast
  obtain e u st2 where rest: "resolve_within pub fs deadline heed st1 = Some (e, u, st2)" using Cons.IH by blast
  obtain e' u' st3 where "classify_remainder pub (f # fs) st1 = (e', u', st3)" by (metis prod.exhaust)
  then show ?case using rest p by (cases p) (simp_all del: classify_remainder.simps)
qed simp

lemma drain_total: "ticking pub clock \<Longrightarrow> \<exists>st'. drain_pending pub cfg fs st = Some st'"
  using resolve_within_total by (fastforce simp: drain_pending_def split: prod.splits)

lemma put_back_total: "ticking pub clock \<Longrightarrow> \<exists>st'. put_back pub cfg fs st = Some st'"
  using drain_total by (auto simp: put_back_def)

lemma waits_total:
  assumes "ticking pub clock"
  shows "\<exists>st'. await_overflow pub cfg fs st = Some st'" and "\<exists>r st'. pubsub_flush pub cfg st = Some (r, st')"
proof -
  have w: "\<exists>expired unboundable st'. resolve_within pub fs deadline heed st = Some (expired, unboundable, st')" for fs deadline heed st
    by (rule resolve_within_total [OF assms])
  obtain t st1 where t: "now pub st = (t, st1)" by (rule prod.exhaust)
  obtain e u st2 where "resolve_within pub fs (t + pc_overflow_timeout cfg) True st1 = Some (e, u, st2)" using w by blast
  then show "\<exists>st'. await_overflow pub cfg fs st = Some st'" using t put_back_total [OF assms] by (auto simp: await_overflow_def)
  obtain t st1 where t: "now pub (st\<lparr>pb_futures := []\<rparr>) = (t, st1)" by (rule prod.exhaust)
  obtain e u st2 where "resolve_within pub (pb_futures st) (t + pc_overflow_timeout cfg) True st1 = Some (e, u, st2)" using w by blast
  then show "\<exists>r st'. pubsub_flush pub cfg st = Some (r, st')"
    using t put_back_total [OF assms, of cfg "e @ u" st2] by (auto simp: pubsub_flush_def Let_def)
qed

lemma emit_total:
  assumes "ticking pub clock"
  shows "\<exists>r st'. pubsub_emit pub cfg dumps batch st = Some (r, st')"
proof -
  have "\<exists>st'. reap pub cfg st = Some st'" for st
    using waits_total(1) [OF assms] by (auto simp: reap_def split: prod.split)
  then show ?thesis by (fastforce simp: pubsub_emit_def Let_def split: prod.split)
qed

subsection \<open>Every event is accounted for\<close>

datatype pubsub_op = PEmit "event list" | PFlush | PClose

text \<open>A run of calls, with the number of events of the batches that were taken. It is an option because a
  call may not return.\<close>

fun pubsub_call :: "('f, 's) publisher \<Rightarrow> pubsub_cfg \<Rightarrow> (jval \<Rightarrow> pystr result) \<Rightarrow> pubsub_op \<Rightarrow> ('f, 's) pubsub \<times> nat \<Rightarrow> (('f, 's) pubsub \<times> nat) option" where
  "pubsub_call pub cfg dumps (PEmit batch) (st, n) =
     map_option (\<lambda>(r, st'). (st', n + (if r = Inr () then length batch else 0))) (pubsub_emit pub cfg dumps batch st)"
| "pubsub_call pub cfg dumps PFlush (st, n) = map_option (\<lambda>(r, st'). (st', n)) (pubsub_flush pub cfg st)"
| "pubsub_call pub cfg dumps PClose (st, n) = map_option (\<lambda>st'. (st', n)) (pubsub_close pub cfg st)"

fun pubsub_run :: "('f, 's) publisher \<Rightarrow> pubsub_cfg \<Rightarrow> (jval \<Rightarrow> pystr result) \<Rightarrow> pubsub_op list \<Rightarrow> ('f, 's) pubsub \<times> nat \<Rightarrow> (('f, 's) pubsub \<times> nat) option" where
  "pubsub_run pub cfg dumps [] x = Some x"
| "pubsub_run pub cfg dumps (op # ops) x =
     (case pubsub_call pub cfg dumps op x of None \<Rightarrow> None | Some y \<Rightarrow> pubsub_run pub cfg dumps ops y)"

definition new_pubsub :: "'s \<Rightarrow> ('f, 's) pubsub" where
  "new_pubsub s = \<lparr>pb_futures = [], pb_shut = False, pb_counters = (\<lambda>_. 0), pb_confirmed = [], pb_env = s\<rparr>"

lemma pubsub_call_steps: "pubsub_call pub cfg dumps op (st, n) = Some (st', n') \<Longrightarrow> ps_steps pub (st, {#}, n) (st', {#}, n')"
  by (cases op) (auto intro: emit_steps flush_steps close_steps)

lemma pubsub_call_total: "ticking pub clock \<Longrightarrow> \<exists>st' n'. pubsub_call pub cfg dumps op (st, n) = Some (st', n')"
  using emit_total [of pub clock cfg dumps _ st] waits_total(2) [of pub clock cfg st] drain_total [of pub clock cfg]
  by (cases op) (fastforce simp: pubsub_close_def)+

lemma pubsub_run_total: "ticking pub clock \<Longrightarrow> \<exists>st' n'. pubsub_run pub cfg dumps ops (st, n) = Some (st', n') \<and> ps_steps pub (st, {#}, n) (st', {#}, n')"
proof (induction ops arbitrary: st n)
  case (Cons op ops)
  obtain st1 n1 where c: "pubsub_call pub cfg dumps op (st, n) = Some (st1, n1)" using pubsub_call_total [OF Cons.prems] by blast
  show ?case using Cons.IH [OF Cons.prems, of st1 n1] c rtranclp_trans [OF pubsub_call_steps [OF c]] by auto
qed simp


text \<open>C36. However the calls of several threads interleave, no future is lost: those published are
  confirmed, counted, pending or in the hands of a thread, and once the sink is closed and no thread
  holds one, every event is confirmed or counted.\<close>

theorem pubsub_interleaved:
  assumes "ps_steps pub (new_pubsub s, {#}, 0) (st, H, n)"
  shows "length (pb_confirmed st) + sl_failed (pubsub_losses st) + sl_dropped (pubsub_losses st) + length (pb_futures st) + size H = n \<and>
    (pb_shut st \<and> H = {#} \<longrightarrow> length (pb_confirmed st) + sl_failed (pubsub_losses st) + sl_dropped (pubsub_losses st) = n)"
proof -
  have "ps_ledger (st, H, n)" by (rule ps_steps_ledger [OF assms]) (simp add: ps_ledger_def new_pubsub_def)
  then show ?thesis by (auto simp: ps_ledger_def pubsub_losses_def)
qed

text \<open>A client that refuses every other body and confirms at once; the environment is the time in tenths.\<close>

definition demo_pub :: "(nat, rat) publisher" where
  "demo_pub = \<lparr>ps_publish = \<lambda>body t. (if length body = 0 then Inl RuntimeError else Inr (length body), t),
     ps_result = \<lambda>f timeout t. (case timeout of None \<Rightarrow> (Inr (), t) | Some w \<Rightarrow> if f < 3 then (Inr (), t) else (Inl TimeoutExn, t + max w 0)),
     ps_done = \<lambda>f t. None, ps_monotonic = \<lambda>t. (t, t), ps_wait = \<lambda>w t. t + max w 0, ps_stopped = \<lambda>_. False\<rparr>"

lemma demo_ticking: "ticking demo_pub id"
  by (auto simp: ticking_def demo_pub_def TimeoutExn_def split: option.splits if_splits)


theorem pubsub_interleaved_witness:
  "let st = register (5::nat) (new_pubsub (0::rat)); st' = st\<lparr>pb_shut := True, pb_futures := []\<rparr>
   in length (pb_confirmed st') + sl_failed (pubsub_losses st') + sl_dropped (pubsub_losses st') + length (pb_futures st') + size (mset (pb_futures st)) = 1"
proof -
  let ?st = "register (5::nat) (new_pubsub (0::rat))"
  have "ps_steps demo_pub (new_pubsub 0, {#}, 0) (?st\<lparr>pb_shut := True, pb_futures := []\<rparr>, mset (pb_futures ?st) + {#}, Suc 0)"
    by (rule rtranclp_trans [OF ps_one [OF ps_step.published] ps_one [OF ps_step.shutting]])
  from pubsub_interleaved [OF this] show ?thesis by (simp add: Let_def)
qed

end
