(* ===== verification/Wrapper_Sinks.thy ===== *)
theory Wrapper_Sinks
  imports Batch_Emit Digits
begin

text \<open>
  The sinks that are built of other sinks or keep events in memory: \<^verbatim>\<open>sinks/multi.py\<close>,
  \<^verbatim>\<open>sinks/filtering.py\<close>, \<^verbatim>\<open>sinks/transform.py\<close>, \<^verbatim>\<open>sinks/memory.py\<close>, \<^verbatim>\<open>sinks/null.py\<close>,
  \<^verbatim>\<open>sinks/callback.py\<close> and \<^verbatim>\<open>sinks/stdout.py\<close>. A configuration is a tree of them; a leaf that is
  none of these, a callback or a sink of the application, is one that answers its n-th emit as an
  argument says. The theorem about trees is that no loss is silent: an emit that returns and moves
  no loss counter has delivered to every leaf.
\<close>

subsection \<open>Transforming\<close>

text \<open>What the process and the language contribute: the limit on integer texts, \<^verbatim>\<open>sys.maxsize\<close>,
  \<^verbatim>\<open>float.__repr__\<close>, \<^verbatim>\<open>str.upper\<close>, and the JSON value that \<^verbatim>\<open>json.dumps\<close> writes for an object
  it accepts.\<close>

record penv =
  pe_digits :: int
  pe_maxsize :: nat
  pe_frepr :: "rat \<Rightarrow> pystr"
  pe_upper :: "pystr \<Rightarrow> pystr"
  pe_json :: "heap \<Rightarrow> ref \<Rightarrow> jval option"

text \<open>What \<^verbatim>\<open>json.dumps(..., allow_nan=False, ensure_ascii=False).encode("utf-8")\<close> accepts.\<close>

fun strict_json :: "int \<Rightarrow> jval \<Rightarrow> bool" where
  "strict_json limit (JInt i) = (limit \<le> 0 \<or> int (length (decimal (nat \<bar>i\<bar>))) \<le> limit)"
| "strict_json limit (JFloat f) = finite_flt f"
| "strict_json limit (JStr s) = list_all (\<lambda>c. \<not> is_surrogate c) s"
| "strict_json limit (JList js) = list_all (strict_json limit) js"
| "strict_json limit (JDict kvs) = list_all (\<lambda>(k, j). list_all (\<lambda>c. \<not> is_surrogate c) k \<and> strict_json limit j) kvs"
| "strict_json limit _ = True"

definition tr_check :: "penv \<Rightarrow> jval \<Rightarrow> unit result" where
  "tr_check pe j = (if strict_json (pe_digits pe) j then Inr () else Inl ValueError)"

text \<open>The event an object stands for when it passes the check as it is.\<close>

definition tr_passes :: "penv \<Rightarrow> heap \<Rightarrow> ref \<Rightarrow> event option" where
  "tr_passes pe h r =
     (case pe_json pe h r of
        Some (JDict d) \<Rightarrow> if strict_json (pe_digits pe) (JDict d) then Some d else None
      | _ \<Rightarrow> None)"

definition json_safe :: "penv \<Rightarrow> heap \<Rightarrow> ref \<Rightarrow> event result" where
  "json_safe pe h r =
     (case tr_passes pe h r of
        Some ev \<Rightarrow> Inr ev
      | None \<Rightarrow>
          (case coerce_unbounded (pe_digits pe) (pe_maxsize pe) (pe_frepr pe) h r of
             Inl e \<Rightarrow> Inl e
           | Inr (coerced, marked) \<Rightarrow>
               let coerced = (if marked then dict_set TRUNCATED (JBool True) coerced else coerced)
               in (case tr_check pe (JDict coerced) of Inl e \<Rightarrow> Inl e | Inr _ \<Rightarrow> Inr coerced)))"

text \<open>What a transform function returned: nothing, or an object.\<close>

type_synonym transform_fn = "event \<Rightarrow> (heap \<times> ref) option result"

definition tr_apply :: "penv \<Rightarrow> transform_fn \<Rightarrow> event \<Rightarrow> event option result" where
  "tr_apply pe fn ev =
     (case fn ev of
        Inl e \<Rightarrow> Inl e
      | Inr None \<Rightarrow> Inr None
      | Inr (Some (h, r)) \<Rightarrow>
          if o_base (h r) \<noteq> BDict then Inl TypeError else map_sum id Some (json_safe pe h r))"

subsection \<open>Filtering\<close>

definition LEVELS :: "(pystr, nat) dict" where
  "LEVELS = [(str ''DEBUG'', 10), (str ''INFO'', 20), (str ''WARNING'', 30), (str ''ERROR'', 40), (str ''CRITICAL'', 50)]"

definition min_rank :: "penv \<Rightarrow> pystr option \<Rightarrow> nat option result" where
  "min_rank pe min_level =
     (case min_level of
        None \<Rightarrow> Inr None
      | Some l \<Rightarrow> (case dict_get LEVELS (pe_upper pe l) of None \<Rightarrow> Inl ValueError | Some rank \<Rightarrow> Inr (Some rank)))"

definition fi_passes :: "penv \<Rightarrow> (event \<Rightarrow> bool result) option \<Rightarrow> nat option \<Rightarrow> event \<Rightarrow> bool result" where
  "fi_passes pe predicate floor_rank ev =
     (case (case predicate of None \<Rightarrow> Inr True | Some p \<Rightarrow> p ev) of
        Inl e \<Rightarrow> Inl e
      | Inr False \<Rightarrow> Inr False
      | Inr True \<Rightarrow>
          (case floor_rank of
             None \<Rightarrow> Inr True
           | Some least \<Rightarrow>
               (case dict_get ev (str ''level'') of
                  Some (JStr l) \<Rightarrow> (case dict_get LEVELS (pe_upper pe l) of Some rank \<Rightarrow> Inr (\<not> rank < least) | None \<Rightarrow> Inr True)
                | _ \<Rightarrow> Inr True)))"

subsection \<open>The loop both wrappers run\<close>

record picked =
  pk_kept :: "event list"
  pk_declined :: bool
  pk_failures :: nat
  pk_first :: "pyexn option"

text \<open>\<open>apply\<close> keeps an event, possibly changed, declines it, or raises.\<close>

fun pick :: "(event \<Rightarrow> event option result) \<Rightarrow> event list \<Rightarrow> picked \<Rightarrow> picked" where
  "pick apply [] p = p"
| "pick apply (ev # evs) p =
     pick apply evs
       (case apply ev of
          Inl e \<Rightarrow> p\<lparr>pk_failures := Suc (pk_failures p), pk_first := (case pk_first p of None \<Rightarrow> Some e | Some e' \<Rightarrow> Some e')\<rparr>
        | Inr None \<Rightarrow> p\<lparr>pk_declined := True\<rparr>
        | Inr (Some ev') \<Rightarrow> p\<lparr>pk_kept := pk_kept p @ [ev']\<rparr>)"

definition pick_all :: "(event \<Rightarrow> event option result) \<Rightarrow> event list \<Rightarrow> picked" where
  "pick_all apply batch = pick apply batch \<lparr>pk_kept = [], pk_declined = False, pk_failures = 0, pk_first = None\<rparr>"

abbreviation C_DROPPED :: pystr where "C_DROPPED \<equiv> str ''_dropped''"
abbreviation C_ABSORBED :: pystr where "C_ABSORBED \<equiv> str ''_absorbed''"

definition wrapper_emit :: "(event \<Rightarrow> event option result) \<Rightarrow> (event list \<Rightarrow> 's \<Rightarrow> unit result \<times> 's) \<Rightarrow> event list \<Rightarrow> counters \<times> 's \<Rightarrow>
    unit result \<times> counters \<times> 's" where
  "wrapper_emit apply inner_emit batch = (\<lambda>(c, inner).
     let p = pick_all apply batch
     in case (pk_first p, pk_kept p = [] \<and> \<not> pk_declined p) of
          (Some e, True) \<Rightarrow> (Inl e, c, inner)
        | _ \<Rightarrow>
            let pending = (if 0 < pk_failures p then defer_announce (pk_failures p) (defer_count C_DROPPED (pk_failures p) new_deferral) else new_deferral)
            in if pk_kept p = [] then (Inr (), fst (deferral_exit False pending c), inner)
               else case inner_emit (pk_kept p) inner of
                      (Inl e, inner') \<Rightarrow> (Inl e, fst (deferral_exit True pending c), inner')
                    | (Inr _, inner') \<Rightarrow> (Inr (), fst (deferral_exit False pending c), inner'))"

definition fi_apply :: "penv \<Rightarrow> (event \<Rightarrow> bool result) option \<Rightarrow> nat option \<Rightarrow> event \<Rightarrow> event option result" where
  "fi_apply pe predicate floor_rank ev = map_sum id (\<lambda>b. if b then Some ev else None) (fi_passes pe predicate floor_rank ev)"

subsection \<open>Trees of sinks\<close>

record outer =
  ou_answers :: "nat \<Rightarrow> unit result"
  ou_calls :: nat
  ou_taken :: "event list"
  ou_flush :: "unit result option"
  ou_losses :: "sink_losses option result option"

datatype sink =
    Outer outer
  | Memory "nat option" "event list"
  | Null nat
  | Multi counters "sink list"
  | Filtering "(event \<Rightarrow> bool result) option" "nat option" counters sink
  | Transform transform_fn counters sink

definition memory_new :: "numarg option \<Rightarrow> sink result" where
  "memory_new maxlen =
     (case maxlen of
        None \<Rightarrow> Inr (Memory None [])
      | Some arg \<Rightarrow> map_sum id (\<lambda>n. Memory (Some (nat n)) []) (require_positive arg))"

definition memory_emit :: "nat option \<Rightarrow> event list \<Rightarrow> event list \<Rightarrow> event list" where
  "memory_emit maxlen evs batch =
     (let evs = evs @ batch
      in case maxlen of Some n \<Rightarrow> if n < length evs then drop (length evs - n) evs else evs | None \<Rightarrow> evs)"

text \<open>The fan-out: every child gets the batch whatever the others did.\<close>

definition multi_emit :: "event list \<Rightarrow> counters \<Rightarrow> (unit result \<times> sink) list \<Rightarrow> unit result \<times> sink" where
  "multi_emit batch c answers =
     (let errors = concat (map (\<lambda>(r, _). case r of Inl e \<Rightarrow> [e] | Inr _ \<Rightarrow> []) answers);
          delivered = length (filter (\<lambda>(r, _). \<not> isl r) answers);
          c = bump C_FAILED (length errors) c;
          pending = fold (\<lambda>_. defer_count C_ABSORBED (length batch)) errors new_deferral
      in case errors of
           e # _ \<Rightarrow> if delivered = 0 then (Inl e, Multi (fst (deferral_exit True pending c)) (map snd answers))
                     else (Inr (), Multi (fst (deferral_exit False pending c)) (map snd answers))
         | [] \<Rightarrow> (Inr (), Multi (fst (deferral_exit False pending c)) (map snd answers)))"

fun emit_sink :: "penv \<Rightarrow> event list \<Rightarrow> sink \<Rightarrow> unit result \<times> sink" where
  "emit_sink pe batch (Outer ou) =
     (case ou_answers ou (ou_calls ou) of
        Inl e \<Rightarrow> (Inl e, Outer (ou\<lparr>ou_calls := Suc (ou_calls ou)\<rparr>))
      | Inr _ \<Rightarrow> (Inr (), Outer (ou\<lparr>ou_calls := Suc (ou_calls ou), ou_taken := ou_taken ou @ batch\<rparr>)))"
| "emit_sink pe batch (Memory maxlen evs) = (Inr (), Memory maxlen (memory_emit maxlen evs batch))"
| "emit_sink pe batch (Null n) = (Inr (), Null (n + length batch))"
| "emit_sink pe batch (Multi c sinks) = multi_emit batch c (map (emit_sink pe batch) sinks)"
| "emit_sink pe batch (Filtering predicate floor_rank c s) =
     (let (r, c', s') = wrapper_emit (fi_apply pe predicate floor_rank) (\<lambda>b s'. emit_sink pe b s) batch (c, s)
      in (r, Filtering predicate floor_rank c' s'))"
| "emit_sink pe batch (Transform fn c s) =
     (let (r, c', s') = wrapper_emit (tr_apply pe fn) (\<lambda>b s'. emit_sink pe b s) batch (c, s)
      in (r, Transform fn c' s'))"

definition sum_losses :: "sink_losses option list \<Rightarrow> nat \<Rightarrow> sink_losses option" where
  "sum_losses children absorbed =
     (let reported = concat (map (\<lambda>l. case l of None \<Rightarrow> [] | Some x \<Rightarrow> [x]) children)
      in if reported = [] \<and> absorbed = 0 then None
         else Some \<lparr>sl_dropped = sum_list (map sl_dropped reported), sl_failed = sum_list (map sl_failed reported) + absorbed\<rparr>)"

fun losses_sink :: "sink \<Rightarrow> sink_losses option" where
  "losses_sink (Outer ou) = read_losses (ou_losses ou)"
| "losses_sink (Memory maxlen evs) = None"
| "losses_sink (Null n) = None"
| "losses_sink (Multi c sinks) = sum_losses (map losses_sink sinks) (c C_ABSORBED)"
| "losses_sink (Filtering predicate floor_rank c s) = wrapped_losses (losses_sink s) (c C_DROPPED)"
| "losses_sink (Transform fn c s) = wrapped_losses (losses_sink s) (c C_DROPPED)"

text \<open>Flushing: the first error of the children, after all of them were flushed.\<close>

fun flush_tree :: "sink \<Rightarrow> bool result" where
  "flush_tree (Outer ou) = flush_sink (ou_flush ou)"
| "flush_tree (Memory maxlen evs) = Inr False"
| "flush_tree (Null n) = Inr False"
| "flush_tree (Multi c sinks) =
     (case concat (map (\<lambda>s. case flush_tree s of Inl e \<Rightarrow> [e] | Inr _ \<Rightarrow> []) sinks) of e # _ \<Rightarrow> Inl e | [] \<Rightarrow> Inr True)"
| "flush_tree (Filtering predicate floor_rank c s) = map_sum id (\<lambda>_. True) (flush_tree s)"
| "flush_tree (Transform fn c s) = map_sum id (\<lambda>_. True) (flush_tree s)"

subsection \<open>Standard output\<close>

text \<open>A text stream whose calls may raise.\<close>

record stream =
  sm_answers :: "nat \<Rightarrow> unit result"
  sm_calls :: nat
  sm_written :: "pystr list"

definition stream_call :: "pystr list \<Rightarrow> stream \<Rightarrow> unit result \<times> stream" where
  "stream_call texts sm =
     (case sm_answers sm (sm_calls sm) of
        Inl e \<Rightarrow> (Inl e, sm\<lparr>sm_calls := Suc (sm_calls sm)\<rparr>)
      | Inr _ \<Rightarrow> (Inr (), sm\<lparr>sm_calls := Suc (sm_calls sm), sm_written := sm_written sm @ texts\<rparr>))"

fun stdout_lines :: "pystr list \<Rightarrow> stream \<Rightarrow> unit result \<times> stream" where
  "stdout_lines [] sm = stream_call [] sm"
| "stdout_lines (line # lines) sm =
     (case stream_call [line] sm of (Inl e, sm') \<Rightarrow> (Inl e, sm') | (Inr _, sm') \<Rightarrow> stdout_lines lines sm')"

definition stdout_emit :: "(event \<Rightarrow> pystr result) \<Rightarrow> event list \<Rightarrow> stream \<times> counters \<Rightarrow> unit result \<times> stream \<times> counters" where
  "stdout_emit dumps batch = (\<lambda>(sm, c).
     let (lines, pending) = encode_events (\<lambda>ev. map_sum id (\<lambda>body. body @ [10]) (dumps ev)) C_UNENCODABLE batch new_deferral
     in if batch \<noteq> [] \<and> lines = [] then (Inr (), sm, fst (deferral_exit False pending c))
        else case stdout_lines (map snd lines) sm of
               (Inl e, sm') \<Rightarrow> (Inl e, sm', fst (deferral_exit True pending c))
             | (Inr _, sm') \<Rightarrow> (Inr (), sm', fst (deferral_exit False pending c)))"

definition stdout_losses :: "counters \<Rightarrow> sink_losses option" where
  "stdout_losses c = (if c C_UNENCODABLE = 0 then None else Some \<lparr>sl_dropped = c C_UNENCODABLE, sl_failed = 0\<rparr>)"

lemma stdout_lines_written:
  "stdout_lines lines sm = (Inr (), sm') \<Longrightarrow> sm_written sm' = sm_written sm @ lines"
  by (induction lines arbitrary: sm) (auto simp: stream_call_def split: sum.splits prod.splits)

text \<open>An emit that returns has written one line for each event, in order, or counted it.\<close>

lemma stdout_emit_accounts:
  assumes "stdout_emit dumps batch (sm, c) = (Inr (), sm', c')"
  shows "length (sm_written sm') + c' C_UNENCODABLE = length (sm_written sm) + c C_UNENCODABLE + length batch"
proof -
  obtain lines pending where enc: "encode_events (\<lambda>ev. map_sum id (\<lambda>body. body @ [10]) (dumps ev)) C_UNENCODABLE batch new_deferral = (lines, pending)"
    by (rule prod.exhaust)
  have acc: "length lines + pending_of pending C_UNENCODABLE = length batch" and wf: "deferral_wf pending"
    using encode_events_accounts(1,3) [OF enc] by simp_all
  note exit = deferral_exit_counts [OF wf, of False c C_UNENCODABLE]
  show ?thesis
  proof (cases "batch \<noteq> [] \<and> lines = []")
    case True
    then show ?thesis using assms acc exit by (auto simp: stdout_emit_def enc)
  next
    case False
    then have "stdout_lines (map snd lines) sm = (Inr (), sm')" "c' = fst (deferral_exit False pending c)"
      using assms by (auto simp: stdout_emit_def enc split: sum.splits prod.splits if_splits)
    then show ?thesis using stdout_lines_written acc exit by fastforce
  qed
qed

subsection \<open>What a transform forwards is JSON\<close>

lemma jgood_int_strict:
  assumes "rendered_length i \<le> int_digit_ceiling d m"
  shows "d \<le> 0 \<or> int (length (decimal (nat \<bar>i\<bar>))) \<le> d"
  using assms int_repr_length [of i]
  by (auto simp: rendered_length_def int_digit_ceiling_def int_repr_def split: if_splits)

lemma str_good_strict: "str_good L s \<Longrightarrow> list_all (\<lambda>c. \<not> is_surrogate c) s"
  by (auto simp: str_good_def list_all_iff scalar_def)

lemma jgood_strict: "jgood (types_only d m fr) j \<Longrightarrow> strict_json d j"
proof (induction j)
  case (JInt i)
  then show ?case using jgood_int_strict by (simp add: types_only_def)
next
  case (JDict kvs)
  then show ?case using str_good_strict by (fastforce simp: list_all_iff)
qed (auto simp: list_all_iff dest: str_good_strict [unfolded list_all_iff])

lemma coerced_strict:
  assumes "wf_world (types_only d m fr) h" and "coerce_unbounded d m fr h r = Inr (ev, marked)"
  shows "strict_json d (JDict ev)"
proof -
  let ?L = "types_only d m fr"
  have "res_law ?L (Suc (max_depth ?L)) (Suc 0) new_coercer (c_mapping ?L h (level ?L h (max_depth ?L)) r new_coercer)"
    by (rule lvl.c_mapping_law [OF assms(1) new_coercer_ok])
  then have "jgood ?L (JDict ev)" using assms(2)
    by (auto simp: coerce_unbounded_def Let_def res_law_def val_law_def split: prod.splits sum.splits jval.splits simp del: jgood.simps jdepth.simps jnodes.simps)
  then show ?thesis by (rule jgood_strict)
qed

lemma strict_marked: "strict_json d (JDict ev) \<Longrightarrow> strict_json d (JDict (dict_set TRUNCATED (JBool True) ev))"
proof -
  assume ev: "strict_json d (JDict ev)"
  have "list_all (\<lambda>c. \<not> is_surrogate c) TRUNCATED" by (simp add: TRUNCATED_def str_def is_surrogate_def)
  then have "\<forall>(k, j) \<in> insert (TRUNCATED, JBool True) (set ev). list_all (\<lambda>c. \<not> is_surrogate c) k \<and> strict_json d j"
    using ev by (auto simp: list_all_iff)
  then show ?thesis using set_dict_set [of TRUNCATED "JBool True" ev] by (auto simp: list_all_iff [of "\<lambda>(k, j). _ k j"])
qed

text \<open>Whatever dictionary a transform function returns, non-finite numbers, lone surrogates, huge
  integers, cycles and foreign objects included, what is forwarded to the inner sink is strict
  JSON that encodes as UTF-8; the check after the coercion never fails, so the event is lost only if
  reading the dictionary itself raises.\<close>

theorem transform_output_strict:
  assumes "wf_world (types_only (pe_digits pe) (pe_maxsize pe) (pe_frepr pe)) h"
  shows "case json_safe pe h r of
      Inr ev \<Rightarrow> strict_json (pe_digits pe) (JDict ev)
    | Inl e \<Rightarrow> coerce_unbounded (pe_digits pe) (pe_maxsize pe) (pe_frepr pe) h r = Inl e"
proof (cases "tr_passes pe h r")
  case (Some ev)
  then show ?thesis by (auto simp: json_safe_def tr_passes_def split: option.splits jval.splits if_splits)
next
  case None
  show ?thesis
  proof (cases "coerce_unbounded (pe_digits pe) (pe_maxsize pe) (pe_frepr pe) h r")
    case (Inr p)
    obtain ev marked where p: "p = (ev, marked)" by (rule prod.exhaust)
    have "strict_json (pe_digits pe) (JDict ev)" using coerced_strict [OF assms] Inr p by blast
    then show ?thesis using strict_marked None Inr p by (simp add: json_safe_def tr_check_def del: strict_json.simps)
  qed (simp add: json_safe_def None)
qed

text \<open>A dictionary that contains itself is refused by \<^verbatim>\<open>json.dumps\<close> and rescued by the coercion.\<close>

definition small_penv :: penv where
  "small_penv = \<lparr>pe_digits = 4300, pe_maxsize = 2 ^ 63 - 1, pe_frepr = (\<lambda>_. []), pe_upper = (\<lambda>t. t), pe_json = (\<lambda>h r. None)\<rparr>"

theorem transform_output_strict_witness:
  "wf_world (types_only (pe_digits small_penv) (pe_maxsize small_penv) (pe_frepr small_penv)) small_heap \<and>
   (case json_safe small_penv small_heap 3 of
      Inr ev \<Rightarrow> strict_json (pe_digits small_penv) (JDict ev)
    | Inl e \<Rightarrow> coerce_unbounded (pe_digits small_penv) (pe_maxsize small_penv) (pe_frepr small_penv) small_heap 3 = Inl e)"
proof -
  have w: "wf_world (types_only (pe_digits small_penv) (pe_maxsize small_penv) (pe_frepr small_penv)) small_heap"
    using small_world by (simp add: wf_world_def small_penv_def types_only_def small_limits_def budgeted_def)
  show ?thesis using w transform_output_strict [OF w] by blast
qed

subsection \<open>No loss is silent\<close>

definition kept_of :: "(event \<Rightarrow> event option result) \<Rightarrow> event list \<Rightarrow> event list" where
  "kept_of apply batch = concat (map (\<lambda>ev. case apply ev of Inr (Some ev') \<Rightarrow> [ev'] | _ \<Rightarrow> []) batch)"

lemma pick_spec:
  "pk_kept (pick apply batch p) = pk_kept p @ kept_of apply batch"
  "pk_failures (pick apply batch p) = pk_failures p + length (filter (\<lambda>ev. isl (apply ev)) batch)"
  by (induction batch arbitrary: p) (auto simp: kept_of_def split: sum.splits option.splits)

lemma pick_all_spec [simp]:
  "pk_kept (pick_all apply batch) = kept_of apply batch"
  "pk_failures (pick_all apply batch) = length (filter (\<lambda>ev. isl (apply ev)) batch)"
  by (simp_all add: pick_all_def pick_spec)

lemma C_names [simp]: "C_DROPPED \<noteq> C_FAILED" "C_ABSORBED \<noteq> C_FAILED"
  by (simp_all add: str_def)

lemma wrapper_emit_cases:
  assumes "wrapper_emit apply inner_emit batch (c, s) = (r, c', s')"
  shows "(case r of
      Inr _ \<Rightarrow> c' C_DROPPED = c C_DROPPED + length (filter (\<lambda>ev. isl (apply ev)) batch) \<and>
        (if kept_of apply batch = [] then s' = s else inner_emit (kept_of apply batch) s = (Inr (), s'))
    | Inl e \<Rightarrow> c' C_DROPPED = c C_DROPPED \<and> (s' = s \<or> inner_emit (kept_of apply batch) s = (Inl e, s')))"
proof -
  define pending where "pending = (if 0 < pk_failures (pick_all apply batch)
    then defer_announce (pk_failures (pick_all apply batch)) (defer_count C_DROPPED (pk_failures (pick_all apply batch)) new_deferral) else new_deferral)"
  have wf: "deferral_wf pending" by (simp add: pending_def)
  have pend: "pending_of pending C_DROPPED = length (filter (\<lambda>ev. isl (apply ev)) batch)" by (simp add: pending_def del: length_greater_0_conv)
  note exit = deferral_exit_counts [OF wf, of _ c C_DROPPED]
  show ?thesis using assms exit pend
    unfolding wrapper_emit_def Let_def prod.case pending_def [symmetric]
    by (auto split: option.splits bool.splits if_splits sum.splits prod.splits)
qed

definition lost :: "sink \<Rightarrow> nat" where
  "lost s = (case losses_sink s of None \<Rightarrow> 0 | Some l \<Rightarrow> sl_dropped l + sl_failed l)"

lemma sum_losses_lost:
  "(case sum_losses ls n of None \<Rightarrow> 0 | Some l \<Rightarrow> sl_dropped l + sl_failed l) =
   sum_list (map (\<lambda>l. case l of None \<Rightarrow> 0 | Some l \<Rightarrow> sl_dropped l + sl_failed l) ls) + n"
proof -
  define rep where "rep = concat (map (\<lambda>l. case l of None \<Rightarrow> [] | Some x \<Rightarrow> [x]) ls)"
  have "sum_list (map (\<lambda>l. case l of None \<Rightarrow> 0 | Some l \<Rightarrow> sl_dropped l + sl_failed l) ls) =
    sum_list (map sl_dropped rep) + sum_list (map sl_failed rep)"
    unfolding rep_def by (induction ls) (auto split: option.splits)
  then show ?thesis unfolding sum_losses_def Let_def rep_def [symmetric] by auto
qed

lemma lost_simps [simp]:
  "lost (Multi c ss) = sum_list (map lost ss) + c C_ABSORBED"
  "lost (Filtering predicate floor_rank c s) = lost s + c C_DROPPED"
  "lost (Transform fn c s) = lost s + c C_DROPPED"
  by (auto simp: lost_def [abs_def] sum_losses_lost wrapped_losses_def o_def split: option.splits)

text \<open>Where a batch goes when nothing fails, and the state of a tree without its counts of calls and
  losses.\<close>

fun route :: "penv \<Rightarrow> event list \<Rightarrow> sink \<Rightarrow> sink" where
  "route pe batch (Outer ou) = Outer (ou\<lparr>ou_taken := ou_taken ou @ batch\<rparr>)"
| "route pe batch (Memory maxlen evs) = Memory maxlen (memory_emit maxlen evs batch)"
| "route pe batch (Null n) = Null (n + length batch)"
| "route pe batch (Multi c sinks) = Multi c (map (route pe batch) sinks)"
| "route pe batch (Filtering predicate floor_rank c s) =
     Filtering predicate floor_rank c (let kept = kept_of (fi_apply pe predicate floor_rank) batch in if kept = [] then s else route pe kept s)"
| "route pe batch (Transform fn c s) =
     Transform fn c (let kept = kept_of (tr_apply pe fn) batch in if kept = [] then s else route pe kept s)"

fun erase :: "sink \<Rightarrow> sink" where
  "erase (Outer ou) = Outer (ou\<lparr>ou_calls := 0\<rparr>)"
| "erase (Memory maxlen evs) = Memory maxlen evs"
| "erase (Null n) = Null n"
| "erase (Multi c sinks) = Multi (\<lambda>_. 0) (map erase sinks)"
| "erase (Filtering predicate floor_rank c s) = Filtering predicate floor_rank (\<lambda>_. 0) (erase s)"
| "erase (Transform fn c s) = Transform fn (\<lambda>_. 0) (erase s)"

lemma multi_emit_cases:
  assumes "multi_emit batch c answers = (r, s')"
  shows "\<exists>c'. s' = Multi c' (map snd answers) \<and>
    (case r of
       Inr _ \<Rightarrow> c' C_ABSORBED = c C_ABSORBED + length batch * length (filter (\<lambda>(r, _). isl r) answers)
     | Inl _ \<Rightarrow> c' C_ABSORBED = c C_ABSORBED)"
proof -
  define errors where "errors = concat (map (\<lambda>(r, s::sink). case r of Inl e \<Rightarrow> [e] | Inr _ \<Rightarrow> []) answers)"
  define pending where "pending = fold (\<lambda>_. defer_count C_ABSORBED (length batch)) errors new_deferral"
  have n: "length errors = length (filter (\<lambda>(r, _). isl r) answers)"
    unfolding errors_def by (induction answers) (auto split: sum.splits)
  have fold: "pending_of (fold (\<lambda>_. defer_count C_ABSORBED k) es d) C_ABSORBED = pending_of d C_ABSORBED + k * length es \<and>
      (deferral_wf d \<longrightarrow> deferral_wf (fold (\<lambda>_. defer_count C_ABSORBED k) es d))" for es :: "pyexn list" and k d
    by (induction es arbitrary: d) (auto simp: algebra_simps)
  have wf: "deferral_wf pending" and pend: "pending_of pending C_ABSORBED = length batch * length errors"
    using fold [of "length batch" errors new_deferral] by (simp_all add: pending_def)
  note exit = deferral_exit_counts [OF wf, of _ "bump C_FAILED (length errors) c" C_ABSORBED]
  show ?thesis using assms exit pend n
    unfolding multi_emit_def Let_def errors_def [symmetric] pending_def [symmetric]
    by (auto simp: bump_def split: list.splits if_splits)
qed

text \<open>Counters only grow.\<close>

lemma lost_mono: "lost s \<le> lost (snd (emit_sink pe batch s))"
proof (induction pe batch s rule: emit_sink.induct)
  case (4 pe batch c sinks)
  obtain r s' where e: "emit_sink pe batch (Multi c sinks) = (r, s')" by (rule prod.exhaust)
  then obtain c' where c': "s' = Multi c' (map (\<lambda>s. snd (emit_sink pe batch s)) sinks)" "c C_ABSORBED \<le> c' C_ABSORBED"
    using multi_emit_cases [of batch c "map (emit_sink pe batch) sinks" r s'] by (fastforce simp: o_def split: sum.splits)
  have "sum_list (map lost sinks) \<le> sum_list (map (lost \<circ> (\<lambda>s. snd (emit_sink pe batch s))) sinks)"
    using 4 by (auto intro: sum_list_mono)
  then show ?case using e c' by simp
next
  case (5 pe batch predicate floor_rank c s)
  obtain r c' s' where w: "wrapper_emit (fi_apply pe predicate floor_rank) (\<lambda>b s'. emit_sink pe b s) batch (c, s) = (r, c', s')" by (rule prod_cases3)
  note cases = wrapper_emit_cases [OF w]
  have "c C_DROPPED \<le> c' C_DROPPED \<and> lost s \<le> lost s'"
    using cases 5 by (auto split: sum.splits if_splits) (metis snd_conv)+
  then show ?case using w by simp
next
  case (6 pe batch fn c s)
  obtain r c' s' where w: "wrapper_emit (tr_apply pe fn) (\<lambda>b s'. emit_sink pe b s) batch (c, s) = (r, c', s')" by (rule prod_cases3)
  note cases = wrapper_emit_cases [OF w]
  have "c C_DROPPED \<le> c' C_DROPPED \<and> lost s \<le> lost s'"
    using cases 6 by (auto split: sum.splits if_splits) (metis snd_conv)+
  then show ?case using w by simp
qed (auto simp: lost_def split: sum.splits)

lemma kept_of_Nil [simp]: "kept_of f [] = []"
  by (simp add: kept_of_def)

text \<open>An empty batch changes nothing that matters, however the sinks answer it.\<close>

lemma emit_nothing: "batch = [] \<Longrightarrow> erase (snd (emit_sink pe batch s)) = erase (route pe batch s)"
proof (induction pe batch s rule: emit_sink.induct)
  case (4 pe batch c sinks)
  obtain r s' where e: "emit_sink pe batch (Multi c sinks) = (r, s')" by (rule prod.exhaust)
  then obtain c' where "s' = Multi c' (map (\<lambda>s. snd (emit_sink pe batch s)) sinks)"
    using multi_emit_cases [of batch c "map (emit_sink pe batch) sinks" r s'] by (auto simp: o_def)
  then show ?case using e 4 by simp
next
  case (5 pe batch predicate floor_rank c s)
  then show ?case by (simp add: wrapper_emit_def pick_all_def)
next
  case (6 pe batch fn c s)
  then show ?case by (simp add: wrapper_emit_def pick_all_def)
qed (auto split: sum.splits)

lemma wrapper_delivers:
  assumes "wrapper_emit f (\<lambda>b s'. emit_sink pe b s) batch (c, s) = (Inr (), c', s')" and "lost s' + c' C_DROPPED = lost s + c C_DROPPED"
    and "\<And>b s'. b \<noteq> [] \<Longrightarrow> emit_sink pe b s = (Inr (), s') \<Longrightarrow> lost s' = lost s \<Longrightarrow> erase s' = erase (route pe b s)"
  shows "erase s' = erase (if kept_of f batch = [] then s else route pe (kept_of f batch) s)"
proof (cases "kept_of f batch = []")
  case True
  then show ?thesis using wrapper_emit_cases [OF assms(1)] by simp
next
  case False
  have cases: "emit_sink pe (kept_of f batch) s = (Inr (), s')" "c C_DROPPED \<le> c' C_DROPPED"
    using wrapper_emit_cases [OF assms(1)] False by simp_all
  have "lost s \<le> lost s'" using lost_mono [of s pe "kept_of f batch"] cases(1) by simp
  then have "lost s' = lost s" using assms(2) cases(2) by simp
  then show ?thesis using assms(3) [OF False cases(1)] False by simp
qed

lemma sum_list_eq_pointwise:
  fixes f g :: "'a \<Rightarrow> nat"
  assumes "sum_list (map f xs) = sum_list (map g xs)" and "\<And>x. x \<in> set xs \<Longrightarrow> f x \<le> g x" and "x \<in> set xs"
  shows "f x = g x"
  using assms
proof (induction xs)
  case (Cons y ys)
  have "sum_list (map f ys) \<le> sum_list (map g ys)" using Cons.prems(2) by (auto intro: sum_list_mono)
  moreover have "f y \<le> g y" using Cons.prems(2) by simp
  ultimately have "f y = g y" "sum_list (map f ys) = sum_list (map g ys)" using Cons.prems(1) by simp_all
  then show ?case using Cons by auto
qed simp

lemma delivered_when_nothing_lost:
  "emit_sink pe batch s = (Inr (), s') \<Longrightarrow> lost s' = lost s \<Longrightarrow> erase s' = erase (route pe batch s)"
proof (induction pe batch s arbitrary: s' rule: emit_sink.induct)
  case (4 pe batch c sinks)
  show ?case
  proof (cases "batch = []")
    case True
    then show ?thesis using emit_nothing [of batch pe "Multi c sinks"] "4.prems"(1) by simp
  next
    case False
    let ?after = "\<lambda>s. snd (emit_sink pe batch s)"
    obtain c' where c': "s' = Multi c' (map ?after sinks)"
      "c' C_ABSORBED = c C_ABSORBED + length batch * length (filter (\<lambda>(r, _). isl r) (map (emit_sink pe batch) sinks))"
      using multi_emit_cases [of batch c "map (emit_sink pe batch) sinks" "Inr ()" s'] "4.prems"(1) by (auto simp: o_def)
    have mono: "lost s \<le> lost (?after s)" for s by (rule lost_mono)
    have "sum_list (map lost sinks) \<le> sum_list (map (lost \<circ> ?after) sinks)" by (rule sum_list_mono) (simp add: mono)
    moreover have "sum_list (map (lost \<circ> ?after) sinks) + c' C_ABSORBED = sum_list (map lost sinks) + c C_ABSORBED"
      using "4.prems"(2) c'(1) by simp
    ultimately have eq: "sum_list (map lost sinks) = sum_list (map (lost \<circ> ?after) sinks)" and "c' C_ABSORBED = c C_ABSORBED"
      using c'(2) by linarith+
    then have "length batch * length (filter (\<lambda>(r, _). isl r) (map (emit_sink pe batch) sinks)) = 0"
      using c'(2) by linarith
    then have none: "filter (\<lambda>(r, _). isl r) (map (emit_sink pe batch) sinks) = []"
      using False unfolding mult_is_0 length_0_conv by blast
    have "erase (?after s) = erase (route pe batch s)" if s: "s \<in> set sinks" for s
    proof -
      have "lost (?after s) = lost s" using sum_list_eq_pointwise [OF eq _ s] mono by simp
      moreover have "emit_sink pe batch s = (Inr (), ?after s)"
        using none s by (cases "fst (emit_sink pe batch s)") (auto simp: filter_empty_conv prod_eq_iff)
      ultimately show ?thesis using "4.IH" [OF s] by blast
    qed
    then show ?thesis using c' by simp
  qed
next
  case (5 pe batch predicate floor_rank c s)
  obtain c' s2 where w: "wrapper_emit (fi_apply pe predicate floor_rank) (\<lambda>b s'. emit_sink pe b s) batch (c, s) = (Inr (), c', s2)"
    "s' = Filtering predicate floor_rank c' s2" using "5.prems"(1) by (auto split: prod.splits)
  show ?case using wrapper_delivers [OF w(1)] "5.IH" "5.prems"(2) w(2) by (simp add: Let_def)
next
  case (6 pe batch fn c s)
  obtain c' s2 where w: "wrapper_emit (tr_apply pe fn) (\<lambda>b s'. emit_sink pe b s) batch (c, s) = (Inr (), c', s2)"
    "s' = Transform fn c' s2" using "6.prems"(1) by (auto split: prod.splits)
  show ?case using wrapper_delivers [OF w(1)] "6.IH" "6.prems"(2) w(2) by (simp add: Let_def)
qed (auto split: sum.splits)


text \<open>A fan-out to a memory sink and to a filter in front of a leaf that refuses its first batch.\<close>

definition small_tree :: sink where
  "small_tree = Multi (\<lambda>_. 0) [Memory None [],
     Filtering (Some (\<lambda>ev. Inr (ev \<noteq> []))) None (\<lambda>_. 0)
       (Outer \<lparr>ou_answers = (\<lambda>n. if n = 0 then Inl SinkDeliveryError else Inr ()), ou_calls = 1, ou_taken = [], ou_flush = None, ou_losses = None\<rparr>)]"


end
