(* ===== verification/Diag.thy ===== *)
theory Diag
  imports Json
begin

text \<open>
  The diagnostics, \<^verbatim>\<open>_diag.py\<close>, and the console echo, \<^verbatim>\<open>console.py\<close>. A diagnostic is one line on
  standard error; what goes into it may come from outside, so every text is escaped and the long ones
  are cut. \<^verbatim>\<open>str.isprintable\<close> on one character is the argument \<open>printable\<close>, of which only what the
  language documents is used: ASCII from space to tilde and the ellipsis are printable, the control
  characters are not. A write that raises is absorbed.
\<close>

definition WARN_EVERY :: nat where "WARN_EVERY = 1000"
definition MAX_DETAIL :: nat where "MAX_DETAIL = 200"
definition MAX_REJECTED_ECHO :: nat where "MAX_REJECTED_ECHO = 64"
definition ELLIPSIS :: nat where "ELLIPSIS = 8230"

subsection \<open>Escaping\<close>

definition hex2 :: "nat \<Rightarrow> pystr" where
  "hex2 n = map hex_digit [n div 16 mod 16, n mod 16]"

definition escaped :: "nat \<Rightarrow> pystr" where
  "escaped c =
     (if c = 9 then [92, 116] else if c = 10 then [92, 110] else if c = 13 then [92, 114]
      else if c \<le> 255 then [92, 120] @ hex2 c
      else if c \<le> 65535 then [92, 117] @ hex4 c
      else [92, 85] @ hex4 (c div 65536) @ hex4 (c mod 65536))"

definition escape_text :: "(nat \<Rightarrow> bool) \<Rightarrow> pystr \<Rightarrow> pystr" where
  "escape_text printable t =
     (if list_all printable t then t else concat (map (\<lambda>c. if printable c then [c] else escaped c) t))"

definition bounded_detail :: "(nat \<Rightarrow> bool) \<Rightarrow> pystr \<Rightarrow> pystr" where
  "bounded_detail printable detail =
     (let shown = escape_text printable detail
      in if MAX_DETAIL < length shown then take MAX_DETAIL shown @ [ELLIPSIS] else shown)"

definition diag_suffix :: "(nat \<Rightarrow> bool) \<Rightarrow> pystr \<Rightarrow> pystr" where
  "diag_suffix printable detail = (if detail = [] then [] else str ''; '' @ bounded_detail printable detail)"

text \<open>\<^verbatim>\<open>str.__repr__\<close>: quoted with the apostrophe unless only the quotation mark is absent.\<close>

definition py_repr :: "(nat \<Rightarrow> bool) \<Rightarrow> pystr \<Rightarrow> pystr" where
  "py_repr printable t =
     (let q = (if 39 \<in> set t \<and> 34 \<notin> set t then 34 else 39)
      in [q] @ concat (map (\<lambda>c. if c = q \<or> c = 92 then [92, c] else if printable c then [c] else escaped c) t) @ [q])"

definition echo :: "(nat \<Rightarrow> bool) \<Rightarrow> inbound \<Rightarrow> pystr" where
  "echo printable v =
     (let (body, opening, closing) =
        (case v of
           IStr t \<Rightarrow> (py_repr printable (take MAX_REJECTED_ECHO t), [], [])
         | IStrSub t \<Rightarrow> (py_repr printable (take MAX_REJECTED_ECHO t), [], [])
         | INone \<Rightarrow> (take (MAX_REJECTED_ECHO + 1) (str ''NoneType''), str ''<'', str ''>'')
         | IOther name \<Rightarrow> (take (MAX_REJECTED_ECHO + 1) name, str ''<'', str ''>''));
          shown = escape_text printable body;
          shown = (if MAX_REJECTED_ECHO < length shown then take MAX_REJECTED_ECHO shown @ [ELLIPSIS] else shown)
      in opening @ shown @ closing)"

subsection \<open>The lines\<close>

definition absorbed_line :: "(nat \<Rightarrow> bool) \<Rightarrow> pystr \<Rightarrow> pystr \<Rightarrow> pystr \<Rightarrow> pystr" where
  "absorbed_line printable place exn detail =
     str ''log-foundry: absorbed a failure while '' @ escape_text printable place @ str '' ('' @ escape_text printable exn @ str '')'' @
     diag_suffix printable detail @ [10]"

definition lost_line :: "(nat \<Rightarrow> bool) \<Rightarrow> pystr \<Rightarrow> int \<Rightarrow> pystr \<Rightarrow> pystr" where
  "lost_line printable what count detail =
     str ''log-foundry: lost '' @ int_repr count @ str '' '' @ escape_text printable what @ str ''(s)'' @ diag_suffix printable detail @ [10]"

definition pending_line :: "(nat \<Rightarrow> bool) \<Rightarrow> pystr \<Rightarrow> pystr option" where
  "pending_line printable detail = (if detail = [] then None else Some (str ''log-foundry: '' @ bounded_detail printable detail @ [10]))"

definition rejected_line :: "(nat \<Rightarrow> bool) \<Rightarrow> pystr \<Rightarrow> inbound \<Rightarrow> pystr" where
  "rejected_line printable reason v =
     str ''log-foundry: ignoring inbound trace context ('' @ escape_text printable reason @ str ''): '' @ echo printable v @ [10]"

text \<open>The error number of an exception: its own, or its cause's.\<close>

definition errno_of :: "jval \<Rightarrow> jval \<Rightarrow> pystr" where
  "errno_of own reason =
     (case (if own = JNull then reason else own) of
        JInt i \<Rightarrow> str ''errno='' @ int_repr i
      | JBool b \<Rightarrow> str ''errno='' @ int_repr (if b then 1 else 0)
      | _ \<Rightarrow> [])"

subsection \<open>The console echo\<close>

record console =
  co_disabled :: bool
  co_failures :: nat

definition new_console :: console where
  "new_console = \<lparr>co_disabled = False, co_failures = 0\<rparr>"

text \<open>A broken pipe or a closed file (a \<^verbatim>\<open>ValueError\<close> that is no \<^verbatim>\<open>UnicodeError\<close>) is for good.\<close>

definition is_permanent :: "pyexn \<Rightarrow> bool" where
  "is_permanent e \<longleftrightarrow> e = BrokenPipeError \<or> e = ValueError"

definition pad7 :: "pystr \<Rightarrow> pystr" where
  "pad7 t = t @ replicate (7 - length t) 32"

datatype announced = Quiet | Disabled | Failing nat

text \<open>\<open>answer\<close> is how the stream answers the write and the flush; the text is what is handed to it.\<close>

definition console_write :: "(jval \<Rightarrow> pystr) \<Rightarrow> unit result \<Rightarrow> event \<Rightarrow> console \<Rightarrow> (pystr option \<times> announced \<times> console) result" where
  "console_write str_of answer ev co =
     (if co_disabled co then Inr (None, Quiet, co)
      else case (dict_get ev (str ''level''), dict_get ev (str ''message'')) of
             (Some l, Some m) \<Rightarrow>
               (let text' = pad7 (str_of l) @ [32] @ str_of m @ [10]
                in case answer of
                     Inr _ \<Rightarrow> Inr (Some text', Quiet, co)
                   | Inl e \<Rightarrow>
                       if is_permanent e then Inr (Some text', Disabled, co\<lparr>co_disabled := True\<rparr>)
                       else let count = Suc (co_failures co)
                            in Inr (Some text', if count = 1 \<or> count mod WARN_EVERY = 0 then Failing count else Quiet, co\<lparr>co_failures := count\<rparr>))
           | _ \<Rightarrow> Inl KeyError)"

text \<open>A run of echoes: the texts handed to the stream and the announcements made.\<close>

fun console_run :: "(jval \<Rightarrow> pystr) \<Rightarrow> (unit result \<times> event) list \<Rightarrow> console \<Rightarrow> pystr list \<times> announced list \<times> console" where
  "console_run str_of [] co = ([], [], co)"
| "console_run str_of ((answer, ev) # evs) co =
     (case console_write str_of answer ev co of
        Inl e \<Rightarrow> console_run str_of evs co
      | Inr (t, a, co') \<Rightarrow>
          let (ts, as, co'') = console_run str_of evs co'
          in ((case t of None \<Rightarrow> ts | Some t \<Rightarrow> t # ts), (if a = Quiet then as else a # as), co''))"

lemma console_disabled: "co_disabled co \<Longrightarrow> console_run str_of evs co = ([], [], co)"
proof (induction evs)
  case (Cons p evs)
  then show ?case by (cases p) (simp add: console_write_def)
qed simp

text \<open>Transient failures are announced at the first and at every thousandth; a permanent one once,
  after which nothing is handed to the stream.\<close>

definition announcements :: "nat \<Rightarrow> nat" where
  "announcements n = (if n = 0 then 0 else 1 + n div WARN_EVERY)"

lemma announcements_Suc:
  "announcements (Suc n) = announcements n + (if Suc n = 1 \<or> Suc n mod WARN_EVERY = 0 then 1 else 0)"
  by (auto simp: announcements_def div_Suc WARN_EVERY_def)

lemma console_announcements:
  "(case console_run str_of evs co of (ts, as, co') \<Rightarrow>
     co_failures co \<le> co_failures co' \<and>
     length (filter (\<lambda>a. a \<noteq> Disabled) as) + announcements (co_failures co) =
       announcements (co_failures co') \<and>
     length (filter (\<lambda>a. a = Disabled) as) \<le> 1)"
proof (induction str_of evs co rule: console_run.induct)
  case (2 str_of answer ev evs co)
  show ?case
  proof (cases "console_write str_of answer ev co")
    case (Inl e)
    then show ?thesis using 2 by simp
  next
    case (Inr r)
    obtain t a co1 where r: "r = (t, a, co1)" by (cases r)
    obtain ts as co2 where run: "console_run str_of evs co1 = (ts, as, co2)" by (rule prod_cases3)
    have ih: "co_failures co1 \<le> co_failures co2 \<and>
      length (filter (\<lambda>a. a \<noteq> Disabled) as) + announcements (co_failures co1) =
       announcements (co_failures co2) \<and>
      length (filter (\<lambda>a. a = Disabled) as) \<le> 1"
      using "2.IH"(2) [OF Inr r [symmetric] refl] run by simp
    consider (quiet) "a = Quiet" "co_failures co1 = co_failures co" | (off) "a = Disabled" "co_failures co1 = co_failures co" "co_disabled co1"
      | (loud) n where "co_failures co1 = Suc (co_failures co)" "a = (if Suc (co_failures co) = 1 \<or> Suc (co_failures co) mod WARN_EVERY = 0 then Failing n else Quiet)"
      using Inr r by (auto simp: console_write_def Let_def split: if_splits option.splits sum.splits)
    then show ?thesis
    proof cases
      case quiet
      then show ?thesis using ih Inr r run by simp
    next
      case off
      then show ?thesis using ih Inr r run console_disabled [of co1 str_of evs] by simp
    next
      case loud
      then show ?thesis using ih Inr r run announcements_Suc [of "co_failures co"] by (auto split: if_splits)
    qed
  qed
qed simp

subsection \<open>One diagnostic is one line\<close>

definition ascii_printable :: "(nat \<Rightarrow> bool) \<Rightarrow> bool" where
  "ascii_printable printable \<longleftrightarrow> (\<forall>c. 32 \<le> c \<and> c < 127 \<longrightarrow> printable c) \<and> printable ELLIPSIS \<and> (\<forall>c < 32. \<not> printable c) \<and> \<not> printable 127"

definition visible :: "nat \<Rightarrow> bool" where
  "visible c \<longleftrightarrow> 32 \<le> c \<and> c < 127"

lemma visible_printable: "ascii_printable printable \<Longrightarrow> visible c \<Longrightarrow> printable c"
  by (simp add: ascii_printable_def visible_def)

lemma hex_digit_visible: "n < 16 \<Longrightarrow> visible (hex_digit n)"
  by (simp add: visible_def hex_digit_def)

lemma hexes_visible: "c \<in> set (hex2 n) \<Longrightarrow> visible c" "c \<in> set (hex4 n) \<Longrightarrow> visible c"
  by (auto simp: hex2_def hex4_def hex_digit_visible)

lemma escaped_visible: "c \<in> set (escaped x) \<Longrightarrow> visible c"
  using hexes_visible by (auto simp: escaped_def visible_def split: if_splits)

lemma int_repr_visible: "c \<in> set (int_repr i) \<Longrightarrow> visible c"
proof -
  have "\<forall>c \<in> set (decimal n). visible c" for n
    by (induction n rule: decimal.induct) (subst decimal.simps, auto simp: visible_def)
  then show "c \<in> set (int_repr i) \<Longrightarrow> visible c" by (auto simp: int_repr_def visible_def split: if_splits)
qed

definition shown :: "(nat \<Rightarrow> bool) \<Rightarrow> pystr \<Rightarrow> bool" where
  "shown printable t \<longleftrightarrow> list_all printable t"

lemma shown_simps [simp]:
  "shown printable []" "shown printable (c # t) \<longleftrightarrow> printable c \<and> shown printable t"
  "shown printable (s @ t) \<longleftrightarrow> shown printable s \<and> shown printable t" "shown printable t \<Longrightarrow> shown printable (take n t)"
  by (auto simp: shown_def list_all_iff dest: in_set_takeD)

lemma shown_visible: "ascii_printable printable \<Longrightarrow> \<forall>c \<in> set t. visible c \<Longrightarrow> shown printable t"
  by (auto simp: shown_def list_all_iff visible_printable)

lemma escape_shown: "ascii_printable printable \<Longrightarrow> shown printable (escape_text printable t)"
  using escaped_visible visible_printable by (fastforce simp: escape_text_def shown_def list_all_iff)

lemma ellipsis_shown: "ascii_printable printable \<Longrightarrow> printable ELLIPSIS"
  by (simp add: ascii_printable_def)

lemma detail_shown:
  assumes "ascii_printable printable"
  shows "shown printable (bounded_detail printable d) \<and> length (bounded_detail printable d) \<le> MAX_DETAIL + 1"
  using escape_shown [OF assms] ellipsis_shown [OF assms] by (simp add: bounded_detail_def Let_def)

lemma literal_shown: "ascii_printable printable \<Longrightarrow> \<forall>c \<in> set s. visible (of_char c) \<Longrightarrow> shown printable (str s)"
  by (rule shown_visible) (auto simp: str_def)

lemma suffix_shown: "ascii_printable printable \<Longrightarrow> shown printable (diag_suffix printable d)"
  using detail_shown [of printable d] literal_shown [of printable "''; ''"] by (simp add: diag_suffix_def visible_def)

lemma echo_shown:
  assumes "ascii_printable printable"
  shows "shown printable (echo printable v) \<and> length (echo printable v) \<le> MAX_REJECTED_ECHO + 3"
proof -
  define cut where "cut body = (let shown = escape_text printable body
    in if MAX_REJECTED_ECHO < length shown then take MAX_REJECTED_ECHO shown @ [ELLIPSIS] else shown)" for body
  have cut: "shown printable (cut body) \<and> length (cut body) \<le> MAX_REJECTED_ECHO + 1" for body
    using escape_shown [OF assms, of body] ellipsis_shown [OF assms] by (simp add: cut_def Let_def)
  have angles: "shown printable (str ''<'')" "shown printable (str ''>'')" "length (str ''<'') = 1" "length (str ''>'') = 1"
    using literal_shown [OF assms, of "''<''"] literal_shown [OF assms, of "''>''"] by (simp_all add: str_def visible_def)
  show ?thesis
  proof (cases v)
    case (IStr t)
    then show ?thesis using cut [of "py_repr printable (take MAX_REJECTED_ECHO t)"] by (simp add: echo_def cut_def Let_def)
  next
    case (IStrSub t)
    then show ?thesis using cut [of "py_repr printable (take MAX_REJECTED_ECHO t)"] by (simp add: echo_def cut_def Let_def)
  next
    case INone
    then show ?thesis using cut [of "take (MAX_REJECTED_ECHO + 1) (str ''NoneType'')"] angles by (simp add: echo_def cut_def Let_def)
  next
    case (IOther name)
    then show ?thesis using cut [of "take (MAX_REJECTED_ECHO + 1) name"] angles by (simp add: echo_def cut_def Let_def)
  qed
qed

definition one_line :: "(nat \<Rightarrow> bool) \<Rightarrow> pystr \<Rightarrow> bool" where
  "one_line printable t \<longleftrightarrow> t \<noteq> [] \<and> last t = 10 \<and> list_all printable (butlast t)"

lemma one_lineI: "shown printable t \<Longrightarrow> one_line printable (t @ [10])"
  by (simp add: one_line_def shown_def)

lemma line_literals:
  assumes "ascii_printable printable"
  shows "shown printable (str ''log-foundry: absorbed a failure while '')" "shown printable (str '' ('')" "shown printable (str '')'')"
    "shown printable (str ''log-foundry: lost '')" "shown printable (str '' '')" "shown printable (str ''(s)'')" "shown printable (str ''log-foundry: '')"
    "shown printable (str ''log-foundry: ignoring inbound trace context ('')" "shown printable (str ''): '')" "shown printable (int_repr n)"
  by (rule literal_shown [OF assms], simp add: visible_def)+ (rule shown_visible [OF assms], simp add: int_repr_visible)

text \<open>C26. Whatever text reaches a diagnostic, a class name, a header from the network, the message of an
  exception, one call writes one line: the newline is its last character and everything before it is
  printable; the echo of a rejected value and the detail are cut to a fixed length.\<close>

theorem diagnostics_are_one_line:
  assumes "ascii_printable printable"
  shows "one_line printable (absorbed_line printable place exn detail) \<and> one_line printable (lost_line printable what count detail) \<and>
    one_line printable (rejected_line printable reason v) \<and> list_all (one_line printable) (case pending_line printable detail of None \<Rightarrow> [] | Some l \<Rightarrow> [l]) \<and>
    length (diag_suffix printable detail) \<le> MAX_DETAIL + 3 \<and> length (echo printable v) \<le> MAX_REJECTED_ECHO + 3"
proof -
  note simps = line_literals [OF assms] escape_shown [OF assms] suffix_shown [OF assms] detail_shown [OF assms] echo_shown [OF assms]
  have "one_line printable (absorbed_line printable place exn detail)"
    unfolding absorbed_line_def append_assoc [symmetric] by (rule one_lineI) (simp add: simps)
  moreover have "one_line printable (lost_line printable what count detail)"
    unfolding lost_line_def append_assoc [symmetric] by (rule one_lineI) (simp add: simps)
  moreover have "one_line printable (rejected_line printable reason v)"
    unfolding rejected_line_def append_assoc [symmetric] by (rule one_lineI) (simp add: simps)
  moreover have "one_line printable (str ''log-foundry: '' @ bounded_detail printable detail @ [10])"
    unfolding append_assoc [symmetric] by (rule one_lineI) (simp add: simps)
  moreover have "length (diag_suffix printable detail) \<le> MAX_DETAIL + 3"
    using detail_shown [OF assms, of detail] by (simp add: diag_suffix_def str_def)
  ultimately show ?thesis using echo_shown [OF assms, of v] by (simp add: pending_line_def)
qed

definition ascii_only :: "nat \<Rightarrow> bool" where
  "ascii_only c \<longleftrightarrow> 32 \<le> c \<and> c < 127 \<or> c = 8230"

theorem diagnostics_are_one_line_witness:
  "ascii_printable ascii_only \<and> one_line ascii_only (lost_line ascii_only (str ''event'') 3 [10, 65])"
proof -
  have a: "ascii_printable ascii_only" by (auto simp: ascii_printable_def ascii_only_def ELLIPSIS_def)
  show ?thesis using a diagnostics_are_one_line [OF a, of _ _ "[10, 65]" "str ''event''" 3] by blast
qed

end
