(* ===== verification/Configuration.thy ===== *)
theory Configuration
  imports Tracing
begin

text \<open>
  \<^verbatim>\<open>config.py\<close>: the process-wide configuration, replaced as a whole under a lock. \<^verbatim>\<open>configure\<close>
  validates every argument before it touches anything, stamps the sink, rebinds the changed fields
  on whatever the configuration is by then, makes sure there is a sink, and hands a new sink to the
  live worker. The record \<open>config\<close>, the validators and \<open>ensure_sink\<close> are in the theories of their
  users.
\<close>

text \<open>The arguments as they arrive; \<open>None\<close> is an argument that was not given.\<close>

record 's config_args =
  ca_service :: inbound
  ca_version :: inbound
  ca_env :: inbound
  ca_sink :: "'s option"
  ca_defaults :: "fields result option"
  ca_value_bytes :: numarg
  ca_stack_bytes :: numarg
  ca_keys :: numarg
  ca_depth :: numarg

text \<open>The validated changes.\<close>

record 's changes =
  ch_service :: "pystr option"
  ch_version :: "pystr option"
  ch_env :: "pystr option"
  ch_sink :: "'s option"
  ch_defaults :: "fields option"
  ch_value_bytes :: "nat option"
  ch_stack_bytes :: "nat option"
  ch_keys :: "nat option"
  ch_depth :: "nat option"

definition bind_result :: "'a result \<Rightarrow> ('a \<Rightarrow> 'b result) \<Rightarrow> 'b result" where
  "bind_result r f = (case r of Inl e \<Rightarrow> Inl e | Inr x \<Rightarrow> f x)"

definition validate :: "'s config_args \<Rightarrow> 's changes result" where
  "validate args =
     bind_result (config_require_positive (ca_value_bytes args)) (\<lambda>mvb.
     bind_result (config_require_positive (ca_stack_bytes args)) (\<lambda>msb.
     bind_result (config_require_positive (ca_keys args)) (\<lambda>mk.
     bind_result (config_require_positive (ca_depth args)) (\<lambda>md.
     bind_result (config_require_text (ca_service args)) (\<lambda>sv.
     bind_result (config_require_text (ca_version args)) (\<lambda>vs.
     bind_result (config_require_text (ca_env args)) (\<lambda>en.
     bind_result (case ca_defaults args of None \<Rightarrow> Inr None | Some r \<Rightarrow> map_sum id Some r) (\<lambda>df.
     Inr \<lparr>ch_service = sv, ch_version = vs, ch_env = en, ch_sink = ca_sink args, ch_defaults = df,
          ch_value_bytes = map_option nat mvb, ch_stack_bytes = map_option nat msb, ch_keys = map_option nat mk,
          ch_depth = map_option nat md\<rparr>))))))))"

definition newer :: "'a option \<Rightarrow> 'a \<Rightarrow> 'a" where
  "newer change old = (case change of None \<Rightarrow> old | Some new \<Rightarrow> new)"

definition rebind :: "'s changes \<Rightarrow> 's config \<Rightarrow> 's config" where
  "rebind ch cfg =
     \<lparr>service = newer (ch_service ch) (service cfg), version = newer (ch_version ch) (version cfg), cfg_env = newer (ch_env ch) (cfg_env cfg),
      cfg_sink = (case ch_sink ch of None \<Rightarrow> cfg_sink cfg | Some s \<Rightarrow> Some s), cfg_defaults = newer (ch_defaults ch) (cfg_defaults cfg),
      cfg_value_bytes = newer (ch_value_bytes ch) (cfg_value_bytes cfg), cfg_stack_bytes = newer (ch_stack_bytes ch) (cfg_stack_bytes cfg),
      cfg_keys = newer (ch_keys ch) (cfg_keys cfg), cfg_depth = newer (ch_depth ch) (cfg_depth cfg)\<rparr>"

text \<open>What \<^verbatim>\<open>configure\<close> calls besides: the ownership stamp and the swap of the live sink.\<close>

datatype 's config_effect = StampSink 's | SwapSink 's

definition configure :: "'s \<Rightarrow> 's config_args \<Rightarrow> 's config \<Rightarrow> unit result \<times> 's config \<times> 's config_effect list" where
  "configure stdout args cfg =
     (case validate args of
        Inl e \<Rightarrow> (Inl e, cfg, [])
      | Inr ch \<Rightarrow>
          let cfg1 = rebind ch cfg;
              (sink, cfg2) = ensure_sink stdout cfg1;
              named = (case ca_sink args of None \<Rightarrow> [] | Some s \<Rightarrow> [s])
          in (Inr (), cfg2, map StampSink named @ (if cfg_sink cfg1 = None then [StampSink sink] else []) @ map SwapSink named))"

subsection \<open>All or nothing\<close>

definition encodable :: "pystr \<Rightarrow> bool" where
  "encodable t \<longleftrightarrow> \<not> isl (encode_utf8 t)"

definition config_ok :: "'s config \<Rightarrow> bool" where
  "config_ok cfg \<longleftrightarrow> encodable (service cfg) \<and> encodable (version cfg) \<and> encodable (cfg_env cfg) \<and>
     0 < cfg_value_bytes cfg \<and> 0 < cfg_stack_bytes cfg \<and> 0 < cfg_keys cfg \<and> 0 < cfg_depth cfg"

definition changes_ok :: "'s changes \<Rightarrow> bool" where
  "changes_ok ch \<longleftrightarrow> (\<forall>t \<in> set_option (ch_service ch) \<union> set_option (ch_version ch) \<union> set_option (ch_env ch). encodable t) \<and>
     (\<forall>n \<in> set_option (ch_value_bytes ch) \<union> set_option (ch_stack_bytes ch) \<union> set_option (ch_keys ch) \<union> set_option (ch_depth ch). 0 < n)"

lemma require_text_ok: "config_require_text a = Inr t \<Longrightarrow> x \<in> set_option t \<Longrightarrow> encodable x"
  by (cases a) (auto simp: encodable_def split: sum.splits)

lemma require_positive_ok: "config_require_positive a = Inr (Some x) \<Longrightarrow> 0 < x"
  by (cases a) (auto split: if_splits)

lemma bind_resultE: "bind_result r f = Inr y \<Longrightarrow> (\<And>x. r = Inr x \<Longrightarrow> f x = Inr y \<Longrightarrow> P) \<Longrightarrow> P"
  by (auto simp: bind_result_def split: sum.splits)

lemma validate_ok: "validate args = Inr ch \<Longrightarrow> changes_ok ch \<and> ch_sink ch = ca_sink args"
  unfolding validate_def
  by (elim bind_resultE) (auto simp: changes_ok_def option.set_map dest: require_text_ok, (erule require_positive_ok)+)

lemma rebind_ok: "config_ok cfg \<Longrightarrow> changes_ok ch \<Longrightarrow> config_ok (rebind ch cfg)"
  by (auto simp: config_ok_def changes_ok_def rebind_def newer_def split: option.splits)

lemma ensure_sink_frame: "config_ok (snd (ensure_sink stdout cfg)) = config_ok cfg" "cfg_sink (snd (ensure_sink stdout cfg)) = Some (fst (ensure_sink stdout cfg))"
  by (simp_all add: ensure_sink_def config_ok_def split: option.splits)

text \<open>Changes made one after the other, by whatever threads: every field is the last one that was
  named, so that no call undoes a field another call set.\<close>

lemma rebinds_last:
  "service (fold rebind chs cfg) = newer (fold (\<lambda>ch acc. case ch_service ch of None \<Rightarrow> acc | Some v \<Rightarrow> Some v) chs None) (service cfg)"
proof -
  have "service (fold rebind chs c) = newer (fold (\<lambda>ch acc. case ch_service ch of None \<Rightarrow> acc | Some v \<Rightarrow> Some v) chs a) (service cfg)"
    if "service c = newer a (service cfg)" for c a
    using that by (induction chs arbitrary: c a) (auto simp: rebind_def newer_def split: option.splits)
  from this [of cfg None] show ?thesis by (simp add: newer_def)
qed

text \<open>C25. A call of \<^verbatim>\<open>configure\<close> is all or nothing. Whichever argument is refused, the configuration is
  the one before the call and nothing was stamped or swapped; otherwise the ceilings are positive,
  the texts encodable, there is a sink, and a sink that was named is the configured one, stamped
  before it can be delivered to and handed to the live worker last.\<close>

theorem configure_all_or_nothing:
  assumes "config_ok cfg"
  shows "case configure stdout args cfg of
      (Inl _, cfg', effects) \<Rightarrow> cfg' = cfg \<and> effects = []
    | (Inr _, cfg', effects) \<Rightarrow> config_ok cfg' \<and> cfg_sink cfg' \<noteq> None \<and>
        (case ca_sink args of None \<Rightarrow> list_all (\<lambda>e. e = StampSink stdout) effects
         | Some s \<Rightarrow> cfg_sink cfg' = Some s \<and> effects = [StampSink s, SwapSink s])"
proof (cases "validate args")
  case (Inr ch)
  note ok = validate_ok [OF Inr]
  have "config_ok (rebind ch cfg)" using rebind_ok [OF assms] ok by blast
  moreover have "cfg_sink (rebind ch cfg) = (case ca_sink args of None \<Rightarrow> cfg_sink cfg | Some s \<Rightarrow> Some s)"
    using ok by (simp add: rebind_def)
  moreover have "ensure_sink stdout c = (s, c)" if "cfg_sink c = Some s" for s and c :: "'a config" using that by (simp add: ensure_sink_def)
  moreover have "ensure_sink stdout c = (stdout, c\<lparr>cfg_sink := Some stdout\<rparr>)" if "cfg_sink c = None" for c :: "'a config"
    using that by (simp add: ensure_sink_def)
  ultimately show ?thesis using ensure_sink_frame [of stdout "rebind ch cfg"]
    by (auto simp: configure_def Inr split: option.splits prod.splits)
qed (simp add: configure_def)

theorem configure_all_or_nothing_witness:
  "config_ok (default_config :: nat config) \<and>
   (case configure 0 \<lparr>ca_service = IStr [97], ca_version = INone, ca_env = INone, ca_sink = Some 1, ca_defaults = None,
        ca_value_bytes = AInt 10, ca_stack_bytes = ANone, ca_keys = ANone, ca_depth = AInt 0\<rparr> (default_config :: nat config) of
      (r, cfg', effects) \<Rightarrow> r = Inl ValueError \<and> cfg' = default_config \<and> effects = [])"
proof -
  let ?args = "\<lparr>ca_service = IStr [97], ca_version = INone, ca_env = INone, ca_sink = Some (1::nat), ca_defaults = None,
        ca_value_bytes = AInt 10, ca_stack_bytes = ANone, ca_keys = ANone, ca_depth = AInt 0\<rparr>"
  have ok: "config_ok (default_config :: nat config)"
    by (simp add: config_ok_def default_config_def encodable_def encode_utf8_def str_def is_surrogate_def)
  have "fst (configure 0 ?args default_config) = Inl ValueError" by (simp add: configure_def validate_def bind_result_def)
  then show ?thesis using ok configure_all_or_nothing [OF ok, of 0 ?args] by (auto split: prod.splits)
qed

end
