(* ===== verification/Spec2Isabelle.thy ===== *)
theory Spec2Isabelle
  imports Worker_Stop Fork Lifecycle_Laws File_Sink Sockets Logging_Sink Sentry Pubsub Wrapper_Sinks Diag Configuration
begin

text \<open>
  A verification development of log-foundry, a structured-logging library for Python
  (\<^verbatim>\<open>src/src/log_foundry/\<close>).

  \<^bold>\<open>The program.\<close> A traced call opens a span; logging calls inside it build events, which are coerced
  to bounded JSON and buffered on the span; when the span ends its buffer is handed to one background
  worker, which delivers batches to the configured sink with retries. A lifecycle module decides who
  closes which sink and when, across shutdown, swapping of sinks and forking. Sinks turn batches into
  requests, files or lines, and count what they could not deliver.

  \<^bold>\<open>The theories\<close>, in the order of their imports, with the files they model:

  \<^item> \<^verbatim>\<open>Prelude\<close>: text as lists of code points, exceptions and results, insertion-ordered
    dictionaries, list lemmas. \<^verbatim>\<open>Utf8\<close>: the codecs the sources use, with what decoding gives on an
    encoding that was cut at any byte.
  \<^item> \<^verbatim>\<open>Ids\<close> (\<^verbatim>\<open>ids.py\<close>): identifiers and the traceparent header, a round trip and an exact
    characterisation of what is accepted. \<^verbatim>\<open>Doors\<close> (\<^verbatim>\<open>sinks/_retry.py\<close> and the validators of
    \<^verbatim>\<open>config.py\<close>): which waits, timeouts and counts are let in.
  \<^item> \<^verbatim>\<open>Truncate\<close>, \<^verbatim>\<open>Digits\<close> (\<^verbatim>\<open>sanitize.py\<close>): clipping of texts equals a reference that
    never slices bytes; the digit estimate for integers never undercounts. \<^verbatim>\<open>Json\<close>: JSON values and
    \<^verbatim>\<open>json.dumps\<close>.
  \<^item> \<^verbatim>\<open>Coercer\<close>, \<^verbatim>\<open>Coercer_Laws\<close>, \<^verbatim>\<open>Fidelity\<close> (\<^verbatim>\<open>sanitize.py\<close>, class \<^verbatim>\<open>_Coercer\<close>): the pass
    over a heap of Python objects, cyclic and hostile ones included. Its output is JSON within every
    ceiling and budget, and plain values that fit are left alone. The recursion is bounded by
    \<^verbatim>\<open>max_depth\<close>, which is the \<open>level\<close> of the model: no fuel is needed.
  \<^item> \<^verbatim>\<open>Events\<close> (\<^verbatim>\<open>model.py\<close>), \<^verbatim>\<open>Context\<close> (\<^verbatim>\<open>context.py\<close>), \<^verbatim>\<open>Tracing\<close> (\<^verbatim>\<open>decorator.py\<close>,
    \<^verbatim>\<open>api.py\<close>): events, trace context and baggage, spans. Programs of nested traced calls are run by
    \<open>run\<close>; no event is lost or duplicated before the worker, whatever raises.
  \<^item> \<^verbatim>\<open>Worker\<close>, \<^verbatim>\<open>Worker_Stop\<close>, \<^verbatim>\<open>Worker_Swap\<close> (\<^verbatim>\<open>worker.py\<close>): the queue and the drain thread
    as a step relation that interleaves callers with the thread. Submissions are conserved in order, a
    flush that says so has delivered, the thread ends within a computed number of steps once asked to
    stop, and which sinks it may be inside is always known.
  \<^item> \<^verbatim>\<open>Objects\<close>, \<^verbatim>\<open>Ownership\<close>, \<^verbatim>\<open>Fork\<close> (\<^verbatim>\<open>_fork.py\<close>, the ownership part of \<^verbatim>\<open>_lifecycle.py\<close>):
    walks over the object graph of the process, one interface (\<open>graph_walk\<close>) interpreted for three
    walks. A child never closes what it inherited, and every lock it inherits is replaced.
  \<^item> \<^verbatim>\<open>Lifecycle\<close>, \<^verbatim>\<open>Lifecycle_Laws\<close> (\<^verbatim>\<open>_lifecycle.py\<close>, \<^verbatim>\<open>results.py\<close>): owed closes, closers,
    swapping, shutdown, flush and health, composed with the worker: no sink is closed under the drain
    thread, none twice at once, and none is forgotten.
  \<^item> \<^verbatim>\<open>Configuration\<close> (\<^verbatim>\<open>config.py\<close>): a call of \<^verbatim>\<open>configure\<close> is all or nothing.
  \<^item> \<^verbatim>\<open>Sink_Kit\<close> (\<^verbatim>\<open>sinks/base.py\<close>, \<^verbatim>\<open>_deferral.py\<close>, \<^verbatim>\<open>_encode.py\<close>, \<^verbatim>\<open>_chunk.py\<close>,
    \<^verbatim>\<open>_batch.py\<close>): deferred loss counts, per-event encoding, partition into requests, repairs.
  \<^item> \<^verbatim>\<open>Batch_Sinks\<close>, \<^verbatim>\<open>Batch_Emit\<close> (\<^verbatim>\<open>sinks/sqs.py\<close>, \<^verbatim>\<open>sns.py\<close>, \<^verbatim>\<open>kinesis.py\<close>,
    \<^verbatim>\<open>firehose.py\<close>): the interface \<open>sender\<close> says that every record of a request is accepted or
    counted; it is interpreted for each service, and a whole emit accounts for every event.
  \<^item> \<^verbatim>\<open>Http_Sink\<close> (\<^verbatim>\<open>sinks/http.py\<close>): batches cut into requests, the halving of the budget when a
    destination answers 413, retries. The loop ends by a lexicographic measure (events left, reductions
    left). \<^verbatim>\<open>Otel\<close> (\<^verbatim>\<open>_otel.py\<close>): the walker over foreign objects and the OTLP record, bounded and
    strict JSON. \<^verbatim>\<open>Http_Destinations\<close> (\<^verbatim>\<open>splunk.py\<close>, \<^verbatim>\<open>datadog.py\<close>, \<^verbatim>\<open>elasticsearch.py\<close>,
    \<^verbatim>\<open>honeycomb.py\<close>, \<^verbatim>\<open>loki.py\<close>, \<^verbatim>\<open>newrelic.py\<close>, \<^verbatim>\<open>otlp.py\<close>): their hooks, and what every emit
    accounts for at each of them. \<^verbatim>\<open>Http_Checks\<close> (\<^verbatim>\<open>sinks/http.py\<close>): URLs, headers and credentials
    that are let in, what a refusal may show, and the constructor; the URL parsers of the standard library are written out, its
    Unicode tables are an argument.
  \<^item> \<^verbatim>\<open>Row_Stores\<close> (\<^verbatim>\<open>clickhouse.py\<close>, \<^verbatim>\<open>sqlite.py\<close>, \<^verbatim>\<open>postgres.py\<close>, \<^verbatim>\<open>mongodb.py\<close>,
    \<^verbatim>\<open>redis.py\<close>): the interface \<open>inserting\<close> gives the accounting of an emit; what the databases document
    of transactions is a hypothesis, and an emit into PostgreSQL is all or nothing.
  \<^item> \<^verbatim>\<open>Brokers\<close> (\<^verbatim>\<open>rabbitmq.py\<close>, \<^verbatim>\<open>kafka.py\<close>, \<^verbatim>\<open>eventhubs.py\<close>) and \<^verbatim>\<open>Pubsub\<close>
    (\<^verbatim>\<open>pubsub.py\<close>): publishing through client libraries. The loop that polls futures may run for ever
    when the clock stands still: it is a partial function, which is shown to return when time
    passes. The lists of futures that threads share are also a step relation over their interleavings.
  \<^item> \<^verbatim>\<open>Sockets\<close> (\<^verbatim>\<open>_socket.py\<close>, \<^verbatim>\<open>syslog.py\<close>, \<^verbatim>\<open>logstash.py\<close>): retries over connections that break
    anywhere; a receiver that counts octets reads whole messages only. \<^verbatim>\<open>Logging_Sink\<close>
    (\<^verbatim>\<open>logging_sink.py\<close>): every attribute of the records handed to \<^verbatim>\<open>logging\<close>. \<^verbatim>\<open>Sentry\<close>
    (\<^verbatim>\<open>sentry.py\<close>): DSNs, whose secret has no effect, and capture with its accounting.
  \<^item> \<^verbatim>\<open>File_Sink\<close> (\<^verbatim>\<open>sinks/file.py\<close>): files that are appended to and rotated, over a file system
    in which any call may fail; the rotating sink refines a ring of segments.
  \<^item> \<^verbatim>\<open>Wrapper_Sinks\<close> (\<^verbatim>\<open>sinks/multi.py\<close>, \<^verbatim>\<open>filtering.py\<close>, \<^verbatim>\<open>transform.py\<close>,
    \<^verbatim>\<open>memory.py\<close>, \<^verbatim>\<open>null.py\<close>, \<^verbatim>\<open>callback.py\<close>, \<^verbatim>\<open>stdout.py\<close>): trees of sinks; no loss in
    them is silent, and what a transform forwards is strict JSON.
  \<^item> \<^verbatim>\<open>Diag\<close> (\<^verbatim>\<open>_diag.py\<close>, \<^verbatim>\<open>console.py\<close>): one diagnostic is one printable line.

  \<^bold>\<open>Conventions.\<close> State is a record that operations return updated; what may raise returns
  \<^typ>\<open>'a result\<close>; loops are structural recursions, or \<^verbatim>\<open>fun\<close> with a measure. Loops over attempts take
  the number of attempts as their argument, as the sources do. Clocks, random bytes, the interpreter's
  settings, services, drivers, networks and streams are arguments; where a theorem needs what a service documents (SQS
  names only entries of the request as failed), that is a named hypothesis (\<open>honest\<close>) with a witness.
  Waiting itself is not modelled: a pause is the call that is made.

  \<^bold>\<open>Not modelled.\<close> The NATS sink (\<^verbatim>\<open>sinks/nats.py\<close>), whose behaviour is that of tasks on an event loop
  of its own; the exception classes built at run time by \<^verbatim>\<open>sinks/_driver_error.py\<close>; the constructors of
  the database and broker sinks and of the HTTP destinations, which build clients and join arguments;
  the asynchronous wrapper of the decorator; the texts of log messages other than those of
  \<^verbatim>\<open>Diag\<close> and the refusals of \<^verbatim>\<open>Http_Checks\<close>: a diagnostic is a count. The modules
  \<^verbatim>\<open>__init__.py\<close> only re-export, and the scripts of the repository are no part of the library.
\<close>

end
